(* ===== verification/Prelude.thy ===== *)
theory Prelude
  imports
    Main
    "HOL-Library.Word"
    "HOL-Library.List_Lexorder"
    "HOL-Library.Char_ord"
    "HOL-Library.AList"
begin

text \<open>
  Shared vocabulary of the development: the machine integers of the Go code, its error
  values, the result type of a fallible function, Go's \<open>sort.Search\<close>, and the generic
  facts about words, lists and association lists that the component theories use.
\<close>

section \<open>Machine integers\<close>

text \<open>
  Go's \<open>uint64\<close> is a 64-bit word: addition and subtraction wrap. Go's \<open>int64\<close> is
  an integer in two's complement range; \<open>int64\<close> wraps a mathematical integer to it.
\<close>

type_synonym u64 = "64 word"

definition int64 :: "int \<Rightarrow> int" where
  "int64 x = signed_take_bit 63 x"

named_theorems u64_arith \<open>facts that move 64-bit arithmetic to the natural numbers\<close>

lemma int64_id: "- (2 ^ 63) \<le> x \<Longrightarrow> x < 2 ^ 63 \<Longrightarrow> int64 x = x"
  by (simp add: int64_def signed_take_bit_int_eq_self)

lemma unat_less_64 [simp, intro]: "unat (x :: u64) < 18446744073709551616"
  using unsigned_less [of x] by simp

lemma unat_le_64 [simp, intro]: "unat (x :: u64) \<le> 18446744073709551615"
  using unat_less_64 [of x] by linarith

lemma unat_max_u64 [simp]: "unat (- 1 :: u64) = 18446744073709551615"
  by (simp add: unsigned_minus_1_eq_mask mask_eq_exp_minus_1)

lemma unat_of_nat_u64 [u64_arith]:
  "n < 18446744073709551616 \<Longrightarrow> unat (of_nat n :: u64) = n"
  by (simp add: unat_of_nat)

lemma of_nat_unat_u64 [simp]: "of_nat (unat (x :: u64)) = x"
  by simp

lemma unat_add_u64 [u64_arith]:
  "unat x + unat y < 18446744073709551616 \<Longrightarrow> unat (x + y :: u64) = unat x + unat y"
  by (simp add: unat_word_ariths)

lemma unat_sub_u64 [u64_arith]:
  "y \<le> x \<Longrightarrow> unat (x - y :: u64) = unat x - unat y"
  by (rule unat_sub)

lemma unat_suc_u64 [u64_arith]:
  "x \<noteq> - 1 \<Longrightarrow> unat (x + 1 :: u64) = Suc (unat x)"
  using unatSuc [of x] by (metis add.commute add_eq_0_iff2)

lemmas u64_le = word_le_nat_alt [where ?'a = 64]
lemmas u64_less = word_less_nat_alt [where ?'a = 64]

lemma u64_eq_iff: "(x :: u64) = y \<longleftrightarrow> unat x = unat y"
  by (rule word_unat_eq_iff)

section \<open>Errors and results\<close>

text \<open>
  Go's error values. The named constructors are the sentinels that the code compares with
  \<open>errors.Is\<close>; every other error is its message, for the reader only: no branch of the code
  reads it. \<open>fmt.Errorf\<close> with \<open>%w\<close> keeps the wrapped error visible to
  \<open>errors.Is\<close>, which is \<open>WrapErr\<close>. \<open>Diverges\<close> is no Go error: it marks the
  inputs on which a loop of the code never ends.
\<close>

datatype goerr =
    ErrMsg string
  | WrapErr string goerr
  | IoEOF
  | IoErrUnexpectedEOF
  | OsErrNotExist
  | OsErrClosed
  | ErrBufferFull
  | ErrNoSuchMessage
  | ErrDailyLimit
  | ErrMaintenanceBusy
  | ErrGitTimeout
  | ErrMessageTooLarge
  | ErrDataLineTooLong
  | ErrCommandTooLong
  | ErrContext
  | Diverges

type_synonym 'a res = "goerr + 'a"

primrec errors_is :: "goerr \<Rightarrow> goerr \<Rightarrow> bool" where
  "errors_is (WrapErr m e) t = (WrapErr m e = t \<or> errors_is e t)"
| "errors_is (ErrMsg m) t = (ErrMsg m = t)"
| "errors_is IoEOF t = (t = IoEOF)"
| "errors_is IoErrUnexpectedEOF t = (t = IoErrUnexpectedEOF)"
| "errors_is OsErrNotExist t = (t = OsErrNotExist)"
| "errors_is OsErrClosed t = (t = OsErrClosed)"
| "errors_is ErrBufferFull t = (t = ErrBufferFull)"
| "errors_is ErrNoSuchMessage t = (t = ErrNoSuchMessage)"
| "errors_is ErrDailyLimit t = (t = ErrDailyLimit)"
| "errors_is ErrMaintenanceBusy t = (t = ErrMaintenanceBusy)"
| "errors_is ErrGitTimeout t = (t = ErrGitTimeout)"
| "errors_is ErrMessageTooLarge t = (t = ErrMessageTooLarge)"
| "errors_is ErrDataLineTooLong t = (t = ErrDataLineTooLong)"
| "errors_is ErrCommandTooLong t = (t = ErrCommandTooLong)"
| "errors_is ErrContext t = (t = ErrContext)"
| "errors_is Diverges t = (t = Diverges)"

lemma errors_is_refl [simp]: "errors_is e e"
  by (cases e) simp_all

text \<open>A step of a function that returns early on an error, and a loop of such steps.\<close>

definition bind_res :: "'a res \<Rightarrow> ('a \<Rightarrow> 'b res) \<Rightarrow> 'b res" where
  "bind_res r f = (case r of Inl e \<Rightarrow> Inl e | Inr x \<Rightarrow> f x)"

lemma bind_res_simps [simp]:
  "bind_res (Inl e) f = Inl e"
  "bind_res (Inr x) f = f x"
  by (simp_all add: bind_res_def)

lemma bind_res_Inr:
  "bind_res r f = Inr y \<longleftrightarrow> (\<exists>x. r = Inr x \<and> f x = Inr y)"
  by (cases r) simp_all

lemma bind_res_Inl:
  "bind_res r f = Inl e \<longleftrightarrow> r = Inl e \<or> (\<exists>x. r = Inr x \<and> f x = Inl e)"
  by (cases r) simp_all

fun map_res :: "('a \<Rightarrow> 'b res) \<Rightarrow> 'a list \<Rightarrow> 'b list res" where
  "map_res f [] = Inr []"
| "map_res f (x # xs) = bind_res (f x) (\<lambda>y. bind_res (map_res f xs) (\<lambda>ys. Inr (y # ys)))"

lemma map_res_Inr_iff:
  "map_res f xs = Inr ys \<longleftrightarrow> list_all2 (\<lambda>x y. f x = Inr y) xs ys"
  by (induction xs arbitrary: ys) (auto simp: bind_res_Inr list_all2_Cons1)

lemma map_res_map:
  "(\<And>x. x \<in> set xs \<Longrightarrow> f x = Inr (g x)) \<Longrightarrow> map_res f xs = Inr (map g xs)"
  by (induction xs) auto

section \<open>Binary search: Go's \<open>sort.Search\<close>\<close>

text \<open>The standard library's loop: the least index of \<open>[i, j)\<close> at which \<open>f\<close> holds, else \<open>j\<close>.\<close>

function search_range :: "(nat \<Rightarrow> bool) \<Rightarrow> nat \<Rightarrow> nat \<Rightarrow> nat" where
  "search_range f i j =
     (if i < j
      then (let h = (i + j) div 2 in if \<not> f h then search_range f (Suc h) j else search_range f i h)
      else i)"
  by pat_completeness auto
termination
  by (relation "measure (\<lambda>(f, i, j). j - i)") (auto simp: Let_def)

declare search_range.simps [simp del]

definition sort_search :: "nat \<Rightarrow> (nat \<Rightarrow> bool) \<Rightarrow> nat" where
  "sort_search n f = search_range f 0 n"

lemma search_range_spec:
  assumes "i \<le> j" and "\<forall>a b. a \<le> b \<and> b < j \<and> f a \<longrightarrow> f b"
  shows "i \<le> search_range f i j \<and> search_range f i j \<le> j \<and>
    (search_range f i j < j \<longrightarrow> f (search_range f i j)) \<and>
    (\<forall>k. i \<le> k \<and> k < search_range f i j \<longrightarrow> \<not> f k)"
  using assms
proof (induction f i j rule: search_range.induct)
  case (1 f i j)
  show ?case
  proof (cases "i < j")
    case False
    then have "search_range f i j = i" by (simp add: search_range.simps [of f i j])
    moreover have "i = j" using False "1.prems"(1) by simp
    ultimately have "search_range f i j = i" and "i = j" by simp_all
    then show ?thesis by auto
  next
    case True
    let ?h = "(i + j) div 2"
    have h: "i \<le> ?h" "?h < j" using True by auto
    show ?thesis
    proof (cases "f ?h")
      case False
      have "Suc ?h \<le> j" using h by simp
      note IH = "1.IH"(1) [OF True refl False this "1.prems"(2)]
      have low: "\<not> f k" if "k \<le> ?h" for k
        using "1.prems"(2) that h(2) False by blast
      have "search_range f i j = search_range f (Suc ?h) j"
        using True False by (simp add: search_range.simps [of f i j] Let_def)
      moreover have "\<not> f k" if "k < search_range f (Suc ?h) j" for k
        using IH low that by (cases "k \<le> ?h") auto
      ultimately show ?thesis using IH h by simp
    next
      case fh: True
      have "\<forall>a b. a \<le> b \<and> b < ?h \<and> f a \<longrightarrow> f b"
        using "1.prems"(2) h(2) by (meson order_less_trans)
      note IH = "1.IH"(2) [OF True refl _ h(1) this]
      have "search_range f i j = search_range f i ?h"
        using True fh by (simp add: search_range.simps [of f i j] Let_def)
      then show ?thesis using IH h fh by (cases "search_range f i ?h < ?h") auto
    qed
  qed
qed

lemma sort_search_eqI:
  assumes "\<And>a b. a \<le> b \<Longrightarrow> b < n \<Longrightarrow> f a \<Longrightarrow> f b"
    and "k \<le> n" and "k < n \<Longrightarrow> f k" and "\<And>i. i < k \<Longrightarrow> \<not> f i"
  shows "sort_search n f = k"
proof -
  let ?s = "sort_search n f"
  have "\<forall>a b. a \<le> b \<and> b < n \<and> f a \<longrightarrow> f b" using assms(1) by blast
  from search_range_spec [OF _ this, of 0]
  have s: "?s \<le> n" "?s < n \<longrightarrow> f ?s" "\<forall>i < ?s. \<not> f i"
    by (auto simp: sort_search_def)
  show ?thesis
    using s assms(2-4) by (metis linorder_neqE_nat order_less_le_trans)
qed

end
