(* ===== verification/Go_Strings.thy ===== *)
theory Go_Strings
  imports Prelude
begin

text \<open>
  The functions of Go's \<open>strings\<close>, \<open>bytes\<close>, \<open>strconv\<close> and
  \<open>path/filepath\<close> packages that picomx calls, on byte strings. A Go string is a sequence of
  bytes and so is a HOL \<open>string\<close>: a character is a byte, and a rune beyond ASCII is its
  UTF-8 encoding. Case mapping and white space follow Go's Unicode tables as far as they can
  be observed here: the runes beyond ASCII that map to an ASCII letter and the runes that are
  white space are written out, every other rune beyond ASCII is left as it is. (Go would map
  such a rune to another rune beyond ASCII; the callers compare the result with ASCII text or
  reject everything beyond ASCII, so they cannot tell the two apart.) UTF-8 is
  self-synchronising, so a byte-wise search for those encodings finds exactly the runes.
\<close>

section \<open>Searching and cutting\<close>

definition has_prefix :: "string \<Rightarrow> string \<Rightarrow> bool" where
  "has_prefix s p \<longleftrightarrow> take (length p) s = p"

definition has_suffix :: "string \<Rightarrow> string \<Rightarrow> bool" where
  "has_suffix s q \<longleftrightarrow> length q \<le> length s \<and> drop (length s - length q) s = q"

definition trim_suffix :: "string \<Rightarrow> string \<Rightarrow> string" where
  "trim_suffix s q = (if has_suffix s q then take (length s - length q) s else s)"

definition cut :: "string \<Rightarrow> char \<Rightarrow> string \<times> string \<times> bool" where
  "cut s c =
     (if c \<in> set s then (takeWhile (\<lambda>d. d \<noteq> c) s, tl (dropWhile (\<lambda>d. d \<noteq> c) s), True)
      else (s, [], False))"

fun split_on :: "char \<Rightarrow> string \<Rightarrow> string list" where
  "split_on c [] = [[]]"
| "split_on c (x # xs) =
     (if x = c then [] # split_on c xs
      else (case split_on c xs of [] \<Rightarrow> [[x]] | y # ys \<Rightarrow> (x # y) # ys))"

fun join :: "string \<Rightarrow> string list \<Rightarrow> string" where
  "join sep [] = []"
| "join sep [x] = x"
| "join sep (x # y # ys) = x @ sep @ join sep (y # ys)"

fun index_byte :: "string \<Rightarrow> char \<Rightarrow> nat option" where
  "index_byte [] c = None"
| "index_byte (x # xs) c = (if x = c then Some 0 else map_option Suc (index_byte xs c))"

fun last_index :: "string \<Rightarrow> string \<Rightarrow> nat option" where
  "last_index [] q = (if q = [] then Some 0 else None)"
| "last_index (x # xs) q =
     (case last_index xs q of
        Some i \<Rightarrow> Some (Suc i)
      | None \<Rightarrow> if has_prefix (x # xs) q then Some 0 else None)"

fun contains :: "string \<Rightarrow> string \<Rightarrow> bool" where
  "contains [] q = (q = [])"
| "contains (x # xs) q = (has_prefix (x # xs) q \<or> contains xs q)"

definition contains_any :: "string \<Rightarrow> string \<Rightarrow> bool" where
  "contains_any s cs = list_ex (\<lambda>c. List.member cs c) s"

subsection \<open>Facts\<close>

lemma has_prefix_iff: "has_prefix s p \<longleftrightarrow> (\<exists>t. s = p @ t)"
  by (metis append_eq_conv_conj append_take_drop_id has_prefix_def)

lemma has_prefix_append [simp]: "has_prefix (p @ s) p"
  by (simp add: has_prefix_def)

lemma has_suffix_iff: "has_suffix s q \<longleftrightarrow> (\<exists>t. s = t @ q)"
  by (metis append_eq_conv_conj append_take_drop_id diff_add_inverse2 drop_eq_Nil has_suffix_def
      length_append length_drop diff_diff_cancel le_add2)

lemma has_suffix_append [simp]: "has_suffix (t @ q) q"
  by (auto simp: has_suffix_iff)

lemma trim_suffix_append [simp]: "trim_suffix (t @ q) q = t"
  by (simp add: trim_suffix_def)

lemma trim_suffix_no [simp]: "\<not> has_suffix s q \<Longrightarrow> trim_suffix s q = s"
  by (simp add: trim_suffix_def)

lemma trim_suffix_cases:
  obtains "s = trim_suffix s q @ q" | "trim_suffix s q = s" "\<not> has_suffix s q"
  by (metis has_suffix_iff trim_suffix_append trim_suffix_no)

lemma set_trim_suffix: "set (trim_suffix s q) \<subseteq> set s"
  by (auto simp: trim_suffix_def dest: in_set_takeD)

lemma length_trim_suffix_le: "length (trim_suffix s q) \<le> length s"
  by (simp add: trim_suffix_def)

lemma cut_append [simp]: "c \<notin> set a \<Longrightarrow> cut (a @ c # b) c = (a, b, True)"
  by (induction a) (auto simp: cut_def)

lemma cut_absent [simp]: "c \<notin> set s \<Longrightarrow> cut s c = (s, [], False)"
  by (simp add: cut_def)

lemma cut_found:
  assumes "cut s c = (a, b, True)"
  shows "s = a @ c # b" and "c \<notin> set a"
proof -
  from assms have c: "c \<in> set s" and a: "a = takeWhile (\<lambda>d. d \<noteq> c) s"
    and b: "b = tl (dropWhile (\<lambda>d. d \<noteq> c) s)"
    by (auto simp: cut_def split: if_splits)
  from c obtain u v where s: "s = u @ c # v" "c \<notin> set u"
    by (meson split_list_first)
  then have "cut s c = (u, v, True)" by simp
  with assms s show "s = a @ c # b" and "c \<notin> set a" by auto
qed

lemma cut_cases:
  obtains a b where "cut s c = (a, b, True)" "s = a @ c # b" "c \<notin> set a"
  | "cut s c = (s, [], False)" "c \<notin> set s"
  by (metis cut_absent cut_append split_list_first)

lemma split_on_not_Nil [simp]: "split_on c s \<noteq> []"
  by (cases s) (auto split: list.splits)

lemma split_on_absent: "c \<notin> set s \<Longrightarrow> split_on c s = [s]"
  by (induction s) auto

lemma split_on_append_sep: "c \<notin> set a \<Longrightarrow> split_on c (a @ c # s) = a # split_on c s"
  by (induction a) auto

lemma split_on_no_sep: "p \<in> set (split_on c s) \<Longrightarrow> c \<notin> set p"
  by (induction s arbitrary: p) (auto split: if_splits list.splits)

lemma join_Cons: "ps \<noteq> [] \<Longrightarrow> join sep (p # ps) = p @ sep @ join sep ps"
  by (cases ps) simp_all

lemma join_split_on [simp]: "join [c] (split_on c s) = s"
proof (induction s)
  case (Cons x xs)
  obtain y ys where "split_on c xs = y # ys" by (cases "split_on c xs") simp_all
  with Cons show ?case by (cases ys) auto
qed simp

lemma split_on_join:
  "ps \<noteq> [] \<Longrightarrow> (\<And>p. p \<in> set ps \<Longrightarrow> c \<notin> set p) \<Longrightarrow> split_on c (join [c] ps) = ps"
proof (induction ps rule: induct_list012)
  case (3 x y zs)
  then have "split_on c (x @ c # join [c] (y # zs)) = x # split_on c (join [c] (y # zs))"
    by (intro split_on_append_sep) simp
  with 3 show ?case by simp
qed (simp_all add: split_on_absent)

lemma set_join: "x \<in> set (join sep ps) \<Longrightarrow> x \<in> set sep \<or> (\<exists>p \<in> set ps. x \<in> set p)"
  by (induction ps rule: induct_list012) auto

lemma split_on_append:
  "split_on c (a @ b) =
     butlast (split_on c a) @ (last (split_on c a) @ hd (split_on c b)) # tl (split_on c b)"
proof (induction a)
  case Nil
  then show ?case by (cases "split_on c b") simp_all
next
  case (Cons x xs)
  obtain y ys where "split_on c xs = y # ys" by (cases "split_on c xs") simp_all
  with Cons show ?case by (cases ys) auto
qed

lemma index_byte_None: "index_byte s c = None \<longleftrightarrow> c \<notin> set s"
  by (induction s) auto

lemma index_byte_Some:
  "index_byte s c = Some i \<longleftrightarrow> i < length s \<and> s ! i = c \<and> c \<notin> set (take i s)"
proof (induction s arbitrary: i)
  case (Cons x xs)
  then show ?case by (cases i) auto
qed simp

lemma index_byte_append [simp]: "c \<notin> set a \<Longrightarrow> index_byte (a @ c # b) c = Some (length a)"
  by (induction a) auto

lemma last_index_unique:
  assumes "q = x # q'" and "x \<notin> set q'" and "x \<notin> set b"
  shows "last_index (a @ q @ b) q = Some (length a)"
proof -
  have none: "last_index s q = None" if "x \<notin> set s" for s
    using that assms(1) by (induction s) (auto simp: has_prefix_def)
  have tail: "last_index (q' @ b) q = None"
    using assms(2,3) by (intro none) simp
  show ?thesis
  proof (induction a)
    case Nil
    have "has_prefix (x # q' @ b) q" using assms(1) by (simp add: has_prefix_def)
    with tail assms(1) show ?case by simp
  qed simp
qed

lemma last_index_SomeD:
  "last_index s q = Some i \<Longrightarrow> i \<le> length s \<and> (\<exists>b. s = take i s @ q @ b)"
proof (induction s arbitrary: i)
  case (Cons x xs)
  show ?case
  proof (cases "last_index xs q")
    case None
    with Cons.prems show ?thesis by (auto simp: has_prefix_iff split: if_splits)
  next
    case (Some j)
    with Cons.prems have "i = Suc j" by simp
    with Cons.IH [OF Some] show ?thesis by auto
  qed
qed (auto split: if_splits)

section \<open>Case mapping and white space\<close>

abbreviation code :: "char \<Rightarrow> nat" where
  "code c \<equiv> of_char c"

definition ascii_upper :: "char \<Rightarrow> char" where
  "ascii_upper c = (if 97 \<le> code c \<and> code c \<le> 122 then char_of (code c - 32) else c)"

definition ascii_lower :: "char \<Rightarrow> char" where
  "ascii_lower c = (if 65 \<le> code c \<and> code c \<le> 90 then char_of (code c + 32) else c)"

text \<open>Map the runes listed in a table to ASCII, every other byte by \<open>f\<close>.\<close>

fun rune_map :: "(string \<times> char) list \<Rightarrow> (char \<Rightarrow> char) \<Rightarrow> string \<Rightarrow> string" where
  "rune_map tbl f [] = []"
| "rune_map tbl f (c # s) =
     (case find (\<lambda>(q, _). has_prefix (c # s) q) tbl of
        Some (q, a) \<Rightarrow> a # rune_map tbl f (drop (length q - 1) s)
      | None \<Rightarrow> f c # rune_map tbl f s)"

text \<open>U+017F and U+0131 have the upper case letters S and I.\<close>

definition upper_runes :: "(string \<times> char) list" where
  "upper_runes = [([CHR 0xC5, CHR 0xBF], CHR ''S''), ([CHR 0xC4, CHR 0xB1], CHR ''I'')]"

text \<open>U+212A and U+0130 have the lower case letters k and i.\<close>

definition lower_runes :: "(string \<times> char) list" where
  "lower_runes = [([CHR 0xE2, CHR 0x84, CHR 0xAA], CHR ''k''), ([CHR 0xC4, CHR 0xB0], CHR ''i'')]"

text \<open>U+212A folds with k and U+017F with s.\<close>

definition fold_runes :: "(string \<times> char) list" where
  "fold_runes = [([CHR 0xE2, CHR 0x84, CHR 0xAA], CHR ''k''), ([CHR 0xC5, CHR 0xBF], CHR ''s'')]"

definition to_upper :: "string \<Rightarrow> string" where
  "to_upper s = rune_map upper_runes ascii_upper s"

definition to_lower :: "string \<Rightarrow> string" where
  "to_lower s = rune_map lower_runes ascii_lower s"

definition equal_fold :: "string \<Rightarrow> string \<Rightarrow> bool" where
  "equal_fold s t \<longleftrightarrow> rune_map fold_runes ascii_lower s = rune_map fold_runes ascii_lower t"

text \<open>The white space of \<open>unicode.IsSpace\<close>, as byte strings.\<close>

definition space_seqs :: "string list" where
  "space_seqs =
     [[CHR 0x20], [CHR 0x09], [CHR 0x0A], [CHR 0x0B], [CHR 0x0C], [CHR 0x0D],
      [CHR 0xC2, CHR 0x85], [CHR 0xC2, CHR 0xA0], [CHR 0xE1, CHR 0x9A, CHR 0x80],
      [CHR 0xE2, CHR 0x80, CHR 0x80], [CHR 0xE2, CHR 0x80, CHR 0x81],
      [CHR 0xE2, CHR 0x80, CHR 0x82], [CHR 0xE2, CHR 0x80, CHR 0x83],
      [CHR 0xE2, CHR 0x80, CHR 0x84], [CHR 0xE2, CHR 0x80, CHR 0x85],
      [CHR 0xE2, CHR 0x80, CHR 0x86], [CHR 0xE2, CHR 0x80, CHR 0x87],
      [CHR 0xE2, CHR 0x80, CHR 0x88], [CHR 0xE2, CHR 0x80, CHR 0x89],
      [CHR 0xE2, CHR 0x80, CHR 0x8A], [CHR 0xE2, CHR 0x80, CHR 0xA8],
      [CHR 0xE2, CHR 0x80, CHR 0xA9], [CHR 0xE2, CHR 0x80, CHR 0xAF],
      [CHR 0xE2, CHR 0x81, CHR 0x9F], [CHR 0xE3, CHR 0x80, CHR 0x80]]"

fun trim_seqs :: "string list \<Rightarrow> string \<Rightarrow> string" where
  "trim_seqs qs [] = []"
| "trim_seqs qs (c # s) =
     (case find (has_prefix (c # s)) qs of
        Some q \<Rightarrow> trim_seqs qs (drop (length q - 1) s)
      | None \<Rightarrow> c # s)"

definition trim_space :: "string \<Rightarrow> string" where
  "trim_space s = rev (trim_seqs (map rev space_seqs) (rev (trim_seqs space_seqs s)))"

text \<open>\<open>strings.Fields\<close>, with the current field in reverse.\<close>

fun fields_from :: "string \<Rightarrow> string \<Rightarrow> string list" where
  "fields_from cur [] = (if cur = [] then [] else [rev cur])"
| "fields_from cur (c # s) =
     (case find (has_prefix (c # s)) space_seqs of
        Some q \<Rightarrow> (if cur = [] then [] else [rev cur]) @ fields_from [] (drop (length q - 1) s)
      | None \<Rightarrow> fields_from (c # cur) s)"

definition fields :: "string \<Rightarrow> string list" where
  "fields s = fields_from [] s"

subsection \<open>Facts\<close>

lemma trim_seqs_suffix: "\<exists>a. s = a @ trim_seqs qs s"
proof (induction qs s rule: trim_seqs.induct)
  case (2 qs c s)
  show ?case
  proof (cases "find (has_prefix (c # s)) qs")
    case (Some q)
    then obtain a where "drop (length q - 1) s = a @ trim_seqs qs (drop (length q - 1) s)"
      using 2 by blast
    then have "c # s = (c # take (length q - 1) s @ a) @ trim_seqs qs (drop (length q - 1) s)"
      by (metis append_Cons append_assoc append_take_drop_id)
    moreover have "trim_seqs qs (c # s) = trim_seqs qs (drop (length q - 1) s)"
      using Some by simp
    ultimately show ?thesis by metis
  qed simp
qed simp

lemma trim_space_infix: "\<exists>a b. s = a @ trim_space s @ b"
proof -
  obtain a where a: "s = a @ trim_seqs space_seqs s" using trim_seqs_suffix by blast
  obtain b where "rev (trim_seqs space_seqs s) = b @ trim_seqs (map rev space_seqs) (rev (trim_seqs space_seqs s))"
    using trim_seqs_suffix by blast
  then have "trim_seqs space_seqs s = trim_space s @ rev b"
    by (metis rev_append rev_rev_ident trim_space_def)
  with a show ?thesis by metis
qed

lemma set_trim_space: "set (trim_space s) \<subseteq> set s"
  using trim_space_infix [of s] by (metis Un_commute le_sup_iff set_append sup.cobounded1 sup.cobounded2)

lemma length_trim_space_le: "length (trim_space s) \<le> length s"
  using trim_space_infix [of s] by (metis length_append le_add1 le_add2 order.trans)

text \<open>The bytes that begin or end a white space rune.\<close>

definition space_edge :: "char \<Rightarrow> bool" where
  "space_edge c \<longleftrightarrow> code c \<le> 32 \<or> 128 \<le> code c"

lemma space_seqs_edges:
  "q \<in> set space_seqs \<Longrightarrow> q \<noteq> [] \<and> space_edge (hd q) \<and> space_edge (last q)"
  by (auto simp: space_seqs_def space_edge_def)

lemma find_space_None:
  "\<not> space_edge c \<Longrightarrow> find (has_prefix (c # s)) space_seqs = None"
  unfolding find_None_iff has_prefix_iff
  by (metis space_seqs_edges append_Cons hd_append2 list.sel(1))

lemma find_rspace_None:
  "\<not> space_edge c \<Longrightarrow> find (has_prefix (c # s)) (map rev space_seqs) = None"
  unfolding find_None_iff has_prefix_iff
  by (auto dest!: space_seqs_edges) (metis append_Cons hd_append2 hd_rev list.sel(1) rev_is_Nil_conv)

lemma trim_space_id:
  assumes "s = [] \<or> \<not> space_edge (hd s) \<and> \<not> space_edge (last s)"
  shows "trim_space s = s"
proof (cases s)
  case (Cons c t)
  with assms have l: "trim_seqs space_seqs s = s" by (simp add: find_space_None)
  obtain d u where r: "rev s = d # u" using Cons by (cases "rev s") auto
  then have "d = last s" using Cons by (metis hd_rev list.sel(1))
  with assms Cons have "\<not> space_edge d" by simp
  then have "trim_seqs (map rev space_seqs) (d # u) = d # u"
    by (simp add: find_rspace_None)
  with l r show ?thesis by (simp add: trim_space_def flip: r)
qed (simp add: trim_space_def)

lemma trim_seqs_stop:
  "trim_seqs qs s = [] \<or> find (has_prefix (trim_seqs qs s)) qs = None"
  by (induction qs s rule: trim_seqs.induct) (auto split: option.splits)

lemma trim_seqs_fixed: "s = [] \<or> find (has_prefix s) qs = None \<Longrightarrow> trim_seqs qs s = s"
  by (cases s) auto

lemma trim_space_idem [simp]: "trim_space (trim_space s) = trim_space s"
proof -
  let ?l = "trim_seqs space_seqs s"
  let ?r = "trim_seqs (map rev space_seqs) (rev ?l)"
  obtain a where "rev ?l = a @ ?r" using trim_seqs_suffix by blast
  then have l: "?l = rev ?r @ rev a" by (metis rev_append rev_rev_ident)
  have "rev ?r = [] \<or> find (has_prefix (rev ?r)) space_seqs = None"
  proof (cases "?l = []")
    case False
    then have none: "find (has_prefix ?l) space_seqs = None" using trim_seqs_stop by blast
    have "has_prefix ?l q" if "has_prefix (rev ?r) q" for q
      using that l unfolding has_prefix_iff by (metis append_assoc)
    with none show ?thesis by (auto simp: find_None_iff)
  qed (use l in simp)
  then have "trim_seqs space_seqs (rev ?r) = rev ?r" by (rule trim_seqs_fixed)
  moreover have "trim_seqs (map rev space_seqs) ?r = ?r"
    by (rule trim_seqs_fixed, rule trim_seqs_stop)
  ultimately show ?thesis by (simp add: trim_space_def)
qed

lemma rune_map_ascii:
  assumes "\<And>c. c \<in> set s \<Longrightarrow> code c < 128" and "\<And>q a. (q, a) \<in> set tbl \<Longrightarrow> q \<noteq> [] \<and> 128 \<le> code (hd q)"
  shows "rune_map tbl f s = map f s"
  using assms
proof (induction tbl f s rule: rune_map.induct)
  case (2 tbl f c s)
  have "find (\<lambda>(q, _). has_prefix (c # s) q) tbl = None"
  proof -
    have "\<not> has_prefix (c # s) q" if "(q, a) \<in> set tbl" for q a
    proof
      assume "has_prefix (c # s) q"
      then obtain t where "c # s = q @ t" by (auto simp: has_prefix_iff)
      moreover have "q \<noteq> [] \<and> 128 \<le> code (hd q)" using that "2.prems"(2) by blast
      ultimately have "128 \<le> code c" by (cases q) auto
      moreover have "code c < 128" using "2.prems"(1) by simp
      ultimately show False by simp
    qed
    then show ?thesis by (auto simp: find_None_iff)
  qed
  with 2 show ?case by simp
qed simp

lemma rune_tables_high:
  "(q, a) \<in> set upper_runes \<Longrightarrow> q \<noteq> [] \<and> 128 \<le> code (hd q)"
  "(q, a) \<in> set lower_runes \<Longrightarrow> q \<noteq> [] \<and> 128 \<le> code (hd q)"
  "(q, a) \<in> set fold_runes \<Longrightarrow> q \<noteq> [] \<and> 128 \<le> code (hd q)"
  by (auto simp: upper_runes_def lower_runes_def fold_runes_def)

lemma to_lower_ascii: "(\<And>c. c \<in> set s \<Longrightarrow> code c < 128) \<Longrightarrow> to_lower s = map ascii_lower s"
  unfolding to_lower_def by (rule rune_map_ascii) (auto dest: rune_tables_high)

lemma to_upper_ascii: "(\<And>c. c \<in> set s \<Longrightarrow> code c < 128) \<Longrightarrow> to_upper s = map ascii_upper s"
  unfolding to_upper_def by (rule rune_map_ascii) (auto dest: rune_tables_high)

section \<open>Numbers: \<open>strconv\<close>\<close>

definition digit_char :: "nat \<Rightarrow> char" where
  "digit_char d = (if d < 10 then char_of (48 + d) else char_of (87 + d))"

definition digit_val :: "char \<Rightarrow> nat option" where
  "digit_val c =
     (if 48 \<le> code c \<and> code c \<le> 57 then Some (code c - 48)
      else if 97 \<le> code c \<and> code c \<le> 122 then Some (code c - 87)
      else if 65 \<le> code c \<and> code c \<le> 90 then Some (code c - 55)
      else None)"

text \<open>\<open>FormatUint\<close> and the \<open>%d\<close> and \<open>%x\<close> verbs.\<close>

fun fmt_nat :: "nat \<Rightarrow> nat \<Rightarrow> string" where
  "fmt_nat b n =
     (if n < b \<or> b < 2 then [digit_char n] else fmt_nat b (n div b) @ [digit_char (n mod b)])"

declare fmt_nat.simps [simp del]

definition format_uint :: "u64 \<Rightarrow> nat \<Rightarrow> string" where
  "format_uint n b = fmt_nat b (unat n)"

definition fmt_int :: "int \<Rightarrow> string" where
  "fmt_int i = (if i < 0 then CHR ''-'' # fmt_nat 10 (nat (- i)) else fmt_nat 10 (nat i))"

text \<open>\<open>ParseUint\<close>: \<open>None\<close> is a syntax or range error.\<close>

fun parse_digits :: "nat \<Rightarrow> nat \<Rightarrow> string \<Rightarrow> nat option" where
  "parse_digits b acc [] = Some acc"
| "parse_digits b acc (c # s) =
     (case digit_val c of
        None \<Rightarrow> None
      | Some d \<Rightarrow> if d < b then parse_digits b (acc * b + d) s else None)"

definition parse_uint :: "string \<Rightarrow> nat \<Rightarrow> nat \<Rightarrow> u64 option" where
  "parse_uint s b bits =
     (if s = [] then None
      else case parse_digits b 0 s of
             None \<Rightarrow> None
           | Some v \<Rightarrow> if v < 2 ^ bits then Some (of_nat v) else None)"

text \<open>\<open>ParseInt(s, 10, 64)\<close>, and \<open>Atoi\<close> on a 64-bit platform.\<close>

definition parse_int :: "string \<Rightarrow> int option" where
  "parse_int s =
     (if s = [] then None
      else let neg = (hd s = CHR ''-'');
               rest = (if hd s = CHR ''+'' \<or> neg then tl s else s)
           in case parse_uint rest 10 64 of
                None \<Rightarrow> None
              | Some u \<Rightarrow>
                  if \<not> neg \<and> 2 ^ 63 \<le> unat u then None
                  else if neg \<and> 2 ^ 63 < unat u then None
                  else Some (if neg then - int (unat u) else int (unat u)))"

subsection \<open>Facts\<close>

lemma code_char_of: "n < 256 \<Longrightarrow> code (char_of n) = n"
  by simp

lemma digit_char_values:
  "digit_char 0 = CHR ''0''" "digit_char 1 = CHR ''1''" "digit_char 2 = CHR ''2''" "digit_char 3 = CHR ''3''"
  "digit_char 4 = CHR ''4''" "digit_char 5 = CHR ''5''" "digit_char 6 = CHR ''6''" "digit_char 7 = CHR ''7''"
  "digit_char 8 = CHR ''8''" "digit_char 9 = CHR ''9''"
  by code_simp+

lemma digit_val_digit_char: "d < 36 \<Longrightarrow> digit_val (digit_char d) = Some d"
  by (auto simp: digit_val_def digit_char_def)

lemma digit_char_inj: "d < 36 \<Longrightarrow> e < 36 \<Longrightarrow> digit_char d = digit_char e \<longleftrightarrow> d = e"
  by (metis digit_val_digit_char option.inject)

lemma digit_char_less: "d < 36 \<Longrightarrow> e < 36 \<Longrightarrow> digit_char d < digit_char e \<longleftrightarrow> d < e"
  by (auto simp: digit_char_def less_char_def)

lemma fmt_nat_small: "n < b \<Longrightarrow> fmt_nat b n = [digit_char n]"
  by (subst fmt_nat.simps) simp

lemma fmt_nat_step: "2 \<le> b \<Longrightarrow> b \<le> n \<Longrightarrow> fmt_nat b n = fmt_nat b (n div b) @ [digit_char (n mod b)]"
  by (subst fmt_nat.simps) simp

lemma fmt_nat_not_Nil [simp]: "fmt_nat b n \<noteq> []"
  by (subst fmt_nat.simps) simp

lemma set_fmt_nat: "2 \<le> b \<Longrightarrow> c \<in> set (fmt_nat b n) \<Longrightarrow> \<exists>d < b. c = digit_char d"
proof (induction b n rule: fmt_nat.induct)
  case (1 b n)
  show ?case
  proof (cases "n < b")
    case True
    then show ?thesis using "1.prems" by (auto simp: fmt_nat_small)
  next
    case False
    then have "fmt_nat b n = fmt_nat b (n div b) @ [digit_char (n mod b)]"
      using "1.prems" by (intro fmt_nat_step) auto
    moreover have m: "n mod b < b" using "1.prems" by simp
    moreover have "\<not> (n < b \<or> b < 2)" using "1.prems" False by simp
    ultimately have "c \<in> set (fmt_nat b (n div b)) \<or> c = digit_char (n mod b)"
      using "1.prems" by auto
    then show ?thesis using "1.IH" \<open>\<not> (n < b \<or> b < 2)\<close> "1.prems"(1) m by blast
  qed
qed

lemma parse_digits_append:
  "parse_digits b acc (s @ t) = Option.bind (parse_digits b acc s) (\<lambda>a. parse_digits b a t)"
  by (induction s arbitrary: acc) (auto split: option.splits)

lemma parse_digits_fmt_nat:
  "2 \<le> b \<Longrightarrow> b \<le> 36 \<Longrightarrow> parse_digits b 0 (fmt_nat b n) = Some n"
proof (induction b n rule: fmt_nat.induct)
  case (1 b n)
  show ?case
  proof (cases "n < b")
    case True
    then show ?thesis using "1.prems" by (simp add: fmt_nat_small digit_val_digit_char)
  next
    case False
    have m: "n mod b < b" using "1.prems" by simp
    have dv: "digit_val (digit_char (n mod b)) = Some (n mod b)"
      by (rule digit_val_digit_char) (use m "1.prems" in linarith)
    have "fmt_nat b n = fmt_nat b (n div b) @ [digit_char (n mod b)]"
      using "1.prems" False by (intro fmt_nat_step) auto
    moreover have "parse_digits b 0 (fmt_nat b (n div b)) = Some (n div b)"
      using 1 False by auto
    ultimately show ?thesis
      using m dv by (simp add: parse_digits_append)
  qed
qed

lemma fmt_nat_inj: "2 \<le> b \<Longrightarrow> b \<le> 36 \<Longrightarrow> fmt_nat b m = fmt_nat b n \<longleftrightarrow> m = n"
  by (metis parse_digits_fmt_nat option.inject)

lemma parse_uint_fmt_nat:
  "2 \<le> b \<Longrightarrow> b \<le> 36 \<Longrightarrow> n < 2 ^ bits \<Longrightarrow> parse_uint (fmt_nat b n) b bits = Some (of_nat n)"
  by (simp add: parse_uint_def parse_digits_fmt_nat)

lemma parse_uint_format_uint:
  "2 \<le> b \<Longrightarrow> b \<le> 36 \<Longrightarrow> parse_uint (format_uint n b) b 64 = Some n"
  by (simp add: format_uint_def parse_uint_fmt_nat)

lemma parse_uint_bound:
  "parse_uint s b bits = Some v \<Longrightarrow> bits \<le> 64 \<Longrightarrow> unat v < 2 ^ bits"
proof -
  assume "parse_uint s b bits = Some v" and "bits \<le> 64"
  then obtain n where n: "n < 2 ^ bits" "v = of_nat n"
    by (auto simp: parse_uint_def split: if_splits option.splits)
  have "(2 :: nat) ^ bits \<le> 2 ^ 64" using \<open>bits \<le> 64\<close> by (intro power_increasing) auto
  with n have "unat v = n" by (simp add: unat_of_nat_u64)
  with n show ?thesis by simp
qed

lemma parse_int_fmt_nat: "n < 2 ^ 63 \<Longrightarrow> parse_int (fmt_nat 10 n) = Some (int n)"
proof -
  assume n: "n < 2 ^ 63"
  obtain d s where ds: "fmt_nat 10 n = d # s" by (cases "fmt_nat 10 n") auto
  then obtain e where "e < 10" "d = digit_char e" using set_fmt_nat [of 10 d n] by auto
  then have "digit_val d = Some e" by (simp add: digit_val_digit_char)
  then have "d \<noteq> CHR ''-'' \<and> d \<noteq> CHR ''+''" by (auto simp: digit_val_def)
  moreover have "parse_uint (d # s) 10 64 = Some (of_nat n)"
    using n parse_uint_fmt_nat [of 10 n 64] ds by simp
  ultimately show ?thesis
    using n ds by (simp add: parse_int_def unat_of_nat_u64)
qed

section \<open>Paths: \<open>path/filepath\<close>\<close>

text \<open>
  \<open>filepath.Clean\<close> on a slash-separated system, element by element: empty elements and
  \<open>.\<close> vanish, \<open>..\<close> removes the element before it.
\<close>

fun clean_elems :: "bool \<Rightarrow> string list \<Rightarrow> string list \<Rightarrow> string list" where
  "clean_elems rooted acc [] = rev acc"
| "clean_elems rooted acc (e # es) =
     (if e = [] \<or> e = ''.'' then clean_elems rooted acc es
      else if e = ''..'' then
        (case acc of
           a # acc' \<Rightarrow>
             if a = ''..'' then clean_elems rooted (e # acc) es else clean_elems rooted acc' es
         | [] \<Rightarrow> clean_elems rooted (if rooted then [] else [e]) es)
      else clean_elems rooted (e # acc) es)"

definition path_clean :: "string \<Rightarrow> string" where
  "path_clean p =
     (let rooted = has_prefix p ''/'';
          q = (if rooted then ''/'' else []) @ join ''/'' (clean_elems rooted [] (split_on CHR ''/'' p))
      in if q = [] then ''.'' else q)"

definition path_join :: "string list \<Rightarrow> string" where
  "path_join ps =
     (let qs = filter (\<lambda>p. p \<noteq> []) ps in if qs = [] then [] else path_clean (join ''/'' qs))"

text \<open>The part before the last slash, cleaned; \<open>.\<close> when there is no slash.\<close>

definition path_dir :: "string \<Rightarrow> string" where
  "path_dir p = path_clean (case last_index p ''/'' of None \<Rightarrow> [] | Some i \<Rightarrow> take (Suc i) p)"

text \<open>A path element that cleaning leaves alone.\<close>

definition plain_elem :: "string \<Rightarrow> bool" where
  "plain_elem e \<longleftrightarrow> e \<noteq> [] \<and> e \<noteq> ''.'' \<and> e \<noteq> ''..'' \<and> CHR ''/'' \<notin> set e"

lemma clean_elems_plain:
  "(\<And>e. e \<in> set es \<Longrightarrow> plain_elem e) \<Longrightarrow> clean_elems r acc es = rev acc @ es"
  by (induction es arbitrary: acc) (auto simp: plain_elem_def)

lemma clean_elems_append_Nil: "clean_elems r acc (es @ [[]]) = clean_elems r acc es"
  by (induction r acc es rule: clean_elems.induct) (auto split: list.splits)

lemma join_plain_hd:
  assumes "es \<noteq> []" and "\<And>e. e \<in> set es \<Longrightarrow> plain_elem e"
  shows "join ''/'' es \<noteq> [] \<and> hd (join ''/'' es) \<noteq> CHR ''/''"
proof (cases es)
  case (Cons e fs)
  with assms(2) have "e \<noteq> []" and "CHR ''/'' \<notin> set e" by (auto simp: plain_elem_def)
  then obtain c d where "e = c # d" and "c \<noteq> CHR ''/''" by (cases e) auto
  with Cons show ?thesis by (cases fs) auto
qed (use assms in simp)

lemma path_clean_plain:
  assumes "es \<noteq> []" and "\<And>e. e \<in> set es \<Longrightarrow> plain_elem e"
  shows "path_clean (join ''/'' es) = join ''/'' es"
    and "path_clean (join ''/'' es @ ''/'') = join ''/'' es"
proof -
  note h = join_plain_hd [OF assms]
  have split: "split_on CHR ''/'' (join ''/'' es) = es"
    using assms by (intro split_on_join) (auto simp: plain_elem_def)
  have noroot: "\<not> has_prefix (join ''/'' es @ t) ''/''" for t
    using h by (cases "join ''/'' es") (auto simp: has_prefix_def)
  show "path_clean (join ''/'' es) = join ''/'' es"
    using h noroot [of "[]"] split assms by (simp add: path_clean_def clean_elems_plain)
  have "split_on CHR ''/'' (join ''/'' es @ ''/'') = es @ [[]]"
    using split assms(1) by (simp add: split_on_append)
  then show "path_clean (join ''/'' es @ ''/'') = join ''/'' es"
    using h noroot [of "''/''"] assms
    by (simp add: path_clean_def clean_elems_append_Nil clean_elems_plain)
qed

lemma path_join_plain:
  assumes "es \<noteq> []" and "\<And>e. e \<in> set es \<Longrightarrow> plain_elem e"
  shows "path_join es = join ''/'' es"
proof -
  have "filter (\<lambda>p. p \<noteq> []) es = es" using assms(2) by (auto simp: filter_id_conv plain_elem_def)
  with assms show ?thesis by (simp add: path_join_def path_clean_plain)
qed

lemma join_snoc: "es \<noteq> [] \<Longrightarrow> join sep (es @ [e]) = join sep es @ sep @ e"
  by (induction es rule: induct_list012) auto

lemma path_dir_snoc:
  assumes "es \<noteq> []" and "\<And>e. e \<in> set es \<Longrightarrow> plain_elem e" and "CHR ''/'' \<notin> set e"
  shows "path_dir (join ''/'' (es @ [e])) = join ''/'' es"
proof -
  have "last_index (join ''/'' es @ ''/'' @ e) ''/'' = Some (length (join ''/'' es))"
    using assms(3) last_index_unique [of "''/''" "CHR ''/''" "[]" e] by simp
  moreover have "take (Suc (length (join ''/'' es))) (join ''/'' es @ ''/'' @ e) = join ''/'' es @ ''/''"
    by simp
  moreover have "join ''/'' (es @ [e]) = join ''/'' es @ ''/'' @ e"
    using assms(1) by (rule join_snoc)
  ultimately show ?thesis
    using path_clean_plain(2) [OF assms(1,2)] by (simp only: path_dir_def option.case)
qed

lemma path_dir_single: "CHR ''/'' \<notin> set e \<Longrightarrow> path_dir e = ''.''"
proof -
  assume "CHR ''/'' \<notin> set e"
  then have "last_index e ''/'' = None"
    by (induction e) (auto simp: has_prefix_def)
  then show ?thesis by (simp add: path_dir_def path_clean_def has_prefix_def)
qed

end
