(* ===== verification/Conn.thy ===== *)
theory Conn
  imports Go_Strings
begin

text \<open>
  The network connection of a session with the \<open>bufio\<close> reader and writer around it, as
  both servers use them: a buffer of bytes already read, the pieces in which the peer's bytes
  will arrive, the error after the last of them, the bytes written so far, and how many more
  the peer takes before writes fail. \<open>ReadSlice\<close> fills the buffer piece by piece; the
  lemmas show that what it returns depends on the bytes only, not on how they were cut.
\<close>

record conn =
  cn_buf :: string
  cn_reads :: "string list"
  cn_end :: goerr
  cn_out :: string
  cn_room :: "nat option"

abbreviation LF :: char where "LF \<equiv> CHR 0x0A"
abbreviation CR :: char where "CR \<equiv> CHR 0x0D"
abbreviation CRLF :: string where "CRLF \<equiv> [CHR 0x0D, CHR 0x0A]"

section \<open>Reading\<close>

text \<open>\<open>bufio.Reader.ReadSlice('\n')\<close> of a reader with a buffer of \<open>sz\<close> bytes.\<close>

function read_slice :: "nat \<Rightarrow> conn \<Rightarrow> string \<times> goerr option \<times> conn" where
  "read_slice sz c =
     (case index_byte (cn_buf c) LF of
        Some i \<Rightarrow> (take (Suc i) (cn_buf c), None, c\<lparr>cn_buf := drop (Suc i) (cn_buf c)\<rparr>)
      | None \<Rightarrow>
          if sz \<le> length (cn_buf c) then (cn_buf c, Some ErrBufferFull, c\<lparr>cn_buf := []\<rparr>)
          else (case cn_reads c of
                  [] \<Rightarrow> (cn_buf c, Some (cn_end c), c\<lparr>cn_buf := []\<rparr>)
                | piece # pieces \<Rightarrow>
                    let space = sz - length (cn_buf c) in
                    if length piece \<le> space
                    then read_slice sz (c\<lparr>cn_buf := cn_buf c @ piece, cn_reads := pieces\<rparr>)
                    else read_slice sz (c\<lparr>cn_buf := cn_buf c @ take space piece,
                                          cn_reads := drop space piece # pieces\<rparr>)))"
  by pat_completeness auto
termination
  by (relation "measure (\<lambda>(sz, c). length (cn_reads c) + (sz - length (cn_buf c)))") auto

declare read_slice.simps [simp del]

text \<open>The bytes that are still to be read.\<close>

definition cn_stream :: "conn \<Rightarrow> string" where
  "cn_stream c = cn_buf c @ concat (cn_reads c)"

text \<open>The same operation on the bytes, whatever the pieces.\<close>

definition slice_of :: "nat \<Rightarrow> goerr \<Rightarrow> string \<Rightarrow> string \<times> goerr option \<times> string" where
  "slice_of sz e s =
     (case index_byte s LF of
        Some i \<Rightarrow> if i < sz then (take (Suc i) s, None, drop (Suc i) s)
                   else (take sz s, Some ErrBufferFull, drop sz s)
      | None \<Rightarrow> if sz \<le> length s then (take sz s, Some ErrBufferFull, drop sz s)
                 else (s, Some e, []))"

lemma index_byte_append_left: "index_byte s c = Some i \<Longrightarrow> index_byte (s @ t) c = Some i"
  by (induction s arbitrary: i) (auto split: if_splits)

lemma index_byte_append_right:
  "index_byte s c = None \<Longrightarrow> index_byte (s @ t) c = map_option ((+) (length s)) (index_byte t c)"
proof (induction s)
  case Nil
  then show ?case by (cases "index_byte t c") simp_all
next
  case (Cons x s)
  then show ?case by (cases "index_byte t c") (auto split: if_splits)
qed

lemma take_drop_append: "take n xs @ drop n xs @ ys = xs @ ys"
  by (metis append_assoc append_take_drop_id)

lemma index_byte_less: "index_byte s c = Some i \<Longrightarrow> i < length s"
  by (simp add: index_byte_Some)

text \<open>What an operation leaves of a connection: the written side and the final error.\<close>

definition same_writer :: "conn \<Rightarrow> conn \<Rightarrow> bool" where
  "same_writer c d \<longleftrightarrow> cn_end d = cn_end c \<and> cn_out d = cn_out c \<and> cn_room d = cn_room c"

lemma same_writer_simps [simp]:
  "same_writer c c"
  "same_writer c (d\<lparr>cn_buf := b\<rparr>) = same_writer c d"
  "same_writer c (d\<lparr>cn_reads := r\<rparr>) = same_writer c d"
  "same_writer (c\<lparr>cn_buf := b\<rparr>) d = same_writer c d"
  "same_writer (c\<lparr>cn_reads := r\<rparr>) d = same_writer c d"
  by (simp_all add: same_writer_def)

lemma read_slice_stream:
  assumes "length (cn_buf c) \<le> sz" "read_slice sz c = (line, err, d)"
  shows "slice_of sz (cn_end c) (cn_stream c) = (line, err, cn_stream d) \<and>
    length (cn_buf d) \<le> sz \<and> same_writer c d"
  using assms
proof (induction sz c rule: read_slice.induct)
  case (1 sz c)
  show ?case
  proof (cases "index_byte (cn_buf c) LF")
    case (Some i)
    note i = index_byte_less [OF Some]
    have "index_byte (cn_stream c) LF = Some i"
      unfolding cn_stream_def by (rule index_byte_append_left [OF Some])
    then show ?thesis
      using "1.prems" Some i by (auto simp: read_slice.simps [of sz c] slice_of_def cn_stream_def)
  next
    case None
    note none = index_byte_append_right [OF None, of "concat (cn_reads c)", folded cn_stream_def]
    show ?thesis
    proof (cases "sz \<le> length (cn_buf c)")
      case True
      then have "length (cn_buf c) = sz" using "1.prems"(1) by simp
      then show ?thesis
        using "1.prems" None none
        by (auto simp: read_slice.simps [of sz c] slice_of_def cn_stream_def split: option.splits)
    next
      case short: False
      show ?thesis
      proof (cases "cn_reads c")
        case Nil
        then show ?thesis
          using "1.prems" None short by (auto simp: read_slice.simps [of sz c] slice_of_def cn_stream_def)
      next
        case (Cons piece pieces)
        let ?sp = "sz - length (cn_buf c)"
        show ?thesis
        proof (cases "length piece \<le> ?sp")
          case True
          let ?c = "c\<lparr>cn_buf := cn_buf c @ piece, cn_reads := pieces\<rparr>"
          have "read_slice sz ?c = (line, err, d)"
            using "1.prems"(2) None short Cons True by (simp add: read_slice.simps [of sz c])
          with True short have "slice_of sz (cn_end ?c) (cn_stream ?c) = (line, err, cn_stream d) \<and>
              length (cn_buf d) \<le> sz \<and> same_writer ?c d"
            by (intro "1.IH"(1) [OF None short Cons refl True]) simp_all
          then show ?thesis by (simp add: cn_stream_def Cons)
        next
          case False
          let ?c = "c\<lparr>cn_buf := cn_buf c @ take ?sp piece, cn_reads := drop ?sp piece # pieces\<rparr>"
          have "read_slice sz ?c = (line, err, d)"
            using "1.prems"(2) None short Cons False by (simp add: read_slice.simps [of sz c] Let_def)
          with False short have "slice_of sz (cn_end ?c) (cn_stream ?c) = (line, err, cn_stream d) \<and>
              length (cn_buf d) \<le> sz \<and> same_writer ?c d"
            by (intro "1.IH"(2) [OF None short Cons refl False]) simp_all
          then show ?thesis by (simp add: cn_stream_def Cons take_drop_append)
        qed
      qed
    qed
  qed
qed

lemma slice_of_line:
  "LF \<notin> set l \<Longrightarrow> length l < sz \<Longrightarrow> slice_of sz e (l @ LF # s) = (l @ [LF], None, s)"
  by (simp add: slice_of_def)

lemma slice_of_None:
  assumes "slice_of sz e s = (line, None, t)"
  shows "s = line @ t \<and> length line \<le> sz \<and> (\<exists>l. line = l @ [LF] \<and> LF \<notin> set l)"
proof -
  from assms obtain i where i: "index_byte s LF = Some i" "i < sz" "line = take (Suc i) s" "t = drop (Suc i) s"
    by (auto simp: slice_of_def split: option.splits if_splits)
  then have "line = take i s @ [LF]" "LF \<notin> set (take i s)"
    by (auto simp: index_byte_Some take_Suc_conv_app_nth)
  then have "\<exists>l. line = l @ [LF] \<and> LF \<notin> set l" using i(3) by metis
  with i(2-4) show ?thesis by simp
qed

lemma slice_of_shorter:
  "slice_of sz e s = (line, err, t) \<Longrightarrow> s = line @ t"
  by (auto simp: slice_of_def split: option.splits if_splits)

section \<open>Writing\<close>

text \<open>
  A write followed by \<open>Flush\<close>. Once the peer stops taking bytes, the error of the
  buffered writer is sticky: every later write of a byte fails too.
\<close>

definition conn_write :: "conn \<Rightarrow> string \<Rightarrow> conn \<times> bool" where
  "conn_write c s =
     (case cn_room c of
        None \<Rightarrow> (c\<lparr>cn_out := cn_out c @ s\<rparr>, True)
      | Some n \<Rightarrow>
          if length s \<le> n then (c\<lparr>cn_out := cn_out c @ s, cn_room := Some (n - length s)\<rparr>, True)
          else (c\<lparr>cn_out := cn_out c @ take n s, cn_room := Some 0\<rparr>, False))"

lemma conn_write_fields:
  "cn_buf (fst (conn_write c s)) = cn_buf c"
  "cn_reads (fst (conn_write c s)) = cn_reads c"
  "cn_end (fst (conn_write c s)) = cn_end c"
  "cn_stream (fst (conn_write c s)) = cn_stream c"
  by (simp_all add: conn_write_def cn_stream_def split: option.splits)

lemma conn_write_open [simp]:
  "cn_room c = None \<Longrightarrow> conn_write c s = (c\<lparr>cn_out := cn_out c @ s\<rparr>, True)"
  by (simp add: conn_write_def)

lemma conn_write_out:
  "\<exists>w. cn_out (fst (conn_write c s)) = cn_out c @ w \<and> (\<exists>v. s = w @ v) \<and>
     (snd (conn_write c s) \<longrightarrow> w = s)"
  by (auto simp: conn_write_def split: option.splits)
     (metis append_take_drop_id)

end
