(* ===== verification/Smtp_Syntax.thy ===== *)
theory Smtp_Syntax
  imports Go_Strings
begin

text \<open>
  The syntax of \<open>internal/smtp/server.go\<close>: domains, addresses, command lines, MAIL
  parameters, HELO names and the trace headers put before a message. The lemmas show what an
  accepted domain, address or HELO name may contain, and that no accepted value can end the
  header line it is written to.
\<close>

section \<open>Domains\<close>

definition normalizeDomain :: "string \<Rightarrow> string" where
  "normalizeDomain domain = trim_suffix (to_lower (trim_space domain)) ''.''"

definition domain_char :: "char \<Rightarrow> bool" where
  "domain_char c \<longleftrightarrow> (CHR ''a'' \<le> c \<and> c \<le> CHR ''z'') \<or> (CHR ''0'' \<le> c \<and> c \<le> CHR ''9'') \<or> c = CHR ''-''"

definition valid_label :: "string \<Rightarrow> bool" where
  "valid_label label \<longleftrightarrow>
     \<not> (label = [] \<or> 63 < length label \<or> hd label = CHR ''-'' \<or> last label = CHR ''-'') \<and>
     list_all domain_char label"

definition validDomain :: "string \<Rightarrow> bool" where
  "validDomain domain \<longleftrightarrow>
     \<not> (domain = [] \<or> 253 < length domain) \<and> list_all valid_label (split_on CHR ''.'' domain)"

section \<open>IP literals: the standard library's \<open>net.ParseIP\<close>\<close>

definition valid_octet :: "string \<Rightarrow> bool" where
  "valid_octet s \<longleftrightarrow> s \<noteq> [] \<and> list_all (\<lambda>c. CHR ''0'' \<le> c \<and> c \<le> CHR ''9'') s \<and>
     \<not> (1 < length s \<and> hd s = CHR ''0'') \<and>
     (case parse_digits 10 0 s of None \<Rightarrow> False | Some v \<Rightarrow> v \<le> 255)"

definition parse_ipv4 :: "string \<Rightarrow> bool" where
  "parse_ipv4 s \<longleftrightarrow> length (split_on CHR ''.'' s) = 4 \<and> list_all valid_octet (split_on CHR ''.'' s)"

definition hex_char :: "char \<Rightarrow> bool" where
  "hex_char c \<longleftrightarrow> (CHR ''0'' \<le> c \<and> c \<le> CHR ''9'') \<or> (CHR ''a'' \<le> c \<and> c \<le> CHR ''f'') \<or>
     (CHR ''A'' \<le> c \<and> c \<le> CHR ''F'')"

text \<open>
  The groups from byte \<open>i\<close> of the address on; \<open>dots\<close> says whether a double colon has been
  seen. The result is the number of bytes given and whether there was a double colon.
\<close>

function parse_ipv6_groups :: "nat \<Rightarrow> bool \<Rightarrow> string \<Rightarrow> (nat \<times> bool) option" where
  "parse_ipv6_groups i dots s =
     (if 16 \<le> i then (if s = [] then Some (i, dots) else None)
      else let group = takeWhile hex_char s; rest = dropWhile hex_char s in
           if group = [] \<or> 4 < length group then None
           else if rest \<noteq> [] \<and> hd rest = CHR ''.'' then
             (if (\<not> dots \<and> i \<noteq> 12) \<or> 16 < i + 4 \<or> \<not> parse_ipv4 s then None
              else Some (i + 4, dots))
           else if rest = [] then Some (i + 2, dots)
           else if hd rest \<noteq> CHR '':'' \<or> tl rest = [] then None
           else if hd (tl rest) = CHR '':'' then
             (if dots then None
              else if tl (tl rest) = [] then Some (i + 2, True)
              else parse_ipv6_groups (i + 2) True (tl (tl rest)))
           else parse_ipv6_groups (i + 2) dots (tl rest))"
  by pat_completeness auto
termination
  by (relation "measure (\<lambda>(i, dots, s). 16 - i)") auto

declare parse_ipv6_groups.simps [simp del]

definition parse_ipv6 :: "string \<Rightarrow> bool" where
  "parse_ipv6 s \<longleftrightarrow>
     CHR ''%'' \<notin> set s \<and>
     (if has_prefix s ''::'' then
        (drop 2 s = [] \<or>
         (case parse_ipv6_groups 0 True (drop 2 s) of None \<Rightarrow> False | Some (i, _) \<Rightarrow> i < 16))
      else (case parse_ipv6_groups 0 False s of
              None \<Rightarrow> False
            | Some (i, dots) \<Rightarrow> if dots then i < 16 else 16 \<le> i))"

definition parse_ip :: "string \<Rightarrow> bool" where
  "parse_ip s =
     (case find (\<lambda>c. c \<in> set ''.:%'') s of
        None \<Rightarrow> False
      | Some c \<Rightarrow> if c = CHR ''.'' then parse_ipv4 s else if c = CHR '':'' then parse_ipv6 s else False)"

definition validHelo :: "string \<Rightarrow> bool" where
  "validHelo value \<longleftrightarrow>
     (if validDomain (normalizeDomain value) then True
      else if has_prefix value ''['' \<and> has_suffix value '']''
      then parse_ip (take (length value - 2) (tl value))
      else False)"


section \<open>Addresses and commands\<close>

definition local_char :: "char \<Rightarrow> bool" where
  "local_char c \<longleftrightarrow> (CHR ''a'' \<le> c \<and> c \<le> CHR ''z'') \<or> (CHR ''A'' \<le> c \<and> c \<le> CHR ''Z'') \<or>
     (CHR ''0'' \<le> c \<and> c \<le> CHR ''9'') \<or>
     c \<in> set (''!#$%&'' @ [CHR 0x27] @ ''*+-/=?^_'' @ [CHR 0x60] @ ''{|}~.'')"

definition validAddress :: "string \<Rightarrow> bool" where
  "validAddress address =
     (if 254 < length address \<or> count_list address CHR ''@'' \<noteq> 1 then False
      else let (local, domain, _) = cut address CHR ''@'' in
           if local = [] \<or> 64 < length local \<or> \<not> validDomain (normalizeDomain domain) then False
           else if has_prefix local ''.'' \<or> has_suffix local ''.'' \<or> contains local ''..'' then False
           else list_all local_char local)"

definition splitCommand :: "string \<Rightarrow> string \<times> string" where
  "splitCommand line =
     (let (command, argument, found) = cut line CHR '' '' in
      if \<not> found then (to_upper command, []) else (to_upper command, trim_space argument))"

definition parsePath :: "string \<Rightarrow> string \<Rightarrow> bool \<Rightarrow> (string \<times> string) res" where
  "parsePath argument pfx allowEmpty =
     (if length argument < length pfx \<or> \<not> equal_fold (take (length pfx) argument) pfx
      then Inl (ErrMsg ''missing path prefix'')
      else let rest = trim_space (drop (length pfx) argument) in
           if \<not> has_prefix rest ''<'' then Inl (ErrMsg ''missing opening angle bracket'')
           else case index_byte rest CHR ''>'' of
                  None \<Rightarrow> Inl (ErrMsg ''missing closing angle bracket'')
                | Some end \<Rightarrow>
                    let address = take (end - 1) (drop 1 rest);
                        parameters = trim_space (drop (Suc end) rest)
                    in if address = [] \<and> allowEmpty then Inr (address, parameters)
                       else if \<not> validAddress address then Inl (ErrMsg ''invalid address'')
                       else Inr (address, parameters))"

fun validate_parameters :: "int \<Rightarrow> string list \<Rightarrow> goerr option" where
  "validate_parameters maxSize [] = None"
| "validate_parameters maxSize (parameter # ps) =
     (let (name, value, found) = cut parameter CHR ''='' in
      if \<not> found \<or> \<not> equal_fold name ''SIZE'' then Some (ErrMsg ''unsupported MAIL parameter'')
      else case parse_int value of
             None \<Rightarrow> Some (ErrMsg ''invalid SIZE value'')
           | Some sz \<Rightarrow>
               if sz < 0 then Some (ErrMsg ''invalid SIZE value'')
               else if maxSize < sz then Some ErrMessageTooLarge
               else validate_parameters maxSize ps)"

definition validateMailParameters :: "string \<Rightarrow> int \<Rightarrow> goerr option" where
  "validateMailParameters parameters maxSize =
     (if parameters = [] then None else validate_parameters maxSize (fields parameters))"

section \<open>Envelopes and trace headers\<close>

record transaction =
  tx_started :: bool
  tx_from :: string
  tx_recipients :: "string list"

definition no_transaction :: transaction where
  "no_transaction = \<lparr>tx_started = False, tx_from = [], tx_recipients = []\<rparr>"

definition truncateReason :: "string \<Rightarrow> string" where
  "truncateReason reason = (if length reason \<le> 128 then reason else take 128 reason)"

text \<open>The lines of the headers; \<open>date\<close> is the time of receipt as the library formats it.\<close>

definition trace_lines :: "string \<Rightarrow> string \<Rightarrow> string \<Rightarrow> bool \<Rightarrow> transaction \<Rightarrow> string \<Rightarrow> string list" where
  "trace_lines hostname remote helo encrypted tx date =
     (if tx_from tx = [] then ''Return-Path: <>'' else ''Return-Path: <'' @ tx_from tx @ ''>'') #
     map (\<lambda>recipient. ''Delivered-To: '' @ recipient) (tx_recipients tx) @
     [''Received: from '' @ helo @ '' (['' @ remote @ '']) by '' @ hostname @ '' with '' @
      (if encrypted then ''E'' else []) @ ''SMTP; '' @ date]"

definition deliveryHeaders :: "string \<Rightarrow> string \<Rightarrow> string \<Rightarrow> bool \<Rightarrow> transaction \<Rightarrow> string \<Rightarrow> string" where
  "deliveryHeaders hostname remote helo encrypted tx date =
     concat (map (\<lambda>l. l @ [CHR 0x0D, CHR 0x0A]) (trace_lines hostname remote helo encrypted tx date))"

section \<open>What accepted names contain\<close>

lemma domain_char_plain:
  assumes "domain_char c"
  shows "ascii_lower c = c" "\<not> space_edge c" "code c < 128" "c \<noteq> CHR ''.''" "c \<noteq> CHR ''@''"
  using assms by (auto simp: domain_char_def ascii_lower_def space_edge_def less_eq_char_def)

lemma validDomain_chars:
  assumes "validDomain d" "c \<in> set d"
  shows "domain_char c \<or> c = CHR ''.''"
proof -
  have "c \<in> set (join ''.'' (split_on CHR ''.'' d))" using assms(2) by simp
  then have "c = CHR ''.'' \<or> (\<exists>p \<in> set (split_on CHR ''.'' d). c \<in> set p)"
    using set_join [of c "''.''" "split_on CHR ''.'' d"] by simp
  then show ?thesis
    using assms(1) by (auto simp: validDomain_def valid_label_def list_all_iff)
qed

lemma validDomain_no_dot_end:
  assumes "validDomain d"
  shows "d \<noteq> []" "hd d \<noteq> CHR ''.''" "last d \<noteq> CHR ''.''"
proof -
  show d: "d \<noteq> []" using assms by (auto simp: validDomain_def)
  have no: "[] \<notin> set (split_on CHR ''.'' d)"
    using assms by (auto simp: validDomain_def valid_label_def list_all_iff)
  show "hd d \<noteq> CHR ''.''"
    using no d by (cases d) (auto split: if_splits)
  show "last d \<noteq> CHR ''.''"
  proof
    assume "last d = CHR ''.''"
    then have "d = butlast d @ [CHR ''.'']" using d by (metis append_butlast_last_id)
    then have "split_on CHR ''.'' d =
        butlast (split_on CHR ''.'' (butlast d)) @ (last (split_on CHR ''.'' (butlast d))) # [[]]"
      using split_on_append [of "CHR ''.''" "butlast d" "''.''"] by simp
    then show False using no by simp
  qed
qed

text \<open>A valid domain is its own normal form.\<close>

lemma normalizeDomain_id:
  assumes "validDomain d"
  shows "normalizeDomain d = d"
proof -
  have edge: "\<not> space_edge c" "code c < 128" "ascii_lower c = c" if "c \<in> set d" for c
    using validDomain_chars [OF assms that] domain_char_plain [of c]
    by (auto simp: space_edge_def ascii_lower_def)
  have "trim_space d = d"
    using validDomain_no_dot_end(1) [OF assms] edge(1) by (intro trim_space_id) simp
  moreover have "to_lower d = d"
    using edge by (simp add: to_lower_ascii map_idI)
  moreover have "trim_suffix d ''.'' = d"
    using validDomain_no_dot_end(3) [OF assms] by (intro trim_suffix_no) (auto simp: has_suffix_iff)
  ultimately show ?thesis by (simp add: normalizeDomain_def)
qed


lemma rune_map_keeps_ascii:
  assumes "c \<in> set s" "code c < 128" "\<And>q a. (q, a) \<in> set tbl \<Longrightarrow> q \<noteq> [] \<and> (\<forall>d \<in> set q. 128 \<le> code d)"
  shows "f c \<in> set (rune_map tbl f s)"
  using assms
proof (induction tbl f s rule: rune_map.induct)
  case (2 tbl f x s)
  show ?case
  proof (cases "find (\<lambda>(q, _). has_prefix (x # s) q) tbl")
    case None
    with 2 show ?thesis by auto
  next
    case (Some qa)
    obtain q a where qa: "qa = (q, a)" by (cases qa)
    have "has_prefix (x # s) q" "(q, a) \<in> set tbl"
      using Some by (auto simp: qa find_Some_iff in_set_conv_nth)
    with 2(5) have key: "has_prefix (x # s) q" "q \<noteq> []" "\<forall>d \<in> set q. 128 \<le> code d" by blast+
    then obtain q' t where q: "q = x # q'" "s = q' @ t" by (cases q) (auto simp: has_prefix_iff)
    have "c \<notin> set q" using key(3) 2(4) by auto
    with 2(3) q have "c \<in> set (drop (length q - 1) s)" by auto
    with 2 Some qa show ?thesis by auto
  qed
qed simp

lemma lower_runes_high: "(q, a) \<in> set lower_runes \<Longrightarrow> q \<noteq> [] \<and> (\<forall>d \<in> set q. 128 \<le> code d)"
  by (auto simp: lower_runes_def)

text \<open>
  What a name whose normal form is a valid domain may contain once the white space around it is
  gone: domain characters in either case, dots, and bytes of non-ASCII runes.
\<close>

lemma normal_domain_chars:
  assumes "validDomain (normalizeDomain v)" "c \<in> set (trim_space v)" "code c < 128"
  shows "domain_char (ascii_lower c) \<or> c = CHR ''.''"
proof -
  have "ascii_lower c \<in> set (to_lower (trim_space v))"
    unfolding to_lower_def using assms(2,3) lower_runes_high by (rule rune_map_keeps_ascii)
  moreover have "set (to_lower (trim_space v)) \<subseteq> set (normalizeDomain v) \<union> {CHR ''.''}"
    unfolding normalizeDomain_def
    by (rule trim_suffix_cases [of "to_lower (trim_space v)" "''.''"]) (metis set_append list.set subset_refl, auto)
  ultimately have "domain_char (ascii_lower c) \<or> ascii_lower c = CHR ''.''"
    using validDomain_chars [OF assms(1)] by auto
  moreover have "c = CHR ''.''" if "ascii_lower c = CHR ''.''"
  proof (cases "65 \<le> code c \<and> code c \<le> 90")
    case True
    then have "code (ascii_lower c) = code c + 32" by (simp add: ascii_lower_def)
    then show ?thesis using that True by simp
  qed (use that in \<open>auto simp: ascii_lower_def split: if_splits\<close>)
  ultimately show ?thesis by blast
qed

definition graphic :: "char \<Rightarrow> bool" where
  "graphic c \<longleftrightarrow> 33 \<le> code c \<and> code c \<noteq> 127"

lemma domain_char_graphic: "domain_char (ascii_lower c) \<Longrightarrow> graphic c"
  by (auto simp: domain_char_def ascii_lower_def graphic_def less_eq_char_def split: if_splits)

lemma local_char_graphic: "local_char c \<Longrightarrow> graphic c"
  by (auto simp: local_char_def graphic_def less_eq_char_def)

lemma normal_domain_graphic:
  "validDomain (normalizeDomain v) \<Longrightarrow> c \<in> set (trim_space v) \<Longrightarrow> graphic c"
  using normal_domain_chars [of v c] domain_char_graphic [of c]
  by (cases "code c < 128") (auto simp: graphic_def)

text \<open>An accepted address: a local part of graphic characters, and a domain up to white space.\<close>

lemma validAddress_cut:
  assumes "validAddress address"
  obtains local domain where "address = local @ CHR ''@'' # domain" "cut address CHR ''@'' = (local, domain, True)"
    "local \<noteq> []" "list_all local_char local" "validDomain (normalizeDomain domain)" "CHR ''@'' \<notin> set domain"
proof -
  have one: "count_list address CHR ''@'' = 1" using assms by (auto simp: validAddress_def split: if_splits)
  then have "CHR ''@'' \<in> set address" by (metis count_list_0_iff zero_neq_one)
  then obtain local domain where c: "cut address CHR ''@'' = (local, domain, True)"
    by (metis cut_cases)
  note e = cut_found [OF c]
  have "CHR ''@'' \<notin> set domain" using one e by (simp add: count_list_0_iff)
  then show ?thesis
    using that [OF e(1) c] assms c by (auto simp: validAddress_def Let_def split: if_splits)
qed

lemma parsePath_address:
  assumes "parsePath argument pfx allowEmpty = Inr (address, parameters)"
  shows "(address = [] \<and> allowEmpty \<or> validAddress address) \<and> set address \<subseteq> set argument"
proof -
  from assms obtain e where e: "index_byte (trim_space (drop (length pfx) argument)) CHR ''>'' = Some e"
      "address = take (e - 1) (drop 1 (trim_space (drop (length pfx) argument)))"
      "address = [] \<and> allowEmpty \<or> validAddress address"
    by (auto simp: parsePath_def Let_def split: if_splits option.splits)
  have "set address \<subseteq> set argument"
    using set_trim_space [of "drop (length pfx) argument"] set_drop_subset [of "length pfx" argument]
    by (auto simp: e(2) dest!: in_set_takeD in_set_dropD)
  with e(3) show ?thesis by blast
qed

subsection \<open>HELO names\<close>

lemma parse_ipv4_chars: "parse_ipv4 s \<Longrightarrow> c \<in> set s \<Longrightarrow> hex_char c \<or> c = CHR ''.''"
proof -
  assume a: "parse_ipv4 s" "c \<in> set s"
  then have "c \<in> set (join ''.'' (split_on CHR ''.'' s))" by simp
  from set_join [OF this] a(1) show ?thesis
    by (auto simp: parse_ipv4_def valid_octet_def list_all_iff hex_char_def)
qed

lemma parse_ipv6_groups_chars:
  "parse_ipv6_groups i dots s = Some r \<Longrightarrow> c \<in> set s \<Longrightarrow> hex_char c \<or> c \<in> {CHR ''.'', CHR '':''}"
proof (induction i dots s arbitrary: r rule: parse_ipv6_groups.induct)
  case (1 i dots s)
  let ?g = "takeWhile hex_char s" and ?r = "dropWhile hex_char s"
  have split: "c \<in> set ?g \<or> c \<in> set ?r"
    using "1.prems"(2) by (metis Un_iff set_append takeWhile_dropWhile_id)
  have g: "c \<in> set ?g \<Longrightarrow> hex_char c" by (auto dest: set_takeWhileD)
  have lt: "\<not> 16 \<le> i" and gr: "\<not> (?g = [] \<or> 4 < length ?g)"
    using "1.prems" by (auto simp: parse_ipv6_groups.simps [of i dots s] Let_def split: if_splits)
  show ?case
  proof (cases "?r \<noteq> [] \<and> hd ?r = CHR ''.''")
    case True
    then have "parse_ipv4 s"
      using "1.prems" lt gr by (auto simp: parse_ipv6_groups.simps [of i dots s] Let_def split: if_splits)
    with parse_ipv4_chars "1.prems"(2) show ?thesis by blast
  next
    case nodot: False
    show ?thesis
    proof (cases "?r = []")
      case True
      with split g show ?thesis by auto
    next
      case False
      then obtain x y t where r: "?r = x # y # t" "x = CHR '':''"
        using "1.prems" lt gr nodot
        by (cases ?r; cases "tl ?r") (auto simp: parse_ipv6_groups.simps [of i dots s] Let_def split: if_splits)
      show ?thesis
      proof (cases "y = CHR '':''")
        case True
        have "t = [] \<or> parse_ipv6_groups (i + 2) True t = Some r" "\<not> dots"
          using "1.prems" lt gr r True nodot
          by (auto simp: parse_ipv6_groups.simps [of i dots s] Let_def split: if_splits)
        moreover have "hex_char c \<or> c \<in> {CHR ''.'', CHR '':''}" if "t \<noteq> []" "c \<in> set t"
          using that calculation "1.IH"(1) [OF lt refl refl gr nodot False] r True by auto
        ultimately show ?thesis using r True split g by (cases "t = []") auto
      next
        case False
        have "parse_ipv6_groups (i + 2) dots (y # t) = Some r"
          using "1.prems" lt gr r False nodot
          by (auto simp: parse_ipv6_groups.simps [of i dots s] Let_def split: if_splits)
        with "1.IH"(2) [OF lt refl refl gr] r False split g nodot show ?thesis by auto
      qed
    qed
  qed
qed


lemma parse_ip_chars:
  assumes "parse_ip s" "c \<in> set s"
  shows "hex_char c \<or> c \<in> {CHR ''.'', CHR '':''}"
proof -
  from assms(1) consider "parse_ipv4 s" | "parse_ipv6 s"
    by (auto simp: parse_ip_def split: option.splits if_splits)
  then show ?thesis
  proof cases
    case 2
    show ?thesis
    proof (cases "has_prefix s ''::''")
      case True
      then obtain t where t: "s = ''::'' @ t" by (auto simp: has_prefix_iff)
      from 2 True have "drop 2 s = [] \<or>
          (case parse_ipv6_groups 0 True (drop 2 s) of None \<Rightarrow> False | Some (i, _) \<Rightarrow> i < 16)"
        by (simp add: parse_ipv6_def)
      then have "t = [] \<or> (\<exists>r. parse_ipv6_groups 0 True t = Some r)"
        by (auto simp: t split: option.splits)
      then show ?thesis
        using t assms(2) parse_ipv6_groups_chars [of 0 True t _ c] by (cases "c \<in> set t") auto
    next
      case False
      with 2 have "\<exists>r. parse_ipv6_groups 0 False s = Some r"
        by (auto simp: parse_ipv6_def split: option.splits)
      then show ?thesis using parse_ipv6_groups_chars [OF _ assms(2)] by blast
    qed
  qed (use parse_ipv4_chars assms(2) in auto)
qed

lemma hex_char_graphic: "hex_char c \<Longrightarrow> graphic c"
  by (auto simp: hex_char_def graphic_def less_eq_char_def)

text \<open>An accepted HELO name, once trimmed, has no control character and no space in it.\<close>

lemma validHelo_graphic:
  assumes "validHelo v" "trim_space v = v" "c \<in> set v"
  shows "graphic c"
proof (cases "validDomain (normalizeDomain v)")
  case True
  with assms(2,3) normal_domain_graphic [of v c] show ?thesis by simp
next
  case False
  with assms(1) have h: "has_prefix v ''[''" "has_suffix v '']''"
      "parse_ip (take (length v - 2) (tl v))"
    by (auto simp: validHelo_def split: if_splits)
  then obtain t where t: "v = CHR ''['' # t" by (auto simp: has_prefix_iff)
  with h(2) obtain u where u: "t = u @ '']''"
    by (cases t rule: rev_cases) (auto simp: has_suffix_iff)
  have ip: "parse_ip u" using h(3) by (simp add: t u)
  have ends: "graphic CHR ''[''" "graphic CHR '']''" "graphic CHR ''.''" "graphic CHR '':''"
    by (simp_all add: graphic_def)
  have "c = CHR ''['' \<or> c = CHR '']'' \<or> c \<in> set u" using assms(3) by (auto simp: t u)
  then show ?thesis using parse_ip_chars [OF ip] hex_char_graphic ends by auto
qed

subsection \<open>The header block\<close>

lemma split_on_lines:
  assumes "\<And>l. l \<in> set ls \<Longrightarrow> c \<notin> set l"
  shows "split_on c (concat (map (\<lambda>l. l @ [c]) ls)) = ls @ [[]]"
  using assms by (induction ls) (auto simp: split_on_append_sep)

lemma split_on_CRLF_lines:
  assumes "\<And>l. l \<in> set ls \<Longrightarrow> CHR 0x0A \<notin> set l"
  shows "split_on CHR 0x0A (concat (map (\<lambda>l. l @ [CHR 0x0D, CHR 0x0A]) ls)) =
    map (\<lambda>l. l @ [CHR 0x0D]) ls @ [[]]"
proof -
  have "split_on CHR 0x0A (concat (map (\<lambda>l. l @ [CHR 0x0A]) (map (\<lambda>l. l @ [CHR 0x0D]) ls))) =
      map (\<lambda>l. l @ [CHR 0x0D]) ls @ [[]]"
    using assms by (intro split_on_lines) auto
  then show ?thesis by (simp add: comp_def)
qed

lemma deliveryHeaders_lines:
  assumes "\<And>l. l \<in> set (trace_lines hostname remote helo encrypted tx date) \<Longrightarrow> CHR 0x0A \<notin> set l"
  shows "split_on CHR 0x0A (deliveryHeaders hostname remote helo encrypted tx date) =
    map (\<lambda>l. l @ [CHR 0x0D]) (trace_lines hostname remote helo encrypted tx date) @ [[]]"
  unfolding deliveryHeaders_def using assms by (rule split_on_CRLF_lines)

end
