(* ===== verification/Smtp_Data.thy ===== *)
theory Smtp_Data
  imports Conn Smtp_Syntax
begin

text \<open>
  Reading lines and message data in \<open>internal/smtp/server.go\<close>: the limited line reader, the
  \<open>dataReader\<close> that undoes dot stuffing and makes every line end with CR LF, and the
  \<open>io.MultiReader\<close> that puts the trace headers before it. The lemmas show that what is read
  is one function of the peer's bytes, whatever the pieces they arrive in and the buffers they
  are read with, that a client that stuffs its dots gets its message back byte for byte with
  the connection at the next command, and that accepted content is canonical and bounded.
\<close>

section \<open>Lines\<close>

definition maxCommandLineBytes :: nat where "maxCommandLineBytes = 512"
definition maxDataLineBytes :: nat where "maxDataLineBytes = 1000"

definition readLimitedLineRaw :: "conn \<Rightarrow> nat \<Rightarrow> string res \<times> conn" where
  "readLimitedLineRaw reader limit =
     (let (line, err, reader') = read_slice (maxDataLineBytes + 2) reader in
      if (\<exists>e. err = Some e \<and> errors_is e ErrBufferFull) \<or> limit < length line
      then (Inl ErrDataLineTooLong, reader')
      else case err of Some e \<Rightarrow> (Inl e, reader') | None \<Rightarrow> (Inr line, reader'))"

definition readLimitedLine :: "conn \<Rightarrow> nat \<Rightarrow> string res \<times> conn" where
  "readLimitedLine reader limit =
     (case readLimitedLineRaw reader limit of
        (Inl e, reader') \<Rightarrow> (Inl e, reader')
      | (Inr line, reader') \<Rightarrow> (Inr (trim_suffix (trim_suffix line [CHR 0x0A]) [CHR 0x0D]), reader'))"

section \<open>The data reader\<close>

definition canonicalDataLine :: "string \<Rightarrow> string" where
  "canonicalDataLine line =
     trim_suffix (trim_suffix line [CHR 0x0A]) [CHR 0x0D] @ [CHR 0x0D, CHR 0x0A]"

record dataReader =
  dr_reader :: conn
  dr_pending :: string
  dr_done :: bool
  dr_maxBytes :: int
  dr_bytesRead :: int

definition copy_pending :: "dataReader \<Rightarrow> nat \<Rightarrow> string \<times> goerr option \<times> dataReader" where
  "copy_pending r n = (take n (dr_pending r), None, r\<lparr>dr_pending := drop n (dr_pending r)\<rparr>)"

definition unstuff :: "string \<Rightarrow> string" where
  "unstuff line =
     (if 2 \<le> length line \<and> line ! 0 = CHR ''.'' \<and> line ! 1 = CHR ''.'' then drop 1 line else line)"

text \<open>
  \<open>Read\<close> with a buffer of \<open>n\<close> bytes. The recursive call of the code finds the pending line,
  which is never empty, and copies from it.
\<close>

definition dataReader_Read :: "dataReader \<Rightarrow> nat \<Rightarrow> string \<times> goerr option \<times> dataReader" where
  "dataReader_Read r n =
     (if dr_pending r \<noteq> [] then copy_pending r n
      else if dr_done r then ([], Some IoEOF, r)
      else case readLimitedLineRaw (dr_reader r) maxDataLineBytes of
             (Inl err, reader) \<Rightarrow>
               ([], Some (if errors_is err IoEOF then IoErrUnexpectedEOF else err), r\<lparr>dr_reader := reader\<rparr>)
           | (Inr line, reader) \<Rightarrow>
               let r = r\<lparr>dr_reader := reader\<rparr> in
               if line = [CHR ''.'', CHR 0x0D, CHR 0x0A] \<or> line = [CHR ''.'', CHR 0x0A]
               then ([], Some IoEOF, r\<lparr>dr_done := True\<rparr>)
               else let line = canonicalDataLine (unstuff line) in
                    if maxDataLineBytes < length line then ([], Some ErrDataLineTooLong, r)
                    else if dr_maxBytes r < int64 (dr_bytesRead r + int (length line))
                    then ([], Some ErrMessageTooLarge, r)
                    else copy_pending
                           (r\<lparr>dr_bytesRead := int64 (dr_bytesRead r + int (length line)),
                              dr_pending := line\<rparr>) n)"

text \<open>\<open>io.MultiReader(strings.NewReader(headers), data)\<close>.\<close>

record data_source =
  ds_head :: string
  ds_data :: dataReader

definition source_Read :: "data_source \<Rightarrow> nat \<Rightarrow> string \<times> goerr option \<times> data_source" where
  "source_Read s n =
     (if ds_head s \<noteq> [] then (take n (ds_head s), None, s\<lparr>ds_head := drop n (ds_head s)\<rparr>)
      else let (bytes, err, data) = dataReader_Read (ds_data s) n in (bytes, err, s\<lparr>ds_data := data\<rparr>))"

section \<open>Lines as a function of the bytes\<close>

definition limited_line :: "nat \<Rightarrow> goerr \<Rightarrow> string \<Rightarrow> string res \<times> string" where
  "limited_line limit e s =
     (let (line, err, rest) = slice_of (maxDataLineBytes + 2) e s in
      if (\<exists>e. err = Some e \<and> errors_is e ErrBufferFull) \<or> limit < length line
      then (Inl ErrDataLineTooLong, rest)
      else case err of Some e \<Rightarrow> (Inl e, rest) | None \<Rightarrow> (Inr line, rest))"

text \<open>A connection whose buffer fits the server's reader.\<close>

definition conn_ok :: "conn \<Rightarrow> bool" where
  "conn_ok c \<longleftrightarrow> length (cn_buf c) \<le> maxDataLineBytes + 2"

lemma readLimitedLineRaw_stream:
  assumes "conn_ok c" "readLimitedLineRaw c limit = (res, d)"
  shows "limited_line limit (cn_end c) (cn_stream c) = (res, cn_stream d) \<and> conn_ok d \<and> same_writer c d"
proof -
  obtain line err d' where r: "read_slice (maxDataLineBytes + 2) c = (line, err, d')"
    by (metis prod_cases3)
  from read_slice_stream [OF assms(1) [unfolded conn_ok_def] r] assms(2) show ?thesis
    by (auto simp: readLimitedLineRaw_def limited_line_def r [simplified] conn_ok_def split: if_splits option.splits)
qed

lemma limited_line_Inr:
  assumes "limited_line limit e s = (Inr line, t)"
  shows "s = line @ t \<and> length line \<le> limit \<and> (\<exists>l. line = l @ [LF] \<and> LF \<notin> set l)"
proof -
  from assms have "slice_of (maxDataLineBytes + 2) e s = (line, None, t)" "length line \<le> limit"
    by (auto simp: limited_line_def split: if_splits option.splits prod.splits)
  with slice_of_None show ?thesis by blast
qed

lemma limited_line_cons:
  assumes "LF \<notin> set l" "Suc (length l) \<le> limit" "limit \<le> 1000"
  shows "limited_line limit e (l @ LF # t) = (Inr (l @ [LF]), t)"
  using assms slice_of_line [OF assms(1), of "maxDataLineBytes + 2" e t]
  by (simp add: limited_line_def maxDataLineBytes_def)


section \<open>The message as a function of the bytes\<close>

definition is_terminator :: "string \<Rightarrow> bool" where
  "is_terminator line \<longleftrightarrow> line = [CHR ''.'', CHR 0x0D, CHR 0x0A] \<or> line = [CHR ''.'', CHR 0x0A]"

text \<open>
  The content up to the first error, that error (\<open>IoEOF\<close> for the end of the message), and
  the bytes that follow.
\<close>

function data_body :: "int \<Rightarrow> int \<Rightarrow> goerr \<Rightarrow> string \<Rightarrow> string \<times> goerr \<times> string" where
  "data_body maxBytes n e s =
     (case limited_line maxDataLineBytes e s of
        (Inl err, t) \<Rightarrow> ([], if errors_is err IoEOF then IoErrUnexpectedEOF else err, t)
      | (Inr line, t) \<Rightarrow>
          if is_terminator line then ([], IoEOF, t)
          else let line = canonicalDataLine (unstuff line); n' = int64 (n + int (length line)) in
               if maxDataLineBytes < length line then ([], ErrDataLineTooLong, t)
               else if maxBytes < n' then ([], ErrMessageTooLarge, t)
               else let (b, err, u) = data_body maxBytes n' e t in (line @ b, err, u))"
  by pat_completeness auto
termination
  by (relation "measure (\<lambda>(maxBytes, n, e, s). length s)") (auto dest!: limited_line_Inr [OF sym])

declare data_body.simps [simp del]

text \<open>What is still to be read from a reader: content, final error, and the bytes after it.\<close>

definition dr_view :: "dataReader \<Rightarrow> string \<times> goerr \<times> string" where
  "dr_view r =
     (if dr_done r then (dr_pending r, IoEOF, cn_stream (dr_reader r))
      else let (b, err, t) = data_body (dr_maxBytes r) (dr_bytesRead r) (cn_end (dr_reader r))
                               (cn_stream (dr_reader r))
           in (dr_pending r @ b, err, t))"

definition ds_view :: "data_source \<Rightarrow> string \<times> goerr \<times> string" where
  "ds_view s = (let (b, err, t) = dr_view (ds_data s) in (ds_head s @ b, err, t))"

definition ds_ok :: "data_source \<Rightarrow> bool" where
  "ds_ok s \<longleftrightarrow> conn_ok (dr_reader (ds_data s))"

lemma canonical_not_Nil [simp]: "canonicalDataLine l \<noteq> []"
  by (simp add: canonicalDataLine_def)

lemma dataReader_Read_view:
  assumes "conn_ok (dr_reader r)" "0 < n" "dataReader_Read r n = (bytes, err, r')"
  shows "conn_ok (dr_reader r') \<and> same_writer (dr_reader r) (dr_reader r') \<and>
    (case err of
       None \<Rightarrow> bytes \<noteq> [] \<and> dr_view r = (bytes @ fst (dr_view r'), snd (dr_view r'))
     | Some e \<Rightarrow> bytes = [] \<and> dr_view r = ([], e, cn_stream (dr_reader r')))"
proof (cases "dr_pending r = [] \<and> \<not> dr_done r")
  case False
  with assms show ?thesis
    by (auto simp: dataReader_Read_def copy_pending_def dr_view_def split: if_splits prod.splits)
next
  case True
  obtain res d where l: "readLimitedLineRaw (dr_reader r) maxDataLineBytes = (res, d)" by fastforce
  note st = readLimitedLineRaw_stream [OF assms(1) l]
  from st have sw: "same_writer (dr_reader r) d" and ok: "conn_ok d" and fin: "cn_end d = cn_end (dr_reader r)"
    and lim: "limited_line maxDataLineBytes (cn_end (dr_reader r)) (cn_stream (dr_reader r)) = (res, cn_stream d)"
    by (auto simp: same_writer_def)
  note body = data_body.simps [of "dr_maxBytes r" "dr_bytesRead r" "cn_end (dr_reader r)" "cn_stream (dr_reader r)"]
  show ?thesis
  proof (cases res)
    case (Inl e)
    with True assms(3) l lim body sw ok show ?thesis
      by (auto simp: dataReader_Read_def dr_view_def)
  next
    case (Inr line)
    let ?l = "canonicalDataLine (unstuff line)" and ?n = "int64 (dr_bytesRead r + int (length (canonicalDataLine (unstuff line))))"
    consider "is_terminator line" | "\<not> is_terminator line" "maxDataLineBytes < length ?l"
      | "\<not> is_terminator line" "\<not> maxDataLineBytes < length ?l" "dr_maxBytes r < ?n"
      | "\<not> is_terminator line" "\<not> maxDataLineBytes < length ?l" "\<not> dr_maxBytes r < ?n" by blast
    then show ?thesis
    proof cases
      case 4
      obtain b err' u where rec: "data_body (dr_maxBytes r) ?n (cn_end (dr_reader r)) (cn_stream d) = (b, err', u)"
        by (metis prod_cases3)
      have view: "dr_view r = (?l @ b, err', u)"
        using True 4 by (simp add: dr_view_def body lim Inr rec Let_def)
      have out: "bytes = take n ?l" "err = None"
          "r' = r\<lparr>dr_reader := d, dr_bytesRead := ?n, dr_pending := drop n ?l\<rparr>"
        using True assms(3) l Inr 4
        by (auto simp: dataReader_Read_def copy_pending_def Let_def is_terminator_def)
      have "dr_view r' = (drop n ?l @ b, err', u)"
        using True by (simp add: dr_view_def out(3) fin rec)
      with view out sw ok assms(2) show ?thesis by (auto simp: append_assoc [symmetric] simp del: append_assoc)
    qed (use True assms(3) l lim body sw ok Inr in
      \<open>auto simp: dataReader_Read_def dr_view_def Let_def is_terminator_def\<close>)
  qed
qed

lemma source_Read_view:
  assumes "ds_ok s" "0 < n" "source_Read s n = (bytes, err, s')"
  shows "ds_ok s' \<and> same_writer (dr_reader (ds_data s)) (dr_reader (ds_data s')) \<and>
    (case err of
       None \<Rightarrow> bytes \<noteq> [] \<and> ds_view s = (bytes @ fst (ds_view s'), snd (ds_view s'))
     | Some e \<Rightarrow> bytes = [] \<and> ds_view s = ([], e, cn_stream (dr_reader (ds_data s'))))"
proof (cases "ds_head s = []")
  case True
  obtain b e d where r: "dataReader_Read (ds_data s) n = (b, e, d)" by (metis prod_cases3)
  from dataReader_Read_view [OF assms(1) [unfolded ds_ok_def] assms(2) r] assms(3) True r show ?thesis
    by (auto simp: source_Read_def ds_view_def ds_ok_def split: option.splits prod.splits)
next
  case False
  with assms show ?thesis
    by (auto simp: source_Read_def ds_view_def ds_ok_def split: prod.splits)
qed

section \<open>What the content is\<close>

definition crlf_lines :: "string list \<Rightarrow> string" where
  "crlf_lines ls = concat (map (\<lambda>l. l @ [CHR 0x0D, CHR 0x0A]) ls)"

lemma crlf_lines_simps [simp]:
  "crlf_lines [] = []"
  "crlf_lines (l # ls) = l @ [CHR 0x0D, CHR 0x0A] @ crlf_lines ls"
  "crlf_lines (ls @ ms) = crlf_lines ls @ crlf_lines ms"
  by (simp_all add: crlf_lines_def)

lemma canonical_cases:
  assumes "LF \<notin> set l"
  shows "\<exists>k. canonicalDataLine (l @ [LF]) = k @ CRLF \<and> LF \<notin> set k"
  using assms set_trim_suffix [of l "[CR]"] by (auto simp: canonicalDataLine_def)

lemma unstuff_line: "\<exists>k. unstuff (l @ [LF]) = k @ [LF] \<and> set k \<subseteq> set l"
  by (cases l) (auto simp: unstuff_def nth_append)

lemma canonical_unstuff:
  assumes "LF \<notin> set l"
  shows "\<exists>k. canonicalDataLine (unstuff (l @ [LF])) = k @ CRLF \<and> LF \<notin> set k"
  using unstuff_line [of l] canonical_cases assms by (metis subsetD)

text \<open>Content is whole lines ended by CR LF, each without a line feed and within the limit.\<close>

lemma data_body_canonical:
  "data_body maxBytes n e s = (b, err, t) \<Longrightarrow>
     \<exists>ls. b = crlf_lines ls \<and> (\<forall>l \<in> set ls. LF \<notin> set l \<and> length l + 2 \<le> 1000)"
proof (induction maxBytes n e s arbitrary: b rule: data_body.induct)
  case (1 maxBytes n e s)
  let ?x = "limited_line maxDataLineBytes e s"
  have none: ?case if "b = []" using that by (intro exI [of _ "[]"]) simp
  show ?case
  proof (cases ?x)
    case (Pair res u)
    show ?thesis
    proof (cases res)
      case (Inl err')
      with "1.prems" Pair none show ?thesis by (auto simp: data_body.simps [of maxBytes n e s])
    next
      case (Inr line)
      from limited_line_Inr [of maxDataLineBytes e s line u] Pair Inr obtain l where
        l: "line = l @ [LF]" "LF \<notin> set l" by auto
      obtain k where k: "canonicalDataLine (unstuff line) = k @ CRLF" "LF \<notin> set k"
        using canonical_unstuff [OF l(2)] l(1) by blast
      let ?n = "int64 (n + int (length (k @ CRLF)))"
      show ?thesis
      proof (cases "is_terminator line \<or> maxDataLineBytes < length (k @ CRLF) \<or> maxBytes < ?n")
        case True
        with "1.prems" Pair Inr k(1) none show ?thesis
          by (auto simp: data_body.simps [of maxBytes n e s] Let_def split: if_splits)
      next
        case False
        obtain b' err' v where rec: "data_body maxBytes ?n e u = (b', err', v)" by (metis prod_cases3)
        with "1.prems" Pair Inr k(1) False have b: "b = k @ CRLF @ b'" "data_body maxBytes ?n e u = (b', err, t)"
          by (auto simp: data_body.simps [of maxBytes n e s] Let_def)
        have "\<exists>ls. b' = crlf_lines ls \<and> (\<forall>l \<in> set ls. LF \<notin> set l \<and> length l + 2 \<le> 1000)"
          using "1.IH" [OF Pair [symmetric] Inr, of _ ?n] False b(2) k(1) by simp
        then obtain ls where "b' = crlf_lines ls" "\<forall>l \<in> set ls. LF \<notin> set l \<and> length l + 2 \<le> 1000" by blast
        with b(1) k(2) False show ?thesis
          by (intro exI [of _ "k # ls"]) (auto simp: maxDataLineBytes_def)
      qed
    qed
  qed
qed

text \<open>The limit on the size, for the sizes a server can be configured with.\<close>

lemma data_body_bound:
  "data_body maxBytes n e s = (b, err, t) \<Longrightarrow> 0 \<le> n \<Longrightarrow> n \<le> maxBytes \<Longrightarrow>
     maxBytes < 2 ^ 63 - 1000 \<Longrightarrow> n + int (length b) \<le> maxBytes"
proof (induction maxBytes n e s arbitrary: b rule: data_body.induct)
  case (1 maxBytes n e s)
  obtain res u where Pair: "limited_line maxDataLineBytes e s = (res, u)" by fastforce
  show ?case
  proof (cases res)
    case (Inl err')
    with "1.prems" Pair show ?thesis by (auto simp: data_body.simps [of maxBytes n e s])
  next
    case (Inr line)
    let ?l = "canonicalDataLine (unstuff line)"
    let ?n = "int64 (n + int (length ?l))"
    show ?thesis
    proof (cases "is_terminator line \<or> maxDataLineBytes < length ?l \<or> maxBytes < ?n")
      case True
      with "1.prems" Pair Inr show ?thesis
        by (auto simp: data_body.simps [of maxBytes n e s] Let_def split: if_splits)
    next
      case False
      obtain b' err' v where rec: "data_body maxBytes ?n e u = (b', err', v)" by (metis prod_cases3)
      with "1.prems" Pair Inr False have b: "b = ?l @ b'" "data_body maxBytes ?n e u = (b', err, t)"
        by (auto simp: data_body.simps [of maxBytes n e s] Let_def)
      have n: "?n = n + int (length ?l)"
        using "1.prems"(2-4) False by (intro int64_id) (simp_all add: maxDataLineBytes_def)
      have "?n + int (length b') \<le> maxBytes"
        using "1.IH" [OF Pair [symmetric] Inr, of ?l ?n] False b(2) "1.prems"(2-4) n by simp
      then show ?thesis using n b(1) by simp
    qed
  qed
qed

section \<open>A client that stuffs its dots\<close>

definition dot_stuff :: "string \<Rightarrow> string" where
  "dot_stuff l = (if has_prefix l ''.'' then CHR ''.'' # l else l)"

definition client_data :: "string list \<Rightarrow> string" where
  "client_data ls = crlf_lines (map dot_stuff ls) @ [CHR ''.'', CHR 0x0D, CHR 0x0A]"

lemma unstuff_dot_stuff: "unstuff (dot_stuff l @ CRLF) = l @ CRLF"
  by (cases l; cases "tl l") (auto simp: unstuff_def dot_stuff_def has_prefix_def)

lemma canonical_CRLF: "canonicalDataLine (l @ CRLF) = l @ CRLF"
proof -
  have "trim_suffix (l @ CRLF) [LF] = l @ [CR]"
    using trim_suffix_append [of "l @ [CR]" "[LF]"] by simp
  then show ?thesis by (simp add: canonicalDataLine_def)
qed

lemma dot_stuff_not_terminator: "\<not> is_terminator (dot_stuff l @ CRLF)"
  by (cases l; cases "tl l") (auto simp: is_terminator_def dot_stuff_def has_prefix_def)

lemma data_body_client:
  assumes "\<And>l. l \<in> set ls \<Longrightarrow> LF \<notin> set l \<and> length (dot_stuff l) + 2 \<le> 1000"
    and "0 \<le> n" "n + int (length (crlf_lines ls)) \<le> maxBytes" "maxBytes < 2 ^ 63"
  shows "data_body maxBytes n e (client_data ls @ t) = (crlf_lines ls, IoEOF, t)"
  using assms
proof (induction ls arbitrary: n)
  case Nil
  have "limited_line maxDataLineBytes e (''.'' @ CRLF @ t) = (Inr (''.'' @ CRLF), t)"
    using limited_line_cons [of "[CHR ''.'', CR]" maxDataLineBytes e t] by (simp add: maxDataLineBytes_def)
  then show ?case
    by (simp add: data_body.simps [of maxBytes n] client_data_def is_terminator_def)
next
  case (Cons l ls)
  note l = Cons.prems(1) [of l, simplified]
  have sub: "set (dot_stuff l) \<subseteq> insert (CHR ''.'') (set l)" by (auto simp: dot_stuff_def)
  have "client_data (l # ls) @ t = (dot_stuff l @ [CR]) @ LF # client_data ls @ t"
    by (simp add: client_data_def)
  moreover have "LF \<notin> set (dot_stuff l @ [CR])" using l sub by auto
  ultimately have lim: "limited_line maxDataLineBytes e (client_data (l # ls) @ t) =
      (Inr (dot_stuff l @ CRLF), client_data ls @ t)"
    using limited_line_cons [of "dot_stuff l @ [CR]" maxDataLineBytes e "client_data ls @ t"] l
    by (simp add: maxDataLineBytes_def)
  have len: "length l \<le> length (dot_stuff l)" by (simp add: dot_stuff_def)
  let ?n = "n + int (length (l @ CRLF))"
  have n: "int64 ?n = ?n" using Cons.prems(2-4) by (intro int64_id) simp_all
  have rec: "data_body maxBytes ?n e (client_data ls @ t) = (crlf_lines ls, IoEOF, t)"
    using Cons.prems by (intro Cons.IH) simp_all
  have "\<not> maxDataLineBytes < length (l @ CRLF)" using l len by (simp add: maxDataLineBytes_def)
  moreover have "\<not> maxBytes < ?n" using Cons.prems(3) by simp
  ultimately show ?case
    using n rec
    by (simp only: data_body.simps [of maxBytes n] lim prod.case sum.case dot_stuff_not_terminator
        if_False unstuff_dot_stuff canonical_CRLF Let_def crlf_lines_simps append_assoc)
qed
end
