(* ===== verification/Config.thy ===== *)
theory Config
  imports Go_Strings
begin

text \<open>
  \<open>internal/config/policy.go\<close>: envelope addresses, the requests a local SMTP policy is asked
  about, its decisions, and the default policy. An action is a \<open>uint8\<close> in the code, so the
  datatypes keep the values that no constant names. A policy is code of the operator: a
  function of the request, \<open>None\<close> where it panics.
\<close>

record Address =
  ad_Local :: string
  ad_Domain :: string

definition Address_String :: "Address \<Rightarrow> string" where
  "Address_String a = (if ad_Local a = [] \<and> ad_Domain a = [] then [] else ad_Local a @ ''@'' @ ad_Domain a)"

text \<open>The remote address is the text that \<open>netip.ParseAddr\<close> is given.\<close>

record ConnectionInfo =
  ci_RemoteIP :: string
  ci_HELO :: string
  ci_TLS :: bool

record RecipientRequest =
  rr_Connection :: ConnectionInfo
  rr_EnvelopeFrom :: Address
  rr_Recipient :: Address

datatype RecipientAction =
    RecipientRejectPolicy
  | RecipientRejectUnknown
  | RecipientTempFail
  | RecipientAccept
  | RecipientOther nat

record RecipientDecision =
  rd_Action :: RecipientAction
  rd_Reason :: string

record MessageMetadata =
  mm_Connection :: ConnectionInfo
  mm_EnvelopeFrom :: Address
  mm_Recipients :: "Address list"
  mm_ReceivedAt :: string
  mm_Octets :: nat

text \<open>A message request offers the metadata and the staged content.\<close>

record MessageRequest =
  mr_Metadata :: MessageMetadata
  mr_Content :: string

datatype MessageAction =
    MessageTempFail
  | MessageRejectPolicy
  | MessageAccept
  | MessageOther nat

record MessageDecision =
  md_Action :: MessageAction
  md_Reason :: string

record SMTPPolicy =
  EvaluateRecipient :: "RecipientRequest \<Rightarrow> RecipientDecision option"
  EvaluateMessage :: "MessageRequest \<Rightarrow> MessageDecision option"

definition defaultSMTPPolicy :: SMTPPolicy where
  "defaultSMTPPolicy =
     \<lparr>EvaluateRecipient = (\<lambda>_. Some \<lparr>rd_Action = RecipientAccept, rd_Reason = ''configured_domain''\<rparr>),
      EvaluateMessage = (\<lambda>_. Some \<lparr>md_Action = MessageAccept, md_Reason = ''default_accept''\<rparr>)\<rparr>"

definition NewSMTPPolicy :: "SMTPPolicy option \<Rightarrow> SMTPPolicy" where
  "NewSMTPPolicy smtpPolicyFactory =
     (case smtpPolicyFactory of Some policy \<Rightarrow> policy | None \<Rightarrow> defaultSMTPPolicy)"

end
