(* ===== verification/Smtp_Session.thy ===== *)
theory Smtp_Session
  imports Smtp_Data Config
begin

text \<open>
  The SMTP server of \<open>internal/smtp/server.go\<close>: its options, one session's state, a handler
  for every command of \<open>serveConn\<close>, and the loop step that reads a command line and runs its
  handler. The mail store is the \<open>Delivery\<close> interface: a record of operations on a store
  state, with the contract that the locale \<open>mail_delivery\<close> names. A step is one command; what
  other sessions do to the store happens between steps.
\<close>

section \<open>The server\<close>

text \<open>
  A TLS handshake takes the pieces still to be read from the network and the final error, and
  gives those of the decrypted stream. It does not see what the plaintext reader has buffered.
\<close>

type_synonym handshake = "string list \<Rightarrow> goerr \<Rightarrow> (string list \<times> goerr) res"

record smtp_server =
  sv_hostname :: string
  sv_domains :: "string list"
  sv_tlsConfig :: "handshake option"
  sv_maxMessageSize :: int
  sv_maxRecipients :: int
  sv_maxConnections :: int
  sv_policy :: SMTPPolicy

record smtp_options =
  op_Hostname :: string
  op_Domains :: "string list"
  op_HasDelivery :: bool
  op_TLSConfig :: "handshake option"
  op_MaxMessageSize :: int
  op_MaxRecipients :: int
  op_MaxConnections :: int
  op_Policy :: "SMTPPolicy option"

fun normalize_domains :: "string list \<Rightarrow> string list res" where
  "normalize_domains [] = Inr []"
| "normalize_domains (raw # ds) =
     (let domain = normalizeDomain raw in
      if \<not> validDomain domain then Inl (ErrMsg ''invalid recipient domain'')
      else bind_res (normalize_domains ds) (\<lambda>ds. Inr (domain # ds)))"

definition NewServer :: "smtp_options \<Rightarrow> SMTPPolicy option \<Rightarrow> smtp_server res" where
  "NewServer options factory =
     (let hostname = normalizeDomain (op_Hostname options) in
      if \<not> validDomain hostname then Inl (ErrMsg ''valid SMTP hostname is required'')
      else if \<not> op_HasDelivery options then Inl (ErrMsg ''delivery store is required'')
      else bind_res (normalize_domains (op_Domains options)) (\<lambda>domains.
        if domains = [] then Inl (ErrMsg ''at least one recipient domain is required'')
        else Inr \<lparr>sv_hostname = hostname, sv_domains = domains, sv_tlsConfig = op_TLSConfig options,
          sv_maxMessageSize = (if op_MaxMessageSize options \<le> 0 then 26214400 else op_MaxMessageSize options),
          sv_maxRecipients = (if op_MaxRecipients options \<le> 0 then 20 else op_MaxRecipients options),
          sv_maxConnections = (if op_MaxConnections options \<le> 0 then 64 else op_MaxConnections options),
          sv_policy = (case op_Policy options of Some p \<Rightarrow> p | None \<Rightarrow> NewSMTPPolicy factory)\<rparr>))"

section \<open>The delivery interface\<close>

record 's delivery =
  dl_CheckReceive :: "'s \<Rightarrow> goerr option"
  dl_Stage :: "data_source \<Rightarrow> 's \<Rightarrow> nat res \<times> data_source \<times> 's"
  dl_Size :: "nat \<Rightarrow> 's \<Rightarrow> u64"
  dl_Open :: "nat \<Rightarrow> 's \<Rightarrow> string res"
  dl_Discard :: "nat \<Rightarrow> 's \<Rightarrow> 's"
  dl_Publish :: "nat \<Rightarrow> 's \<Rightarrow> (u64 \<times> string) res \<times> 's"

section \<open>A session\<close>

record smtp_session =
  ss_conn :: conn
  ss_remote :: string
  ss_greeted :: bool
  ss_helo :: string
  ss_encrypted :: bool
  ss_tx :: transaction

datatype outcome = Continue smtp_session | Closed smtp_session

definition smtp_reply :: "smtp_session \<Rightarrow> nat \<Rightarrow> string \<Rightarrow> smtp_session \<times> bool" where
  "smtp_reply ss num message =
     (let (c, ok) = conn_write (ss_conn ss) (fmt_nat 10 num @ '' '' @ message @ CRLF)
      in (ss\<lparr>ss_conn := c\<rparr>, ok))"

definition reply_lines :: "nat \<Rightarrow> string list \<Rightarrow> string" where
  "reply_lines num ls =
     concat (map (\<lambda>i. fmt_nat 10 num @ (if Suc i = length ls then '' '' else ''-'') @ ls ! i @ CRLF)
       [0..<length ls])"

definition smtp_replyMulti :: "smtp_session \<Rightarrow> nat \<Rightarrow> string list \<Rightarrow> smtp_session \<times> bool" where
  "smtp_replyMulti ss num ls =
     (let (c, ok) = conn_write (ss_conn ss) (reply_lines num ls) in (ss\<lparr>ss_conn := c\<rparr>, ok))"

text \<open>A reply whose failure the loop ignores, before the next command.\<close>

definition answer :: "smtp_session \<Rightarrow> nat \<Rightarrow> string \<Rightarrow> outcome" where
  "answer ss num message = Continue (fst (smtp_reply ss num message))"

definition answer_close :: "smtp_session \<Rightarrow> nat \<Rightarrow> string \<Rightarrow> outcome" where
  "answer_close ss num message = Closed (fst (smtp_reply ss num message))"

definition connectionInfo :: "string \<Rightarrow> string \<Rightarrow> bool \<Rightarrow> ConnectionInfo" where
  "connectionInfo remote helo encrypted = \<lparr>ci_RemoteIP = remote, ci_HELO = helo, ci_TLS = encrypted\<rparr>"

definition envelopeAddress :: "string \<Rightarrow> Address" where
  "envelopeAddress address =
     (if address = [] then \<lparr>ad_Local = [], ad_Domain = []\<rparr>
      else let (local, domain, _) = cut address CHR ''@''
           in \<lparr>ad_Local = local, ad_Domain = normalizeDomain domain\<rparr>)"

definition envelopeAddresses :: "string list \<Rightarrow> Address list" where
  "envelopeAddresses addresses = map envelopeAddress addresses"

definition evaluateRecipient :: "SMTPPolicy \<Rightarrow> RecipientRequest \<Rightarrow> RecipientDecision" where
  "evaluateRecipient policy request =
     (case EvaluateRecipient policy request of
        Some d \<Rightarrow> d
      | None \<Rightarrow> \<lparr>rd_Action = RecipientTempFail, rd_Reason = ''policy_panic''\<rparr>)"

definition evaluateMessage :: "SMTPPolicy \<Rightarrow> MessageRequest \<Rightarrow> MessageDecision" where
  "evaluateMessage policy request =
     (case EvaluateMessage policy request of
        Some d \<Rightarrow> d
      | None \<Rightarrow> \<lparr>md_Action = MessageTempFail, md_Reason = ''policy_panic''\<rparr>)"


section \<open>The commands\<close>

definition cmd_helo :: "smtp_server \<Rightarrow> string \<Rightarrow> string \<Rightarrow> smtp_session \<Rightarrow> outcome" where
  "cmd_helo sv command argument ss =
     (if \<not> validHelo argument then answer ss 501 ''5.5.2 invalid hostname''
      else let ss = ss\<lparr>ss_greeted := True, ss_helo := argument, ss_tx := no_transaction\<rparr> in
           if command = ''EHLO'' then
             Continue (fst (smtp_replyMulti ss 250
               ([sv_hostname sv, ''SIZE '' @ fmt_int (sv_maxMessageSize sv), ''8BITMIME''] @
                (if sv_tlsConfig sv \<noteq> None \<and> \<not> ss_encrypted ss then [''STARTTLS''] else []))))
           else answer ss 250 (sv_hostname sv))"

definition cmd_starttls :: "smtp_server \<Rightarrow> string \<Rightarrow> smtp_session \<Rightarrow> outcome" where
  "cmd_starttls sv argument ss =
     (case sv_tlsConfig sv of
        None \<Rightarrow> answer ss 502 ''5.5.1 STARTTLS unavailable''
      | Some handshake \<Rightarrow>
          if argument \<noteq> [] \<or> ss_encrypted ss then answer ss 502 ''5.5.1 STARTTLS unavailable''
          else let (ss, ok) = smtp_reply ss 220 ''2.0.0 ready to start TLS'' in
               if \<not> ok then Closed ss
               else case handshake (cn_reads (ss_conn ss)) (cn_end (ss_conn ss)) of
                      Inl e \<Rightarrow> Closed ss
                    | Inr (pieces, e) \<Rightarrow>
                        Continue (ss\<lparr>ss_conn := (ss_conn ss)\<lparr>cn_buf := [], cn_reads := pieces, cn_end := e\<rparr>,
                          ss_greeted := False, ss_helo := [], ss_encrypted := True, ss_tx := no_transaction\<rparr>))"

definition cmd_mail :: "smtp_server \<Rightarrow> string \<Rightarrow> smtp_session \<Rightarrow> outcome" where
  "cmd_mail sv argument ss =
     (if \<not> ss_greeted ss then answer ss 503 ''5.5.1 send HELO/EHLO first''
      else case parsePath argument ''FROM:'' True of
             Inl e \<Rightarrow> answer ss 501 ''5.5.2 invalid reverse-path''
           | Inr (address, params) \<Rightarrow>
               (case validateMailParameters params (sv_maxMessageSize sv) of
                  Some e \<Rightarrow>
                    if errors_is e ErrMessageTooLarge
                    then answer ss 552 ''5.3.4 message exceeds fixed maximum size''
                    else answer ss 501 ''5.5.4 invalid MAIL parameters''
                | None \<Rightarrow>
                    answer (ss\<lparr>ss_tx := \<lparr>tx_started = True, tx_from = address, tx_recipients = []\<rparr>\<rparr>)
                      250 ''2.1.0 sender accepted''))"

definition served_domain :: "smtp_server \<Rightarrow> string \<Rightarrow> bool" where
  "served_domain sv address \<longleftrightarrow>
     normalizeDomain (fst (snd (cut address CHR ''@''))) \<in> set (sv_domains sv)"

definition recipient_request :: "smtp_session \<Rightarrow> string \<Rightarrow> RecipientRequest" where
  "recipient_request ss address =
     \<lparr>rr_Connection = connectionInfo (ss_remote ss) (ss_helo ss) (ss_encrypted ss),
      rr_EnvelopeFrom = envelopeAddress (tx_from (ss_tx ss)),
      rr_Recipient = envelopeAddress address\<rparr>"

definition cmd_rcpt :: "smtp_server \<Rightarrow> string \<Rightarrow> smtp_session \<Rightarrow> outcome" where
  "cmd_rcpt sv argument ss =
     (if \<not> tx_started (ss_tx ss) then answer ss 503 ''5.5.1 send MAIL first''
      else case parsePath argument ''TO:'' False of
             Inl e \<Rightarrow> answer ss 501 ''5.5.2 invalid forward-path''
           | Inr (address, params) \<Rightarrow>
               if trim_space params \<noteq> [] then answer ss 501 ''5.5.2 invalid forward-path''
               else if \<not> served_domain sv address then answer ss 550 ''5.1.1 recipient domain not served''
               else if sv_maxRecipients sv \<le> int (length (tx_recipients (ss_tx ss)))
               then answer ss 452 ''4.5.3 too many recipients''
               else (case rd_Action (evaluateRecipient (sv_policy sv) (recipient_request ss address)) of
                       RecipientAccept \<Rightarrow>
                         answer (ss\<lparr>ss_tx := (ss_tx ss)\<lparr>tx_recipients := tx_recipients (ss_tx ss) @ [address]\<rparr>\<rparr>)
                           250 ''2.1.5 recipient accepted''
                     | RecipientRejectUnknown \<Rightarrow> answer ss 550 ''5.1.1 recipient unknown''
                     | RecipientTempFail \<Rightarrow> answer ss 451 ''4.7.1 recipient temporarily rejected''
                     | _ \<Rightarrow> answer ss 550 ''5.7.1 recipient rejected by policy''))"

text \<open>The reply to a message that could not be staged.\<close>

definition stage_failure_reply :: "goerr \<Rightarrow> nat \<times> string" where
  "stage_failure_reply e =
     (if errors_is e ErrDataLineTooLong then (550, ''5.6.0 DATA line exceeds limit'')
      else if errors_is e ErrMessageTooLarge then (552, ''5.3.4 message exceeds size limit'')
      else if errors_is e ErrDailyLimit then (452, ''4.3.1 daily receiving budget exceeded'')
      else (451, ''4.3.0 temporary local failure''))"

definition message_request :: "'s delivery \<Rightarrow> string \<Rightarrow> nat \<Rightarrow> smtp_session \<Rightarrow> 's \<Rightarrow> MessageRequest" where
  "message_request dl date h ss s =
     \<lparr>mr_Metadata = \<lparr>mm_Connection = connectionInfo (ss_remote ss) (ss_helo ss) (ss_encrypted ss),
        mm_EnvelopeFrom = envelopeAddress (tx_from (ss_tx ss)),
        mm_Recipients = envelopeAddresses (tx_recipients (ss_tx ss)),
        mm_ReceivedAt = date, mm_Octets = unat (dl_Size dl h s)\<rparr>,
      mr_Content = (case dl_Open dl h s of Inl e \<Rightarrow> [] | Inr d \<Rightarrow> d)\<rparr>"

text \<open>The message after \<open>Stage\<close>: the policy's decision, then publication.\<close>

definition data_publish ::
  "smtp_server \<Rightarrow> 's delivery \<Rightarrow> string \<Rightarrow> nat \<Rightarrow> smtp_session \<Rightarrow> 's \<Rightarrow> outcome \<times> 's" where
  "data_publish sv dl date h ss s =
     (case md_Action (evaluateMessage (sv_policy sv) (message_request dl date h ss s)) of
        MessageAccept \<Rightarrow>
          (case dl_Publish dl h s of
             (Inl e, s) \<Rightarrow>
               ((if errors_is e ErrDailyLimit
                 then answer_close ss 452 ''4.3.1 daily receiving budget exceeded''
                 else answer_close ss 451 ''4.3.0 temporary local failure''), dl_Discard dl h s)
           | (Inr (messageID, path), s) \<Rightarrow>
               (answer (ss\<lparr>ss_tx := no_transaction\<rparr>) 250 ''2.0.0 message accepted'', s))
      | MessageRejectPolicy \<Rightarrow>
          (answer (ss\<lparr>ss_tx := no_transaction\<rparr>) 550 ''5.7.1 message rejected by policy'', dl_Discard dl h s)
      | _ \<Rightarrow>
          (answer (ss\<lparr>ss_tx := no_transaction\<rparr>) 451 ''4.7.1 message temporarily rejected'', dl_Discard dl h s))"

text \<open>What the transaction's message is read from: the trace headers, then the connection.\<close>

definition data_source_of :: "smtp_server \<Rightarrow> string \<Rightarrow> smtp_session \<Rightarrow> data_source" where
  "data_source_of sv date ss =
     \<lparr>ds_head = deliveryHeaders (sv_hostname sv) (ss_remote ss) (ss_helo ss) (ss_encrypted ss) (ss_tx ss) date,
      ds_data = \<lparr>dr_reader = ss_conn ss, dr_pending = [], dr_done = False,
                 dr_maxBytes = sv_maxMessageSize sv, dr_bytesRead = 0\<rparr>\<rparr>"

definition cmd_data ::
  "smtp_server \<Rightarrow> 's delivery \<Rightarrow> string \<Rightarrow> string \<Rightarrow> smtp_session \<Rightarrow> 's \<Rightarrow> outcome \<times> 's" where
  "cmd_data sv dl date argument ss s =
     (if argument \<noteq> [] \<or> tx_recipients (ss_tx ss) = []
      then (answer ss 503 ''5.5.1 valid MAIL and RCPT required'', s)
      else case dl_CheckReceive dl s of
             Some e \<Rightarrow> (answer ss 452 ''4.3.1 receiving budget or storage temporarily unavailable'', s)
           | None \<Rightarrow>
               let (ss, ok) = smtp_reply ss 354 ''end with <CRLF>.<CRLF>'' in
               if \<not> ok then (Closed ss, s)
               else let (res, src, s) = dl_Stage dl (data_source_of sv date ss) s;
                        ss = ss\<lparr>ss_conn := dr_reader (ds_data src)\<rparr>
                    in case res of
                         Inl e \<Rightarrow> (let (num, message) = stage_failure_reply e in answer_close ss num message, s)
                       | Inr h \<Rightarrow> data_publish sv dl date h ss s)"

definition smtp_command ::
  "smtp_server \<Rightarrow> 's delivery \<Rightarrow> string \<Rightarrow> string \<Rightarrow> string \<Rightarrow> smtp_session \<Rightarrow> 's \<Rightarrow> outcome \<times> 's" where
  "smtp_command sv dl date command argument ss s =
     (if command = ''EHLO'' \<or> command = ''HELO'' then (cmd_helo sv command argument ss, s)
      else if command = ''STARTTLS'' then (cmd_starttls sv argument ss, s)
      else if command = ''MAIL'' then (cmd_mail sv argument ss, s)
      else if command = ''RCPT'' then (cmd_rcpt sv argument ss, s)
      else if command = ''DATA'' then cmd_data sv dl date argument ss s
      else if command = ''RSET'' then (answer (ss\<lparr>ss_tx := no_transaction\<rparr>) 250 ''2.0.0 reset'', s)
      else if command = ''NOOP'' then (answer ss 250 ''2.0.0 ok'', s)
      else if command = ''QUIT'' then (answer_close ss 221 ''2.0.0 bye'', s)
      else (answer ss 502 ''5.5.1 command not implemented'', s))"

text \<open>One turn of the loop, and the greeting before it.\<close>

definition smtp_step ::
  "smtp_server \<Rightarrow> 's delivery \<Rightarrow> string \<Rightarrow> smtp_session \<Rightarrow> 's \<Rightarrow> outcome \<times> 's" where
  "smtp_step sv dl date ss s =
     (let (res, c) = readLimitedLine (ss_conn ss) maxCommandLineBytes; ss = ss\<lparr>ss_conn := c\<rparr> in
      case res of
        Inl e \<Rightarrow>
          ((if errors_is e ErrDataLineTooLong then answer_close ss 500 ''5.5.2 command line too long''
            else Closed ss), s)
      | Inr line \<Rightarrow> (let (command, argument) = splitCommand line
                     in smtp_command sv dl date command argument ss s))"

definition smtp_start :: "smtp_server \<Rightarrow> string \<Rightarrow> conn \<Rightarrow> outcome" where
  "smtp_start sv remote c =
     (let (ss, ok) = smtp_reply \<lparr>ss_conn = c\<lparr>cn_buf := []\<rparr>, ss_remote = remote, ss_greeted = False,
                       ss_helo = [], ss_encrypted = False, ss_tx = no_transaction\<rparr>
                     220 (sv_hostname sv @ '' ESMTP picomx'')
      in if ok then Continue ss else Closed ss)"


section \<open>The invariant of a session\<close>

primrec session_of :: "outcome \<Rightarrow> smtp_session" where
  "session_of (Continue ss) = ss"
| "session_of (Closed ss) = ss"

definition recipient_ok :: "smtp_server \<Rightarrow> string \<Rightarrow> bool" where
  "recipient_ok sv r \<longleftrightarrow> validAddress r \<and> served_domain sv r \<and> LF \<notin> set r"

definition session_ok :: "smtp_server \<Rightarrow> smtp_session \<Rightarrow> bool" where
  "session_ok sv ss \<longleftrightarrow>
     conn_ok (ss_conn ss) \<and>
     (\<forall>r \<in> set (tx_recipients (ss_tx ss)). recipient_ok sv r) \<and>
     int (length (tx_recipients (ss_tx ss))) \<le> sv_maxRecipients sv \<and>
     (tx_recipients (ss_tx ss) \<noteq> [] \<longrightarrow> tx_started (ss_tx ss)) \<and>
     (tx_started (ss_tx ss) \<longrightarrow> ss_greeted ss) \<and>
     (tx_from (ss_tx ss) = [] \<or> validAddress (tx_from (ss_tx ss))) \<and> LF \<notin> set (tx_from (ss_tx ss)) \<and>
     (\<forall>c \<in> set (ss_helo ss). graphic c)"

lemma no_transaction_simps [simp]:
  "tx_started no_transaction = False" "tx_from no_transaction = []" "tx_recipients no_transaction = []"
  by (simp_all add: no_transaction_def)

lemma conn_write_ok [simp]: "conn_ok (fst (conn_write c w)) = conn_ok c"
  by (simp add: conn_ok_def conn_write_fields)

lemma smtp_reply_fields [simp]:
  "ss_remote (fst (smtp_reply ss n m)) = ss_remote ss"
  "ss_greeted (fst (smtp_reply ss n m)) = ss_greeted ss"
  "ss_helo (fst (smtp_reply ss n m)) = ss_helo ss"
  "ss_encrypted (fst (smtp_reply ss n m)) = ss_encrypted ss"
  "ss_tx (fst (smtp_reply ss n m)) = ss_tx ss"
  "conn_ok (ss_conn (fst (smtp_reply ss n m))) = conn_ok (ss_conn ss)"
  by (simp_all add: smtp_reply_def case_prod_beta)

lemma smtp_reply_stream [simp]:
  "cn_stream (ss_conn (fst (smtp_reply ss n m))) = cn_stream (ss_conn ss)"
  "cn_end (ss_conn (fst (smtp_reply ss n m))) = cn_end (ss_conn ss)"
  "cn_reads (ss_conn (fst (smtp_reply ss n m))) = cn_reads (ss_conn ss)"
  by (simp_all add: smtp_reply_def case_prod_beta conn_write_fields)

lemma smtp_replyMulti_fields [simp]:
  "ss_greeted (fst (smtp_replyMulti ss n m)) = ss_greeted ss"
  "ss_helo (fst (smtp_replyMulti ss n m)) = ss_helo ss"
  "ss_tx (fst (smtp_replyMulti ss n m)) = ss_tx ss"
  "ss_remote (fst (smtp_replyMulti ss n m)) = ss_remote ss"
  "ss_encrypted (fst (smtp_replyMulti ss n m)) = ss_encrypted ss"
  "conn_ok (ss_conn (fst (smtp_replyMulti ss n m))) = conn_ok (ss_conn ss)"
  by (simp_all add: smtp_replyMulti_def case_prod_beta)

lemma session_ok_reply [simp]:
  "session_ok sv (fst (smtp_reply ss n m)) = session_ok sv ss"
  "session_ok sv (fst (smtp_replyMulti ss n ls)) = session_ok sv ss"
  by (simp_all add: session_ok_def)

lemma session_ok_answer [simp]:
  "session_ok sv (session_of (answer ss n m)) = session_ok sv ss"
  "session_ok sv (session_of (answer_close ss n m)) = session_ok sv ss"
  by (simp_all add: answer_def answer_close_def)

text \<open>An argument that came out of a command line.\<close>

definition argument_ok :: "string \<Rightarrow> bool" where
  "argument_ok a \<longleftrightarrow> LF \<notin> set a \<and> trim_space a = a"

lemma cmd_helo_ok:
  assumes "session_ok sv ss" "argument_ok argument" "0 \<le> sv_maxRecipients sv"
  shows "session_ok sv (session_of (cmd_helo sv command argument ss))"
proof -
  have "\<forall>c \<in> set argument. graphic c" if "validHelo argument"
    using validHelo_graphic [OF that] assms(2) by (simp add: argument_ok_def)
  with assms show ?thesis
    by (simp add: cmd_helo_def session_ok_def Let_def answer_def)
qed

lemma cmd_starttls_ok:
  assumes "session_ok sv ss" "0 \<le> sv_maxRecipients sv"
  shows "session_ok sv (session_of (cmd_starttls sv argument ss))"
  using assms
  by (auto simp: cmd_starttls_def case_prod_beta Let_def split: option.splits sum.splits)
     (auto simp: session_ok_def conn_ok_def)

lemma cmd_mail_ok:
  assumes "session_ok sv ss" "argument_ok argument" "0 \<le> sv_maxRecipients sv"
  shows "session_ok sv (session_of (cmd_mail sv argument ss))"
proof (cases "ss_greeted ss \<and> (\<exists>address params. parsePath argument ''FROM:'' True = Inr (address, params))")
  case False
  with assms(1) show ?thesis by (auto simp: cmd_mail_def split: sum.splits)
next
  case True
  then obtain address params where p: "parsePath argument ''FROM:'' True = Inr (address, params)" by blast
  from parsePath_address [OF p] assms(2)
  have "address = [] \<or> validAddress address" "LF \<notin> set address" by (auto simp: argument_ok_def)
  with True p assms(1,3) show ?thesis
    by (auto simp: cmd_mail_def session_ok_def answer_def split: option.splits)
qed

lemma cmd_rcpt_ok:
  assumes "session_ok sv ss" "argument_ok argument"
  shows "session_ok sv (session_of (cmd_rcpt sv argument ss))"
proof (cases "\<exists>address params. parsePath argument ''TO:'' False = Inr (address, params)")
  case False
  with assms(1) show ?thesis by (auto simp: cmd_rcpt_def split: sum.splits)
next
  case True
  then obtain address params where p: "parsePath argument ''TO:'' False = Inr (address, params)" by blast
  from parsePath_address [OF p] assms(2) have "validAddress address" "LF \<notin> set address"
    by (auto simp: argument_ok_def)
  then have accept: "session_ok sv
      (ss\<lparr>ss_tx := (ss_tx ss)\<lparr>tx_recipients := tx_recipients (ss_tx ss) @ [address]\<rparr>\<rparr>)"
    if "tx_started (ss_tx ss)" "served_domain sv address"
      "\<not> sv_maxRecipients sv \<le> int (length (tx_recipients (ss_tx ss)))"
    using that assms(1) by (simp add: session_ok_def recipient_ok_def)
  with p assms(1) show ?thesis
    by (auto simp: cmd_rcpt_def split: RecipientAction.split)
qed

lemma splitCommand_argument:
  assumes "splitCommand line = (command, argument)" "LF \<notin> set line"
  shows "argument_ok argument"
proof -
  obtain a b f where c: "cut line CHR '' '' = (a, b, f)" by (metis prod_cases3)
  have "set b \<subseteq> set line"
    by (rule cut_cases [of line "CHR '' ''"]) (use c in auto)
  moreover have "argument = [] \<or> argument = trim_space b"
    using assms(1) c by (auto simp: splitCommand_def split: if_splits)
  moreover have "trim_space [] = []" by (rule trim_space_id) simp
  ultimately show ?thesis
    using assms(2) set_trim_space [of b] by (auto simp: argument_ok_def)
qed


section \<open>What a session writes\<close>

definition ss_out :: "smtp_session \<Rightarrow> string" where
  "ss_out ss = cn_out (ss_conn ss)"

lemma fmt_codes:
  "fmt_nat 10 220 = ''220''" "fmt_nat 10 221 = ''221''" "fmt_nat 10 250 = ''250''" "fmt_nat 10 354 = ''354''"
  "fmt_nat 10 451 = ''451''" "fmt_nat 10 452 = ''452''" "fmt_nat 10 500 = ''500''" "fmt_nat 10 501 = ''501''"
  "fmt_nat 10 502 = ''502''" "fmt_nat 10 503 = ''503''" "fmt_nat 10 550 = ''550''" "fmt_nat 10 552 = ''552''"
  by code_simp+

lemma smtp_reply_out:
  "cn_room (ss_conn ss) = None \<Longrightarrow> ss_out (fst (smtp_reply ss n m)) = ss_out ss @ fmt_nat 10 n @ '' '' @ m @ CRLF"
  "cn_room (ss_conn ss) = None \<Longrightarrow> ss_out (fst (smtp_replyMulti ss n ls)) = ss_out ss @ reply_lines n ls"
  "cn_room (ss_conn ss) = None \<Longrightarrow> snd (smtp_reply ss n m)"
  "cn_room (ss_conn ss) = None \<Longrightarrow> cn_room (ss_conn (fst (smtp_reply ss n m))) = None"
  by (simp_all add: smtp_reply_def smtp_replyMulti_def ss_out_def)

lemma ss_out_update [simp]:
  "ss_out (ss\<lparr>ss_tx := t\<rparr>) = ss_out ss" "ss_out (ss\<lparr>ss_greeted := g\<rparr>) = ss_out ss"
  "ss_out (ss\<lparr>ss_helo := h\<rparr>) = ss_out ss" "ss_out (ss\<lparr>ss_encrypted := e\<rparr>) = ss_out ss"
  "ss_out (ss\<lparr>ss_conn := c\<rparr>) = cn_out c"
  by (simp_all add: ss_out_def)

text \<open>What a DATA command that ends in an accepted message writes.\<close>

definition accept_dialogue :: string where
  "accept_dialogue = ''354 end with <CRLF>.<CRLF>'' @ CRLF @ ''250 2.0.0 message accepted'' @ CRLF"

text \<open>A step that writes something else.\<close>

definition not_accepted :: "smtp_session \<Rightarrow> outcome \<Rightarrow> bool" where
  "not_accepted ss res \<longleftrightarrow> (\<exists>w. ss_out (session_of res) = ss_out ss @ w \<and> w \<noteq> accept_dialogue)"

lemma not_acceptedI:
  "ss_out (session_of res) = ss_out ss @ w \<Longrightarrow> w = [] \<or> hd w \<noteq> CHR ''3'' \<Longrightarrow> not_accepted ss res"
  unfolding not_accepted_def accept_dialogue_def by (intro exI [of _ w]) auto

lemma not_accepted_answer:
  assumes "cn_room (ss_conn ss) = None" "ss_out ss = ss_out ss0" "hd (fmt_nat 10 n) \<noteq> CHR ''3''"
  shows "not_accepted ss0 (answer ss n m)" "not_accepted ss0 (answer_close ss n m)"
  using assms smtp_reply_out(1) [OF assms(1), of n m]
  by (auto simp: answer_def answer_close_def intro!: not_acceptedI)

lemma reply_lines_hd: "ls \<noteq> [] \<Longrightarrow> hd (reply_lines n ls) = hd (fmt_nat 10 n)"
proof -
  assume "ls \<noteq> []"
  then have "[0..<length ls] = 0 # [1..<length ls]" by (simp add: upt_conv_Cons)
  then show ?thesis by (simp add: reply_lines_def)
qed

lemma not_accepted_helo:
  "cn_room (ss_conn ss) = None \<Longrightarrow> not_accepted ss (cmd_helo sv command argument ss)"
proof (cases "validHelo argument \<and> command = ''EHLO''")
  case True
  assume r: "cn_room (ss_conn ss) = None"
  let ?ss = "ss\<lparr>ss_greeted := True, ss_helo := argument, ss_tx := no_transaction\<rparr>"
  from r have "cn_room (ss_conn ?ss) = None" by simp
  from smtp_reply_out(2) [OF this] True show ?thesis
    by (auto simp: cmd_helo_def Let_def reply_lines_hd fmt_codes intro!: not_acceptedI)
qed (auto simp: cmd_helo_def Let_def fmt_codes intro!: not_accepted_answer)

lemma not_accepted_starttls:
  assumes "cn_room (ss_conn ss) = None"
  shows "not_accepted ss (cmd_starttls sv argument ss)"
proof (cases "sv_tlsConfig sv = None \<or> argument \<noteq> [] \<or> ss_encrypted ss")
  case True
  with assms show ?thesis
    by (auto simp: cmd_starttls_def fmt_codes split: option.splits intro!: not_accepted_answer)
next
  case False
  then obtain hs where hs: "sv_tlsConfig sv = Some hs" by auto
  let ?r = "fst (smtp_reply ss 220 ''2.0.0 ready to start TLS'')"
  have "ss_out (session_of (cmd_starttls sv argument ss)) = ss_out ?r"
    using False hs by (auto simp: cmd_starttls_def case_prod_beta Let_def ss_out_def split: sum.splits)
  with smtp_reply_out(1) [OF assms] show ?thesis
    by (auto simp: fmt_codes intro!: not_acceptedI)
qed

lemma not_accepted_mail: "cn_room (ss_conn ss) = None \<Longrightarrow> not_accepted ss (cmd_mail sv argument ss)"
  by (auto simp: cmd_mail_def fmt_codes intro!: not_accepted_answer split: sum.splits option.splits)

lemma not_accepted_rcpt: "cn_room (ss_conn ss) = None \<Longrightarrow> not_accepted ss (cmd_rcpt sv argument ss)"
  by (auto simp: cmd_rcpt_def fmt_codes intro!: not_accepted_answer split: sum.splits RecipientAction.splits)

text \<open>A refused DATA command: the invitation, then a reply with another code.\<close>

lemma not_accepted_data:
  assumes "cn_room (ss_conn ss) = None" "n \<in> {451, 452, 550, 552}"
    and "cn_room (ss_conn ss') = cn_room (ss_conn (fst (smtp_reply ss 354 ''end with <CRLF>.<CRLF>'')))"
    and "ss_out ss' = ss_out (fst (smtp_reply ss 354 ''end with <CRLF>.<CRLF>''))"
  shows "not_accepted ss (answer ss' n m)" "not_accepted ss (answer_close ss' n m)"
proof -
  let ?w = "(fmt_nat 10 354 @ '' '' @ ''end with <CRLF>.<CRLF>'' @ CRLF) @ fmt_nat 10 n @ '' '' @ m @ CRLF"
  have "ss_out (fst (smtp_reply ss' n m)) = ss_out ss @ ?w"
    using smtp_reply_out(1,4) [OF assms(1), of 354] smtp_reply_out(1) [of ss' n m] assms(3,4) by simp
  moreover have "?w \<noteq> accept_dialogue" using assms(2) by (auto simp: accept_dialogue_def fmt_codes)
  ultimately show "not_accepted ss (answer ss' n m)" "not_accepted ss (answer_close ss' n m)"
    unfolding not_accepted_def by (auto simp: answer_def answer_close_def intro!: exI [of _ ?w])
qed

text \<open>
  A message as a session accepts it: the trace headers of the transaction, then the data the
  peer sent up to the terminator; \<open>rest\<close> is what the peer sent after it.
\<close>

definition accepts ::
  "smtp_server \<Rightarrow> string \<Rightarrow> smtp_session \<Rightarrow> string \<Rightarrow> string \<Rightarrow> string \<Rightarrow> bool" where
  "accepts sv date ss t content rest \<longleftrightarrow>
     tx_recipients (ss_tx ss) \<noteq> [] \<and>
     (\<exists>body. data_body (sv_maxMessageSize sv) 0 (cn_end (ss_conn ss)) t = (body, IoEOF, rest) \<and>
       content = deliveryHeaders (sv_hostname sv) (ss_remote ss) (ss_helo ss) (ss_encrypted ss) (ss_tx ss) date @ body)"

section \<open>The delivery contract\<close>

abbreviation source_conn :: "data_source \<Rightarrow> conn" where
  "source_conn src \<equiv> dr_reader (ds_data src)"

text \<open>
  What the session relies on: staging takes the whole content off the connection and changes no
  mail; publishing adds exactly the staged content under a new ID, or reports an error, after which
  the mailbox is as before, or has the message in a store that is broken and receives nothing more;
  discarding changes no mail. \<open>holds\<close> says which mailbox a store holds.
\<close>

locale mail_delivery =
  fixes dl :: "'s delivery"
    and good :: "'s \<Rightarrow> bool"
    and holds :: "'s \<Rightarrow> (u64 \<rightharpoonup> string) \<Rightarrow> bool"
    and pending :: "nat \<Rightarrow> 's \<Rightarrow> string option"
    and handle :: "nat \<Rightarrow> 's \<Rightarrow> bool"
    and broken :: "'s \<Rightarrow> bool"
  assumes stage: "good s \<Longrightarrow> ds_ok src \<Longrightarrow> dl_Stage dl src s = (res, src', s') \<Longrightarrow>
      good s' \<and> ds_ok src' \<and> same_writer (source_conn src) (source_conn src') \<and>
      (\<forall>M. holds s M \<longrightarrow> holds s' M) \<and>
      (\<forall>h. res = Inr h \<longrightarrow> handle h s' \<and>
        (\<exists>c. ds_view src = (c, IoEOF, cn_stream (source_conn src')) \<and> pending h s' = Some c))"
    and publish: "good s \<Longrightarrow> handle h s \<Longrightarrow> pending h s = Some c \<Longrightarrow> holds s M \<Longrightarrow> dl_Publish dl h s = (out, s') \<Longrightarrow>
      good s' \<and> handle h s' \<and>
      (case out of
         Inr (mid, path) \<Rightarrow> M mid = None \<and> holds s' (M(mid \<mapsto> c)) \<and> \<not> broken s'
       | Inl e \<Rightarrow> holds s' M \<or> ((\<exists>mid. M mid = None \<and> holds s' (M(mid \<mapsto> c))) \<and> broken s'))"
    and discard: "good s \<Longrightarrow> handle h s \<Longrightarrow> good (dl_Discard dl h s) \<and>
      (\<forall>M. holds s M \<longrightarrow> holds (dl_Discard dl h s) M) \<and>
      (broken s \<longrightarrow> broken (dl_Discard dl h s))"
    and broken: "broken s \<Longrightarrow> dl_CheckReceive dl s \<noteq> None"
begin

text \<open>What a message that was staged may come to: nothing, the new mail, or that in a failed store.\<close>

definition unchanged :: "(u64 \<rightharpoonup> string) \<Rightarrow> 's \<Rightarrow> bool" where
  "unchanged M s \<longleftrightarrow> holds s M"

definition added :: "(u64 \<rightharpoonup> string) \<Rightarrow> string \<Rightarrow> 's \<Rightarrow> bool" where
  "added M c s \<longleftrightarrow> (\<exists>mid. M mid = None \<and> holds s (M(mid \<mapsto> c)))"

text \<open>The end of a DATA command, from the staged message on.\<close>

lemma data_publish_mails:
  assumes "good s" "handle h s" "pending h s = Some c" "holds s M" "data_publish sv dl date h ss s = (res, s')"
  shows "good s' \<and>
    ((added M c s' \<and> \<not> broken s' \<and> res = answer (ss\<lparr>ss_tx := no_transaction\<rparr>) 250 ''2.0.0 message accepted'') \<or>
     ((unchanged M s' \<or> added M c s' \<and> broken s') \<and>
        (\<exists>n m. n \<in> {451, 452, 550} \<and> (res = answer (ss\<lparr>ss_tx := no_transaction\<rparr>) n m \<or> res = answer_close ss n m))))"
proof (cases "md_Action (evaluateMessage (sv_policy sv) (message_request dl date h ss s)) = MessageAccept")
  case True
  obtain r t where p: "dl_Publish dl h s = (r, t)" by fastforce
  note law = publish [OF assms(1-4) p]
  show ?thesis
  proof (cases r)
    case (Inl e)
    then have "s' = dl_Discard dl h t \<and> (res = answer_close ss 452 ''4.3.1 daily receiving budget exceeded'' \<or>
        res = answer_close ss 451 ''4.3.0 temporary local failure'')"
      using assms(5) True p by (auto simp: data_publish_def)
    then have out: "s' = dl_Discard dl h t" "\<exists>n m. n \<in> {451, 452, 550} \<and> res = answer_close ss n m" by blast+
    have t: "good t" "handle h t" using law by simp_all
    note d = discard [OF t]
    from law Inl have "holds t M \<or> added M c t \<and> broken t" by (simp add: added_def)
    then have "unchanged M s' \<or> added M c s' \<and> broken s'"
      using d unfolding out(1) unchanged_def added_def by blast
    moreover have "good s'" using d out(1) by simp
    ultimately show ?thesis using out(2) by blast
  next
    case (Inr x)
    with law assms(5) True p show ?thesis by (auto simp: data_publish_def added_def)
  qed
next
  case False
  from discard [OF assms(1,2)] have d: "good (dl_Discard dl h s)" "holds (dl_Discard dl h s) M" using assms(4) by simp_all
  from assms(5) False have "s' = dl_Discard dl h s \<and>
      (res = answer (ss\<lparr>ss_tx := no_transaction\<rparr>) 550 ''5.7.1 message rejected by policy'' \<or>
       res = answer (ss\<lparr>ss_tx := no_transaction\<rparr>) 451 ''4.7.1 message temporarily rejected'')"
    by (auto simp: data_publish_def split: MessageAction.splits)
  then have "s' = dl_Discard dl h s"
    "\<exists>n m. n \<in> {451, 452, 550} \<and> res = answer (ss\<lparr>ss_tx := no_transaction\<rparr>) n m" by blast+
  with d show ?thesis by (auto simp: unchanged_def)
qed

text \<open>What a turn may make of the mailbox, and what it says then.\<close>

definition turn_mails ::
  "smtp_server \<Rightarrow> string \<Rightarrow> smtp_session \<Rightarrow> string \<Rightarrow> (u64 \<rightharpoonup> string) \<Rightarrow> outcome \<Rightarrow> 's \<Rightarrow> bool" where
  "turn_mails sv date ss t M res s' \<longleftrightarrow>
     (unchanged M s' \<and> (cn_room (ss_conn ss) = None \<longrightarrow> not_accepted ss res)) \<or>
     (\<exists>content rest ss'. accepts sv date ss t content rest \<and> added M content s' \<and>
        ((\<not> broken s' \<and> res = Continue ss' \<and> ss_tx ss' = no_transaction \<and> cn_stream (ss_conn ss') = rest \<and>
          (cn_room (ss_conn ss) = None \<longrightarrow> ss_out ss' = ss_out ss @ accept_dialogue)) \<or>
         (broken s' \<and> (cn_room (ss_conn ss) = None \<longrightarrow> not_accepted ss res))))"

lemma cmd_data_mails:
  assumes "good s" "session_ok sv ss" "holds s M" "cmd_data sv dl date argument ss s = (res, s')"
  shows "good s' \<and> conn_ok (ss_conn (session_of res)) \<and>
    ss_tx (session_of res) \<in> {ss_tx ss, no_transaction} \<and>
    ss_greeted (session_of res) = ss_greeted ss \<and> ss_helo (session_of res) = ss_helo ss \<and>
    turn_mails sv date ss (cn_stream (ss_conn ss)) M res s'"
proof -
  have ok: "conn_ok (ss_conn ss)" using assms(2) by (simp add: session_ok_def)
  show ?thesis
  proof (cases "argument \<noteq> [] \<or> tx_recipients (ss_tx ss) = [] \<or> dl_CheckReceive dl s \<noteq> None")
    case True
    have "\<exists>n m. s' = s \<and> res = answer ss n m \<and> n \<in> {452, 503}"
      using True assms(4) by (auto simp: cmd_data_def split: option.splits if_splits)
    then obtain n m where r: "s' = s" "res = answer ss n m" "n \<in> {452, 503}" by blast
    then have "cn_room (ss_conn ss) = None \<longrightarrow> not_accepted ss res"
      by (auto simp: fmt_codes intro!: not_accepted_answer)
    with r assms(1,3) ok show ?thesis by (auto simp: answer_def turn_mails_def unchanged_def)
  next
    case False
    let ?r = "smtp_reply ss 354 ''end with <CRLF>.<CRLF>''"
    let ?ss = "fst ?r"
    show ?thesis
    proof (cases "snd ?r")
      case no: False
      then have "res = Closed ?ss" "s' = s" using assms(4) False by (auto simp: cmd_data_def case_prod_beta)
      with no assms(1,3) ok smtp_reply_out(3) [of ss 354] show ?thesis
        by (auto simp: turn_mails_def unchanged_def)
    next
      case True
      let ?src = "data_source_of sv date ?ss"
      obtain st src' t where stg: "dl_Stage dl ?src s = (st, src', t)" by (metis prod_cases3)
      have "ds_ok ?src" using ok by (simp add: ds_ok_def data_source_of_def)
      note law = stage [OF assms(1) this stg]
      let ?ss' = "?ss\<lparr>ss_conn := source_conn src'\<rparr>"
      have room: "cn_room (ss_conn ?ss') = cn_room (ss_conn ?ss)" and out': "ss_out ?ss' = ss_out ?ss"
        using law by (simp_all add: same_writer_def data_source_of_def ss_out_def)
      have ok': "conn_ok (ss_conn ?ss')" using law by (simp add: ds_ok_def)
      show ?thesis
      proof (cases st)
        case (Inl e)
        obtain n m where nm: "stage_failure_reply e = (n, m)" by fastforce
        then have n: "n \<in> {550, 552, 452, 451}" by (auto simp: stage_failure_reply_def split: if_splits)
        have res: "res = answer_close ?ss' n m" "s' = t"
          using assms(4) False True stg Inl nm by (auto simp: cmd_data_def case_prod_beta Let_def)
        have "not_accepted ss res" if r: "cn_room (ss_conn ss) = None"
          unfolding res(1) using n by (intro not_accepted_data [OF r _ room out']) auto
        moreover have "unchanged M s'" using law assms(3) res(2) by (simp add: unchanged_def)
        ultimately show ?thesis using law res ok' by (simp add: answer_close_def turn_mails_def)
      next
        case (Inr h)
        from law Inr obtain c where c: "ds_view ?src = (c, IoEOF, cn_stream (source_conn src'))"
            "pending h t = Some c" "handle h t" "good t" "holds t M" using assms(3) by auto
        have pub: "data_publish sv dl date h ?ss' t = (res, s')"
          using assms(4) False True stg Inr by (simp add: cmd_data_def case_prod_beta Let_def)
        note dp = data_publish_mails [OF c(4,3,2,5) pub]
        have acc: "accepts sv date ss (cn_stream (ss_conn ss)) c (cn_stream (source_conn src'))"
          using c(1) False
          by (auto simp: accepts_def ds_view_def dr_view_def data_source_of_def split: prod.splits)
        have refused: "not_accepted ss res"
          if r: "cn_room (ss_conn ss) = None" "n \<in> {451, 452, 550}"
            "res = answer (?ss'\<lparr>ss_tx := no_transaction\<rparr>) n m \<or> res = answer_close ?ss' n m" for n m
        proof -
          have n: "n \<in> {451, 452, 550, 552}" using r(2) by blast
          have o: "cn_room (ss_conn (?ss'\<lparr>ss_tx := no_transaction\<rparr>)) = cn_room (ss_conn ?ss)"
            "ss_out (?ss'\<lparr>ss_tx := no_transaction\<rparr>) = ss_out ?ss" using room out' by simp_all
          from r(3) show ?thesis
            using not_accepted_data(1) [OF r(1) n o, of m] not_accepted_data(2) [OF r(1) n room out', of m] by blast
        qed
        from dp show ?thesis
        proof (elim conjE disjE)
          assume g: "good s'" and b: "\<not> broken s'" and a: "added M c s'" "res = answer (?ss'\<lparr>ss_tx := no_transaction\<rparr>) 250 ''2.0.0 message accepted''"
          let ?f = "fst (smtp_reply (?ss'\<lparr>ss_tx := no_transaction\<rparr>) 250 ''2.0.0 message accepted'')"
          have "ss_out ?f = ss_out ss @ accept_dialogue" if r: "cn_room (ss_conn ss) = None"
            using smtp_reply_out(1) [OF r, of 354 "''end with <CRLF>.<CRLF>''"] smtp_reply_out(4) [OF r] room out'
              smtp_reply_out(1) [of "?ss'\<lparr>ss_tx := no_transaction\<rparr>" 250 "''2.0.0 message accepted''"]
            by (simp add: accept_dialogue_def fmt_codes)
          moreover have "res = Continue ?f" using a(2) by (simp add: answer_def)
          ultimately have "turn_mails sv date ss (cn_stream (ss_conn ss)) M res s'"
            unfolding turn_mails_def using acc a(1) b
            by (intro disjI2 exI [of _ c] exI [of _ "cn_stream (source_conn src')"] exI [of _ ?f]) simp
          with a(2) g ok' show ?thesis by (simp add: answer_def)
        next
          assume g: "good s'" and a: "\<exists>n m. n \<in> {451, 452, 550} \<and>
              (res = answer (?ss'\<lparr>ss_tx := no_transaction\<rparr>) n m \<or> res = answer_close ?ss' n m)" and m: "unchanged M s'"
          then have "turn_mails sv date ss (cn_stream (ss_conn ss)) M res s'" using refused unfolding turn_mails_def by blast
          with a g ok' show ?thesis by (auto simp: answer_def answer_close_def)
        next
          assume g: "good s'" and a: "\<exists>n m. n \<in> {451, 452, 550} \<and>
              (res = answer (?ss'\<lparr>ss_tx := no_transaction\<rparr>) n m \<or> res = answer_close ?ss' n m)"
            and m: "added M c s'" "broken s'"
          then have "turn_mails sv date ss (cn_stream (ss_conn ss)) M res s'" using refused acc unfolding turn_mails_def by blast
          with a g ok' show ?thesis by (auto simp: answer_def answer_close_def)
        qed
      qed
    qed
  qed
qed

text \<open>One turn of the loop: mail changes only when a message is accepted, and the reply says which.\<close>

lemma smtp_step_mails:
  assumes "good s" "session_ok sv ss" "0 \<le> sv_maxRecipients sv" "holds s M" "smtp_step sv dl date ss s = (res, s')"
  shows "good s' \<and> session_ok sv (session_of res) \<and>
    (\<exists>line t. cn_stream (ss_conn ss) = line @ t \<and> turn_mails sv date ss t M res s')"
proof -
  obtain lr c where rl: "readLimitedLineRaw (ss_conn ss) maxCommandLineBytes = (lr, c)" by fastforce
  have ok: "conn_ok (ss_conn ss)" using assms(2) by (simp add: session_ok_def)
  from readLimitedLineRaw_stream [OF ok rl]
  have st: "limited_line maxCommandLineBytes (cn_end (ss_conn ss)) (cn_stream (ss_conn ss)) = (lr, cn_stream c)"
      "conn_ok c" "cn_end c = cn_end (ss_conn ss)" "cn_out c = cn_out (ss_conn ss)" "cn_room c = cn_room (ss_conn ss)"
    by (simp_all add: same_writer_def)
  let ?ss = "ss\<lparr>ss_conn := c\<rparr>"
  have sok: "session_ok sv ?ss" using assms(2) st(2) by (simp add: session_ok_def)
  have out: "ss_out ?ss = ss_out ss" using st(4) by (simp add: ss_out_def)
  have na: "not_accepted ?ss r = not_accepted ss r" for r by (simp only: not_accepted_def out)
  show ?thesis
  proof (cases lr)
    case (Inl e)
    have "res = (if errors_is e ErrDataLineTooLong then answer_close ?ss 500 ''5.5.2 command line too long'' else Closed ?ss)"
      "s' = s" using assms(5) rl Inl by (auto simp: smtp_step_def readLimitedLine_def Let_def)
    moreover have "not_accepted ss (Closed ?ss)" using out by (intro not_acceptedI [of _ _ "[]"]) simp_all
    ultimately have "turn_mails sv date ss (cn_stream (ss_conn ss)) M res s'" "good s'" "session_ok sv (session_of res)"
      using assms(1,4) sok st(5) not_accepted_answer(2) [of ?ss ss 500] out
      by (auto simp: fmt_codes answer_close_def turn_mails_def unchanged_def)
    then show ?thesis by (metis append_Nil)
  next
    case (Inr raw)
    from limited_line_Inr st(1) Inr obtain l where raw: "cn_stream (ss_conn ss) = raw @ cn_stream c"
        "raw = l @ [LF]" "LF \<notin> set l" by blast
    obtain command argument where sp: "splitCommand (trim_suffix l [CR]) = (command, argument)" by fastforce
    have "LF \<notin> set (trim_suffix l [CR])" using set_trim_suffix [of l] raw(3) by blast
    with splitCommand_argument [OF sp] have arg: "argument_ok argument" by blast
    have step: "smtp_command sv dl date command argument ?ss s = (res, s')"
      using assms(5) rl Inr raw(2) sp by (simp add: smtp_step_def readLimitedLine_def Let_def)
    show ?thesis
    proof (cases "command = ''DATA''")
      case True
      with step have d: "cmd_data sv dl date argument ?ss s = (res, s')" by (simp add: smtp_command_def)
      note cd = cmd_data_mails [OF assms(1) sok assms(4) d]
      have "session_ok sv (session_of res)"
        using cd sok assms(3) by (auto simp: session_ok_def)
      moreover have acc: "accepts sv date ?ss x y z = accepts sv date ss x y z" for x y z
        by (simp add: accepts_def st(3))
      have room: "cn_room (ss_conn ?ss) = cn_room (ss_conn ss)" using st(5) by simp
      have "turn_mails sv date ?ss x y z w = turn_mails sv date ss x y z w" for x y z w
        by (simp only: turn_mails_def na acc room out)
      ultimately show ?thesis using cd raw(1) by auto
    next
      case False
      with step have r: "s' = s" "res \<in> {cmd_helo sv command argument ?ss, cmd_starttls sv argument ?ss,
          cmd_mail sv argument ?ss, cmd_rcpt sv argument ?ss, answer (?ss\<lparr>ss_tx := no_transaction\<rparr>) 250 ''2.0.0 reset'',
          answer ?ss 250 ''2.0.0 ok'', answer_close ?ss 221 ''2.0.0 bye'', answer ?ss 502 ''5.5.1 command not implemented''}"
        by (auto simp: smtp_command_def split: if_splits)
      have reset: "session_ok sv (?ss\<lparr>ss_tx := no_transaction\<rparr>)"
        using sok assms(3) by (simp add: session_ok_def)
      have "session_ok sv (session_of res)"
        using r(2) sok arg assms(3) reset cmd_helo_ok cmd_starttls_ok cmd_mail_ok cmd_rcpt_ok by auto
      moreover have "not_accepted ss res" if "cn_room (ss_conn ss) = None"
        using r(2) that st(5) out not_accepted_helo [of ?ss sv command argument] not_accepted_starttls [of ?ss sv argument]
          not_accepted_mail [of ?ss sv argument] not_accepted_rcpt [of ?ss sv argument]
        by (auto simp: na fmt_codes intro!: not_accepted_answer)
      ultimately have "turn_mails sv date ss (cn_stream (ss_conn ss)) M res s'" "session_ok sv (session_of res)"
        using r(1) assms(4) by (auto simp: turn_mails_def unchanged_def)
      with r(1) assms(1) show ?thesis by (metis append_Nil)
    qed
  qed
qed

end

section \<open>Sessions among others\<close>

text \<open>
  The states of one session and the store: its own steps with any delivery record of the
  family \<open>dls\<close> (the clock and the operating system's answers differ from step to step), and
  anything the other sessions do to the store, as long as the store's invariant holds.
\<close>

inductive smtp_reach ::
  "smtp_server \<Rightarrow> ('e \<Rightarrow> 's delivery) \<Rightarrow> ('s \<Rightarrow> bool) \<Rightarrow> smtp_session \<Rightarrow> 's \<Rightarrow> bool"
  for sv dls good where
  Start: "smtp_start sv remote c = Continue ss \<Longrightarrow> good s \<Longrightarrow> smtp_reach sv dls good ss s"
| Step: "smtp_reach sv dls good ss s \<Longrightarrow> smtp_step sv (dls e) date ss s = (Continue ss', s') \<Longrightarrow>
    smtp_reach sv dls good ss' s'"
| Others: "smtp_reach sv dls good ss s \<Longrightarrow> good s' \<Longrightarrow> smtp_reach sv dls good ss s'"

lemma smtp_start_ok:
  "smtp_start sv remote c = Continue ss \<Longrightarrow> 0 \<le> sv_maxRecipients sv \<Longrightarrow> session_ok sv ss"
proof -
  assume a: "smtp_start sv remote c = Continue ss" "0 \<le> sv_maxRecipients sv"
  let ?ss = "\<lparr>ss_conn = c\<lparr>cn_buf := []\<rparr>, ss_remote = remote, ss_greeted = False,
                       ss_helo = [], ss_encrypted = False, ss_tx = no_transaction\<rparr>"
  have "ss = fst (smtp_reply ?ss 220 (sv_hostname sv @ '' ESMTP picomx''))"
    using a(1) by (simp add: smtp_start_def case_prod_beta split: if_splits)
  moreover have "session_ok sv ?ss" using a(2) by (simp add: session_ok_def conn_ok_def)
  ultimately show ?thesis by simp
qed

lemma smtp_reach_ok:
  assumes "\<And>e. \<exists>pending handle broken. mail_delivery (dls e) good holds pending handle broken" "\<And>s. good s \<Longrightarrow> \<exists>M. holds s M"
    and "smtp_reach sv dls good ss s" "0 \<le> sv_maxRecipients sv"
  shows "session_ok sv ss \<and> good s"
  using assms(3)
proof (induction rule: smtp_reach.induct)
  case (Start remote c ss s)
  with smtp_start_ok assms(4) show ?case by blast
next
  case (Step ss s e date ss' s')
  from assms(1) obtain pending handle broken where d: "mail_delivery (dls e) good holds pending handle broken" by blast
  from assms(2) Step.IH obtain M where "holds s M" by blast
  from mail_delivery.smtp_step_mails [OF d _ _ assms(4) this Step(2)] Step.IH show ?case by simp
qed simp

end
