(* ===== verification/Receipts.thy ===== *)
theory Receipts
  imports Conn
begin

text \<open>
  The receipt budget of \<open>internal/archive/quota.go\<close> and the staging of messages of
  \<open>internal/archive/store.go\<close>: the reservations that every streaming connection makes,
  the durable daily charge, and the staged files. A \<open>StagedMessage\<close> is shared by pointer,
  so the state holds the list of them and a pointer is an index into it. The lemmas show that
  reservations and charges never pass the limit, whatever the interleaving of the
  connections and the movements of the clock.
\<close>

record dailyReceipt =
  dr_Day :: string
  dr_ChargedBytes :: u64

record stagedMessage =
  sm_path :: string
  sm_size :: u64
  sm_reserved :: u64
  sm_done :: bool

record spool =
  st_maxDailyBytes :: u64
  st_receipt :: "dailyReceipt option"
  st_receiptFile :: "dailyReceipt option"
  st_reservedBytes :: u64
  st_failure :: "goerr option"
  st_staged :: "stagedMessage list"
  st_files :: "string \<Rightarrow> string option"

definition DefaultMaxDailyBytes :: u64 where "DefaultMaxDailyBytes = 52428800"
definition minimumReceiptCharge :: u64 where "minimumReceiptCharge = 4096"

section \<open>The budget\<close>

text \<open>\<open>today\<close> is what \<open>s.now().UTC().Format(time.DateOnly)\<close> returns.\<close>

definition receiptUsageLocked :: "string \<Rightarrow> ('a :: type) spool_scheme \<Rightarrow> string \<times> u64" where
  "receiptUsageLocked today s =
     (case st_receipt s of
        Some usage \<Rightarrow> if today \<le> dr_Day usage then (dr_Day usage, dr_ChargedBytes usage) else (today, 0)
      | None \<Rightarrow> (today, 0))"

definition canReserveLocked :: "string \<Rightarrow> ('a :: type) spool_scheme \<Rightarrow> u64 \<Rightarrow> bool" where
  "canReserveLocked today s extra =
     (let used = snd (receiptUsageLocked today s) in
      used \<le> st_maxDailyBytes s \<and> st_reservedBytes s \<le> st_maxDailyBytes s - used \<and>
      extra \<le> st_maxDailyBytes s - used - st_reservedBytes s)"

definition CheckReceive :: "string \<Rightarrow> ('a :: type) spool_scheme \<Rightarrow> goerr option" where
  "CheckReceive today s =
     (case st_failure s of
        Some e \<Rightarrow> Some e
      | None \<Rightarrow> if \<not> canReserveLocked today s minimumReceiptCharge then Some ErrDailyLimit else None)"

text \<open>The part of \<open>quotaReader.Read\<close> under the lock: \<open>None\<close> when the budget is exhausted.\<close>

definition quota_charge :: "string \<Rightarrow> nat \<Rightarrow> u64 \<Rightarrow> nat \<Rightarrow> ('a :: type) spool_scheme \<Rightarrow> 'a spool_scheme option" where
  "quota_charge today i consumed n s =
     (let charge = consumed + of_nat n;
          charge = (if charge < minimumReceiptCharge then minimumReceiptCharge else charge);
          m = st_staged s ! i;
          extra = charge - sm_reserved m
      in if \<not> canReserveLocked today s extra then None
         else Some (s\<lparr>st_reservedBytes := st_reservedBytes s + extra,
                      st_staged := (st_staged s)[i := m\<lparr>sm_reserved := charge\<rparr>]\<rparr>))"

section \<open>Staged messages\<close>

definition removeFile :: "nat \<Rightarrow> ('a :: type) spool_scheme \<Rightarrow> 'a spool_scheme" where
  "removeFile i s =
     (let m = st_staged s ! i in
      if sm_path m = [] then s else s\<lparr>st_files := (st_files s)(sm_path m := None)\<rparr>)"

definition discardLocked :: "nat \<Rightarrow> ('a :: type) spool_scheme \<Rightarrow> 'a spool_scheme" where
  "discardLocked i s =
     (let m = st_staged s ! i;
          s = (if \<not> sm_done m
               then s\<lparr>st_reservedBytes := st_reservedBytes s - sm_reserved m,
                      st_staged := (st_staged s)[i := m\<lparr>sm_reserved := 0, sm_done := True\<rparr>]\<rparr>
               else s)
      in removeFile i s)"

definition Discard :: "nat \<Rightarrow> ('a :: type) spool_scheme \<Rightarrow> 'a spool_scheme" where
  "Discard i s = discardLocked i s"

definition staged_Open :: "nat \<Rightarrow> ('a :: type) spool_scheme \<Rightarrow> string res" where
  "staged_Open i s =
     (if sm_path (st_staged s ! i) = [] then Inl (ErrMsg ''staged message is unavailable'')
      else case st_files s (sm_path (st_staged s ! i)) of None \<Rightarrow> Inl OsErrNotExist | Some d \<Rightarrow> Inr d)"

definition staged_Size :: "nat \<Rightarrow> ('a :: type) spool_scheme \<Rightarrow> u64" where
  "staged_Size i s = sm_size (st_staged s ! i)"

text \<open>
  What the operating system answers while a message is staged: each call fails or not,
  \<open>CreateTemp\<close> names the file, and the clock is read before every piece.
\<close>

record stage_io =
  io_mkdir :: "goerr option"
  io_create :: "string res"
  io_write :: "nat \<Rightarrow> goerr option"
  io_sync :: "goerr option"
  io_close :: "goerr option"
  io_day :: "nat \<Rightarrow> string"

text \<open>
  \<open>io.Copy\<close> from the quota reader to the file, in buffers of 32 KiB: the \<open>k\<close>-th read. The
  source is read with \<open>rd\<close>.
\<close>

fun stage_copy ::
  "nat \<Rightarrow> stage_io \<Rightarrow> ('r \<Rightarrow> nat \<Rightarrow> string \<times> goerr option \<times> 'r) \<Rightarrow> nat \<Rightarrow> nat
    \<Rightarrow> string \<Rightarrow> u64 \<Rightarrow> 'r \<Rightarrow> ('a :: type) spool_scheme \<Rightarrow> nat res \<times> 'r \<times> 'a spool_scheme" where
  "stage_copy 0 io rd i k path consumed src s = (Inl Diverges, src, s)"
| "stage_copy (Suc fuel) io rd i k path consumed src s =
     (let (bytes, err, src) = rd src 32768 in
      if bytes = [] then
        (case err of
           None \<Rightarrow> stage_copy fuel io rd i (Suc k) path consumed src s
         | Some e \<Rightarrow> if e = IoEOF then (Inr 0, src, s) else (Inl e, src, s))
      else case quota_charge (io_day io (Suc k)) i consumed (length bytes) s of
             None \<Rightarrow> (Inl ErrDailyLimit, src, s)
           | Some s \<Rightarrow>
               (case io_write io k of
                  Some e \<Rightarrow> (Inl e, src, s)
                | None \<Rightarrow>
                    let s = s\<lparr>st_files := (st_files s)(path := map_option (\<lambda>d. d @ bytes) (st_files s path))\<rparr>;
                        consumed = consumed + of_nat (length bytes)
                    in (case err of
                          Some e \<Rightarrow> if e = IoEOF then (Inr (length bytes), src, s) else (Inl e, src, s)
                        | None \<Rightarrow>
                            let (res, src, s) = stage_copy fuel io rd i (Suc k) path consumed src s
                            in (map_sum id ((+) (length bytes)) res, src, s))))"

text \<open>The new \<open>StagedMessage\<close> with its first reservation.\<close>

definition stage_begin :: "('a :: type) spool_scheme \<Rightarrow> 'a spool_scheme" where
  "stage_begin s =
     s\<lparr>st_staged := st_staged s @
         [\<lparr>sm_path = [], sm_size = 0, sm_reserved = minimumReceiptCharge, sm_done = False\<rparr>],
       st_reservedBytes := st_reservedBytes s + minimumReceiptCharge\<rparr>"

text \<open>Everything after it; the error paths run the two deferred clean-ups.\<close>

definition stage_file ::
  "nat \<Rightarrow> stage_io \<Rightarrow> ('r \<Rightarrow> nat \<Rightarrow> string \<times> goerr option \<times> 'r) \<Rightarrow> nat \<Rightarrow> 'r
    \<Rightarrow> ('a :: type) spool_scheme \<Rightarrow> nat res \<times> 'r \<times> 'a spool_scheme" where
  "stage_file fuel io rd i src s =
     (case io_mkdir io of
        Some e \<Rightarrow> (Inl (WrapErr ''create temporary archive directory'' e), src, Discard i s)
      | None \<Rightarrow>
          (case io_create io of
             Inl e \<Rightarrow> (Inl (WrapErr ''create temporary message'' e), src, Discard i s)
           | Inr path \<Rightarrow>
               let s = s\<lparr>st_staged := (st_staged s)[i := (st_staged s ! i)\<lparr>sm_path := path\<rparr>],
                         st_files := (st_files s)(path := Some [])\<rparr>;
                   (res, src, s) = stage_copy fuel io rd i 0 path 0 src s;
                   fail = (\<lambda>m e. (Inl (WrapErr m e), src, Discard i (s\<lparr>st_files := (st_files s)(path := None)\<rparr>)))
               in (case res of
                     Inl e \<Rightarrow> fail ''write message'' e
                   | Inr written \<Rightarrow>
                       (case io_sync io of
                          Some e \<Rightarrow> fail ''sync message'' e
                        | None \<Rightarrow>
                            (case io_close io of
                               Some e \<Rightarrow> fail ''close message'' e
                             | None \<Rightarrow>
                                 (Inr i, src,
                                  s\<lparr>st_staged := (st_staged s)[i := (st_staged s ! i)\<lparr>sm_size := of_nat written\<rparr>]\<rparr>))))))"

definition Stage ::
  "nat \<Rightarrow> stage_io \<Rightarrow> ('r \<Rightarrow> nat \<Rightarrow> string \<times> goerr option \<times> 'r) \<Rightarrow> 'r
    \<Rightarrow> ('a :: type) spool_scheme \<Rightarrow> nat res \<times> 'r \<times> 'a spool_scheme" where
  "Stage fuel io rd src s =
     (case st_failure s of
        Some e \<Rightarrow> (Inl e, src, s)
      | None \<Rightarrow>
          if \<not> canReserveLocked (io_day io 0) s minimumReceiptCharge then (Inl ErrDailyLimit, src, s)
          else stage_file fuel io rd (length (st_staged s)) src (stage_begin s))"


section \<open>The durable charge\<close>

text \<open>The calls of \<open>writeReceipt\<close> that can fail, in order.\<close>

record receipt_io =
  ri_create :: "goerr option"
  ri_encode :: "goerr option"
  ri_sync :: "goerr option"
  ri_close :: "goerr option"
  ri_rename :: "goerr option"
  ri_dirsync :: "goerr option"

definition writeReceipt :: "receipt_io \<Rightarrow> dailyReceipt \<Rightarrow> ('a :: type) spool_scheme \<Rightarrow> goerr option \<times> 'a spool_scheme" where
  "writeReceipt io usage s =
     (if ri_create io \<noteq> None then (ri_create io, s)
      else if ri_encode io \<noteq> None then (ri_encode io, s)
      else if ri_sync io \<noteq> None then (ri_sync io, s)
      else if ri_close io \<noteq> None then (ri_close io, s)
      else if ri_rename io \<noteq> None then (ri_rename io, s)
      else (ri_dirsync io, s\<lparr>st_receiptFile := Some usage\<rparr>))"

text \<open>\<open>Publish\<close> from the charge to the discarded reservation.\<close>

definition publish_charge ::
  "string \<Rightarrow> receipt_io \<Rightarrow> nat \<Rightarrow> ('a :: type) spool_scheme \<Rightarrow> unit res \<times> 'a spool_scheme" where
  "publish_charge today io i s =
     (let (day, used) = receiptUsageLocked today s;
          usage = \<lparr>dr_Day = day, dr_ChargedBytes = used + sm_reserved (st_staged s ! i)\<rparr>
      in case writeReceipt io usage s of
           (Some e, s) \<Rightarrow>
             (Inl (WrapErr ''persist receipt budget'' e),
              s\<lparr>st_failure := Some (WrapErr ''persist receipt budget'' e)\<rparr>)
         | (None, s) \<Rightarrow> (Inr (), discardLocked i (s\<lparr>st_receipt := Some usage\<rparr>)))"

text \<open>\<open>time.Parse("2006-01-02", day)\<close> succeeds.\<close>

definition two_digits :: "string \<Rightarrow> nat option" where
  "two_digits s = (if list_all (\<lambda>c. CHR ''0'' \<le> c \<and> c \<le> CHR ''9'') s then parse_digits 10 0 s else None)"

definition days_in :: "nat \<Rightarrow> nat \<Rightarrow> nat" where
  "days_in month year =
     (if month = 2 then (if year mod 4 = 0 \<and> (year mod 100 \<noteq> 0 \<or> year mod 400 = 0) then 29 else 28)
      else if month \<in> {4, 6, 9, 11} then 30 else 31)"

definition valid_date :: "string \<Rightarrow> bool" where
  "valid_date s \<longleftrightarrow>
     length s = 10 \<and> s ! 4 = CHR ''-'' \<and> s ! 7 = CHR ''-'' \<and>
     (case (two_digits (take 4 s), two_digits (take 2 (drop 5 s)), two_digits (drop 8 s)) of
        (Some year, Some month, Some day) \<Rightarrow>
          1 \<le> month \<and> month \<le> 12 \<and> 1 \<le> day \<and> day \<le> days_in month year
      | _ \<Rightarrow> False)"

definition validateReceipt :: "dailyReceipt \<Rightarrow> goerr option" where
  "validateReceipt usage =
     (if \<not> valid_date (dr_Day usage) \<or> dr_ChargedBytes usage = 0
      then Some (ErrMsg ''invalid daily receipt accounting'') else None)"

section \<open>Reservations stay within the budget\<close>

definition reserved_sum :: "stagedMessage list \<Rightarrow> nat" where
  "reserved_sum ms = sum_list (map (\<lambda>m. unat (sm_reserved m)) ms)"

definition spool_ok :: "('a :: type) spool_scheme \<Rightarrow> bool" where
  "spool_ok s \<longleftrightarrow>
     reserved_sum (st_staged s) = unat (st_reservedBytes s) \<and>
     st_reservedBytes s \<le> st_maxDailyBytes s \<and>
     (\<forall>m \<in> set (st_staged s). sm_done m \<longrightarrow> sm_reserved m = 0)"

lemma reserved_sum_update:
  "i < length ms \<Longrightarrow>
     reserved_sum (ms[i := m]) + unat (sm_reserved (ms ! i)) = reserved_sum ms + unat (sm_reserved m)"
  unfolding reserved_sum_def
  by (induction ms arbitrary: i) (auto split: nat.splits)

lemma reserved_le_sum: "i < length ms \<Longrightarrow> unat (sm_reserved (ms ! i)) \<le> reserved_sum ms"
  unfolding reserved_sum_def by (simp add: member_le_sum_list)

lemma canReserveLocked_nat:
  "canReserveLocked today s extra \<longleftrightarrow>
     unat (snd (receiptUsageLocked today s)) + unat (st_reservedBytes s) + unat extra \<le> unat (st_maxDailyBytes s)"
proof -
  let ?u = "snd (receiptUsageLocked today s)" and ?m = "st_maxDailyBytes s" and ?r = "st_reservedBytes s"
  show ?thesis
  proof (cases "?u \<le> ?m \<and> ?r \<le> ?m - ?u")
    case True
    then have "unat (?m - ?u) = unat ?m - unat ?u" "unat (?m - ?u - ?r) = unat ?m - unat ?u - unat ?r"
      by (simp_all add: unat_sub_u64)
    with True show ?thesis
      by (auto simp: canReserveLocked_def Let_def u64_le)
  next
    case False
    moreover have "unat ?u \<le> unat ?m \<Longrightarrow> unat (?m - ?u) = unat ?m - unat ?u"
      by (simp add: unat_sub_u64 u64_le)
    ultimately show ?thesis
      by (auto simp: canReserveLocked_def Let_def u64_le)
  qed
qed

lemma quota_charge_ok:
  assumes "spool_ok s" "i < length (st_staged s)" "\<not> sm_done (st_staged s ! i)"
    and "quota_charge today i consumed n s = Some s'"
  defines "charge \<equiv> max (consumed + of_nat n) minimumReceiptCharge"
  shows "spool_ok s' \<and> sm_reserved (st_staged s ! i) \<le> charge \<and>
    s' = s\<lparr>st_reservedBytes := st_reservedBytes s + (charge - sm_reserved (st_staged s ! i)),
           st_staged := (st_staged s)[i := (st_staged s ! i)\<lparr>sm_reserved := charge\<rparr>]\<rparr>"
proof -
  let ?m = "st_staged s ! i"
  let ?extra = "charge - sm_reserved ?m"
  have charge: "(if consumed + of_nat n < minimumReceiptCharge then minimumReceiptCharge else consumed + of_nat n) = charge"
    by (auto simp: charge_def max_def)
  from assms(4) have can: "canReserveLocked today s ?extra" and s': "s' = s\<lparr>st_reservedBytes := st_reservedBytes s + ?extra,
      st_staged := (st_staged s)[i := ?m\<lparr>sm_reserved := charge\<rparr>]\<rparr>"
    unfolding quota_charge_def Let_def charge by (auto split: if_splits)
  have le: "unat (st_reservedBytes s) + unat ?extra \<le> unat (st_maxDailyBytes s)"
    using can unfolding canReserveLocked_nat by simp
  have res: "unat (sm_reserved ?m) \<le> unat (st_reservedBytes s)"
    using reserved_le_sum [OF assms(2)] assms(1) by (simp add: spool_ok_def)
  have ge: "sm_reserved ?m \<le> charge"
  proof (rule ccontr)
    assume "\<not> sm_reserved ?m \<le> charge"
    then have lt: "unat charge < unat (sm_reserved ?m)" by (simp add: u64_le)
    have "unat ?extra + unat (sm_reserved ?m) < 18446744073709551616"
      using le res unat_less_64 [of "st_maxDailyBytes s"] by linarith
    then have "unat (?extra + sm_reserved ?m) = unat ?extra + unat (sm_reserved ?m)"
      by (rule unat_add_u64)
    then show False using lt by simp
  qed
  then have extra: "unat charge = unat (sm_reserved ?m) + unat ?extra"
    by (simp add: unat_sub_u64 u64_le)
  have sum: "unat (st_reservedBytes s + ?extra) = unat (st_reservedBytes s) + unat ?extra"
    using le unat_less_64 [of "st_maxDailyBytes s"] by (intro unat_add_u64) linarith
  have "reserved_sum ((st_staged s)[i := ?m\<lparr>sm_reserved := charge\<rparr>]) = unat (st_reservedBytes s + ?extra)"
    using reserved_sum_update [OF assms(2), of "?m\<lparr>sm_reserved := charge\<rparr>"] assms(1) sum extra
    by (simp add: spool_ok_def)
  moreover have "\<forall>x \<in> set ((st_staged s)[i := ?m\<lparr>sm_reserved := charge\<rparr>]). sm_done x \<longrightarrow> sm_reserved x = 0"
    using assms(1,3) set_update_subset_insert [of "st_staged s" i "?m\<lparr>sm_reserved := charge\<rparr>"]
    by (auto simp: spool_ok_def)
  ultimately have "spool_ok s'"
    using le sum by (simp add: s' spool_ok_def u64_le)
  with ge s' show ?thesis by blast
qed

lemma discardLocked_fields [simp]:
  "st_maxDailyBytes (discardLocked i s) = st_maxDailyBytes s"
  "st_receipt (discardLocked i s) = st_receipt s"
  "st_receiptFile (discardLocked i s) = st_receiptFile s"
  "st_failure (discardLocked i s) = st_failure s"
  "length (st_staged (discardLocked i s)) = length (st_staged s)"
  by (simp_all add: discardLocked_def removeFile_def Let_def)

lemma spool_ok_files [simp]: "spool_ok (s\<lparr>st_files := f\<rparr>) = spool_ok s"
  "spool_ok (s\<lparr>st_receipt := r\<rparr>) = spool_ok s" "spool_ok (s\<lparr>st_receiptFile := r\<rparr>) = spool_ok s"
  "spool_ok (s\<lparr>st_failure := e\<rparr>) = spool_ok s"
  by (simp_all add: spool_ok_def)

lemma spool_ok_meta:
  assumes "spool_ok s" "i < length (st_staged s)"
  shows "spool_ok (s\<lparr>st_staged := (st_staged s)[i := (st_staged s ! i)\<lparr>sm_path := p, sm_size := z\<rparr>]\<rparr>)"
proof -
  let ?m = "(st_staged s ! i)\<lparr>sm_path := p, sm_size := z\<rparr>"
  have "reserved_sum ((st_staged s)[i := ?m]) = reserved_sum (st_staged s)"
    using reserved_sum_update [OF assms(2), of ?m] by simp
  moreover have "sm_done ?m \<longrightarrow> sm_reserved ?m = 0"
    using assms by (auto simp: spool_ok_def)
  ultimately show ?thesis
    using assms(1) set_update_subset_insert [of "st_staged s" i ?m] by (auto simp: spool_ok_def)
qed

lemma discardLocked_ok:
  assumes "spool_ok s" "i < length (st_staged s)"
  shows "spool_ok (discardLocked i s)"
proof (cases "sm_done (st_staged s ! i)")
  case True
  with assms show ?thesis by (simp add: discardLocked_def removeFile_def Let_def)
next
  case False
  let ?m = "st_staged s ! i" and ?n = "(st_staged s ! i)\<lparr>sm_reserved := 0, sm_done := True\<rparr>"
  have le: "unat (sm_reserved ?m) \<le> unat (st_reservedBytes s)"
    using reserved_le_sum [OF assms(2)] assms(1) by (simp add: spool_ok_def)
  then have sub: "unat (st_reservedBytes s - sm_reserved ?m) = unat (st_reservedBytes s) - unat (sm_reserved ?m)"
    by (intro unat_sub_u64) (simp add: u64_le)
  have "reserved_sum ((st_staged s)[i := ?n]) = unat (st_reservedBytes s - sm_reserved ?m)"
    using reserved_sum_update [OF assms(2), of ?n] assms(1) le sub by (simp add: spool_ok_def)
  moreover have "st_reservedBytes s - sm_reserved ?m \<le> st_maxDailyBytes s"
    using assms(1) sub unfolding spool_ok_def u64_le by linarith
  moreover have "\<forall>x \<in> set ((st_staged s)[i := ?n]). sm_done x \<longrightarrow> sm_reserved x = 0"
    using assms(1) set_update_subset_insert [of "st_staged s" i ?n] by (auto simp: spool_ok_def)
  ultimately show ?thesis
    using False by (simp add: discardLocked_def removeFile_def Let_def spool_ok_def)
qed

lemma stage_begin_ok:
  assumes "spool_ok s" "canReserveLocked today s minimumReceiptCharge"
  shows "spool_ok (stage_begin s)"
proof -
  have le: "unat (st_reservedBytes s) + unat minimumReceiptCharge \<le> unat (st_maxDailyBytes s)"
    using assms(2) unfolding canReserveLocked_nat by linarith
  then have "unat (st_reservedBytes s + minimumReceiptCharge) = unat (st_reservedBytes s) + unat minimumReceiptCharge"
    using unat_less_64 [of "st_maxDailyBytes s"] by (intro unat_add_u64) linarith
  with le assms(1) show ?thesis
    by (auto simp: spool_ok_def stage_begin_def u64_le reserved_sum_def)
qed

lemma publish_charge_ok:
  assumes "spool_ok s" "i < length (st_staged s)" "publish_charge today io i s = (r, s')"
  shows "spool_ok s'"
proof -
  let ?u = "\<lparr>dr_Day = fst (receiptUsageLocked today s),
              dr_ChargedBytes = snd (receiptUsageLocked today s) + sm_reserved (st_staged s ! i)\<rparr>"
  obtain e t where w: "writeReceipt io ?u s = (e, t)" by fastforce
  then have t: "spool_ok t" "st_staged t = st_staged s"
    using assms(1) by (auto simp: writeReceipt_def split: if_splits)
  show ?thesis
  proof (cases e)
    case None
    with w assms(3) have "s' = discardLocked i (t\<lparr>st_receipt := Some ?u\<rparr>)"
      by (simp add: publish_charge_def case_prod_beta)
    with t assms(2) show ?thesis by (simp add: discardLocked_ok)
  next
    case (Some x)
    with w assms(3) t show ?thesis by (auto simp: publish_charge_def case_prod_beta)
  qed
qed

section \<open>The daily budget of a whole history\<close>

text \<open>
  A state with the log of what was published: the day charged and the bytes. The steps are the
  critical sections of the store in any order, the clock at any value, and crashes: a restart
  forgets everything but the receipt file.
\<close>

type_synonym budget_log = "(string \<times> nat) list"

definition day_total :: "string \<Rightarrow> budget_log \<Rightarrow> nat" where
  "day_total day l = (\<Sum>(d, n) \<leftarrow> l. if d = day then n else 0)"

inductive spool_step :: "spool \<times> budget_log \<Rightarrow> spool \<times> budget_log \<Rightarrow> bool" where
  Begin: "st_failure s = None \<Longrightarrow> canReserveLocked today s minimumReceiptCharge \<Longrightarrow>
    spool_step (s, l) (stage_begin s, l)"
| Charge: "i < length (st_staged s) \<Longrightarrow> \<not> sm_done (st_staged s ! i) \<Longrightarrow>
    quota_charge today i consumed n s = Some s' \<Longrightarrow> spool_step (s, l) (s', l)"
| File: "i < length (st_staged s) \<Longrightarrow>
    spool_step (s, l)
      (s\<lparr>st_files := f, st_staged := (st_staged s)[i := (st_staged s ! i)\<lparr>sm_path := p, sm_size := z\<rparr>]\<rparr>, l)"
| Drop: "i < length (st_staged s) \<Longrightarrow> spool_step (s, l) (discardLocked i s, l)"
| Charged: "i < length (st_staged s) \<Longrightarrow> \<not> sm_done (st_staged s ! i) \<Longrightarrow> st_failure s = None \<Longrightarrow>
    canReserveLocked today s 0 \<Longrightarrow> publish_charge today io i s = (Inr (), s') \<Longrightarrow>
    spool_step (s, l) (s', (fst (receiptUsageLocked today s), unat (sm_reserved (st_staged s ! i))) # l)"
| Failed: "i < length (st_staged s) \<Longrightarrow> \<not> sm_done (st_staged s ! i) \<Longrightarrow> st_failure s = None \<Longrightarrow>
    canReserveLocked today s 0 \<Longrightarrow> publish_charge today io i s = (Inl e, s') \<Longrightarrow>
    spool_step (s, l) (s', l)"
| Restart: "spool_step (s, l)
    (s\<lparr>st_receipt := st_receiptFile s, st_reservedBytes := 0, st_failure := None, st_staged := []\<rparr>, l)"

inductive spool_run :: "u64 \<Rightarrow> spool \<times> budget_log \<Rightarrow> bool" for limit :: u64 where
  Start: "spool_ok s \<Longrightarrow> st_maxDailyBytes s = limit \<Longrightarrow> spool_run limit (s, [])"
| Step: "spool_run limit x \<Longrightarrow> spool_step x y \<Longrightarrow> spool_run limit y"

definition log_covered :: "budget_log \<Rightarrow> dailyReceipt option \<Rightarrow> bool" where
  "log_covered l r \<longleftrightarrow>
     (\<forall>(d, n) \<in> set l. \<exists>u. r = Some u \<and> d \<le> dr_Day u) \<and>
     (\<forall>u. r = Some u \<longrightarrow> day_total (dr_Day u) l \<le> unat (dr_ChargedBytes u))"

lemma day_total_simps [simp]:
  "day_total day [] = 0"
  "day_total day ((d, n) # l) = (if d = day then n else 0) + day_total day l"
  by (simp_all add: day_total_def)

lemma day_total_absent: "\<forall>(d, n) \<in> set l. d \<noteq> day \<Longrightarrow> day_total day l = 0"
  by (induction l) auto

text \<open>The charge a publication computes covers the log with the message added to it.\<close>

lemma receipt_usage_covers:
  assumes "log_covered l (st_receipt s)"
  shows "\<forall>(d, n) \<in> set l. d \<le> fst (receiptUsageLocked today s)"
    and "day_total (fst (receiptUsageLocked today s)) l \<le> unat (snd (receiptUsageLocked today s))"
proof -
  have "(\<forall>(d, n) \<in> set l. d \<le> fst (receiptUsageLocked today s)) \<and>
    day_total (fst (receiptUsageLocked today s)) l \<le> unat (snd (receiptUsageLocked today s))"
  proof (cases "st_receipt s")
    case None
    with assms have "l = []" by (cases l) (auto simp: log_covered_def)
    then show ?thesis by simp
  next
    case (Some u)
    show ?thesis
    proof (cases "today \<le> dr_Day u")
      case True
      with Some assms show ?thesis by (auto simp: log_covered_def receiptUsageLocked_def)
    next
      case False
      have "d \<le> dr_Day u" if "(d, n) \<in> set l" for d n
        using assms that Some by (auto simp: log_covered_def)
      then have lt: "d < today" if "(d, n) \<in> set l" for d n
        using that False by (meson le_less_trans not_le)
      have le: "\<forall>(d, n) \<in> set l. d \<le> today" using lt by (auto intro: less_imp_le)
      have "\<forall>(d, n) \<in> set l. d \<noteq> today" using lt by auto
      then have "day_total today l = 0" by (rule day_total_absent)
      with le Some False show ?thesis by (simp add: receiptUsageLocked_def)
    qed
  qed
  then show "\<forall>(d, n) \<in> set l. d \<le> fst (receiptUsageLocked today s)"
    and "day_total (fst (receiptUsageLocked today s)) l \<le> unat (snd (receiptUsageLocked today s))" by simp_all
qed

lemma new_usage_covers:
  assumes "spool_ok s" "i < length (st_staged s)" "canReserveLocked today s 0" "log_covered l (st_receipt s)"
  defines "u \<equiv> \<lparr>dr_Day = fst (receiptUsageLocked today s),
                 dr_ChargedBytes = snd (receiptUsageLocked today s) + sm_reserved (st_staged s ! i)\<rparr>"
  shows "log_covered l (Some u)"
    and "log_covered ((dr_Day u, unat (sm_reserved (st_staged s ! i))) # l) (Some u)"
    and "dr_ChargedBytes u \<le> st_maxDailyBytes s"
proof -
  let ?c = "sm_reserved (st_staged s ! i)"
  have "unat ?c \<le> unat (st_reservedBytes s)"
    using reserved_le_sum [OF assms(2)] assms(1) by (simp add: spool_ok_def)
  then have le: "unat (snd (receiptUsageLocked today s)) + unat ?c \<le> unat (st_maxDailyBytes s)"
    using assms(3) unfolding canReserveLocked_nat by simp
  then have sum: "unat (snd (receiptUsageLocked today s) + ?c) = unat (snd (receiptUsageLocked today s)) + unat ?c"
    using unat_less_64 [of "st_maxDailyBytes s"] by (intro unat_add_u64) linarith
  show "dr_ChargedBytes u \<le> st_maxDailyBytes s" using le sum by (simp add: u_def u64_le)
  show "log_covered l (Some u)" "log_covered ((dr_Day u, unat ?c) # l) (Some u)"
    using receipt_usage_covers [OF assms(4), of today] sum
    by (auto simp: log_covered_def u_def)
qed

definition history_ok :: "u64 \<Rightarrow> spool \<times> budget_log \<Rightarrow> bool" where
  "history_ok limit x \<longleftrightarrow> (let (s, l) = x in
     spool_ok s \<and> st_maxDailyBytes s = limit \<and>
     log_covered l (st_receipt s) \<and> log_covered l (st_receiptFile s) \<and>
     (\<forall>day. day_total day l \<le> unat limit))"

lemma quota_charge_fields:
  "quota_charge today i consumed n s = Some s' \<Longrightarrow>
     st_maxDailyBytes s' = st_maxDailyBytes s \<and> st_receipt s' = st_receipt s \<and>
     st_receiptFile s' = st_receiptFile s \<and> st_failure s' = st_failure s \<and>
     st_files s' = st_files s \<and> length (st_staged s') = length (st_staged s)"
  by (auto simp: quota_charge_def Let_def split: if_splits)

lemma publish_charge_fields:
  assumes "publish_charge today io i s = (r, s')"
  defines "u \<equiv> \<lparr>dr_Day = fst (receiptUsageLocked today s),
                 dr_ChargedBytes = snd (receiptUsageLocked today s) + sm_reserved (st_staged s ! i)\<rparr>"
  shows "st_maxDailyBytes s' = st_maxDailyBytes s"
    and "r = Inr () \<Longrightarrow> st_receipt s' = Some u \<and> st_receiptFile s' = Some u"
    and "r = Inl e \<Longrightarrow> st_receipt s' = st_receipt s \<and> st_receiptFile s' \<in> {st_receiptFile s, Some u}"
proof -
  obtain x t where w: "writeReceipt io u s = (x, t)" by fastforce
  then have t: "st_maxDailyBytes t = st_maxDailyBytes s" "st_receipt t = st_receipt s"
      "st_receiptFile t \<in> {st_receiptFile s, Some u}" "x = None \<Longrightarrow> st_receiptFile t = Some u"
    by (auto simp: writeReceipt_def split: if_splits)
  show "st_maxDailyBytes s' = st_maxDailyBytes s"
    and "r = Inr () \<Longrightarrow> st_receipt s' = Some u \<and> st_receiptFile s' = Some u"
    and "r = Inl e \<Longrightarrow> st_receipt s' = st_receipt s \<and> st_receiptFile s' \<in> {st_receiptFile s, Some u}"
    using assms(1) w t by (cases x; auto simp: publish_charge_def case_prod_beta u_def [symmetric])+
qed

lemma spool_step_history:
  assumes "spool_step x y" "history_ok limit x"
  shows "history_ok limit y"
  using assms
proof (induction rule: spool_step.induct)
  case (Begin s today l)
  with stage_begin_ok [of s today] show ?case by (simp add: history_ok_def stage_begin_def)
next
  case (Charge i s today consumed n s' l)
  then have "spool_ok s'" using quota_charge_ok(1) [OF _ Charge(1-3)] by (auto simp only: history_ok_def prod.case Let_def)
  with Charge(4) quota_charge_fields [OF Charge(3)] show ?case by (simp add: history_ok_def)
next
  case (File i s)
  have files: "s\<lparr>st_files := g, st_staged := ms\<rparr> = (s\<lparr>st_staged := ms\<rparr>)\<lparr>st_files := g\<rparr>" for g ms by simp
  from File show ?case
    unfolding files using spool_ok_meta [OF _ File(1)] by (simp add: history_ok_def)
next
  case (Drop i s l)
  then show ?case by (simp add: history_ok_def discardLocked_ok)
next
  case (Charged i s today io s' l)
  then have s: "spool_ok s" "st_maxDailyBytes s = limit" "log_covered l (st_receipt s)"
      "\<forall>day. day_total day l \<le> unat limit" by (simp_all add: history_ok_def)
  note new = new_usage_covers [OF s(1) Charged(1,4) s(3)]
  note f = publish_charge_fields [OF Charged(5)]
  let ?e = "(fst (receiptUsageLocked today s), unat (sm_reserved (st_staged s ! i)))"
  have "day_total day (?e # l) \<le> unat limit" for day
  proof (cases "day = fst ?e")
    case True
    have "day_total (fst ?e) (?e # l) \<le>
        unat (snd (receiptUsageLocked today s) + sm_reserved (st_staged s ! i))"
      using new(2) by (auto simp: log_covered_def)
    also have "\<dots> \<le> unat limit" using new(3) s(2) by (simp add: u64_le)
    finally show ?thesis using True by simp
  next
    case False
    with s(4) show ?thesis by simp
  qed
  with new(2) f(1,2) s publish_charge_ok [OF s(1) Charged(1,5)] show ?case
    by (simp add: history_ok_def)
next
  case (Failed i s today io e s' l)
  then have s: "spool_ok s" "log_covered l (st_receipt s)" by (simp_all add: history_ok_def)
  note f = publish_charge_fields [OF Failed(5)]
  from new_usage_covers(1) [OF s(1) Failed(1,4) s(2)] f(1) f(3) [of e] publish_charge_ok [OF s(1) Failed(1,5)] Failed(6)
  show ?case by (auto simp: history_ok_def)
next
  case (Restart s l)
  then show ?case by (simp add: history_ok_def spool_ok_def reserved_sum_def)
qed

lemma spool_run_history: "spool_run limit x \<Longrightarrow> history_ok limit x"
proof (induction rule: spool_run.induct)
  case (Start s)
  then show ?case by (simp add: history_ok_def log_covered_def)
next
  case (Step x y)
  then show ?case using spool_step_history by blast
qed

section \<open>Staging a message\<close>

text \<open>
  The contract of the readers a message is staged from. What a reader will give is its bytes,
  its final error and what its connection will be left with; a read gives some of the bytes or
  the final error, never more than it was asked for, and touches nothing else.
\<close>

locale byte_source =
  fixes rd :: "'r \<Rightarrow> nat \<Rightarrow> string \<times> goerr option \<times> 'r"
    and content :: "'r \<Rightarrow> string \<times> goerr \<times> string"
    and rest :: "'r \<Rightarrow> string"
    and other :: "'r \<Rightarrow> 'k"
    and ok :: "'r \<Rightarrow> bool"
  assumes read: "ok r \<Longrightarrow> 0 < n \<Longrightarrow> rd r n = (bytes, err, r') \<Longrightarrow>
      ok r' \<and> length bytes \<le> n \<and> other r' = other r \<and>
      (case err of
         None \<Rightarrow> bytes \<noteq> [] \<and> content r = (bytes @ fst (content r'), snd (content r'))
       | Some e \<Rightarrow> bytes = [] \<and> content r = ([], e, rest r'))"

text \<open>The stage of a copy: the reservation covers what has been written to the file.\<close>

definition copying :: "nat \<Rightarrow> string \<Rightarrow> u64 \<Rightarrow> string \<Rightarrow> ('a :: type) spool_scheme \<Rightarrow> bool" where
  "copying i path consumed d s \<longleftrightarrow>
     spool_ok s \<and> i < length (st_staged s) \<and> \<not> sm_done (st_staged s ! i) \<and>
     unat (sm_reserved (st_staged s ! i)) = max 4096 (length d) \<and>
     unat consumed = length d \<and> st_files s path = Some d"

definition copied :: "nat \<Rightarrow> string \<Rightarrow> ('a :: type) spool_scheme \<Rightarrow> 'a spool_scheme \<Rightarrow> bool" where
  "copied i path s s' \<longleftrightarrow> (\<exists>r q f.
     s' = s\<lparr>st_reservedBytes := r, st_staged := (st_staged s)[i := (st_staged s ! i)\<lparr>sm_reserved := q\<rparr>],
            st_files := (st_files s)(path := f)\<rparr>)"

lemma copiedI:
  "s' = s\<lparr>st_reservedBytes := r, st_staged := (st_staged s)[i := (st_staged s ! i)\<lparr>sm_reserved := q\<rparr>],
     st_files := (st_files s)(path := f)\<rparr> \<Longrightarrow> copied i path s s'"
  unfolding copied_def by blast

lemma copied_refl: "copied i path s s"
  by (rule copiedI [where r = "st_reservedBytes s" and q = "sm_reserved (st_staged s ! i)" and f = "st_files s path"]) simp

lemma copied_charge:
  assumes "quota_charge today i consumed n s = Some t"
  shows "copied i path s (t\<lparr>st_files := (st_files t)(path := f)\<rparr>)" and "copied i path s t"
proof -
  obtain r q where t: "t = s\<lparr>st_reservedBytes := r, st_staged := (st_staged s)[i := (st_staged s ! i)\<lparr>sm_reserved := q\<rparr>]\<rparr>"
    using assms by (auto simp: quota_charge_def Let_def split: if_splits)
  show "copied i path s (t\<lparr>st_files := (st_files t)(path := f)\<rparr>)"
    by (rule copiedI [where r = r and q = q and f = f]) (simp add: t)
  show "copied i path s t"
    by (rule copiedI [where r = r and q = q and f = "st_files s path"]) (simp add: t)
qed

lemma copied_step:
  "i < length (st_staged s) \<Longrightarrow>
   copied i path (s\<lparr>st_reservedBytes := r, st_staged := (st_staged s)[i := (st_staged s ! i)\<lparr>sm_reserved := q\<rparr>],
     st_files := (st_files s)(path := f)\<rparr>) s' \<Longrightarrow> copied i path s s'"
  unfolding copied_def by auto

lemma mod_once: "\<not> x < m \<Longrightarrow> x < m + m \<Longrightarrow> x mod m = x - (m :: nat)"
proof -
  assume "\<not> x < m" "x < m + m"
  then obtain c where "x = m + c" "c < m" by (metis add_less_cancel_left le_add_diff_inverse not_less)
  then show ?thesis by simp
qed

lemma copying_step:
  assumes "copying i path consumed d s" "length bytes \<le> 32768"
    and "quota_charge today i consumed (length bytes) s = Some t"
  shows "copying i path (consumed + of_nat (length bytes)) (d @ bytes)
      (t\<lparr>st_files := (st_files t)(path := map_option (\<lambda>x. x @ bytes) (st_files t path))\<rparr>)"
    and "copied i path s (t\<lparr>st_files := (st_files t)(path := map_option (\<lambda>x. x @ bytes) (st_files t path))\<rparr>)"
proof -
  let ?m = "st_staged s ! i" and ?n = "of_nat (length bytes) :: u64"
  let ?charge = "max (consumed + ?n) minimumReceiptCharge"
  from assms(1) have c: "spool_ok s" "i < length (st_staged s)" "\<not> sm_done ?m"
      "unat (sm_reserved ?m) = max 4096 (length d)" "unat consumed = length d" "st_files s path = Some d"
    by (simp_all add: copying_def)
  from quota_charge_ok [OF c(1-3) assms(3)]
  have t: "spool_ok t" "sm_reserved ?m \<le> ?charge"
      "t = s\<lparr>st_reservedBytes := st_reservedBytes s + (?charge - sm_reserved ?m),
             st_staged := (st_staged s)[i := ?m\<lparr>sm_reserved := ?charge\<rparr>]\<rparr>" by blast+
  have n: "unat ?n = length bytes" using assms(2) by (intro unat_of_nat_u64) simp
  have min: "unat minimumReceiptCharge = 4096" by (simp add: minimumReceiptCharge_def)
  have mx: "unat (max a b) = max (unat a) (unat b)" for a b :: u64 by (simp add: max_def u64_le)
  have "unat consumed + unat ?n < 18446744073709551616"
  proof (rule ccontr)
    assume big: "\<not> unat consumed + unat ?n < 18446744073709551616"
    have "unat (consumed + ?n) = (unat consumed + unat ?n) mod 18446744073709551616"
      by (simp add: unat_word_ariths)
    also have "\<dots> = unat consumed + unat ?n - 18446744073709551616"
      using big unat_less_64 [of consumed] unat_less_64 [of ?n] by (intro mod_once; linarith)
    finally have "unat (consumed + ?n) < length bytes" using n unat_less_64 [of consumed] big by linarith
    then have "unat ?charge \<le> 32768" using assms(2) by (simp add: mx min)
    moreover have "unat (sm_reserved ?m) \<le> unat ?charge" using t(2) by (simp add: u64_le)
    ultimately show False using c(4,5) big n assms(2) by linarith
  qed
  then have sum: "unat (consumed + ?n) = length (d @ bytes)"
    using n c(5) by (simp add: unat_add_u64)
  then have "unat ?charge = max 4096 (length (d @ bytes))" by (simp add: mx min max.commute)
  moreover have "st_files t path = Some d" by (simp add: t(3) c(6))
  moreover have "st_staged t ! i = ?m\<lparr>sm_reserved := ?charge\<rparr>" "length (st_staged t) = length (st_staged s)"
    by (simp_all add: t(3) c(2))
  ultimately show "copying i path (consumed + ?n) (d @ bytes)
      (t\<lparr>st_files := (st_files t)(path := map_option (\<lambda>x. x @ bytes) (st_files t path))\<rparr>)"
    using t(1) sum c(2,3) by (simp only: copying_def spool_ok_files) simp
  show "copied i path s (t\<lparr>st_files := (st_files t)(path := map_option (\<lambda>x. x @ bytes) (st_files t path))\<rparr>)"
    by (rule copied_charge(1) [OF assms(3)])
qed

lemma copied_trans:
  assumes "i < length (st_staged s)" "copied i path s t" "copied i path t u"
  shows "copied i path s u"
proof -
  from assms(2) obtain r q f where "t = s\<lparr>st_reservedBytes := r,
      st_staged := (st_staged s)[i := (st_staged s ! i)\<lparr>sm_reserved := q\<rparr>], st_files := (st_files s)(path := f)\<rparr>"
    by (auto simp: copied_def)
  with assms(3) show ?thesis using copied_step [OF assms(1)] by simp
qed

context byte_source begin

text \<open>With fuel for every byte the copy ends; it succeeds only at the end of the content.\<close>

lemma stage_copy_spec:
  assumes "stage_copy fuel io rd i k path consumed src s = (res, src', s')"
    and "ok src" "copying i path consumed d s" "length (fst (content src)) < fuel"
  shows "ok src' \<and> other src' = other src \<and> copied i path s s' \<and> spool_ok s' \<and>
    (case res of
       Inr w \<Rightarrow> snd (content src) = (IoEOF, rest src') \<and> w = length (fst (content src)) \<and>
               copying i path (of_nat (length (d @ fst (content src)))) (d @ fst (content src)) s'
     | Inl e \<Rightarrow> e = ErrDailyLimit \<or> e = fst (snd (content src)) \<and> e \<noteq> IoEOF \<or> (\<exists>j. io_write io j = Some e))"
  using assms
proof (induction fuel arbitrary: k consumed d src s res src' s')
  case (Suc fuel)
  obtain bytes err src1 where r: "rd src 32768 = (bytes, err, src1)" by (metis prod_cases3)
  from read [OF Suc.prems(2) _ r] have ok1: "ok src1" "other src1 = other src" and len: "length bytes \<le> 32768"
    and err: "case err of
         None \<Rightarrow> bytes \<noteq> [] \<and> content src = (bytes @ fst (content src1), snd (content src1))
       | Some e \<Rightarrow> bytes = [] \<and> content src = ([], e, rest src1)" by simp_all
  have s: "spool_ok s" "i < length (st_staged s)" using Suc.prems(3) by (simp_all add: copying_def)
  show ?case
  proof (cases err)
    case (Some e)
    with err have e: "bytes = []" "content src = ([], e, rest src1)" by simp_all
    have "of_nat (length d) = consumed" using Suc.prems(3) unfolding copying_def by (metis of_nat_unat_u64)
    then show ?thesis
      using Suc.prems(1,3) r e Some s copied_refl ok1
      by (cases "e = IoEOF") auto
  next
    case None
    with err have bytes: "bytes \<noteq> []" and cont: "content src = (bytes @ fst (content src1), snd (content src1))"
      by simp_all
    show ?thesis
    proof (cases "quota_charge (io_day io (Suc k)) i consumed (length bytes) s")
      case none: None
      with Suc.prems(1) r None bytes s copied_refl ok1 show ?thesis by auto
    next
      case (Some t)
      let ?t = "t\<lparr>st_files := (st_files t)(path := map_option (\<lambda>x. x @ bytes) (st_files t path))\<rparr>"
      note step = copying_step [OF Suc.prems(3) len Some]
      show ?thesis
      proof (cases "io_write io k")
        case w: (Some e)
        have "copied i path s t"
          by (rule copied_charge(2) [OF Some])
        moreover have "spool_ok t"
          using step(1) by (simp add: copying_def)
        ultimately show ?thesis
          using Suc.prems(1) r None Some bytes w ok1 by auto
      next
        case w: None
        obtain res2 src2 s2 where rec: "stage_copy fuel io rd i (Suc k) path
            (consumed + of_nat (length bytes)) src1 ?t = (res2, src2, s2)" by (metis prod_cases3)
        have fuel: "length (fst (content src1)) < fuel"
          using Suc.prems(4) cont bytes by (cases bytes) simp_all
        note IH = Suc.IH [OF rec ok1(1) step(1) fuel]
        have out: "res = map_sum id ((+) (length bytes)) res2" "src' = src2" "s' = s2"
          using Suc.prems(1) r None Some bytes w rec by (auto simp: Let_def)
        have "copied i path s s2" using copied_trans [OF s(2) step(2)] IH by blast
        with IH cont out ok1(2) show ?thesis by (cases res2) auto
      qed
    qed
  qed
qed simp

end

text \<open>Without failures of the system and with room in the budget, the copy succeeds.\<close>

definition budget_room :: "stage_io \<Rightarrow> nat \<Rightarrow> nat \<Rightarrow> ('a :: type) spool_scheme \<Rightarrow> bool" where
  "budget_room io i n s \<longleftrightarrow>
     (\<forall>j. unat (snd (receiptUsageLocked (io_day io j) s)) + unat (st_reservedBytes s) + n
           \<le> unat (st_maxDailyBytes s) + unat (sm_reserved (st_staged s ! i)))"

lemma quota_charge_room:
  assumes "copying i path consumed d s" "budget_room io i n s" "max 4096 (length (d @ bytes)) \<le> n"
    and "length bytes \<le> 32768"
  shows "\<exists>t. quota_charge (io_day io k) i consumed (length bytes) s = Some t \<and>
    budget_room io i n (t\<lparr>st_files := f\<rparr>)"
proof -
  let ?m = "st_staged s ! i" and ?n = "of_nat (length bytes) :: u64"
  let ?charge = "max (consumed + ?n) minimumReceiptCharge"
  from assms(1) have c: "spool_ok s" "i < length (st_staged s)" "unat (sm_reserved ?m) = max 4096 (length d)"
      "unat consumed = length d" by (simp_all add: copying_def)
  have room: "unat (snd (receiptUsageLocked (io_day io j) s)) + unat (st_reservedBytes s) + n
      \<le> unat (st_maxDailyBytes s) + unat (sm_reserved ?m)" for j
    using assms(2) by (simp add: budget_room_def)
  have res: "unat (sm_reserved ?m) \<le> unat (st_reservedBytes s)"
    using reserved_le_sum [OF c(2)] c(1) by (simp add: spool_ok_def)
  have n: "unat ?n = length bytes" using assms(4) by (intro unat_of_nat_u64) simp
  have "n \<le> unat (st_maxDailyBytes s)" using room [of k] res by linarith
  then have "unat consumed + unat ?n < 18446744073709551616"
  proof -
    have "length d + length bytes \<le> n" using assms(3) by simp
    with \<open>n \<le> unat (st_maxDailyBytes s)\<close> n c(4) unat_less_64 [of "st_maxDailyBytes s"] show ?thesis
      by linarith
  qed
  then have "unat (consumed + ?n) = length (d @ bytes)" using n c(4) by (simp add: unat_add_u64)
  moreover have mx: "unat (max a b) = max (unat a) (unat b)" for a b :: u64 by (simp add: max_def u64_le)
  moreover have "unat minimumReceiptCharge = 4096" by (simp add: minimumReceiptCharge_def)
  ultimately have charge: "unat ?charge = max 4096 (length (d @ bytes))" by (simp only: mx max.commute)
  then have "sm_reserved ?m \<le> ?charge" using c(3) by (simp add: u64_le)
  then have extra: "unat (?charge - sm_reserved ?m) = unat ?charge - unat (sm_reserved ?m)"
      "unat (sm_reserved ?m) \<le> unat ?charge"
    by (simp_all add: unat_sub_u64 u64_le)
  have can: "canReserveLocked (io_day io k) s (?charge - sm_reserved ?m)"
    unfolding canReserveLocked_nat extra using room [of k] charge extra(2) assms(3) by linarith
  have cond: "(if consumed + ?n < minimumReceiptCharge then minimumReceiptCharge else consumed + ?n) = ?charge"
    by (auto simp: max_def)
  let ?t = "s\<lparr>st_reservedBytes := st_reservedBytes s + (?charge - sm_reserved ?m),
             st_staged := (st_staged s)[i := ?m\<lparr>sm_reserved := ?charge\<rparr>]\<rparr>"
  have q: "quota_charge (io_day io k) i consumed (length bytes) s = Some ?t"
    unfolding quota_charge_def Let_def cond using can by simp
  have "unat (st_reservedBytes s) + unat (?charge - sm_reserved ?m) \<le> unat (st_maxDailyBytes s)"
    using can unfolding canReserveLocked_nat by linarith
  then have "unat (st_reservedBytes s + (?charge - sm_reserved ?m)) =
      unat (st_reservedBytes s) + unat (?charge - sm_reserved ?m)"
    using unat_less_64 [of "st_maxDailyBytes s"] by (intro unat_add_u64) linarith
  then have sum: "unat (st_reservedBytes s + (?charge - sm_reserved ?m)) + unat (sm_reserved ?m) =
      unat (st_reservedBytes s) + unat ?charge"
    using extra by linarith
  have usage: "receiptUsageLocked day (?t\<lparr>st_files := f\<rparr>) = receiptUsageLocked day s" for day
    by (simp add: receiptUsageLocked_def)
  have fields: "st_reservedBytes (?t\<lparr>st_files := f\<rparr>) = st_reservedBytes s + (?charge - sm_reserved ?m)"
      "sm_reserved (st_staged (?t\<lparr>st_files := f\<rparr>) ! i) = ?charge"
      "st_maxDailyBytes (?t\<lparr>st_files := f\<rparr>) = st_maxDailyBytes s"
    using c(2) by simp_all
  have "budget_room io i n (?t\<lparr>st_files := f\<rparr>)"
    unfolding budget_room_def usage fields
  proof
    fix j
    show "unat (snd (receiptUsageLocked (io_day io j) s)) + unat (st_reservedBytes s + (?charge - sm_reserved ?m)) + n
        \<le> unat (st_maxDailyBytes s) + unat ?charge"
      using room [of j] sum by linarith
  qed
  with q show ?thesis by blast
qed

context byte_source begin

lemma stage_copy_succeeds:
  assumes "ok src" "copying i path consumed d s" "length (fst (content src)) < fuel"
    and "fst (snd (content src)) = IoEOF" "\<And>j. io_write io j = None"
    and "budget_room io i n s" "max 4096 (length (d @ fst (content src))) \<le> n"
  shows "\<exists>w. fst (stage_copy fuel io rd i k path consumed src s) = Inr w"
  using assms
proof (induction fuel arbitrary: k consumed d src s)
  case (Suc fuel)
  obtain bytes err src1 where r: "rd src 32768 = (bytes, err, src1)" by (metis prod_cases3)
  from read [OF Suc.prems(1) _ r] have ok1: "ok src1" and len: "length bytes \<le> 32768"
    and err: "case err of
         None \<Rightarrow> bytes \<noteq> [] \<and> content src = (bytes @ fst (content src1), snd (content src1))
       | Some e \<Rightarrow> bytes = [] \<and> content src = ([], e, rest src1)" by simp_all
  show ?case
  proof (cases err)
    case (Some e)
    with err Suc.prems(4) r show ?thesis by simp
  next
    case None
    with err have bytes: "bytes \<noteq> []" and cont: "content src = (bytes @ fst (content src1), snd (content src1))"
      by simp_all
    have le: "max 4096 (length (d @ bytes)) \<le> n" using Suc.prems(7) cont by simp
    from quota_charge_room [OF Suc.prems(2,6) le len] obtain t where t:
      "quota_charge (io_day io (Suc k)) i consumed (length bytes) s = Some t"
      "\<And>f. budget_room io i n (t\<lparr>st_files := f\<rparr>)"
      by (metis option.inject)
    let ?t = "t\<lparr>st_files := (st_files t)(path := map_option (\<lambda>x. x @ bytes) (st_files t path))\<rparr>"
    have fuel: "length (fst (content src1)) < fuel"
      using Suc.prems(3) cont bytes by (cases bytes) simp_all
    have "\<exists>w. fst (stage_copy fuel io rd i (Suc k) path (consumed + of_nat (length bytes)) src1 ?t) = Inr w"
      using Suc.prems(4,7) cont
      by (intro Suc.IH [OF ok1 copying_step(1) [OF Suc.prems(2) len t(1)] fuel _ Suc.prems(5) t(2)]) simp_all
    then show ?thesis
      using r None t(1) bytes Suc.prems(5) by (auto simp: case_prod_beta Let_def)
  qed
qed simp

end

text \<open>The calls of the operating system that staging makes all succeed.\<close>

definition stage_io_ok :: "stage_io \<Rightarrow> bool" where
  "stage_io_ok io \<longleftrightarrow> io_mkdir io = None \<and> (\<forall>j. io_write io j = None) \<and> io_sync io = None \<and> io_close io = None"

context byte_source begin

lemma Stage_succeeds:
  assumes "ok src" "spool_ok s" "length (fst (content src)) < fuel" "fst (snd (content src)) = IoEOF"
    and "stage_io_ok io" "io_create io = Inr path" "st_failure s = None"
    and "\<And>j. unat (snd (receiptUsageLocked (io_day io j) s)) + unat (st_reservedBytes s) +
           max 4096 (length (fst (content src))) \<le> unat (st_maxDailyBytes s)"
  shows "\<exists>i. fst (Stage fuel io rd src s) = Inr i"
proof -
  let ?i = "length (st_staged s)" and ?b = "stage_begin s"
  let ?s = "?b\<lparr>st_staged := (st_staged ?b)[?i := (st_staged ?b ! ?i)\<lparr>sm_path := path\<rparr>],
               st_files := (st_files ?b)(path := Some [])\<rparr>"
  let ?n = "max 4096 (length (fst (content src)))"
  have min: "unat minimumReceiptCharge = 4096" by (simp add: minimumReceiptCharge_def)
  have can: "canReserveLocked (io_day io 0) s minimumReceiptCharge"
    unfolding canReserveLocked_nat min using assms(8) [of 0] by linarith
  have b: "spool_ok ?b" by (rule stage_begin_ok [OF assms(2) can])
  have "spool_ok ?s"
    using spool_ok_meta [OF b, where i = ?i and p = path and z = 0] by (simp add: stage_begin_def spool_ok_def reserved_sum_def)
  then have start: "copying ?i path 0 [] ?s"
    by (simp add: copying_def stage_begin_def minimumReceiptCharge_def nth_append)
  have "unat (st_reservedBytes s) + unat minimumReceiptCharge < 18446744073709551616"
    using assms(8) [of 0] min unat_less_64 [of "st_maxDailyBytes s"] by linarith
  then have sum: "unat (st_reservedBytes s + minimumReceiptCharge) = unat (st_reservedBytes s) + 4096"
    by (simp only: unat_add_u64 min)
  have usage: "receiptUsageLocked day ?s = receiptUsageLocked day s" for day
    by (simp add: receiptUsageLocked_def stage_begin_def)
  have fields: "st_reservedBytes ?s = st_reservedBytes s + minimumReceiptCharge"
      "sm_reserved (st_staged ?s ! ?i) = minimumReceiptCharge" "st_maxDailyBytes ?s = st_maxDailyBytes s"
    by (simp_all add: stage_begin_def nth_append)
  have "budget_room io ?i ?n ?s"
    unfolding budget_room_def usage fields min sum
  proof
    fix j
    show "unat (snd (receiptUsageLocked (io_day io j) s)) + (unat (st_reservedBytes s) + 4096) + ?n
        \<le> unat (st_maxDailyBytes s) + 4096" using assms(8) [of j] by linarith
  qed
  from stage_copy_succeeds [OF assms(1) start assms(3,4) _ this]
  obtain w where "fst (stage_copy fuel io rd ?i 0 path 0 src ?s) = Inr w"
    using assms(5) by (auto simp: stage_io_ok_def)
  then show ?thesis
    using assms(5-7) can by (auto simp: Stage_def stage_file_def stage_io_ok_def Let_def case_prod_beta)
qed

text \<open>A message that was staged is the whole content, and its reservation covers it.\<close>

lemma Stage_Inr:
  assumes "Stage fuel io rd src s = (Inr i, src', s')" "ok src" "spool_ok s" "length (fst (content src)) < fuel"
    and "io_create io = Inr path" "path \<noteq> []"
  shows "i = length (st_staged s) \<and> snd (content src) = (IoEOF, rest src') \<and> ok src' \<and>
    other src' = other src \<and> spool_ok s' \<and>
    staged_Open i s' = Inr (fst (content src)) \<and>
    (\<exists>r q. s' = s\<lparr>st_reservedBytes := r,
       st_staged := st_staged s @ [\<lparr>sm_path = path, sm_size = of_nat (length (fst (content src))),
         sm_reserved = q, sm_done = False\<rparr>],
       st_files := (st_files s)(path := Some (fst (content src)))\<rparr> \<and>
     unat q = max 4096 (length (fst (content src))))"
proof -
  from assms(1) have can: "st_failure s = None" "canReserveLocked (io_day io 0) s minimumReceiptCharge"
    by (auto simp: Stage_def split: option.splits if_splits)
  let ?i = "length (st_staged s)" and ?b = "stage_begin s"
  let ?s = "?b\<lparr>st_staged := (st_staged ?b)[?i := (st_staged ?b ! ?i)\<lparr>sm_path := path\<rparr>],
               st_files := (st_files ?b)(path := Some [])\<rparr>"
  obtain res src2 s2 where cp: "stage_copy fuel io rd ?i 0 path 0 src ?s = (res, src2, s2)" by (metis prod_cases3)
  from assms(1,5) can cp have res: "\<exists>w. res = Inr w \<and> i = ?i \<and> src' = src2 \<and>
      s' = s2\<lparr>st_staged := (st_staged s2)[?i := (st_staged s2 ! ?i)\<lparr>sm_size := of_nat w\<rparr>]\<rparr>"
    by (auto simp: Stage_def stage_file_def Let_def split: option.splits if_splits sum.splits)
  have b: "spool_ok ?b" by (rule stage_begin_ok [OF assms(3) can(2)])
  have "spool_ok ?s"
    using spool_ok_meta [OF b, where i = ?i and p = path and z = 0] by (simp add: stage_begin_def spool_ok_def reserved_sum_def)
  then have start: "copying ?i path 0 [] ?s"
    by (simp add: copying_def stage_begin_def minimumReceiptCharge_def nth_append)
  from res obtain w where w: "res = Inr w" by blast
  from stage_copy_spec [OF cp assms(2) start assms(4)] w
  have st: "ok src2 \<and> other src2 = other src" "copied ?i path ?s s2" "snd (content src) = (IoEOF, rest src2)" "w = length (fst (content src))"
    "copying ?i path (of_nat (length (fst (content src)))) (fst (content src)) s2" by simp_all
  from st(2) obtain r q f where s2: "s2 = ?s\<lparr>st_reservedBytes := r,
      st_staged := (st_staged ?s)[?i := (st_staged ?s ! ?i)\<lparr>sm_reserved := q\<rparr>],
      st_files := (st_files ?s)(path := f)\<rparr>" by (auto simp: copied_def)
  have f: "f = Some (fst (content src))" and q: "unat q = max 4096 (length (fst (content src)))"
    using st(5) by (simp_all add: s2 copying_def stage_begin_def nth_append)
  have s': "s' = s\<lparr>st_reservedBytes := r,
       st_staged := st_staged s @ [\<lparr>sm_path = path, sm_size = of_nat (length (fst (content src))),
         sm_reserved = q, sm_done = False\<rparr>],
       st_files := (st_files s)(path := Some (fst (content src)))\<rparr>"
    using res w st(4) f by (auto simp: s2 stage_begin_def nth_append)
  have "spool_ok s2" using st(5) by (simp add: copying_def)
  then have "spool_ok s'" using s' f by (simp add: s2 stage_begin_def spool_ok_def reserved_sum_def nth_append)
  moreover have "staged_Open ?i s' = Inr (fst (content src))"
    using assms(6) by (simp add: s' staged_Open_def nth_append)
  ultimately show ?thesis using res w st(1,3) s' q by blast
qed

text \<open>After a failure the reservation is given back and the file is gone.\<close>

lemma Stage_Inl:
  assumes "Stage fuel io rd src s = (Inl e, src', s')" "ok src" "spool_ok s" "length (fst (content src)) < fuel"
    and "\<And>path. io_create io = Inr path \<Longrightarrow> path \<noteq> [] \<and> st_files s path = None"
  shows "ok src' \<and> other src' = other src \<and> spool_ok s' \<and> (\<exists>ms. (\<forall>m \<in> set ms. sm_done m) \<and> s' = s\<lparr>st_staged := st_staged s @ ms\<rparr>)"
proof -
  let ?i = "length (st_staged s)" and ?b = "stage_begin s"
  have none: ?thesis if "s' = s" "src' = src"
    using that assms(2,3) by (simp add: exI [of _ "[]"])
  show ?thesis
  proof (cases "st_failure s = None \<and> canReserveLocked (io_day io 0) s minimumReceiptCharge")
    case False
    with assms(1) none show ?thesis by (auto simp: Stage_def split: option.splits if_splits)
  next
    case True
    note b = stage_begin_ok [OF assms(3) conjunct2 [OF True]]
    have sb: "reserved_sum (st_staged s) = unat (st_reservedBytes s)" using assms(3) by (simp add: spool_ok_def)
    have drop: "\<exists>ms. (\<forall>m \<in> set ms. sm_done m) \<and> Discard ?i t = s\<lparr>st_staged := st_staged s @ ms\<rparr>"
      if t: "spool_ok t" "t = s\<lparr>st_reservedBytes := r, st_staged := st_staged s @ [m], st_files := g\<rparr>"
        "\<not> sm_done m" "g = st_files s \<or> (g = (st_files s)(sm_path m := None) \<and> st_files s (sm_path m) = None)"
        "sm_path m = [] \<or> st_files s (sm_path m) = None" for t r m g
    proof -
      have g: "g = st_files s" using t(4) by auto
      have "unat r = unat (st_reservedBytes s) + unat (sm_reserved m)"
        using t(1) sb by (simp add: t(2) spool_ok_def reserved_sum_def)
      then have "unat (r - sm_reserved m) = unat (st_reservedBytes s)"
        by (simp add: unat_sub_u64 u64_le)
      then have r: "r - sm_reserved m = st_reservedBytes s" by (simp only: u64_eq_iff)
      have "(st_files s)(sm_path m := None) = st_files s" if "sm_path m \<noteq> []" using t(5) that by auto
      then show ?thesis
        using t(3) r by (intro exI [of _ "[m\<lparr>sm_reserved := 0, sm_done := True\<rparr>]"])
          (auto simp: t(2) g Discard_def discardLocked_def removeFile_def Let_def nth_append)
    qed
    have early: ?thesis if "s' = Discard ?i ?b" "src' = src"
      using drop [OF b, where r = "st_reservedBytes ?b" and g = "st_files s" and
          m = "\<lparr>sm_path = [], sm_size = 0, sm_reserved = minimumReceiptCharge, sm_done = False\<rparr>"] discardLocked_ok [OF b, of ?i] assms(2) that
      by (simp add: stage_begin_def Discard_def)
    show ?thesis
    proof (cases "io_mkdir io = None \<and> (\<exists>path. io_create io = Inr path)")
      case False
      with assms(1) True early show ?thesis
        by (auto simp: Stage_def stage_file_def split: option.splits sum.splits)
    next
      case mk: True
      then obtain path where path: "io_create io = Inr path" by blast
      note fresh = assms(5) [OF path]
      let ?s = "?b\<lparr>st_staged := (st_staged ?b)[?i := (st_staged ?b ! ?i)\<lparr>sm_path := path\<rparr>],
               st_files := (st_files ?b)(path := Some [])\<rparr>"
      obtain res src2 s2 where cp: "stage_copy fuel io rd ?i 0 path 0 src ?s = (res, src2, s2)" by (metis prod_cases3)
      have "spool_ok ?s"
        using spool_ok_meta [OF b, where i = ?i and p = path and z = 0] by (simp add: stage_begin_def spool_ok_def reserved_sum_def)
      then have start: "copying ?i path 0 [] ?s"
        by (simp add: copying_def stage_begin_def minimumReceiptCharge_def nth_append)
      from stage_copy_spec [OF cp assms(2) start assms(4)]
      have st: "ok src2 \<and> other src2 = other src" "copied ?i path ?s s2" "spool_ok s2" by simp_all
      from st(2) obtain r q f where s2: "s2 = ?s\<lparr>st_reservedBytes := r,
          st_staged := (st_staged ?s)[?i := (st_staged ?s ! ?i)\<lparr>sm_reserved := q\<rparr>],
          st_files := (st_files ?s)(path := f)\<rparr>" by (auto simp: copied_def)
      let ?t = "s2\<lparr>st_files := (st_files s2)(path := None)\<rparr>"
      have out: "s' = Discard ?i ?t" "src' = src2"
        using assms(1) True mk path cp
        by (auto simp: Stage_def stage_file_def Let_def split: option.splits sum.splits)
      have "spool_ok ?t" using st(3) by simp
      from drop [OF this, where r = r and g = "(st_files s)(path := None)" and
          m = "\<lparr>sm_path = path, sm_size = 0, sm_reserved = q, sm_done = False\<rparr>"] fresh out st(1) discardLocked_ok [OF this, of ?i]
      show ?thesis by (simp add: s2 stage_begin_def nth_append Discard_def)
    qed
  qed
qed

end
section \<open>Properties\<close>



end
