(* ===== verification/Smtp_Stage.thy ===== *)
theory Smtp_Stage
  imports Receipts Smtp_Data
begin

text \<open>
  Staging the DATA of an SMTP session: the reader of \<open>Smtp_Data\<close> meets the contract of the
  readers that \<open>Stage\<close> of \<open>Receipts\<close> copies from, so the staged file is the trace headers
  and the canonical message, and the connection is left at the byte after the terminator.
\<close>

text \<open>The parts of a source that reading does not change.\<close>

definition source_other :: "data_source \<Rightarrow> goerr \<times> string \<times> nat option" where
  "source_other src = (let c = dr_reader (ds_data src) in (cn_end c, cn_out c, cn_room c))"

lemma source_Read_length: "source_Read s n = (bytes, err, s') \<Longrightarrow> length bytes \<le> n"
  by (auto simp: source_Read_def dataReader_Read_def copy_pending_def Let_def
      split: if_splits prod.splits sum.splits)

interpretation smtp_source: byte_source source_Read ds_view
  "\<lambda>src. cn_stream (dr_reader (ds_data src))" source_other ds_ok
proof
  fix r r' n bytes err
  assume a: "ds_ok r" "0 < n" "source_Read r n = (bytes, err, r')"
  from source_Read_view [OF a] source_Read_length [OF a(3)]
  show "ds_ok r' \<and> length bytes \<le> n \<and> source_other r' = source_other r \<and>
      (case err of
         None \<Rightarrow> bytes \<noteq> [] \<and> ds_view r = (bytes @ fst (ds_view r'), snd (ds_view r'))
       | Some e \<Rightarrow> bytes = [] \<and> ds_view r = ([], e, cn_stream (dr_reader (ds_data r'))))"
    by (auto simp: source_other_def same_writer_def Let_def)
qed

text \<open>Fuel for a source: every line of the stream grows by one byte at most.\<close>

definition source_fuel :: "data_source \<Rightarrow> nat" where
  "source_fuel src =
     Suc (length (ds_head src) + length (dr_pending (ds_data src)) +
          2 * length (cn_stream (dr_reader (ds_data src))))"

lemma length_canonical_unstuff: "length (canonicalDataLine (unstuff (l @ [LF]))) \<le> Suc (length (l @ [LF]))"
proof -
  obtain k where k: "unstuff (l @ [LF]) = k @ [LF]" using unstuff_line by blast
  have "length (unstuff (l @ [LF])) \<le> length (l @ [LF])" by (simp add: unstuff_def)
  with k have "unstuff (l @ [LF]) = k @ [LF]" "length k \<le> length l" by simp_all
  then show ?thesis
    using length_trim_suffix_le [of k "[CR]"] by (simp add: canonicalDataLine_def)
qed

lemma length_data_body: "length (fst (data_body m n e s)) \<le> 2 * length s"
proof (induction m n e s rule: data_body.induct)
  case (1 m n e s)
  obtain res u where p: "limited_line maxDataLineBytes e s = (res, u)" by fastforce
  show ?case
  proof (cases res)
    case (Inl err)
    with p show ?thesis by (simp add: data_body.simps [of m n e s])
  next
    case (Inr line)
    from limited_line_Inr [of maxDataLineBytes e s line u] p Inr obtain l where
      l: "s = line @ u" "line = l @ [LF]" by auto
    let ?l = "canonicalDataLine (unstuff line)"
    let ?n = "int64 (n + int (length ?l))"
    have len: "length ?l \<le> 2 * length line" using length_canonical_unstuff [of l] by (simp add: l(2))
    show ?thesis
    proof (cases "is_terminator line \<or> maxDataLineBytes < length ?l \<or> m < ?n")
      case True
      with p Inr show ?thesis by (auto simp: data_body.simps [of m n e s] Let_def)
    next
      case False
      have "length (fst (data_body m ?n e u)) \<le> 2 * length u"
        using "1.IH" [OF p [symmetric] Inr _ refl refl] False by simp
      moreover have "fst (data_body m n e s) = ?l @ fst (data_body m ?n e u)"
        using p Inr False by (simp add: data_body.simps [of m n e s] Let_def case_prod_beta)
      ultimately show ?thesis using len by (simp add: l(1))
    qed
  qed
qed

lemma source_fuel_enough: "length (fst (ds_view src)) < source_fuel src"
proof -
  let ?r = "ds_data src"
  have "length (fst (dr_view ?r)) \<le> length (dr_pending ?r) + 2 * length (cn_stream (dr_reader ?r))"
    using length_data_body [of "dr_maxBytes ?r" "dr_bytesRead ?r" "cn_end (dr_reader ?r)" "cn_stream (dr_reader ?r)"]
    by (simp add: dr_view_def case_prod_beta)
  then show ?thesis by (simp add: ds_view_def source_fuel_def case_prod_beta)
qed

section \<open>Properties\<close>

text \<open>C9: A client that stuffs its dots gets every message through unchanged: staging the DATA
  of such a client stores the trace headers followed by the client's lines, each ended by CR LF,
  and the next command is read from the byte after the terminator, however the network cut
  the bytes.\<close>

theorem data_transparency:
  assumes "\<forall>l \<in> set ls. LF \<notin> set l \<and> length (dot_stuff l) + 2 \<le> 1000"
    and "int (length (crlf_lines ls)) \<le> maxBytes" "maxBytes < 2 ^ 63"
    and "cn_stream c = client_data ls @ t" "conn_ok c"
    and "src = \<lparr>ds_head = headers, ds_data = \<lparr>dr_reader = c, dr_pending = [], dr_done = False,
           dr_maxBytes = maxBytes, dr_bytesRead = 0\<rparr>\<rparr>"
    and "spool_ok s" "st_failure s = None" "stage_io_ok io" "io_create io = Inr path" "path \<noteq> []"
    and "\<forall>j. unat (snd (receiptUsageLocked (io_day io j) s)) + unat (st_reservedBytes s) +
           max 4096 (length (headers @ crlf_lines ls)) \<le> unat (st_maxDailyBytes s)"
  shows "\<exists>i src' s'. Stage (source_fuel src) io source_Read src s = (Inr i, src', s') \<and>
    staged_Open i s' = Inr (headers @ crlf_lines ls) \<and> cn_stream (dr_reader (ds_data src')) = t"
proof -
  have "data_body maxBytes 0 (cn_end c) (client_data ls @ t) = (crlf_lines ls, IoEOF, t)"
    using assms(1-3) by (intro data_body_client) simp_all
  then have view: "ds_view src = (headers @ crlf_lines ls, IoEOF, t)"
    using assms(4,6) by (simp add: ds_view_def dr_view_def)
  have ok: "ds_ok src" using assms(5,6) by (simp add: ds_ok_def)
  have "\<exists>i. fst (Stage (source_fuel src) io source_Read src s) = Inr i"
    using assms(12) by (intro smtp_source.Stage_succeeds [OF ok assms(7) source_fuel_enough _ assms(9,10,8)])
      (simp_all add: view)
  then obtain i src' s' where st: "Stage (source_fuel src) io source_Read src s = (Inr i, src', s')"
    by (metis prod_cases3 fst_conv)
  from smtp_source.Stage_Inr [OF st ok assms(7) source_fuel_enough assms(10,11)] view st
  show ?thesis by auto
qed

lemma data_transparency_witness:
  "\<exists>i src' s'. Stage (source_fuel
       \<lparr>ds_head = ''Return-Path: <>'' @ CRLF, ds_data = \<lparr>dr_reader =
          \<lparr>cn_buf = ''..'', cn_reads = [''hi'' @ [CR], LF # ''.'' @ CRLF @ ''QUIT''], cn_end = IoEOF,
           cn_out = [], cn_room = None\<rparr>, dr_pending = [], dr_done = False,
         dr_maxBytes = 1000, dr_bytesRead = 0\<rparr>\<rparr>)
      \<lparr>io_mkdir = None, io_create = Inr ''tmp/.message-1'', io_write = (\<lambda>_. None), io_sync = None,
       io_close = None, io_day = (\<lambda>_. ''2026-01-01'')\<rparr> source_Read
       \<lparr>ds_head = ''Return-Path: <>'' @ CRLF, ds_data = \<lparr>dr_reader =
          \<lparr>cn_buf = ''..'', cn_reads = [''hi'' @ [CR], LF # ''.'' @ CRLF @ ''QUIT''], cn_end = IoEOF,
           cn_out = [], cn_room = None\<rparr>, dr_pending = [], dr_done = False,
         dr_maxBytes = 1000, dr_bytesRead = 0\<rparr>\<rparr>
       \<lparr>st_maxDailyBytes = 8192, st_receipt = None, st_receiptFile = None, st_reservedBytes = 0,
        st_failure = None, st_staged = [], st_files = Map.empty\<rparr> = (Inr i, src', s') \<and>
     staged_Open i s' = Inr ((''Return-Path: <>'' @ CRLF) @ crlf_lines [''.hi'']) \<and>
     cn_stream (dr_reader (ds_data src')) = ''QUIT''"
  by (rule data_transparency [where maxBytes = 1000 and path = "''tmp/.message-1''"
        and c = "\<lparr>cn_buf = ''..'', cn_reads = [''hi'' @ [CR], LF # ''.'' @ CRLF @ ''QUIT''], cn_end = IoEOF,
           cn_out = [], cn_room = None\<rparr>"])
     (simp_all add: dot_stuff_def has_prefix_def crlf_lines_def client_data_def cn_stream_def conn_ok_def
        maxDataLineBytes_def spool_ok_def reserved_sum_def stage_io_ok_def receiptUsageLocked_def)

end
