(* ===== verification/Id_Path.thy ===== *)
theory Id_Path
  imports Go_Strings
begin

text \<open>
  \<open>internal/archive/idpath.go\<close>: the path of a message in the committed Git tree. An
  archive ID is written in base 1024, most significant digit first, below a directory that
  names the number of digits; the file name also carries the message size. The lemmas show
  that printing and parsing are inverse, that a path is canonical and harmless in a Git
  command, that a directory holds at most 1024 IDs, and that the byte-wise order of directory
  paths is the numeric order of the IDs below them, which the directory index relies on.
\<close>

record message =
  MsgID :: u64
  MsgSize :: u64
  MsgPath :: string

definition idRadix :: u64 where
  "idRadix = 1024"

section \<open>Operations\<close>

text \<open>The loop that collects the digits, least significant first, as 16-bit integers.\<close>

function id_digits :: "u64 \<Rightarrow> 16 word list" where
  "id_digits mid = (if 0 < mid then ucast (mid mod idRadix) # id_digits (mid div idRadix) else [])"
  by pat_completeness auto
termination
  by (relation "measure unat") (auto simp: idRadix_def unat_div_distrib word_less_nat_alt)

declare id_digits.simps [simp del]

text \<open>The \<open>%03x\<close> verb.\<close>

definition hex3 :: "nat \<Rightarrow> string" where
  "hex3 d = (let t = fmt_nat 16 d in replicate (3 - length t) CHR ''0'' @ t)"

definition id_parts :: "16 word list \<Rightarrow> string list" where
  "id_parts digits =
     fmt_nat 10 (length digits) #
     map (\<lambda>index. hex3 (unat (digits ! index)) @ (if index = 0 then ''.eml'' else []))
       (rev [0..<length digits])"

definition messageRelativePath :: "u64 \<Rightarrow> string res" where
  "messageRelativePath mid =
     (if mid = 0 then Inl (ErrMsg ''message ID must be greater than zero'')
      else Inr (path_join (id_parts (id_digits mid))))"

fun parse_id_parts :: "u64 \<Rightarrow> string list \<Rightarrow> u64 option" where
  "parse_id_parts mid [] = Some mid"
| "parse_id_parts mid (part # parts) =
     (case parse_uint (trim_suffix part ''.eml'') 16 10 of
        None \<Rightarrow> None
      | Some digit \<Rightarrow>
          if (- 1 - digit) div idRadix < mid then None
          else parse_id_parts (mid * idRadix + digit) parts)"

definition messageIDFromPath :: "string \<Rightarrow> u64 res" where
  "messageIDFromPath path =
     (let parts = split_on CHR ''/'' path in
      if length parts < 2 then Inl (ErrMsg ''invalid message path'')
      else case parse_id_parts 0 (tl parts) of
             None \<Rightarrow> Inl (ErrMsg ''invalid message path'')
           | Some mid \<Rightarrow>
               (case messageRelativePath mid of
                  Inl e \<Rightarrow> Inl (ErrMsg (''invalid message path: '' @ path))
                | Inr expected \<Rightarrow>
                    if expected \<noteq> path then Inl (ErrMsg (''invalid message path: '' @ path))
                    else Inr mid))"

definition messagePath :: "u64 \<Rightarrow> u64 \<Rightarrow> string res" where
  "messagePath mid sz =
     (case messageRelativePath mid of
        Inl e \<Rightarrow> Inl e
      | Inr path \<Rightarrow> Inr (trim_suffix path ''.eml'' @ ''-s'' @ format_uint sz 10 @ ''.eml''))"

definition messageFromPath :: "string \<Rightarrow> message res" where
  "messageFromPath path =
     (let stem = trim_suffix path ''.eml'' in
      case last_index stem ''-s'' of
        None \<Rightarrow> Inl (ErrMsg ''message path has no size'')
      | Some position \<Rightarrow>
          (case messageIDFromPath (take position stem @ ''.eml'') of
             Inl e \<Rightarrow> Inl e
           | Inr mid \<Rightarrow>
               (case parse_uint (drop (position + 2) stem) 10 64 of
                  None \<Rightarrow> Inl (ErrMsg ''invalid size'')
                | Some sz \<Rightarrow>
                    (case messagePath mid sz of
                       Inl e \<Rightarrow> Inl (ErrMsg ''invalid message filename'')
                     | Inr expected \<Rightarrow>
                         if expected \<noteq> path then Inl (ErrMsg ''invalid message filename'')
                         else Inr \<lparr>MsgID = mid, MsgSize = sz, MsgPath = path\<rparr>))))"

section \<open>Digits in base 1024\<close>

text \<open>The same digits as natural numbers, and the number that a digit string denotes.\<close>

fun digits1024 :: "nat \<Rightarrow> nat list" where
  "digits1024 n = (if n = 0 then [] else n mod 1024 # digits1024 (n div 1024))"

declare digits1024.simps [simp del]

lemma digits1024_0 [simp]: "digits1024 0 = []"
  by (simp add: digits1024.simps)

lemma digits1024_pos: "0 < n \<Longrightarrow> digits1024 n = n mod 1024 # digits1024 (n div 1024)"
  by (subst digits1024.simps) simp

definition digits_value :: "nat list \<Rightarrow> nat" where
  "digits_value ds = foldl (\<lambda>a d. a * 1024 + d) 0 ds"

lemma digits_value_snoc: "digits_value (ds @ [d]) = digits_value ds * 1024 + d"
  by (simp add: digits_value_def)

lemma digits_value_Nil [simp]: "digits_value [] = 0"
  by (simp add: digits_value_def)

lemma digits_value_rev_digits1024: "digits_value (rev (digits1024 n)) = n"
proof (induction n rule: digits1024.induct)
  case (1 n)
  then show ?case by (cases "n = 0") (simp_all add: digits1024_pos digits_value_snoc)
qed

lemma set_digits1024: "d \<in> set (digits1024 n) \<Longrightarrow> d < 1024"
proof (induction n rule: digits1024.induct)
  case (1 n)
  then show ?case by (cases "n = 0") (auto simp: digits1024_pos)
qed

lemma length_digits1024_le: "n < 1024 ^ k \<Longrightarrow> length (digits1024 n) \<le> k"
proof (induction k arbitrary: n)
  case (Suc k)
  then show ?case
    by (cases "n = 0") (auto simp: digits1024_pos less_mult_imp_div_less mult.commute)
qed simp

lemma length_digits1024_mono: "m \<le> n \<Longrightarrow> length (digits1024 m) \<le> length (digits1024 n)"
proof (induction n arbitrary: m rule: digits1024.induct)
  case (1 n)
  show ?case
  proof (cases "m = 0")
    case False
    with 1 have "length (digits1024 (m div 1024)) \<le> length (digits1024 (n div 1024))"
      by (intro "1.IH") (auto simp: div_le_mono)
    with False "1.prems" show ?thesis by (simp add: digits1024_pos)
  qed simp
qed

lemma unat_ucast_digit: "unat (ucast (x mod 1024 :: u64) :: 16 word) = unat x mod 1024"
proof -
  have "unat (x mod 1024) = unat x mod 1024" by (simp add: unat_mod_distrib)
  then have "unat (x mod 1024) < 2 ^ 16" by (simp add: order_less_le_trans [OF mod_less_divisor])
  then have "unat (ucast (x mod 1024) :: 16 word) = unat (x mod 1024)"
    by (simp add: unsigned_ucast_eq take_bit_nat_eq_self)
  then show ?thesis by (simp add: unat_mod_distrib)
qed

lemma id_digits_unat: "map unat (id_digits mid) = digits1024 (unat mid)"
proof (induction mid rule: id_digits.induct)
  case (1 mid)
  show ?case
  proof (cases "0 < mid")
    case True
    then have "id_digits mid = ucast (mid mod 1024) # id_digits (mid div 1024)"
      by (simp add: id_digits.simps [of mid] idRadix_def)
    moreover have "0 < unat mid" using True by (simp add: word_less_nat_alt)
    moreover have "map unat (id_digits (mid div 1024)) = digits1024 (unat mid div 1024)"
      using "1.IH" True by (simp add: idRadix_def unat_div_distrib)
    ultimately show ?thesis by (simp add: digits1024_pos unat_ucast_digit)
  next
    case False
    then have "mid = 0" by (simp add: word_less_nat_alt unat_eq_zero)
    then show ?thesis by (simp add: id_digits.simps [of 0])
  qed
qed

lemma lex_append_same_length:
  fixes a b :: "'a :: linorder list"
  shows "length a = length b \<Longrightarrow> a @ c < b @ d \<longleftrightarrow> a < b \<or> a = b \<and> c < d"
  by (induction a b rule: list_induct2) auto

lemma radix_eq: "x < 1024 \<Longrightarrow> y < 1024 \<Longrightarrow> a * 1024 + x = b * 1024 + y \<longleftrightarrow> a = b \<and> x = (y :: nat)"
  by (cases a b rule: linorder_cases) auto

lemma radix_less:
  "x < 1024 \<Longrightarrow> y < 1024 \<Longrightarrow> a * 1024 + x < b * 1024 + y \<longleftrightarrow> a < b \<or> a = b \<and> x < (y :: nat)"
  by (cases a b rule: linorder_cases) auto

lemma digits_value_order:
  assumes "length xs = length ys" "\<And>d. d \<in> set xs \<union> set ys \<Longrightarrow> d < 1024"
  shows "(digits_value xs = digits_value ys \<longleftrightarrow> xs = ys) \<and>
    (digits_value xs < digits_value ys \<longleftrightarrow> xs < ys)"
  using assms
proof (induction xs arbitrary: ys rule: rev_induct)
  case (snoc x xs)
  then obtain zs y where ys: "ys = zs @ [y]" by (cases ys rule: rev_cases) auto
  with snoc.prems have len: "length xs = length zs" and b: "x < 1024" "y < 1024"
    by auto
  have IH: "(digits_value xs = digits_value zs \<longleftrightarrow> xs = zs) \<and>
      (digits_value xs < digits_value zs \<longleftrightarrow> xs < zs)"
    using snoc.prems ys len by (intro snoc.IH) auto
  show ?case
    using IH by (simp add: ys digits_value_snoc lex_append_same_length [OF len] radix_eq [OF b] radix_less [OF b])
qed simp

section \<open>Three hexadecimal digits\<close>

lemma hex3_digits:
  assumes "a < 16" "b < 16" "c < 16"
  shows "hex3 ((a * 16 + b) * 16 + c) = [digit_char a, digit_char b, digit_char c]"
proof -
  let ?d = "(a * 16 + b) * 16 + c"
  have z: "digit_char 0 = CHR ''0''"
    using char_of_char [of "CHR ''0''"] by (simp add: digit_char_def)
  have st: "16 \<le> n \<Longrightarrow> fmt_nat 16 n = fmt_nat 16 (n div 16) @ [digit_char (n mod 16)]" for n
    by (rule fmt_nat_step) simp_all
  have sm: "n < 16 \<Longrightarrow> fmt_nat 16 n = [digit_char n]" for n by (rule fmt_nat_small)
  have dm: "?d div 16 = a * 16 + b" "?d mod 16 = c"
      "(a * 16 + b) div 16 = a" "(a * 16 + b) mod 16 = b"
    using assms by (simp_all only: mod_mult_self3 div_mult_self3 mod_less div_less add_0_right simp_thms)
  consider "a = 0" "b = 0" | "a = 0" "0 < b" | "0 < a" by blast
  then show ?thesis
  proof cases
    case 1
    then show ?thesis using assms by (simp add: hex3_def sm z numeral_2_eq_2)
  next
    case 2
    then have "16 \<le> ?d" by simp
    then have "fmt_nat 16 ?d = [digit_char b, digit_char c]"
      using st [of ?d] sm [of b] dm 2 assms by simp
    then show ?thesis using 2 by (simp add: hex3_def z)
  next
    case 3
    then have "16 \<le> ?d" "16 \<le> a * 16 + b" by simp_all
    then have "fmt_nat 16 ?d = [digit_char a, digit_char b, digit_char c]"
      using st [of ?d] st [of "a * 16 + b"] sm [of a] dm assms by simp
    then show ?thesis by (simp add: hex3_def)
  qed
qed

lemma hex3_cases:
  assumes "d < 4096"
  obtains a b c where "a < 16" "b < 16" "c < 16" "d = (a * 16 + b) * 16 + c"
    "hex3 d = [digit_char a, digit_char b, digit_char c]"
proof (rule that)
  show "d div 16 div 16 < 16" using assms by simp
  show "d div 16 mod 16 < 16" "d mod 16 < 16" by simp_all
  show d: "d = (d div 16 div 16 * 16 + d div 16 mod 16) * 16 + d mod 16" by presburger
  show "hex3 d = [digit_char (d div 16 div 16), digit_char (d div 16 mod 16), digit_char (d mod 16)]"
    using assms by (subst d) (rule hex3_digits; simp)
qed

lemma length_hex3: "d < 4096 \<Longrightarrow> length (hex3 d) = 3"
  by (erule hex3_cases) simp

lemma hex3_chars: "d < 4096 \<Longrightarrow> c \<in> set (hex3 d) \<Longrightarrow> \<exists>e < 16. c = digit_char e"
  by (erule hex3_cases) auto

lemma radix16_less:
  "x < 16 \<Longrightarrow> y < 16 \<Longrightarrow> a * 16 + x < b * 16 + y \<longleftrightarrow> a < b \<or> a = b \<and> x < (y :: nat)"
  by (cases a b rule: linorder_cases) auto

lemma radix16_eq: "x < 16 \<Longrightarrow> y < 16 \<Longrightarrow> a * 16 + x = b * 16 + y \<longleftrightarrow> a = b \<and> x = (y :: nat)"
  by (cases a b rule: linorder_cases) auto

lemma hex3_inj_order:
  assumes "d < 4096" "e < 4096"
  shows "(hex3 d = hex3 e \<longleftrightarrow> d = e) \<and> (hex3 d < hex3 e \<longleftrightarrow> d < e)"
proof -
  obtain a b c where d: "a < 16" "b < 16" "c < 16" "d = (a * 16 + b) * 16 + c"
      "hex3 d = [digit_char a, digit_char b, digit_char c]"
    using hex3_cases [OF assms(1)] .
  obtain a' b' c' where e: "a' < 16" "b' < 16" "c' < 16" "e = (a' * 16 + b') * 16 + c'"
      "hex3 e = [digit_char a', digit_char b', digit_char c']"
    using hex3_cases [OF assms(2)] .
  show ?thesis
    unfolding d(5) e(5) unfolding d(4) e(4)
    unfolding radix16_less [OF d(3) e(3)] radix16_eq [OF d(3) e(3)]
      radix16_less [OF d(2) e(2)] radix16_eq [OF d(2) e(2)]
    using d(1-3) e(1-3) by (auto simp: digit_char_inj digit_char_less)
qed

text \<open>The characters of a number are letters and digits: none of the separators.\<close>

lemma digit_char_plain:
  "e < 36 \<Longrightarrow> digit_char e \<noteq> CHR ''/'' \<and> digit_char e \<noteq> CHR ''.'' \<and> digit_char e \<noteq> CHR ''-'' \<and>
     digit_char e \<noteq> CHR ''\<newline>''"
proof -
  assume "e < 36"
  then have "digit_val (digit_char e) = Some e" by (rule digit_val_digit_char)
  then show ?thesis by (auto simp: digit_val_def)
qed

lemma plain_digits:
  "s \<noteq> [] \<Longrightarrow> (\<And>c. c \<in> set s \<Longrightarrow> \<exists>e < 36. c = digit_char e) \<Longrightarrow> plain_elem s"
  unfolding plain_elem_def using digit_char_plain
  by (metis list.set_intros(1))

lemma plain_hex3: "d < 4096 \<Longrightarrow> plain_elem (hex3 d)"
proof (rule plain_digits)
  assume d: "d < 4096"
  then show "hex3 d \<noteq> []" using length_hex3 [of d] by auto
  show "\<exists>e < 36. c = digit_char e" if c: "c \<in> set (hex3 d)" for c
  proof -
    from hex3_chars [OF d c] obtain e where "e < 16" "c = digit_char e" by blast
    then show ?thesis by (intro exI [of _ e]) simp
  qed
qed

lemma plain_fmt_nat: "2 \<le> b \<Longrightarrow> b \<le> 36 \<Longrightarrow> plain_elem (fmt_nat b n)"
  using set_fmt_nat [of b _ n] by (intro plain_digits) (simp, force)

section \<open>Leaf directories\<close>

text \<open>
  The directory of an ID depends on the ID without its last digit. \<open>leaf_path q\<close> is the
  directory of the IDs from \<open>1024 q\<close> to \<open>1024 q + 1023\<close>.
\<close>

definition leaf_elems :: "nat \<Rightarrow> string list" where
  "leaf_elems q = fmt_nat 10 (Suc (length (digits1024 q))) # map hex3 (rev (digits1024 q))"

definition leaf_path :: "nat \<Rightarrow> string" where
  "leaf_path q = join ''/'' (leaf_elems q)"

definition leaf_of :: "u64 \<Rightarrow> string" where
  "leaf_of mid = leaf_path (unat mid div 1024)"

lemma leaf_elems_plain: "e \<in> set (leaf_elems q) \<Longrightarrow> plain_elem e"
  by (auto simp: leaf_elems_def plain_fmt_nat intro!: plain_hex3 dest!: set_digits1024)

lemma leaf_elems_not_Nil [simp]: "leaf_elems q \<noteq> []"
  by (simp add: leaf_elems_def)

lemma split_leaf_path: "split_on CHR ''/'' (leaf_path q) = leaf_elems q"
  unfolding leaf_path_def
  by (rule split_on_join) (auto dest: leaf_elems_plain simp: plain_elem_def)

lemma id_parts_Cons:
  "id_parts (d # ds) = fmt_nat 10 (Suc (length ds)) # map (hex3 \<circ> unat) (rev ds) @ [hex3 (unat d) @ ''.eml'']"
proof -
  have "rev [0..<Suc (length ds)] = rev [1..<Suc (length ds)] @ [0]"
    by (simp add: upt_rec)
  moreover have "map (\<lambda>i. hex3 (unat ((d # ds) ! i)) @ (if i = 0 then ''.eml'' else [])) [1..<Suc (length ds)]
      = map (hex3 \<circ> unat) ds"
    by (rule nth_equalityI) (simp_all del: upt_Suc)
  ultimately show ?thesis by (simp add: id_parts_def rev_map [symmetric] del: upt_Suc)
qed

lemma messageRelativePath_leaf:
  assumes "mid \<noteq> 0"
  shows "messageRelativePath mid =
    Inr (leaf_of mid @ ''/'' @ hex3 (unat mid mod 1024) @ ''.eml'')"
proof -
  let ?n = "unat mid"
  have pos: "0 < ?n" using assms by (simp add: unat_gt_0)
  have ds: "map unat (id_digits mid) = ?n mod 1024 # digits1024 (?n div 1024)"
    using digits1024_pos [OF pos] by (simp add: id_digits_unat)
  then obtain d es where de: "id_digits mid = d # es" "unat d = ?n mod 1024"
      "map unat es = digits1024 (?n div 1024)"
    by (cases "id_digits mid") auto
  have es: "map (hex3 \<circ> unat) (rev es) = map hex3 (rev (digits1024 (?n div 1024)))"
    using de(3) by (metis map_map rev_map)
  have "length es = length (digits1024 (?n div 1024))" using de(3) by (metis length_map)
  then have parts: "id_parts (id_digits mid) =
      leaf_elems (?n div 1024) @ [hex3 (?n mod 1024) @ ''.eml'']"
    using es de by (simp add: id_parts_Cons leaf_elems_def)
  have "plain_elem (hex3 (?n mod 1024) @ ''.eml'')"
    using plain_hex3 [of "?n mod 1024"] by (auto simp: plain_elem_def order_less_trans [OF mod_less_divisor])
  then have "path_join (leaf_elems (?n div 1024) @ [hex3 (?n mod 1024) @ ''.eml'']) =
      join ''/'' (leaf_elems (?n div 1024) @ [hex3 (?n mod 1024) @ ''.eml''])"
    by (intro path_join_plain) (auto dest: leaf_elems_plain)
  with assms parts show ?thesis
    by (simp add: messageRelativePath_def join_snoc leaf_path_def leaf_of_def)
qed

subsection \<open>The order of leaf directories is the order of the IDs below them\<close>

lemma join_concat: "join [c] (p # ps) = p @ concat (map ((#) c) ps)"
  by (induction ps arbitrary: p) auto

lemma concat_hex3_order:
  assumes "length ds = length es" "\<And>d. d \<in> set ds \<union> set es \<Longrightarrow> d < 1024"
  shows "(concat (map (\<lambda>d. CHR ''/'' # hex3 d) ds) = concat (map (\<lambda>d. CHR ''/'' # hex3 d) es)
      \<longleftrightarrow> ds = es) \<and>
    (concat (map (\<lambda>d. CHR ''/'' # hex3 d) ds) < concat (map (\<lambda>d. CHR ''/'' # hex3 d) es)
      \<longleftrightarrow> ds < es)"
  using assms
proof (induction ds es rule: list_induct2)
  case (Cons d ds e es)
  have "d < 1024" "e < 1024" using Cons.prems by simp_all
  then have b: "d < 4096" "e < 4096" by simp_all
  then have "length (hex3 d) = length (hex3 e)" by (simp add: length_hex3)
  with Cons b show ?case
    using hex3_inj_order [OF b] by (simp add: lex_append_same_length)
qed simp

lemma leaf_path_concat:
  "leaf_path q = fmt_nat 10 (Suc (length (digits1024 q))) @
     concat (map (\<lambda>d. CHR ''/'' # hex3 d) (rev (digits1024 q)))"
  by (simp add: leaf_path_def leaf_elems_def join_concat comp_def)

lemma leaf_path_order:
  assumes "q < 1024 ^ 6" "r < 1024 ^ 6"
  shows "(leaf_path q = leaf_path r \<longleftrightarrow> q = r) \<and> (leaf_path q < leaf_path r \<longleftrightarrow> q < r)"
proof -
  let ?ds = "rev (digits1024 q)" and ?es = "rev (digits1024 r)"
  have len: "length (digits1024 q) \<le> 6" "length (digits1024 r) \<le> 6"
    using assms length_digits1024_le by blast+
  then have f: "fmt_nat 10 (Suc (length (digits1024 q))) = [digit_char (Suc (length (digits1024 q)))]"
    "fmt_nat 10 (Suc (length (digits1024 r))) = [digit_char (Suc (length (digits1024 r)))]"
    by (auto intro: fmt_nat_small)
  show ?thesis
  proof (cases "length (digits1024 q) = length (digits1024 r)")
    case True
    have "(?ds = ?es \<longleftrightarrow> q = r) \<and> (?ds < ?es \<longleftrightarrow> q < r)"
      using digits_value_order [of ?ds ?es] True set_digits1024
      by (auto simp: digits_value_rev_digits1024)
    moreover have "(concat (map (\<lambda>d. CHR ''/'' # hex3 d) ?ds) = concat (map (\<lambda>d. CHR ''/'' # hex3 d) ?es)
        \<longleftrightarrow> ?ds = ?es) \<and>
      (concat (map (\<lambda>d. CHR ''/'' # hex3 d) ?ds) < concat (map (\<lambda>d. CHR ''/'' # hex3 d) ?es)
        \<longleftrightarrow> ?ds < ?es)"
      using True set_digits1024 by (intro concat_hex3_order) auto
    ultimately show ?thesis using f True by (simp add: leaf_path_concat)
  next
    case False
    then have "q \<noteq> r" by auto
    moreover have "length (digits1024 q) < length (digits1024 r) \<longleftrightarrow> q < r"
      using False length_digits1024_mono [of q r] length_digits1024_mono [of r q] by force
    ultimately show ?thesis
      using False len f by (simp add: leaf_path_concat digit_char_inj digit_char_less)
  qed
qed

lemma leaf_number_bound: "unat (mid :: u64) div 1024 < 1024 ^ 6"
proof -
  have "unat mid < 1152921504606846976 * 1024"
    by (rule order_less_le_trans [OF unat_less_64]) simp
  then have "unat mid div 1024 < 1152921504606846976" by (rule less_mult_imp_div_less)
  then show ?thesis by simp
qed

lemma leaf_of_order:
  "(leaf_of a = leaf_of b \<longleftrightarrow> unat a div 1024 = unat b div 1024) \<and>
   (leaf_of a < leaf_of b \<longleftrightarrow> unat a div 1024 < unat b div 1024)"
  unfolding leaf_of_def by (intro leaf_path_order leaf_number_bound)

section \<open>Parsing a printed path\<close>

lemma parse_hex3:
  assumes "d < 1024"
  shows "parse_uint (hex3 d) 16 10 = Some (of_nat d)"
proof -
  from assms have "d < 4096" by simp
  then obtain a b c where d: "a < 16" "b < 16" "c < 16" "d = (a * 16 + b) * 16 + c"
      "hex3 d = [digit_char a, digit_char b, digit_char c]"
    using hex3_cases by blast
  then show ?thesis using assms by (simp add: parse_uint_def digit_val_digit_char)
qed

lemma hex3_no_suffix: "d < 1024 \<Longrightarrow> trim_suffix (hex3 d) ''.eml'' = hex3 d"
  using length_hex3 [of d] by (intro trim_suffix_no) (simp add: has_suffix_def)

lemma parse_id_parts_append:
  "parse_id_parts a (ps @ qs) = Option.bind (parse_id_parts a ps) (\<lambda>b. parse_id_parts b qs)"
  by (induction a ps rule: parse_id_parts.induct) (auto split: option.splits)

text \<open>One round of the loop: the overflow check is exact.\<close>

lemma parse_id_part_step:
  assumes "parse_uint (trim_suffix p ''.eml'') 16 10 = Some (of_nat d)" "d < 1024"
    and "a * 1024 + d < 18446744073709551616"
  shows "parse_id_parts (of_nat a) [p] = Some (of_nat (a * 1024 + d))"
proof -
  have a: "a < 18446744073709551616" using assms(3) by simp
  have ud: "unat (of_nat d :: u64) = d" using assms(2) by (simp add: unat_of_nat_u64)
  have ua: "unat (of_nat a :: u64) = a" using a by (rule unat_of_nat_u64)
  have "of_nat d \<le> (- 1 :: u64)" by simp
  then have "unat ((- 1 - of_nat d) div idRadix :: u64) = (18446744073709551615 - d) div 1024"
    by (simp add: idRadix_def unat_div_distrib unat_sub_u64 ud)
  moreover have "a \<le> (18446744073709551615 - d) div 1024"
    using assms(3) by (simp add: less_eq_div_iff_mult_less_eq)
  ultimately have "\<not> (- 1 - of_nat d) div idRadix < (of_nat a :: u64)"
    by (simp add: word_less_nat_alt ua)
  then show ?thesis using assms(1) by (simp add: idRadix_def)
qed

lemma parse_id_parts_hex3:
  assumes "\<And>d. d \<in> set ds \<Longrightarrow> d < 1024" and "digits_value ds < 18446744073709551616"
  shows "parse_id_parts 0 (map hex3 ds) = Some (of_nat (digits_value ds))"
  using assms
proof (induction ds rule: rev_induct)
  case (snoc d ds)
  then have d: "d < 1024" and v: "digits_value ds * 1024 + d < 18446744073709551616"
    by (auto simp: digits_value_snoc)
  then have "parse_id_parts 0 (map hex3 ds) = Some (of_nat (digits_value ds))"
    using snoc by auto
  moreover have "parse_id_parts (of_nat (digits_value ds)) [hex3 d] =
      Some (of_nat (digits_value ds * 1024 + d))"
    using d v by (intro parse_id_part_step) (simp_all add: hex3_no_suffix parse_hex3)
  ultimately show ?case by (simp add: parse_id_parts_append digits_value_snoc del: parse_id_parts.simps)
qed simp

lemma messageIDFromPath_relative:
  assumes "messageRelativePath mid = Inr path"
  shows "messageIDFromPath path = Inr mid"
proof -
  let ?q = "unat mid div 1024" and ?d = "unat mid mod 1024"
  have id0: "mid \<noteq> 0" using assms by (auto simp: messageRelativePath_def)
  have path: "path = leaf_path ?q @ ''/'' @ hex3 ?d @ ''.eml''"
    using assms messageRelativePath_leaf [OF id0] by (simp add: leaf_of_def)
  have "path = join ''/'' (leaf_elems ?q @ [hex3 ?d @ ''.eml''])"
    by (simp add: path join_snoc leaf_path_def)
  moreover have "CHR ''/'' \<notin> set (hex3 ?d @ ''.eml'')"
    using plain_hex3 [of ?d] by (auto simp: plain_elem_def order_less_trans [OF mod_less_divisor])
  ultimately have split: "split_on CHR ''/'' path = leaf_elems ?q @ [hex3 ?d @ ''.eml'']"
    by (simp only:, intro split_on_join) (auto dest: leaf_elems_plain simp: plain_elem_def)
  have v: "?q * 1024 + ?d = unat mid" by simp
  have "parse_id_parts 0 (map hex3 (rev (digits1024 ?q))) = Some (of_nat ?q)"
    using parse_id_parts_hex3 [of "rev (digits1024 ?q)"] set_digits1024 unat_less_64 [of mid]
    by (simp add: digits_value_rev_digits1024 order_le_less_trans [OF div_le_dividend])
  moreover have "parse_id_parts (of_nat ?q) [hex3 ?d @ ''.eml''] = Some (of_nat (?q * 1024 + ?d))"
    using unat_less_64 [of mid] by (intro parse_id_part_step) (simp_all add: parse_hex3)
  ultimately have "parse_id_parts 0 (tl (leaf_elems ?q @ [hex3 ?d @ ''.eml''])) = Some mid"
    unfolding v by (simp add: leaf_elems_def parse_id_parts_append del: parse_id_parts.simps)
  then show ?thesis
    using split assms by (simp add: messageIDFromPath_def leaf_elems_def)
qed

subsection \<open>Paths with a size\<close>

lemma messageRelativePath_suffix:
  assumes "messageRelativePath mid = Inr path"
  shows "path = trim_suffix path ''.eml'' @ ''.eml''"
proof -
  have "mid \<noteq> 0" using assms by (auto simp: messageRelativePath_def)
  then have "path = (leaf_of mid @ ''/'' @ hex3 (unat mid mod 1024)) @ ''.eml''"
    using assms messageRelativePath_leaf by simp
  then show ?thesis by (metis trim_suffix_append)
qed

lemma messagePath_leaf:
  assumes "mid \<noteq> 0"
  shows "messagePath mid sz =
    Inr (leaf_of mid @ ''/'' @ hex3 (unat mid mod 1024) @ ''-s'' @ format_uint sz 10 @ ''.eml'')"
proof -
  have "trim_suffix ((leaf_of mid @ ''/'' @ hex3 (unat mid mod 1024)) @ ''.eml'') ''.eml'' =
      leaf_of mid @ ''/'' @ hex3 (unat mid mod 1024)"
    by (rule trim_suffix_append)
  then show ?thesis by (simp add: messagePath_def messageRelativePath_leaf [OF assms])
qed

lemma messagePath_zero: "messagePath 0 sz = Inl (ErrMsg ''message ID must be greater than zero'')"
  by (simp add: messagePath_def messageRelativePath_def)

lemma format_uint_no_dash: "CHR ''-'' \<notin> set (format_uint n 10)"
proof
  assume "CHR ''-'' \<in> set (format_uint n 10)"
  then obtain d where "d < 10" "CHR ''-'' = digit_char d"
    using set_fmt_nat [of 10 _ "unat n"] by (auto simp: format_uint_def)
  then show False using digit_char_plain [of d] by simp
qed

lemma messageFromPath_messagePath:
  assumes "messagePath mid sz = Inr path"
  shows "messageFromPath path = Inr \<lparr>MsgID = mid, MsgSize = sz, MsgPath = path\<rparr>"
proof -
  from assms obtain rel where rel: "messageRelativePath mid = Inr rel"
    and path: "path = trim_suffix rel ''.eml'' @ ''-s'' @ format_uint sz 10 @ ''.eml''"
    by (auto simp: messagePath_def split: sum.splits)
  let ?base = "trim_suffix rel ''.eml''"
  have stem: "trim_suffix path ''.eml'' = ?base @ ''-s'' @ format_uint sz 10"
    using trim_suffix_append [of "?base @ ''-s'' @ format_uint sz 10" "''.eml''"] by (simp add: path)
  have "last_index (?base @ ''-s'' @ format_uint sz 10) ''-s'' = Some (length ?base)"
    using format_uint_no_dash by (intro last_index_unique) auto
  moreover have "messageIDFromPath (?base @ ''.eml'') = Inr mid"
    using messageIDFromPath_relative [OF rel] messageRelativePath_suffix [OF rel] by simp
  moreover have "parse_uint (format_uint sz 10) 10 64 = Some sz"
    by (rule parse_uint_format_uint) simp_all
  ultimately show ?thesis
    using assms by (simp add: messageFromPath_def stem)
qed

lemma messageFromPath_SomeD:
  "messageFromPath path = Inr m \<Longrightarrow> MsgPath m = path \<and> messagePath (MsgID m) (MsgSize m) = Inr path"
  by (auto simp: messageFromPath_def Let_def split: option.splits sum.splits if_splits)

text \<open>The directory part of a message's path.\<close>

lemma path_dir_message:
  assumes "messagePath mid sz = Inr path"
  shows "path_dir path = leaf_of mid"
proof -
  let ?f = "hex3 (unat mid mod 1024) @ ''-s'' @ format_uint sz 10 @ ''.eml''"
  have "mid \<noteq> 0" using assms by (auto simp: messagePath_zero)
  then have "path = join ''/'' (leaf_elems (unat mid div 1024) @ [?f])"
    using assms by (simp add: messagePath_leaf leaf_of_def leaf_path_def join_snoc)
  moreover have "CHR ''/'' \<notin> set ?f"
    using plain_hex3 [of "unat mid mod 1024"] plain_fmt_nat [of 10 "unat sz"]
    by (auto simp: plain_elem_def format_uint_def order_less_trans [OF mod_less_divisor])
  ultimately show ?thesis
    by (simp add: path_dir_snoc leaf_elems_plain leaf_of_def leaf_path_def)
qed

lemma path_dir_relative:
  assumes "messageRelativePath mid = Inr path"
  shows "path_dir path = leaf_of mid"
proof -
  let ?f = "hex3 (unat mid mod 1024) @ ''.eml''"
  have "mid \<noteq> 0" using assms by (auto simp: messageRelativePath_def)
  then have "path = join ''/'' (leaf_elems (unat mid div 1024) @ [?f])"
    using assms by (simp add: messageRelativePath_leaf leaf_of_def leaf_path_def join_snoc)
  moreover have "CHR ''/'' \<notin> set ?f"
    using plain_hex3 [of "unat mid mod 1024"]
    by (auto simp: plain_elem_def order_less_trans [OF mod_less_divisor])
  ultimately show ?thesis
    by (simp add: path_dir_snoc leaf_elems_plain leaf_of_def leaf_path_def)
qed

text \<open>The characters that a message path is made of.\<close>

definition path_chars :: "char set" where
  "path_chars = set ''0123456789abcdef/.-sml''"

lemma digit_char_path: "e < 16 \<Longrightarrow> digit_char e \<in> path_chars"
proof -
  assume "e < 16"
  then have "e = 0 \<or> e = 1 \<or> e = 2 \<or> e = 3 \<or> e = 4 \<or> e = 5 \<or> e = 6 \<or> e = 7 \<or>
      e = 8 \<or> e = 9 \<or> e = 10 \<or> e = 11 \<or> e = 12 \<or> e = 13 \<or> e = 14 \<or> e = 15" by arith
  then show ?thesis by (auto simp: digit_char_def path_chars_def char_of_eq_iff)
qed

lemma fmt_nat_path: "2 \<le> b \<Longrightarrow> b \<le> 16 \<Longrightarrow> set (fmt_nat b n) \<subseteq> path_chars"
proof
  fix c assume "2 \<le> b" "b \<le> 16" "c \<in> set (fmt_nat b n)"
  with set_fmt_nat [of b c n] obtain d where "d < b" "c = digit_char d" by blast
  with \<open>b \<le> 16\<close> show "c \<in> path_chars" using digit_char_path [of d] by simp
qed

lemma hex3_path: "d < 1024 \<Longrightarrow> set (hex3 d) \<subseteq> path_chars"
  using hex3_chars [of d] by (auto intro!: digit_char_path)

lemma leaf_path_chars: "set (leaf_path q) \<subseteq> path_chars"
proof
  fix c assume "c \<in> set (leaf_path q)"
  then have "c \<in> set ''/'' \<or> (\<exists>p \<in> set (leaf_elems q). c \<in> set p)"
    unfolding leaf_path_def by (rule set_join)
  moreover have "CHR ''/'' \<in> path_chars" by (simp add: path_chars_def)
  ultimately show "c \<in> path_chars"
    using fmt_nat_path [of 10 "Suc (length (digits1024 q))"] hex3_path set_digits1024 [of _ q]
    by (auto simp: leaf_elems_def)
qed

lemma messagePath_chars:
  assumes "messagePath mid sz = Inr path"
  shows "set path \<subseteq> path_chars" and "path \<noteq> []" and "\<exists>d. hd path = digit_char d \<and> d < 10"
proof -
  have id0: "mid \<noteq> 0" using assms by (auto simp: messagePath_zero)
  have lit: "set ''/'' \<subseteq> path_chars" "set ''-s'' \<subseteq> path_chars" "set ''.eml'' \<subseteq> path_chars"
    by (simp_all add: path_chars_def)
  note path = messagePath_leaf [OF id0, of sz, unfolded assms]
  show "set path \<subseteq> path_chars"
    using path lit leaf_path_chars [of "unat mid div 1024"] hex3_path [of "unat mid mod 1024"]
      fmt_nat_path [of 10 "unat sz"]
    by (auto simp: leaf_of_def format_uint_def)
  obtain c s where fs: "fmt_nat 10 (Suc (length (digits1024 (unat mid div 1024)))) = c # s"
    by (cases "fmt_nat 10 (Suc (length (digits1024 (unat mid div 1024))))") auto
  then obtain d where "d < 10" "c = digit_char d"
    using set_fmt_nat [of 10 c "Suc (length (digits1024 (unat mid div 1024)))"] by auto
  then show "path \<noteq> []" and "\<exists>d. hd path = digit_char d \<and> d < 10"
    using path fs by (auto simp: leaf_of_def leaf_path_concat)
qed

section \<open>Properties\<close>

text \<open>C31: \<open>messageFromPath\<close> inverts \<open>messagePath\<close> and accepts nothing else: a path is parsed
  to a message exactly if it is the path that the message's ID and size are written to.\<close>

theorem messageFromPath_iff:
  "messageFromPath path = Inr m \<longleftrightarrow> MsgPath m = path \<and> messagePath (MsgID m) (MsgSize m) = Inr path"
proof
  assume "MsgPath m = path \<and> messagePath (MsgID m) (MsgSize m) = Inr path"
  then show "messageFromPath path = Inr m"
    using messageFromPath_messagePath [of "MsgID m" "MsgSize m" path] by (cases m) simp
qed (rule messageFromPath_SomeD)

text \<open>C33: Message paths are safe and ordered: they are relative, made of harmless characters, and the
  directories of two messages compare as text the way their IDs divided by 1024 compare as
  numbers, so that a leaf holds 1024 consecutive IDs and leaves sorted by path are in ID order.\<close>

theorem message_path_order:
  assumes "messagePath a sa = Inr p" "messagePath b sb = Inr q"
  shows "set p \<subseteq> path_chars \<and> (\<exists>d < 10. hd p = digit_char d) \<and>
    (path_dir p = path_dir q \<longleftrightarrow> unat a div 1024 = unat b div 1024) \<and>
    (path_dir p < path_dir q \<longleftrightarrow> unat a div 1024 < unat b div 1024)"
  using messagePath_chars [OF assms(1)] path_dir_message [OF assms(1)] path_dir_message [OF assms(2)]
    leaf_of_order [of a b] by auto

lemma message_path_order_witness:
  "path_dir ''2/001/000-s7.eml'' = path_dir ''2/001/3ff-s9.eml''"
proof -
  have "messagePath 1024 7 = Inr ''2/001/000-s7.eml''" "messagePath 2047 9 = Inr ''2/001/3ff-s9.eml''"
    by code_simp+
  from message_path_order [OF this] show ?thesis by simp
qed

end
