(* ===== verification/Git_Tree.thy ===== *)
theory Git_Tree
  imports Go_Strings
begin

text \<open>
  \<open>parseTree\<close> of \<open>internal/archive/tree.go\<close> and \<open>validObjectID\<close> of \<open>import.go\<close>: Git's binary
  tree format, and object names. The lemmas show that the parser accepts exactly the encodings of
  lists of well-formed entries with distinct names, and returns those entries.
\<close>

record treeEntry =
  te_mode :: string
  te_name :: string
  te_oid :: string

definition validObjectID :: "string \<Rightarrow> bool" where
  "validObjectID s \<longleftrightarrow> (length s = 40 \<or> length s = 64) \<and>
     list_all (\<lambda>c. (CHR ''0'' \<le> c \<and> c \<le> CHR ''9'') \<or> (CHR ''a'' \<le> c \<and> c \<le> CHR ''f'')) s"

definition hex_encode :: "string \<Rightarrow> string" where
  "hex_encode s = concat (map (\<lambda>c. [digit_char (code c div 16), digit_char (code c mod 16)]) s)"

function parse_tree_from :: "nat \<Rightarrow> string list \<Rightarrow> string \<Rightarrow> treeEntry list res" where
  "parse_tree_from hashBytes seen data =
     (if data = [] then Inr []
      else case index_byte data (CHR 0x00) of
             None \<Rightarrow> Inl (ErrMsg ''truncated Git tree entry'')
           | Some end \<Rightarrow>
               if length data - end - 1 < hashBytes then Inl (ErrMsg ''truncated Git tree entry'')
               else let (mode, name, ok) = cut (take end data) CHR '' '' in
                    if \<not> ok \<or> name = [] \<or> contains_any name [CHR ''/'', CHR 0x0D, CHR 0x0A] \<or>
                       name = ''.'' \<or> name = ''..'' \<or> name \<in> set seen \<or>
                       (mode \<noteq> ''40000'' \<and> mode \<noteq> ''100644'')
                    then Inl (ErrMsg ''invalid archive tree entry'')
                    else bind_res (parse_tree_from hashBytes (name # seen) (drop (end + 1 + hashBytes) data))
                           (\<lambda>es. Inr (\<lparr>te_mode = mode, te_name = name,
                              te_oid = hex_encode (take hashBytes (drop (end + 1) data))\<rparr> # es)))"
  by pat_completeness auto
termination
  by (relation "measure (\<lambda>(h, seen, data). length data)") auto

declare parse_tree_from.simps [simp del]

definition parseTree :: "string \<Rightarrow> nat \<Rightarrow> treeEntry list res" where
  "parseTree data hashBytes = parse_tree_from hashBytes [] data"

section \<open>The format\<close>

text \<open>An entry as Git writes it: mode, space, name, NUL, raw object name.\<close>

type_synonym raw_entry = "string \<times> string \<times> string"

definition encode_entry :: "raw_entry \<Rightarrow> string" where
  "encode_entry x = (case x of (mode, name, raw) \<Rightarrow> mode @ CHR '' '' # name @ CHR 0x00 # raw)"

definition raw_ok :: "nat \<Rightarrow> raw_entry \<Rightarrow> bool" where
  "raw_ok h x \<longleftrightarrow> (case x of (mode, name, raw) \<Rightarrow>
     mode \<in> {''40000'', ''100644''} \<and> name \<notin> {[], ''.'', ''..''} \<and>
     set name \<inter> {CHR ''/'', CHR 0x0D, CHR 0x0A, CHR 0x00} = {} \<and> length raw = h)"

definition entry_of_raw :: "raw_entry \<Rightarrow> treeEntry" where
  "entry_of_raw x = (case x of (mode, name, raw) \<Rightarrow>
     \<lparr>te_mode = mode, te_name = name, te_oid = hex_encode raw\<rparr>)"

definition raw_name :: "raw_entry \<Rightarrow> string" where
  "raw_name x = fst (snd x)"

lemma raw_name_simp [simp]: "raw_name (mode, name, raw) = name"
  by (simp add: raw_name_def)

lemma contains_any_iff: "contains_any s cs \<longleftrightarrow> (\<exists>c \<in> set s. c \<in> set cs)"
  by (auto simp: contains_any_def list_ex_iff)

lemma parse_tree_from_encode:
  assumes "\<And>x. x \<in> set xs \<Longrightarrow> raw_ok h x" "distinct (map raw_name xs)" "set (map raw_name xs) \<inter> set seen = {}"
  shows "parse_tree_from h seen (concat (map encode_entry xs)) = Inr (map entry_of_raw xs)"
  using assms
proof (induction xs arbitrary: seen)
  case Nil
  then show ?case by (simp add: parse_tree_from.simps)
next
  case (Cons x xs)
  obtain mode name raw where x: "x = (mode, name, raw)" by (metis prod_cases3)
  from Cons.prems(1) [of x] have ok: "mode = ''40000'' \<or> mode = ''100644''" "name \<notin> {[], ''.'', ''..''}"
      "set name \<inter> {CHR ''/'', CHR 0x0D, CHR 0x0A, CHR 0x00} = {}" "length raw = h"
    by (auto simp: raw_ok_def x)
  let ?rest = "concat (map encode_entry xs)"
  let ?d = "mode @ CHR '' '' # name @ CHR 0x00 # raw @ ?rest"
  have d: "concat (map encode_entry (x # xs)) = ?d" by (simp add: encode_entry_def x)
  have nosp: "CHR '' '' \<notin> set mode" "CHR 0x00 \<notin> set mode" using ok(1) by auto
  have idx: "index_byte ?d (CHR 0x00) = Some (length (mode @ CHR '' '' # name))"
    using index_byte_append [of "CHR 0x00" "mode @ CHR '' '' # name" "raw @ ?rest"] nosp(2) ok(3) by simp
  have tk: "take (length (mode @ CHR '' '' # name)) ?d = mode @ CHR '' '' # name" by simp
  have "name \<notin> set seen" using Cons.prems(3) by (auto simp: x raw_name_def)
  moreover have "parse_tree_from h (name # seen) ?rest = Inr (map entry_of_raw xs)"
    using Cons.prems by (intro Cons.IH) (auto simp: x raw_name_def)
  moreover have "drop (length (mode @ CHR '' '' # name) + 1 + h) ?d = ?rest" using ok(4) by simp
  moreover have "take h (drop (length (mode @ CHR '' '' # name) + 1) ?d) = raw" using ok(4) by simp
  moreover have "\<not> contains_any name [CHR ''/'', CHR 0x0D, CHR 0x0A]" using ok(3) by (auto simp: contains_any_iff)
  moreover have "\<not> length ?d - length (mode @ CHR '' '' # name) - 1 < h" using ok(4) by simp
  ultimately show ?case
    using ok(1,2) unfolding d
    by (subst parse_tree_from.simps)
       (simp only: idx tk cut_append [OF nosp(1)] option.case prod.case Let_def, auto simp: entry_of_raw_def x)
qed

lemma parse_tree_from_Inr:
  "parse_tree_from h seen data = Inr es \<Longrightarrow>
     \<exists>xs. data = concat (map encode_entry xs) \<and> es = map entry_of_raw xs \<and>
       (\<forall>x \<in> set xs. raw_ok h x) \<and> distinct (map raw_name xs) \<and> set (map raw_name xs) \<inter> set seen = {}"
proof (induction h seen data arbitrary: es rule: parse_tree_from.induct)
  case (1 h seen data)
  show ?case
  proof (cases "data = []")
    case True
    with "1.prems" show ?thesis by (intro exI [of _ "[]"]) (simp add: parse_tree_from.simps)
  next
    case False
    with "1.prems" obtain i where i: "index_byte data (CHR 0x00) = Some i"
      by (auto simp: parse_tree_from.simps [of h seen data] split: option.splits)
    obtain mode name ok where c: "cut (take i data) CHR '' '' = (mode, name, ok)" by (metis prod_cases3)
    let ?rest = "drop (i + 1 + h) data" and ?raw = "take h (drop (i + 1) data)"
    from "1.prems" False i c have long: "\<not> length data - i - 1 < h"
      and good: "\<not> (\<not> ok \<or> name = [] \<or> contains_any name [CHR ''/'', CHR 0x0D, CHR 0x0A] \<or>
                       name = ''.'' \<or> name = ''..'' \<or> name \<in> set seen \<or>
                       (mode \<noteq> ''40000'' \<and> mode \<noteq> ''100644''))"
      by (auto simp: parse_tree_from.simps [of h seen data] split: if_splits)
    from "1.prems" False i c long good obtain es' where es: "parse_tree_from h (name # seen) ?rest = Inr es'"
        "es = \<lparr>te_mode = mode, te_name = name, te_oid = hex_encode ?raw\<rparr> # es'"
      by (auto simp: parse_tree_from.simps [of h seen data] bind_res_Inr)
    from "1.IH" [OF False i long c [symmetric] refl refl good es(1)] obtain xs where
      xs: "?rest = concat (map encode_entry xs)" "es' = map entry_of_raw xs" "\<forall>x \<in> set xs. raw_ok h x"
        "distinct (map raw_name xs)" "set (map raw_name xs) \<inter> set (name # seen) = {}" by blast
    from i have i': "i < length data" "data ! i = CHR 0x00" "CHR 0x00 \<notin> set (take i data)"
      by (simp_all add: index_byte_Some)
    have hd: "take i data = mode @ CHR '' '' # name" using cut_found [of "take i data"] c good by auto
    have "data = take i data @ CHR 0x00 # drop (Suc i) data"
      using i'(1,2) by (metis id_take_nth_drop)
    also have "drop (Suc i) data = ?raw @ ?rest"
      by (metis Suc_eq_plus1 append_take_drop_id drop_drop add.commute)
    finally have "data = encode_entry (mode, name, ?raw) @ ?rest"
      by (simp add: hd encode_entry_def)
    moreover have "raw_ok h (mode, name, ?raw)"
      using good i'(3) hd long by (auto simp: raw_ok_def contains_any_iff)
    ultimately show ?thesis
      using xs es(2) good
      by (intro exI [of _ "(mode, name, ?raw) # xs"]) (auto simp: entry_of_raw_def)
  qed
qed

section \<open>Properties\<close>

text \<open>C32: \<open>parseTree\<close> accepts exactly the encodings of lists of file and directory entries with
  distinct, harmless names and full object names, and returns exactly those entries.\<close>

theorem parseTree_exact:
  "parseTree data hashBytes = Inr es \<longleftrightarrow>
     (\<exists>xs. data = concat (map encode_entry xs) \<and> es = map entry_of_raw xs \<and>
        list_all (raw_ok hashBytes) xs \<and> distinct (map raw_name xs))"
  unfolding parseTree_def list_all_iff
  using parse_tree_from_Inr [of hashBytes "[]" data es] parse_tree_from_encode [of _ hashBytes "[]"] by auto

end
