(* ===== verification/Fast_Import.thy ===== *)
theory Fast_Import
  imports Id_Path Git_Tree
begin

text \<open>
  The \<open>git fast-import\<close> stream of \<open>internal/archive/import.go\<close>: what \<open>importCommitLocked\<close> and
  \<open>process.data\<close> write, and the check of the paths. The reader below follows Git's documented
  grammar for these commands; the lemmas show that it reads back exactly the commit that was
  meant, whatever bytes the title and the contents hold.
\<close>

section \<open>Writing a commit\<close>

definition mailboxStateName :: string where "mailboxStateName = ''state''"

definition validArchivePath :: "string \<Rightarrow> bool" where
  "validArchivePath path \<longleftrightarrow>
     (if path = mailboxStateName \<or> path = ''.gitignore'' \<or> path = ''.gitattributes'' then True
      else case messageFromPath path of Inl e \<Rightarrow> False | Inr m \<Rightarrow> True)"

definition import_data :: "string \<Rightarrow> string" where
  "import_data source = ''data '' @ fmt_nat 10 (length source) @ [CHR 0x0A] @ source @ [CHR 0x0A]"

text \<open>
  The entry of \<open>changes\<close> that the loop writes; a nil content is read from the legacy file, which
  \<open>legacy\<close> gives or fails to.
\<close>

definition import_change :: "(string \<Rightarrow> string res) \<Rightarrow> string \<times> string option \<Rightarrow> string res" where
  "import_change legacy x =
     (let (path, content) = x in
      if \<not> validArchivePath path then Inl (ErrMsg ''invalid archive path'')
      else let head = ''M 100644 inline '' @ path @ [CHR 0x0A] in
           case content of
             Some c \<Rightarrow> Inr (head @ import_data c)
           | None \<Rightarrow>
               bind_res (messageFromPath path) (\<lambda>m.
               bind_res (messageRelativePath (MsgID m)) (\<lambda>legacyPath.
               bind_res (legacy legacyPath) (\<lambda>c. Inr (head @ import_data c)))))"

definition import_removal :: "string \<Rightarrow> string res" where
  "import_removal path =
     (if \<not> validArchivePath path then Inl (ErrMsg ''invalid archive path'')
      else Inr (''D '' @ path @ [CHR 0x0A]))"

text \<open>Everything written before the first answer is read; \<open>clock\<close> is the Unix time.\<close>

definition commit_request ::
  "string \<Rightarrow> nat \<Rightarrow> int \<Rightarrow> string \<Rightarrow> string \<Rightarrow> (string \<Rightarrow> string res) \<Rightarrow> (string \<times> string option) list
    \<Rightarrow> string list \<Rightarrow> string res" where
  "commit_request refName mark clock title headID legacy changes removals =
     bind_res (map_res (import_change legacy) changes) (\<lambda>cs.
     bind_res (map_res import_removal removals) (\<lambda>rs.
       Inr (''commit '' @ refName @ [CHR 0x0A] @
            ''mark :'' @ fmt_nat 10 mark @ [CHR 0x0A] @
            ''committer picomx <picomx@localhost> '' @ fmt_int clock @ '' +0000'' @ [CHR 0x0A] @
            import_data title @
            (if headID \<noteq> [] then ''from '' @ headID @ [CHR 0x0A] else []) @
            concat cs @ concat rs @
            [CHR 0x0A] @ ''get-mark :'' @ fmt_nat 10 mark @ [CHR 0x0A])))"

definition checkpoint_request :: "string \<Rightarrow> string" where
  "checkpoint_request next = ''checkpoint'' @ [CHR 0x0A] @ ''progress '' @ next @ [CHR 0x0A]"

section \<open>Git's grammar\<close>

datatype file_change = FileModify string string | FileDelete string

datatype import_command =
    ImportCommit string string string string "string option" "file_change list"
  | ImportGetMark string
  | ImportCheckpoint
  | ImportProgress string
  | ImportBlank

definition next_line :: "string \<Rightarrow> (string \<times> string) option" where
  "next_line s = (case index_byte s (CHR 0x0A) of None \<Rightarrow> None | Some i \<Rightarrow> Some (take i s, drop (Suc i) s))"

definition keyword_line :: "string \<Rightarrow> string \<Rightarrow> (string \<times> string) option" where
  "keyword_line w s =
     (case next_line s of
        None \<Rightarrow> None
      | Some (l, t) \<Rightarrow> if has_prefix l w then Some (drop (length w) l, t) else None)"

text \<open>\<open>data <count> LF <raw> LF?\<close>\<close>

definition parse_data :: "string \<Rightarrow> (string \<times> string) option" where
  "parse_data s =
     Option.bind (keyword_line ''data '' s) (\<lambda>(n, t).
     Option.bind (parse_digits 10 0 n) (\<lambda>k.
       if n = [] \<or> length t < k then None
       else Some (take k t, (case drop k t of [] \<Rightarrow> [] | c # u \<Rightarrow> if c = CHR 0x0A then u else c # u))))"

fun parse_file_changes :: "nat \<Rightarrow> string \<Rightarrow> (file_change list \<times> string) option" where
  "parse_file_changes 0 s = None"
| "parse_file_changes (Suc fuel) s =
     (case keyword_line ''M 100644 inline '' s of
        Some (path, t) \<Rightarrow>
          Option.bind (parse_data t) (\<lambda>(d, u).
          Option.bind (parse_file_changes fuel u) (\<lambda>(cs, v). Some (FileModify path d # cs, v)))
      | None \<Rightarrow>
          (case keyword_line ''D '' s of
             Some (path, t) \<Rightarrow>
               Option.bind (parse_file_changes fuel t) (\<lambda>(cs, v). Some (FileDelete path # cs, v))
           | None \<Rightarrow> Some ([], s)))"

definition parse_commit :: "string \<Rightarrow> (import_command \<times> string) option" where
  "parse_commit s =
     Option.bind (keyword_line ''commit '' s) (\<lambda>(ref, s).
     Option.bind (keyword_line ''mark :'' s) (\<lambda>(mark, s).
     Option.bind (keyword_line ''committer '' s) (\<lambda>(who, s).
     Option.bind (parse_data s) (\<lambda>(message, s).
     let (parent, s) = (case keyword_line ''from '' s of Some (p, t) \<Rightarrow> (Some p, t) | None \<Rightarrow> (None, s)) in
     Option.bind (parse_file_changes (Suc (length s)) s) (\<lambda>(cs, s).
       Some (ImportCommit ref mark who message parent cs, s))))))"

definition parse_command :: "string \<Rightarrow> (import_command \<times> string) option" where
  "parse_command s =
     (case keyword_line ''commit '' s of
        Some _ \<Rightarrow> parse_commit s
      | None \<Rightarrow>
          (case next_line s of
             None \<Rightarrow> None
           | Some (l, t) \<Rightarrow>
               if l = [] then Some (ImportBlank, t)
               else if l = ''checkpoint'' then Some (ImportCheckpoint, t)
               else if has_prefix l ''get-mark :'' then Some (ImportGetMark (drop 10 l), t)
               else if has_prefix l ''progress '' then Some (ImportProgress (drop 9 l), t)
               else None))"

fun parse_stream :: "nat \<Rightarrow> string \<Rightarrow> import_command list option" where
  "parse_stream 0 s = None"
| "parse_stream (Suc fuel) s =
     (if s = [] then Some []
      else Option.bind (parse_command s) (\<lambda>(c, t).
           Option.bind (parse_stream fuel t) (\<lambda>cs. Some (c # cs))))"

definition read_stream :: "string \<Rightarrow> import_command list option" where
  "read_stream s = parse_stream (Suc (length s)) s"

section \<open>Reading back\<close>

lemma next_line_append: "CHR 0x0A \<notin> set l \<Longrightarrow> next_line (l @ CHR 0x0A # t) = Some (l, t)"
  by (simp add: next_line_def)

lemma keyword_line_append:
  "CHR 0x0A \<notin> set w \<Longrightarrow> CHR 0x0A \<notin> set l \<Longrightarrow> keyword_line w (w @ l @ CHR 0x0A # t) = Some (l, t)"
  using next_line_append [of "w @ l" t] by (simp add: keyword_line_def)

lemma keyword_line_other:
  assumes "length w \<le> length s" "take (length w) s \<noteq> w" "CHR 0x0A \<notin> set w"
  shows "keyword_line w s = None"
proof (cases "next_line s")
  case (Some lt)
  then obtain i where i: "index_byte s (CHR 0x0A) = Some i" "lt = (take i s, drop (Suc i) s)"
    by (auto simp: next_line_def split: option.splits)
  have "\<not> has_prefix (take i s) w"
  proof
    assume "has_prefix (take i s) w"
    then have "take (length w) (take i s) = w" by (simp add: has_prefix_def)
    then have "take (length w) s = w"
      by (metis length_take min.absorb_iff2 min.cobounded2 take_take min_def)
    with assms(2) show False by simp
  qed
  with Some i show ?thesis by (simp add: keyword_line_def)
qed (simp add: keyword_line_def)

lemma fmt_nat_no_LF: "CHR 0x0A \<notin> set (fmt_nat 10 n)"
proof
  assume "CHR 0x0A \<in> set (fmt_nat 10 n)"
  then obtain d where "d < 10" "CHR 0x0A = digit_char d" using set_fmt_nat [of 10 _ n] by auto
  then have "digit_val (CHR 0x0A) = Some d" using digit_val_digit_char [of d] by simp
  then show False by (simp add: digit_val_def)
qed

lemma parse_data_import_data: "parse_data (import_data d @ t) = Some (d, t)"
proof -
  have "keyword_line ''data '' (import_data d @ t) = Some (fmt_nat 10 (length d), d @ CHR 0x0A # t)"
    using keyword_line_append [of "''data ''" "fmt_nat 10 (length d)" "d @ CHR 0x0A # t"] fmt_nat_no_LF
    by (simp add: import_data_def)
  then show ?thesis by (simp add: parse_data_def parse_digits_fmt_nat)
qed


lemma keyword_line_hd:
  assumes "c \<noteq> d"
  shows "keyword_line (c # w) (d # s) = None"
proof (cases "next_line (d # s)")
  case (Some lt)
  then obtain i where "lt = (take i (d # s), drop (Suc i) (d # s))"
    by (auto simp: next_line_def split: option.splits)
  moreover have "\<not> has_prefix (take i (d # s)) (c # w)"
    using assms by (cases i) (auto simp: has_prefix_def)
  ultimately show ?thesis using Some by (simp add: keyword_line_def)
qed (simp add: keyword_line_def)

text \<open>A change as the request writes it, with the content it was resolved to.\<close>

fun write_change :: "file_change \<Rightarrow> string" where
  "write_change (FileModify path d) = ''M 100644 inline '' @ path @ [CHR 0x0A] @ import_data d"
| "write_change (FileDelete path) = ''D '' @ path @ [CHR 0x0A]"

fun change_path :: "file_change \<Rightarrow> string" where
  "change_path (FileModify path d) = path"
| "change_path (FileDelete path) = path"

lemma write_change_not_Nil: "1 \<le> length (write_change c)"
  by (cases c) simp_all

lemma parse_file_changes_write:
  assumes "\<forall>c \<in> set cs. CHR 0x0A \<notin> set (change_path c)" "length cs < fuel" "s = CHR 0x0A # s'"
  shows "parse_file_changes fuel (concat (map write_change cs) @ s) = Some (cs, s)"
  using assms(1,2)
proof (induction cs arbitrary: fuel)
  case Nil
  then obtain f where "fuel = Suc f" by (cases fuel) auto
  then show ?case using assms(3) by (simp add: keyword_line_hd)
next
  case (Cons c cs)
  then obtain f where f: "fuel = Suc f" "length cs < f" by (cases fuel) auto
  let ?rest = "concat (map write_change cs) @ s"
  have rec: "parse_file_changes f ?rest = Some (cs, s)" using Cons f by simp
  show ?case
  proof (cases c)
    case (FileModify path d)
    have "keyword_line ''M 100644 inline '' (write_change c @ ?rest) = Some (path, import_data d @ ?rest)"
      using keyword_line_append [of "''M 100644 inline ''" path "import_data d @ ?rest"] Cons.prems(1) FileModify
      by simp
    with rec f show ?thesis by (simp add: parse_data_import_data FileModify)
  next
    case (FileDelete path)
    have "keyword_line ''D '' (write_change c @ ?rest) = Some (path, ?rest)"
      using keyword_line_append [of "''D ''" path ?rest] Cons.prems(1) FileDelete by simp
    moreover have "keyword_line ''M 100644 inline '' (write_change c @ ?rest) = None"
      by (simp add: FileDelete keyword_line_hd)
    ultimately show ?thesis using rec f by (simp add: FileDelete)
  qed
qed

lemma validArchivePath_no_LF: "validArchivePath path \<Longrightarrow> CHR 0x0A \<notin> set path"
proof -
  assume v: "validArchivePath path"
  show ?thesis
  proof (cases "path = mailboxStateName \<or> path = ''.gitignore'' \<or> path = ''.gitattributes''")
    case False
    with v obtain m where "messageFromPath path = Inr m"
      by (auto simp: validArchivePath_def split: sum.splits if_splits)
    then have "messagePath (MsgID m) (MsgSize m) = Inr path" using messageFromPath_SomeD by blast
    from messagePath_chars(1) [OF this] show ?thesis by (auto simp: path_chars_def)
  qed (auto simp: mailboxStateName_def)
qed

text \<open>The changes of a request and what is written for them.\<close>

definition resolved :: "(string \<Rightarrow> string res) \<Rightarrow> string \<times> string option \<Rightarrow> file_change \<Rightarrow> bool" where
  "resolved legacy x c \<longleftrightarrow> validArchivePath (fst x) \<and>
     (case snd x of
        Some d \<Rightarrow> c = FileModify (fst x) d
      | None \<Rightarrow> \<exists>m p d. messageFromPath (fst x) = Inr m \<and> messageRelativePath (MsgID m) = Inr p \<and>
                  legacy p = Inr d \<and> c = FileModify (fst x) d)"

lemma import_change_Inr:
  "import_change legacy x = Inr w \<Longrightarrow> \<exists>c. resolved legacy x c \<and> w = write_change c"
  by (cases x) (auto simp: import_change_def resolved_def bind_res_Inr Let_def split: option.splits if_splits)

lemma import_changes_Inr:
  "map_res (import_change legacy) xs = Inr ws \<Longrightarrow>
     \<exists>cs. list_all2 (resolved legacy) xs cs \<and> ws = map write_change cs"
proof (induction xs arbitrary: ws)
  case (Cons x xs)
  then obtain w ws' where w: "import_change legacy x = Inr w" "map_res (import_change legacy) xs = Inr ws'" "ws = w # ws'"
    by (auto simp: bind_res_Inr)
  from import_change_Inr [OF w(1)] Cons.IH [OF w(2)] obtain c cs where
    "resolved legacy x c" "w = write_change c" "list_all2 (resolved legacy) xs cs" "ws' = map write_change cs" by blast
  with w(3) show ?case by (intro exI [of _ "c # cs"]) simp
qed simp

lemma import_removals_Inr:
  "map_res import_removal ps = Inr ws \<Longrightarrow>
     (\<forall>p \<in> set ps. validArchivePath p) \<and> ws = map (\<lambda>p. write_change (FileDelete p)) ps"
  by (induction ps arbitrary: ws) (auto simp: import_removal_def bind_res_Inr split: if_splits)

lemma resolved_path: "resolved legacy x c \<Longrightarrow> change_path c = fst x \<and> validArchivePath (change_path c)"
  by (auto simp: resolved_def split: option.splits)

lemma concat_write_length: "length cs \<le> length (concat (map write_change cs))"
proof (induction cs)
  case (Cons c cs)
  then show ?case using write_change_not_Nil [of c] by simp
qed simp

text \<open>The committer line that the code writes.\<close>

definition committer_line :: "int \<Rightarrow> string" where
  "committer_line clock = ''picomx <picomx@localhost> '' @ fmt_int clock @ '' +0000''"

lemma fmt_int_no_LF: "CHR 0x0A \<notin> set (fmt_int i)"
  using fmt_nat_no_LF by (simp add: fmt_int_def)

lemma read_commit_request:
  assumes "commit_request refName mark clock title headID legacy changes removals = Inr req"
    and "CHR 0x0A \<notin> set refName" "CHR 0x0A \<notin> set headID"
  shows "\<exists>cs. list_all2 (resolved legacy) changes cs \<and> (\<forall>p \<in> set removals. validArchivePath p) \<and>
    read_stream req = Some
      [ImportCommit refName (fmt_nat 10 mark) (committer_line clock) title
         (if headID = [] then None else Some headID) (cs @ map FileDelete removals),
       ImportBlank, ImportGetMark (fmt_nat 10 mark)]"
proof -
  from assms(1) obtain ws rs where w: "map_res (import_change legacy) changes = Inr ws"
      "map_res import_removal removals = Inr rs"
    and req: "req = ''commit '' @ refName @ [CHR 0x0A] @
            ''mark :'' @ fmt_nat 10 mark @ [CHR 0x0A] @
            ''committer picomx <picomx@localhost> '' @ fmt_int clock @ '' +0000'' @ [CHR 0x0A] @
            import_data title @
            (if headID \<noteq> [] then ''from '' @ headID @ [CHR 0x0A] else []) @
            concat ws @ concat rs @
            [CHR 0x0A] @ ''get-mark :'' @ fmt_nat 10 mark @ [CHR 0x0A]"
    by (auto simp: commit_request_def bind_res_Inr)
  from import_changes_Inr [OF w(1)] obtain cs where cs: "list_all2 (resolved legacy) changes cs" "ws = map write_change cs"
    by blast
  from import_removals_Inr [OF w(2)] have rs: "\<forall>p \<in> set removals. validArchivePath p"
      "rs = map (\<lambda>p. write_change (FileDelete p)) removals" by simp_all
  let ?all = "cs @ map FileDelete removals"
  let ?tail = "CHR 0x0A # ''get-mark :'' @ fmt_nat 10 mark @ [CHR 0x0A]"
  let ?body = "concat (map write_change ?all) @ ?tail"
  let ?from = "(if headID \<noteq> [] then ''from '' @ headID @ [CHR 0x0A] else []) @ ?body"
  let ?s3 = "import_data title @ ?from"
  let ?s2 = "''committer '' @ committer_line clock @ CHR 0x0A # ?s3"
  let ?s1 = "''mark :'' @ fmt_nat 10 mark @ CHR 0x0A # ?s2"
  have req': "req = ''commit '' @ refName @ CHR 0x0A # ?s1"
    by (simp add: req cs(2) rs(2) committer_line_def comp_def)
  have paths: "\<forall>c \<in> set ?all. CHR 0x0A \<notin> set (change_path c)"
  proof
    fix c assume "c \<in> set ?all"
    then consider "c \<in> set cs" | p where "p \<in> set removals" "c = FileDelete p" by auto
    then show "CHR 0x0A \<notin> set (change_path c)"
    proof cases
      case 1
      with cs(1) obtain x where "resolved legacy x c"
        by (metis in_set_conv_nth list_all2_conv_all_nth)
      with resolved_path validArchivePath_no_LF show ?thesis by blast
    qed (use rs(1) validArchivePath_no_LF in auto)
  qed
  have k1: "keyword_line ''commit '' req = Some (refName, ?s1)"
    unfolding req' using assms(2) by (intro keyword_line_append) simp_all
  have k2: "keyword_line ''mark :'' ?s1 = Some (fmt_nat 10 mark, ?s2)"
    using fmt_nat_no_LF by (intro keyword_line_append) simp_all
  have k3: "keyword_line ''committer '' ?s2 = Some (committer_line clock, ?s3)"
    using fmt_int_no_LF by (intro keyword_line_append) (simp_all add: committer_line_def)
  have k4: "parse_data ?s3 = Some (title, ?from)" by (rule parse_data_import_data)
  have body_hd: "keyword_line ''from '' ?body = None"
  proof (cases ?all)
    case Nil
    then show ?thesis by (simp add: keyword_line_hd)
  next
    case (Cons c ds)
    then show ?thesis by (cases c) (simp_all add: keyword_line_hd)
  qed
  have k5: "(case keyword_line ''from '' ?from of Some (p, t) \<Rightarrow> (Some p, t) | None \<Rightarrow> (None, ?from)) =
      (if headID = [] then None else Some headID, ?body)"
  proof (cases "headID = []")
    case True
    with body_hd show ?thesis by simp
  next
    case False
    have "keyword_line ''from '' (''from '' @ headID @ CHR 0x0A # ?body) = Some (headID, ?body)"
      using assms(3) by (intro keyword_line_append) simp_all
    with False show ?thesis by simp
  qed
  have "length ?all < Suc (length ?body)" using concat_write_length [of ?all] by simp
  note k6 = parse_file_changes_write [OF paths this, of ?tail]
  have "parse_commit req = Some (ImportCommit refName (fmt_nat 10 mark) (committer_line clock) title
         (if headID = [] then None else Some headID) ?all, ?tail)"
    unfolding parse_commit_def
    by (simp only: k1 k2 k3 k4 k5 k6 [OF refl] Option.bind.simps prod.case Let_def)
  then have c1: "parse_command req = Some (ImportCommit refName (fmt_nat 10 mark) (committer_line clock) title
         (if headID = [] then None else Some headID) ?all, ?tail)"
    by (simp add: parse_command_def k1)
  have c2: "parse_command ?tail = Some (ImportBlank, ''get-mark :'' @ fmt_nat 10 mark @ [CHR 0x0A])"
    using next_line_append [of "[]" "''get-mark :'' @ fmt_nat 10 mark @ [CHR 0x0A]"]
    by (simp add: parse_command_def keyword_line_hd)
  have "next_line (''get-mark :'' @ fmt_nat 10 mark @ [CHR 0x0A]) = Some (''get-mark :'' @ fmt_nat 10 mark, [])"
    using next_line_append [of "''get-mark :'' @ fmt_nat 10 mark" "[]"] fmt_nat_no_LF by simp
  then have c3: "parse_command (''get-mark :'' @ fmt_nat 10 mark @ [CHR 0x0A]) = Some (ImportGetMark (fmt_nat 10 mark), [])"
    by (simp add: parse_command_def keyword_line_hd has_prefix_def)
  have ne: "req \<noteq> []" by (simp add: req')
  have "\<exists>f. length req = Suc (Suc (Suc f))" by (simp add: req' numeral_eq_Suc)
  then obtain f where "length req = Suc (Suc (Suc f))" by blast
  then have "read_stream req = Some [ImportCommit refName (fmt_nat 10 mark) (committer_line clock) title
         (if headID = [] then None else Some headID) ?all, ImportBlank, ImportGetMark (fmt_nat 10 mark)]"
    using ne by (simp add: read_stream_def c1 c2 c3 del: append.simps append_Cons)
  with cs(1) rs(1) show ?thesis by blast
qed

lemma validObjectID_no_LF: "validObjectID h \<Longrightarrow> CHR 0x0A \<notin> set h"
  by (auto simp: validObjectID_def list_all_iff less_eq_char_def)

lemma read_checkpoint_request:
  assumes "validObjectID h"
  shows "read_stream (checkpoint_request h) = Some [ImportCheckpoint, ImportProgress h]"
proof -
  have "next_line (''progress '' @ h @ [CHR 0x0A]) = Some (''progress '' @ h, [])"
    using next_line_append [of "''progress '' @ h" "[]"] validObjectID_no_LF [OF assms] by simp
  then have p: "parse_command (''progress '' @ h @ [CHR 0x0A]) = Some (ImportProgress h, [])"
    by (simp add: parse_command_def keyword_line_hd has_prefix_def)
  have "next_line (''checkpoint'' @ CHR 0x0A # ''progress '' @ h @ [CHR 0x0A]) =
      Some (''checkpoint'', ''progress '' @ h @ [CHR 0x0A])"
    by (rule next_line_append) simp
  moreover have "keyword_line ''commit '' (''checkpoint'' @ CHR 0x0A # ''progress '' @ h @ [CHR 0x0A]) = None"
    by (rule keyword_line_other) simp_all
  ultimately have c: "parse_command (''checkpoint'' @ CHR 0x0A # ''progress '' @ h @ [CHR 0x0A]) =
      Some (ImportCheckpoint, ''progress '' @ h @ [CHR 0x0A])"
    unfolding parse_command_def by simp
  have "\<exists>f. length (checkpoint_request h) = Suc (Suc f)" by (simp add: checkpoint_request_def)
  then obtain f where "length (checkpoint_request h) = Suc (Suc f)" by blast
  then show ?thesis
    using c p by (simp add: read_stream_def) (simp add: checkpoint_request_def)
qed

section \<open>Properties\<close>

text \<open>C20: Whatever bytes the commit title and the contents hold (commands of the stream included),
  Git reads the written request as exactly one commit on the branch with that title, that parent
  and the given changes and removals in order, followed by the request for its mark; and the
  checkpoint as exactly a checkpoint and the progress line that the code waits for.\<close>

theorem import_stream_exact:
  assumes "commit_request refName mark clock title headID legacy changes removals = Inr req"
    and "CHR 0x0A \<notin> set refName" "headID \<noteq> [] \<longrightarrow> validObjectID headID" "validObjectID h"
  shows "\<exists>cs. list_all2 (resolved legacy) changes cs \<and> (\<forall>p \<in> set removals. validArchivePath p) \<and>
    read_stream req = Some
      [ImportCommit refName (fmt_nat 10 mark) (committer_line clock) title
         (if headID = [] then None else Some headID) (cs @ map FileDelete removals),
       ImportBlank, ImportGetMark (fmt_nat 10 mark)] \<and>
    read_stream (checkpoint_request h) = Some [ImportCheckpoint, ImportProgress h]"
proof -
  have "CHR 0x0A \<notin> set headID" using assms(3) validObjectID_no_LF [of headID] by (cases "headID = []") auto
  from read_commit_request [OF assms(1,2) this] read_checkpoint_request [OF assms(4)] show ?thesis by blast
qed

lemma import_stream_exact_witness:
  "\<exists>req. commit_request ''refs/heads/main'' 1 42 (''hi'' @ [CHR 0x0A] @ ''D state'') [] (\<lambda>_. Inl IoEOF)
      [(''state'', Some ([CHR 0x0A] @ ''D state'' @ [CHR 0x0A]))] [''.gitignore''] = Inr req \<and>
    read_stream req = Some
      [ImportCommit ''refs/heads/main'' ''1'' ''picomx <picomx@localhost> 42 +0000'' (''hi'' @ [CHR 0x0A] @ ''D state'')
         None [FileModify ''state'' ([CHR 0x0A] @ ''D state'' @ [CHR 0x0A]), FileDelete ''.gitignore''],
       ImportBlank, ImportGetMark ''1'']"
proof -
  let ?t = "''hi'' @ [CHR 0x0A] @ ''D state''" and ?c = "[CHR 0x0A] @ ''D state'' @ [CHR 0x0A]"
  have "\<exists>req. commit_request ''refs/heads/main'' 1 42 ?t [] (\<lambda>_. Inl IoEOF) [(''state'', Some ?c)] [''.gitignore''] = Inr req"
    by (simp add: commit_request_def import_change_def import_removal_def validArchivePath_def mailboxStateName_def Let_def)
  then obtain req where req: "commit_request ''refs/heads/main'' 1 42 ?t [] (\<lambda>_. Inl IoEOF)
      [(''state'', Some ?c)] [''.gitignore''] = Inr req" by blast
  have h: "validObjectID (replicate 40 CHR ''a'')"
    by (simp add: validObjectID_def list_all_iff less_eq_char_def)
  have n: "fmt_nat 10 (Suc 0) = ''1''" "committer_line 42 = ''picomx <picomx@localhost> 42 +0000''"
    by (code_simp, code_simp)
  show ?thesis
    using import_stream_exact [OF req _ _ h] req by (auto simp: n resolved_def list_all2_Cons1)
qed

end
