(* ===== verification/Cat_File.thy ===== *)
theory Cat_File
  imports Git_Tree
begin

text \<open>
  \<open>internal/archive/read.go\<close>: the one \<open>git cat-file --batch-command\<close> process that answers
  every read. Git itself is a parameter: \<open>ask\<close> gives the bytes that the process answers a request
  with and the error after them, \<open>start\<close> whether it starts. The lemmas show that a reader that
  is closed after any reads leaves the answers in step with the requests, and what the idle timer
  may close.
\<close>

text \<open>The unread output of the process and the error that reading it ends in.\<close>

type_synonym pipe = "string \<times> goerr"

record objectHeader =
  oh_oid :: string
  oh_kind :: string
  oh_size :: int

record git_reader =
  rs_process :: "pipe option"
  rs_closed :: bool
  rs_generation :: u64
  rs_timer :: "u64 option"

record blobReader =
  br_header :: objectHeader
  br_remaining :: int
  br_closed :: bool
  br_closeError :: "goerr option"

section \<open>Queries\<close>

text \<open>\<open>ReadString('\n')\<close> without the line feed.\<close>

definition git_line :: "pipe \<Rightarrow> string res \<times> pipe" where
  "git_line out =
     (case index_byte (fst out) (CHR 0x0A) of
        Some i \<Rightarrow> (Inr (take i (fst out)), (drop (Suc i) (fst out), snd out))
      | None \<Rightarrow> (Inl (snd out), ([], snd out)))"

definition queryObjectInner ::
  "(string \<Rightarrow> pipe) \<Rightarrow> string \<Rightarrow> string \<Rightarrow> string \<Rightarrow> pipe \<Rightarrow> objectHeader res \<times> pipe" where
  "queryObjectInner ask command spec kind out =
     (if contains_any spec [CHR 0x0D, CHR 0x0A] then (Inl (ErrMsg ''invalid Git object query''), out)
      else let answer = ask (command @ '' '' @ spec @ [CHR 0x0A]);
               (res, out) = git_line (fst out @ fst answer, snd answer)
           in case res of
                Inl e \<Rightarrow> (Inl e, out)
              | Inr line \<Rightarrow>
                  if line = spec @ '' missing'' then (Inl ErrNoSuchMessage, out)
                  else let fs = Go_Strings.fields line in
                       if length fs \<noteq> 3 \<or> \<not> validObjectID (fs ! 0) \<or> fs ! 1 \<noteq> kind
                       then (Inl (ErrMsg ''invalid git object header''), out)
                       else case parse_int (fs ! 2) of
                              None \<Rightarrow> (Inl (ErrMsg ''invalid git object size''), out)
                            | Some sz \<Rightarrow>
                                if sz < 0 then (Inl (ErrMsg ''invalid git object size''), out)
                                else (Inr \<lparr>oh_oid = fs ! 0, oh_kind = fs ! 1, oh_size = sz\<rparr>, out))"

section \<open>The process\<close>

definition readerLocked :: "goerr option \<Rightarrow> git_reader \<Rightarrow> pipe res \<times> git_reader" where
  "readerLocked start r =
     (let r = r\<lparr>rs_generation := rs_generation r + 1, rs_timer := None\<rparr> in
      if rs_closed r then (Inl (ErrMsg ''archive is closed''), r)
      else case rs_process r of
             Some out \<Rightarrow> (Inr out, r)
           | None \<Rightarrow>
               (case start of
                  Some e \<Rightarrow> (Inl e, r)
                | None \<Rightarrow> (Inr ([], IoEOF), r\<lparr>rs_process := Some ([], IoEOF)\<rparr>)))"

definition closeReaderLocked :: "goerr option \<Rightarrow> git_reader \<Rightarrow> goerr option \<times> git_reader" where
  "closeReaderLocked wait r =
     (case rs_process r of
        None \<Rightarrow> (None, r)
      | Some out \<Rightarrow> (map_option (WrapErr ''close git cat-file'') wait, r\<lparr>rs_process := None\<rparr>))"

definition abortReaderLocked :: "goerr \<Rightarrow> git_reader \<Rightarrow> goerr \<times> git_reader" where
  "abortReaderLocked cause r =
     (case rs_process r of
        None \<Rightarrow> (cause, r)
      | Some out \<Rightarrow> (WrapErr ''cat-file'' cause, r\<lparr>rs_process := None\<rparr>))"

definition armReadIdleLocked :: "git_reader \<Rightarrow> git_reader" where
  "armReadIdleLocked r =
     (if rs_process r = None \<or> rs_closed r then r
      else r\<lparr>rs_generation := rs_generation r + 1, rs_timer := Some (rs_generation r + 1)\<rparr>)"

text \<open>The function that an idle timer armed with \<open>generation\<close> runs.\<close>

definition read_idle_fired :: "goerr option \<Rightarrow> u64 \<Rightarrow> git_reader \<Rightarrow> git_reader" where
  "read_idle_fired wait generation r =
     (if rs_generation r = generation then snd (closeReaderLocked wait r) else r)"

definition objectInfo ::
  "goerr option \<Rightarrow> (string \<Rightarrow> pipe) \<Rightarrow> string \<Rightarrow> string \<Rightarrow> git_reader \<Rightarrow> objectHeader res \<times> git_reader" where
  "objectInfo start ask spec kind r =
     (case readerLocked start r of
        (Inl e, r) \<Rightarrow> (Inl e, armReadIdleLocked r)
      | (Inr out, r) \<Rightarrow>
          (let (header, out) = queryObjectInner ask ''info'' spec kind out;
               r = r\<lparr>rs_process := Some out\<rparr>
           in case header of
                Inr h \<Rightarrow> (Inr h, armReadIdleLocked r)
              | Inl e \<Rightarrow>
                  if errors_is e ErrNoSuchMessage then (Inl e, armReadIdleLocked r)
                  else let (e, r) = abortReaderLocked e r in (Inl e, armReadIdleLocked r)))"

text \<open>On success the lock stays held until the reader is closed.\<close>

definition readObject ::
  "goerr option \<Rightarrow> (string \<Rightarrow> pipe) \<Rightarrow> string \<Rightarrow> string \<Rightarrow> git_reader \<Rightarrow> blobReader res \<times> git_reader" where
  "readObject start ask spec kind r =
     (case readerLocked start r of
        (Inl e, r) \<Rightarrow> (Inl e, armReadIdleLocked r)
      | (Inr out, r) \<Rightarrow>
          (let (header, out) = queryObjectInner ask ''contents'' spec kind out;
               r = r\<lparr>rs_process := Some out\<rparr>
           in case header of
                Inr h \<Rightarrow>
                  (Inr \<lparr>br_header = h, br_remaining = oh_size h, br_closed = False, br_closeError = None\<rparr>, r)
              | Inl e \<Rightarrow>
                  if errors_is e ErrNoSuchMessage then (Inl e, armReadIdleLocked r)
                  else let (e, r) = abortReaderLocked e r in (Inl e, armReadIdleLocked r)))"

definition readBlob ::
  "goerr option \<Rightarrow> (string \<Rightarrow> pipe) \<Rightarrow> string \<Rightarrow> string \<Rightarrow> git_reader \<Rightarrow> blobReader res \<times> git_reader" where
  "readBlob start ask commit path r = readObject start ask (commit @ '':'' @ path) ''blob'' r"

section \<open>Reading a blob\<close>

text \<open>\<open>Read\<close> with a buffer of \<open>n\<close> bytes; the process gives what it has.\<close>

definition blob_Read :: "blobReader \<times> pipe \<Rightarrow> nat \<Rightarrow> string \<times> goerr option \<times> blobReader \<times> pipe" where
  "blob_Read x n =
     (let (br, out) = x in
      if br_closed br then ([], Some OsErrClosed, br, out)
      else if n = 0 then ([], None, br, out)
      else if br_remaining br = 0 then ([], Some IoEOF, br, out)
      else let bytes = take (min n (nat (br_remaining br))) (fst out) in
           if bytes = []
           then ([], Some (if errors_is (snd out) IoEOF then IoErrUnexpectedEOF else snd out), br, out)
           else (bytes, None, br\<lparr>br_remaining := br_remaining br - int (length bytes)\<rparr>,
                 (drop (length bytes) (fst out), snd out)))"

text \<open>What \<open>Close\<close> does to the pipe: drop the unread content, then expect a line feed.\<close>

definition drain :: "nat \<Rightarrow> pipe \<Rightarrow> goerr option \<times> pipe" where
  "drain n out =
     (if length (fst out) < n then (Some (snd out), ([], snd out))
      else case drop n (fst out) of
             [] \<Rightarrow> (Some (snd out), ([], snd out))
           | end # rest \<Rightarrow>
               ((if end \<noteq> CHR 0x0A then Some (ErrMsg ''invalid git object terminator'') else None), (rest, snd out)))"

definition blob_Close :: "blobReader \<Rightarrow> git_reader \<Rightarrow> goerr option \<times> blobReader \<times> git_reader" where
  "blob_Close br r =
     (if br_closed br then (br_closeError br, br, r)
      else case rs_process r of
             None \<Rightarrow> (None, br\<lparr>br_closed := True\<rparr>, r)
           | Some out \<Rightarrow>
               (let (err, out) = drain (nat (br_remaining br)) out;
                    r = r\<lparr>rs_process := Some out\<rparr>
                in case err of
                     None \<Rightarrow> (None, br\<lparr>br_closed := True\<rparr>, armReadIdleLocked r)
                   | Some e \<Rightarrow>
                       let (e, r) = abortReaderLocked e r
                       in (Some e, br\<lparr>br_closed := True, br_closeError := Some e\<rparr>, armReadIdleLocked r)))"


section \<open>Answers of the documented form\<close>

text \<open>The answer to a request for an object: a header line, and for \<open>contents\<close> the data.\<close>

definition header_line :: "string \<Rightarrow> string \<Rightarrow> nat \<Rightarrow> string" where
  "header_line oid kind n = oid @ '' '' @ kind @ '' '' @ fmt_nat 10 n"

definition word_ok :: "string \<Rightarrow> bool" where
  "word_ok w \<longleftrightarrow> w \<noteq> [] \<and> (\<forall>c \<in> set w. 33 \<le> code c \<and> code c < 128)"

lemma word_ok_edge: "word_ok w \<Longrightarrow> c \<in> set w \<Longrightarrow> \<not> space_edge c"
  by (auto simp: word_ok_def space_edge_def)

lemma fields_from_word: "(\<And>c. c \<in> set w \<Longrightarrow> \<not> space_edge c) \<Longrightarrow> fields_from cur (w @ s) = fields_from (rev w @ cur) s"
  by (induction w arbitrary: cur) (simp_all add: find_space_None)

lemma fields_from_space: "cur \<noteq> [] \<Longrightarrow> fields_from cur (CHR '' '' # s) = rev cur # fields_from [] s"
  by (simp add: space_seqs_def has_prefix_def)

lemma fields_three: "word_ok a \<Longrightarrow> word_ok b \<Longrightarrow> word_ok c \<Longrightarrow> Go_Strings.fields (a @ '' '' @ b @ '' '' @ c) = [a, b, c]"
proof -
  assume w: "word_ok a" "word_ok b" "word_ok c"
  then have ne: "a \<noteq> []" "b \<noteq> []" "c \<noteq> []" by (simp_all add: word_ok_def)
  have "fields_from [] (c @ []) = [c]" using w(3) ne by (subst fields_from_word) (auto dest: word_ok_edge)
  moreover have "fields_from [] (b @ CHR '' '' # c) = b # fields_from [] c"
    using w(2) ne by (subst fields_from_word) (auto dest: word_ok_edge simp: fields_from_space simp del: fields_from.simps(2))
  moreover have "fields_from [] (a @ CHR '' '' # b @ CHR '' '' # c) = a # fields_from [] (b @ CHR '' '' # c)"
    using w(1) ne by (subst fields_from_word) (auto dest: word_ok_edge simp: fields_from_space simp del: fields_from.simps(2))
  ultimately show ?thesis by (simp add: Go_Strings.fields_def)
qed

lemma digit_char_word: "d < 10 \<Longrightarrow> 33 \<le> code (digit_char d) \<and> code (digit_char d) < 128"
  by (simp add: digit_char_def)

lemma word_ok_fmt_nat: "word_ok (fmt_nat 10 n)"
  using set_fmt_nat [of 10 _ n] digit_char_word by (fastforce simp: word_ok_def)

lemma validObjectID_word: "validObjectID s \<Longrightarrow> word_ok s"
  by (auto simp: validObjectID_def word_ok_def list_all_iff less_eq_char_def)

lemma header_line_last: "\<exists>d < 10. last (header_line oid kind n) = digit_char d"
  using set_fmt_nat [of 10 "last (fmt_nat 10 n)" n] by (simp add: header_line_def)

lemma header_line_plain:
  assumes "validObjectID oid" "word_ok kind"
  shows "CHR 0x0A \<notin> set (header_line oid kind n)" and "header_line oid kind n \<noteq> spec @ '' missing''"
proof -
  have "CHR 0x0A \<notin> set w" if "word_ok w" for w
    using that by (auto simp: word_ok_def)
  from this [OF validObjectID_word [OF assms(1)]] this [OF assms(2)] this [OF word_ok_fmt_nat [of n]]
  show "CHR 0x0A \<notin> set (header_line oid kind n)" by (simp add: header_line_def)
  show "header_line oid kind n \<noteq> spec @ '' missing''"
  proof
    assume "header_line oid kind n = spec @ '' missing''"
    then have "last (header_line oid kind n) = CHR ''g''" by simp
    moreover obtain d where "d < 10" "last (header_line oid kind n) = digit_char d" using header_line_last by blast
    ultimately have "digit_val (CHR ''g'') = Some d" using digit_val_digit_char [of d] by simp
    then show False using \<open>d < 10\<close> by (simp add: digit_val_def)
  qed
qed

lemma queryObjectInner_header:
  assumes "\<not> contains_any spec [CHR 0x0D, CHR 0x0A]" "validObjectID oid" "word_ok kind" "n < 2 ^ 63"
    and "ask (command @ '' '' @ spec @ [CHR 0x0A]) = (header_line oid kind n @ CHR 0x0A # rest, e)"
  shows "queryObjectInner ask command spec kind ([], e0) =
    (Inr \<lparr>oh_oid = oid, oh_kind = kind, oh_size = int n\<rparr>, (rest, e))"
proof -
  have "CHR 0x0A \<notin> set (header_line oid kind n)" by (rule header_line_plain(1) [OF assms(2,3)])
  then have "git_line (header_line oid kind n @ CHR 0x0A # rest, e) = (Inr (header_line oid kind n), (rest, e))"
    by (simp add: git_line_def)
  moreover have "Go_Strings.fields (header_line oid kind n) = [oid, kind, fmt_nat 10 n]"
    unfolding header_line_def using validObjectID_word [OF assms(2)] assms(3) by (intro fields_three word_ok_fmt_nat)
  moreover have "parse_int (fmt_nat 10 n) = Some (int n)" using assms(4) by (rule parse_int_fmt_nat)
  ultimately show ?thesis
    using assms(1,2,5) header_line_plain(2) [OF assms(2,3)]
    by (simp add: queryObjectInner_def)
qed

section \<open>Reads and the end of a lease\<close>

fun blob_reads :: "nat list \<Rightarrow> blobReader \<times> pipe \<Rightarrow> string \<times> blobReader \<times> pipe" where
  "blob_reads [] x = ([], x)"
| "blob_reads (n # ns) x =
     (let (bytes, err, y) = blob_Read x n; (more, z) = blob_reads ns y in (bytes @ more, z))"

definition framed :: "string \<Rightarrow> string \<Rightarrow> goerr \<Rightarrow> blobReader \<times> pipe \<Rightarrow> bool" where
  "framed data rest e x \<longleftrightarrow>
     x = (fst x, data @ CHR 0x0A # rest, e) \<and> br_remaining (fst x) = int (length data) \<and> \<not> br_closed (fst x)"

lemma blob_Read_framed:
  assumes "framed data rest e x" "blob_Read x n = (bytes, err, y)"
  shows "\<exists>more. data = bytes @ more \<and> framed more rest e y \<and>
    (err = None \<or> err = Some IoEOF \<and> data = [])"
proof -
  obtain br where x: "x = (br, data @ CHR 0x0A # rest, e)" "br_remaining br = int (length data)" "\<not> br_closed br"
    using assms(1) by (auto simp: framed_def)
  show ?thesis
  proof (cases "n = 0 \<or> data = []")
    case True
    with assms(2) x have "bytes = []" "y = x" "err = None \<or> err = Some IoEOF \<and> data = []"
      by (auto simp: blob_Read_def split: if_splits)
    with assms(1) show ?thesis by simp
  next
    case False
    let ?b = "take (min n (length data)) (data @ CHR 0x0A # rest)"
    have b: "?b = take n data" by (simp add: min_def)
    have ne: "take n data \<noteq> []" using False by simp
    have rem: "nat (br_remaining br) = length data" "br_remaining br \<noteq> 0" using x(2) False by simp_all
    have drp: "drop (length (take n data)) (data @ CHR 0x0A # rest) = drop n data @ CHR 0x0A # rest"
      by (cases "n \<le> length data") auto
    have "blob_Read x n = (take n data, None, br\<lparr>br_remaining := br_remaining br - int (length (take n data))\<rparr>,
        drop n data @ CHR 0x0A # rest, e)"
      using False x(3) rem b ne drp
      by (simp only: x(1) blob_Read_def prod.case Let_def fst_conv snd_conv if_False rem(1)) simp
    then have out: "bytes = take n data" "err = None"
        "y = (br\<lparr>br_remaining := br_remaining br - int (length (take n data))\<rparr>, drop n data @ CHR 0x0A # rest, e)"
      unfolding assms(2) prod.inject by blast+
    have "framed (drop n data) rest e y"
      using x out(3) by (simp add: framed_def of_nat_diff min_def)
    with out show ?thesis by (intro exI [of _ "drop n data"]) simp
  qed
qed

lemma blob_reads_framed:
  "framed data rest e x \<Longrightarrow> blob_reads ns x = (bytes, y) \<Longrightarrow> \<exists>more. data = bytes @ more \<and> framed more rest e y"
proof (induction ns arbitrary: data x bytes y)
  case (Cons n ns)
  obtain b err z where r: "blob_Read x n = (b, err, z)" by (metis prod_cases3)
  obtain b' w where rs: "blob_reads ns z = (b', w)" by (cases "blob_reads ns z")
  from blob_Read_framed [OF Cons.prems(1) r] obtain more where m: "data = b @ more" "framed more rest e z" by blast
  from Cons.IH [OF m(2) rs] Cons.prems(2) m(1) r rs show ?case by auto
qed simp

section \<open>Properties\<close>

text \<open>C34: However much of an object is read and in whatever pieces, closing its reader leaves the
  process at the start of the next answer, with its idle timer armed; what was read is a prefix
  of the object, and reading on gives all of it.\<close>

theorem blob_close_in_sync:
  assumes "rs_process r = Some (data @ CHR 0x0A # rest, e)" "\<not> rs_closed r"
    and "br_remaining br = int (length data)" "\<not> br_closed br"
    and "blob_reads ns (br, data @ CHR 0x0A # rest, e) = (bytes, br', out)"
  shows "(\<exists>more. data = bytes @ more) \<and>
    (\<exists>r'. blob_Close br' (r\<lparr>rs_process := Some out\<rparr>) = (None, br'\<lparr>br_closed := True\<rparr>, r') \<and>
       rs_process r' = Some (rest, e) \<and> rs_timer r' = Some (rs_generation r') \<and> rs_generation r' \<noteq> rs_generation r)"
proof -
  have "framed data rest e (br, data @ CHR 0x0A # rest, e)" using assms(3,4) by (simp add: framed_def)
  from blob_reads_framed [OF this assms(5)] obtain more where
    m: "data = bytes @ more" "framed more rest e (br', out)" by auto
  then have "drain (nat (br_remaining br')) out = (None, (rest, e))" "\<not> br_closed br'"
    by (auto simp: framed_def drain_def)
  with assms(2) m(1) show ?thesis
    by (simp add: blob_Close_def armReadIdleLocked_def)
qed

lemma blob_close_in_sync_witness:
  "\<exists>r'. blob_Close \<lparr>br_header = \<lparr>oh_oid = [], oh_kind = ''blob'', oh_size = 5\<rparr>, br_remaining = 3,
        br_closed = False, br_closeError = None\<rparr>
      (\<lparr>rs_process = Some (''hello'' @ CHR 0x0A # ''next'', IoEOF), rs_closed = False, rs_generation = 7,
        rs_timer = None\<rparr>\<lparr>rs_process := Some (''llo'' @ CHR 0x0A # ''next'', IoEOF)\<rparr>) =
    (None, \<lparr>br_header = \<lparr>oh_oid = [], oh_kind = ''blob'', oh_size = 5\<rparr>, br_remaining = 3,
        br_closed = False, br_closeError = None\<rparr>\<lparr>br_closed := True\<rparr>, r') \<and>
    rs_process r' = Some (''next'', IoEOF) \<and> rs_timer r' = Some (rs_generation r') \<and> rs_generation r' \<noteq> 7"
  using blob_close_in_sync [where data = "''hello''" and rest = "''next''" and e = IoEOF and ns = "[2]"
      and bytes = "''he''" and out = "(''llo'' @ CHR 0x0A # ''next'', IoEOF)"
      and r = "\<lparr>rs_process = Some (''hello'' @ CHR 0x0A # ''next'', IoEOF), rs_closed = False, rs_generation = 7,
        rs_timer = None\<rparr>"
      and br = "\<lparr>br_header = \<lparr>oh_oid = [], oh_kind = ''blob'', oh_size = 5\<rparr>, br_remaining = 5,
        br_closed = False, br_closeError = None\<rparr>"
      and br' = "\<lparr>br_header = \<lparr>oh_oid = [], oh_kind = ''blob'', oh_size = 5\<rparr>, br_remaining = 3,
        br_closed = False, br_closeError = None\<rparr>"]
  by (simp add: blob_Read_def)

end
