(* ===== verification/Git_Repo.thy ===== *)
theory Git_Repo
  imports Fast_Import Cat_File
begin

text \<open>
  Git itself is not code of the repository: it is a parameter, the record \<open>git\<close> of what the
  processes that the archive runs answer, over a state \<open>'g\<close> of their own. What the archive relies
  on is \<open>git_sound\<close>: the documented behaviour of \<open>fast-import\<close>, \<open>cat-file --batch-command\<close> and
  \<open>rev-parse\<close>, over the objects that a repository holds. Every answer may also be an error, be
  cut off, or come too late.
\<close>

record 'g git =
  gi_head :: "'g \<Rightarrow> string res \<times> 'g"
  gi_start :: "'g \<Rightarrow> goerr option \<times> 'g"
  gi_send :: "string \<Rightarrow> 'g \<Rightarrow> pipe res \<times> 'g"
  gi_close :: "'g \<Rightarrow> goerr option \<times> 'g"
  gi_kill :: "'g \<Rightarrow> 'g"
  gi_watch :: "'g \<Rightarrow> goerr option \<times> 'g"
  gi_catStart :: "'g \<Rightarrow> goerr option"
  gi_catClose :: "'g \<Rightarrow> goerr option"
  gi_ask :: "'g \<Rightarrow> string \<Rightarrow> pipe"
  gi_tick :: "'g \<Rightarrow> 'g"

section \<open>What a repository holds\<close>

text \<open>
  The objects by name, what a revision expression such as \<open>commit:path\<close> names, and the files
  of every commit that HEAD has pointed to. HEAD is the empty string on an unborn branch.
\<close>

type_synonym tree_files = "string \<Rightarrow> string option"

record repo =
  rp_head :: string
  rp_commit :: "string \<Rightarrow> tree_files option"
  rp_resolve :: "string \<Rightarrow> string option"
  rp_object :: "string \<Rightarrow> (string \<times> string) option"

definition files_below :: "tree_files \<Rightarrow> string \<Rightarrow> bool" where
  "files_below fs dir \<longleftrightarrow> (\<exists>rest. fs (dir @ CHR ''/'' # rest) \<noteq> None)"

text \<open>No file of a tree lies below another.\<close>

definition tree_like :: "tree_files \<Rightarrow> bool" where
  "tree_like fs \<longleftrightarrow> (\<forall>p. fs p \<noteq> None \<longrightarrow> p \<noteq> [] \<and> \<not> files_below fs p)"

text \<open>A path of ordinary names; nothing is promised about others.\<close>

definition plain_path :: "string \<Rightarrow> bool" where
  "plain_path p \<longleftrightarrow> list_all plain_elem (split_on CHR ''/'' p) \<and> CHR 0x0A \<notin> set p \<and> CHR 0x00 \<notin> set p"

text \<open>The entries that the tree object of a directory has.\<close>

definition tree_of_dir :: "tree_files \<Rightarrow> string \<Rightarrow> raw_entry list \<Rightarrow> bool" where
  "tree_of_dir fs dir raws \<longleftrightarrow> distinct (map raw_name raws) \<and>
     (\<forall>mode name raw. (mode, name, raw) \<in> set raws \<longrightarrow> name \<notin> {[], ''.'', ''..''} \<and>
        CHR ''/'' \<notin> set name \<and> CHR 0x00 \<notin> set name \<and>
        (if fs (dir @ CHR ''/'' # name) \<noteq> None then mode = ''100644''
         else mode = ''40000'' \<and> files_below fs (dir @ CHR ''/'' # name))) \<and>
     (\<forall>name. CHR ''/'' \<notin> set name \<and> fs (dir @ CHR ''/'' # name) \<noteq> None \<longrightarrow> name \<in> raw_name ` set raws)"

definition repo_ok :: "repo \<Rightarrow> bool" where
  "repo_ok R \<longleftrightarrow>
     (\<forall>oid kind d. rp_object R oid = Some (kind, d) \<longrightarrow> validObjectID oid \<and> word_ok kind \<and> rp_resolve R oid = Some oid) \<and>
     (\<forall>spec oid. rp_resolve R spec = Some oid \<longrightarrow> rp_object R oid \<noteq> None) \<and>
     (\<forall>c fs p. rp_commit R c = Some fs \<longrightarrow> plain_path p \<longrightarrow>
        (case fs p of
           Some d \<Rightarrow> (\<exists>oid. rp_resolve R (c @ CHR '':'' # p) = Some oid \<and> rp_object R oid = Some (''blob'', d))
         | None \<Rightarrow>
             (case rp_resolve R (c @ CHR '':'' # p) of
                None \<Rightarrow> \<not> files_below fs p
              | Some oid \<Rightarrow> \<exists>raws. rp_object R oid = Some (''tree'', concat (map encode_entry raws)) \<and>
                  (\<forall>x \<in> set raws. length (snd (snd x)) = length oid div 2) \<and> tree_of_dir fs p raws)))"

text \<open>Objects never change and never go away, and commits keep their files.\<close>

definition repo_extends :: "repo \<Rightarrow> repo \<Rightarrow> bool" where
  "repo_extends R R' \<longleftrightarrow>
     (\<forall>oid x. rp_object R oid = Some x \<longrightarrow> rp_object R' oid = Some x) \<and>
     (\<forall>c fs. rp_commit R c = Some fs \<longrightarrow> rp_commit R' c = Some fs)"

lemma repo_extends_refl [simp]: "repo_extends R R"
  by (simp add: repo_extends_def)

lemma repo_extends_trans [trans]: "repo_extends R S \<Longrightarrow> repo_extends S T \<Longrightarrow> repo_extends R T"
  by (simp add: repo_extends_def)

section \<open>Documented behaviour\<close>

fun apply_change :: "file_change \<Rightarrow> tree_files \<Rightarrow> tree_files" where
  "apply_change (FileModify p d) fs = fs(p := Some d)"
| "apply_change (FileDelete p) fs = fs(p := None)"

definition apply_changes :: "file_change list \<Rightarrow> tree_files \<Rightarrow> tree_files" where
  "apply_changes cs fs = fold apply_change cs fs"

text \<open>Errors of the operating system are never the archive's own sentinel.\<close>

definition os_error :: "goerr \<Rightarrow> bool" where
  "os_error e \<longleftrightarrow> \<not> errors_is e ErrNoSuchMessage"

text \<open>
  The full answer of \<open>cat-file --batch-command\<close> to \<open>info\<close> and \<open>contents\<close>; a process that is
  killed or fails gives a prefix of it.
\<close>

definition cat_answer :: "repo \<Rightarrow> string \<Rightarrow> string \<Rightarrow> string" where
  "cat_answer R command spec =
     (case Option.bind (rp_resolve R spec) (\<lambda>oid. map_option (Pair oid) (rp_object R oid)) of
        None \<Rightarrow> spec @ '' missing'' @ [CHR 0x0A]
      | Some (oid, kind, d) \<Rightarrow>
          header_line oid kind (length d) @ CHR 0x0A # (if command = ''contents'' then d @ [CHR 0x0A] else []))"

definition answers_sound :: "repo \<Rightarrow> (string \<Rightarrow> pipe) \<Rightarrow> bool" where
  "answers_sound R ask \<longleftrightarrow>
     (\<forall>request. os_error (snd (ask request))) \<and>
     (\<forall>command spec. command \<in> {''info'', ''contents''} \<and> CHR 0x0A \<notin> set spec \<longrightarrow>
        (\<exists>rest. cat_answer R command spec = fst (ask (command @ '' '' @ spec @ [CHR 0x0A])) @ rest))"

text \<open>
  What \<open>fast-import\<close> documents for one commit that is imported and then checkpointed: once HEAD
  is the commit that \<open>get-mark\<close> named, that commit has its parent's files with the changes made.
\<close>

definition git_imports :: "'g git \<Rightarrow> ('g \<Rightarrow> repo) \<Rightarrow> bool" where
  "git_imports G view \<longleftrightarrow>
     (\<forall>g g1 g2 g3 request checkpoint ans1 ans2 ref mark who title parent changes next rest out base.
        gi_send G request g = (Inr ans1, g1) \<and>
        read_stream request = Some [ImportCommit ref mark who title parent changes, ImportBlank, ImportGetMark mark] \<and>
        (case parent of None \<Rightarrow> base = (\<lambda>_. None) | Some c \<Rightarrow> rp_commit (view g) c = Some base) \<and>
        tree_like (apply_changes changes base) \<and>
        git_line ans1 = (Inr next, rest) \<and>
        gi_send G checkpoint g1 = (Inr ans2, g2) \<and>
        read_stream checkpoint = Some [ImportCheckpoint, ImportProgress next] \<and>
        gi_head G g2 = (Inr out, g3) \<and> trim_space out = next \<longrightarrow>
        rp_commit (view g3) next = Some (apply_changes changes base))"

text \<open>Each of the two requests is answered by one line.\<close>

definition git_lines :: "'g git \<Rightarrow> bool" where
  "git_lines G \<longleftrightarrow>
     (\<forall>g g1 request ans line out ref mark who title parent changes next.
        gi_send G request g = (Inr ans, g1) \<and> git_line ans = (Inr line, out) \<and>
        read_stream request \<in> {Some [ImportCommit ref mark who title parent changes, ImportBlank, ImportGetMark mark],
          Some [ImportCheckpoint, ImportProgress next]} \<longrightarrow>
        fst out = [])"

definition git_keeps :: "'g git \<Rightarrow> ('g \<Rightarrow> repo) \<Rightarrow> bool" where
  "git_keeps G view \<longleftrightarrow>
     (\<forall>g. repo_extends (view g) (view (snd (gi_head G g))) \<and>
          repo_extends (view g) (view (snd (gi_start G g))) \<and>
          (\<forall>req. repo_extends (view g) (view (snd (gi_send G req g)))) \<and>
          repo_extends (view g) (view (snd (gi_close G g))) \<and>
          repo_extends (view g) (view (gi_kill G g)) \<and>
          repo_extends (view g) (view (snd (gi_watch G g))) \<and>
          repo_extends (view g) (view (gi_tick G g)))"

definition git_sound :: "'g git \<Rightarrow> ('g \<Rightarrow> repo) \<Rightarrow> bool" where
  "git_sound G view \<longleftrightarrow>
     (\<forall>g. repo_ok (view g) \<and> answers_sound (view g) (gi_ask G g) \<and>
        (\<forall>e. gi_catStart G g = Some e \<longrightarrow> os_error e)) \<and>
     git_imports G view \<and> git_lines G \<and> git_keeps G view"

end
