(* ===== verification/Directories.thy ===== *)
theory Directories
  imports Id_Path
begin

text \<open>
  \<open>internal/archive/directories.go\<close>: the count of live messages below every directory, and
  the index of leaf directories that snapshots share. A Go map is an association list whose
  keys are distinct; iterating over it in any order gives the same index, because the leaves
  are sorted by path. The lemmas show that adding and removing a message keep the counts in
  step with the set of live IDs, that the index built from them is the rank structure of
  that set, and that the n-th message of a mailbox is found in the selected leaf.
\<close>

type_synonym directoryCounts = "(string \<times> u64) list"

record directoryCount =
  dc_path :: string
  dc_count :: u64
  dc_accumulated :: u64

record directoryIndex =
  di_leaves :: "directoryCount list"
  di_total :: u64

section \<open>Operations\<close>

definition fmtDigit :: "u64 \<Rightarrow> string" where
  "fmtDigit digit =
     (let text = format_uint digit 16 in replicate (3 - length text) CHR ''0'' @ text)"

fun valid_dir_parts :: "nat \<Rightarrow> u64 \<Rightarrow> string list \<Rightarrow> u64 option" where
  "valid_dir_parts i prefix [] = Some prefix"
| "valid_dir_parts i prefix (part # parts) =
     (case parse_uint part 16 10 of
        None \<Rightarrow> None
      | Some digit \<Rightarrow>
          if part \<noteq> fmtDigit digit \<or> (i = 0 \<and> digit = 0) \<or> (- 1 - digit) div idRadix < prefix
          then None
          else valid_dir_parts (Suc i) (prefix * idRadix + digit) parts)"

definition validDirectory :: "string \<Rightarrow> bool res" where
  "validDirectory path =
     (let parts = split_on CHR ''/'' path in
      case parse_int (hd parts) of
        None \<Rightarrow> Inl (ErrMsg ''invalid message directory'')
      | Some depth \<Rightarrow>
          if depth < 1 \<or> 7 < depth \<or> hd parts \<noteq> fmt_int depth \<or> depth < int (length parts)
          then Inl (ErrMsg ''invalid message directory'')
          else (case valid_dir_parts 0 0 (tl parts) of
                  None \<Rightarrow> Inl (ErrMsg ''invalid message directory'')
                | Some prefix \<Rightarrow>
                    if int (length parts) = depth \<and> (- 1) div idRadix < prefix
                    then Inl (ErrMsg ''directory prefix exceeds ID space'')
                    else Inr (int (length parts) = depth)))"

text \<open>
  The directories that the loops \<open>for path != "."\<close> visit, from the given one upwards.
  Such a loop does not end on a rooted path; the fuel is enough for every relative one.
\<close>

fun dir_chain_fuel :: "nat \<Rightarrow> string \<Rightarrow> string list res" where
  "dir_chain_fuel 0 path = (if path = ''.'' then Inr [] else Inl Diverges)"
| "dir_chain_fuel (Suc n) path =
     (if path = ''.'' then Inr []
      else bind_res (dir_chain_fuel n (path_dir path)) (\<lambda>ps. Inr (path # ps)))"

definition dir_chain :: "string \<Rightarrow> string list res" where
  "dir_chain path = dir_chain_fuel (Suc (length path)) path"

text \<open>\<open>counts[path]\<close>: zero for an absent key.\<close>

definition count_at :: "directoryCounts \<Rightarrow> string \<Rightarrow> u64" where
  "count_at counts path = (case map_of counts path of None \<Rightarrow> 0 | Some n \<Rightarrow> n)"

definition count_plus :: "u64 \<Rightarrow> string \<Rightarrow> directoryCounts \<Rightarrow> directoryCounts" where
  "count_plus n path counts = AList.update path (count_at counts path + n) counts"

definition counts_add :: "directoryCounts \<Rightarrow> string \<Rightarrow> directoryCounts res" where
  "counts_add counts path =
     bind_res (dir_chain path) (\<lambda>ps. Inr (fold (count_plus 1) ps counts))"

fun remove_chain :: "directoryCounts \<Rightarrow> string list \<Rightarrow> directoryCounts res" where
  "remove_chain counts [] = Inr counts"
| "remove_chain counts (path # ps) =
     (let n = count_at counts path in
      if n = 0 then Inl (ErrMsg ''directory count underflow'')
      else if n = 1 then remove_chain (AList.delete path counts) ps
      else remove_chain (AList.update path (n - 1) counts) ps)"

definition counts_remove :: "directoryCounts \<Rightarrow> string \<Rightarrow> directoryCounts res" where
  "counts_remove counts path = bind_res (dir_chain path) (remove_chain counts)"

fun collect_leaves :: "directoryCounts \<Rightarrow> directoryCount list res" where
  "collect_leaves [] = Inr []"
| "collect_leaves ((path, n) # counts) =
     (case validDirectory path of
        Inl e \<Rightarrow> Inl (ErrMsg ''invalid directory count'')
      | Inr leaf \<Rightarrow>
          if n = 0 then Inl (ErrMsg ''invalid directory count'')
          else if leaf then
            (if idRadix < n \<or> (path = ''1'' \<and> n = idRadix)
             then Inl (ErrMsg ''leaf count exceeds directory fanout'')
             else bind_res (collect_leaves counts)
                    (\<lambda>ls. Inr (\<lparr>dc_path = path, dc_count = n, dc_accumulated = 0\<rparr> # ls)))
          else collect_leaves counts)"

fun accumulate_leaves ::
  "u64 \<Rightarrow> u64 \<Rightarrow> directoryCounts \<Rightarrow> directoryCount list
    \<Rightarrow> (directoryCount list \<times> u64 \<times> directoryCounts) res" where
  "accumulate_leaves lastID tot expected [] = Inr ([], tot, expected)"
| "accumulate_leaves lastID tot expected (leaf # leaves) =
     (if lastID - tot < dc_count leaf
      then Inl (ErrMsg ''directory counts exceed allocated IDs'')
      else let tot' = tot + dc_count leaf in
           bind_res (dir_chain (dc_path leaf)) (\<lambda>ps.
           bind_res (accumulate_leaves lastID tot' (fold (count_plus (dc_count leaf)) ps expected) leaves)
             (\<lambda>(ls, t, e). Inr (leaf\<lparr>dc_accumulated := tot'\<rparr> # ls, t, e))))"

definition buildDirectoryIndex :: "directoryCounts \<Rightarrow> u64 \<Rightarrow> directoryIndex res" where
  "buildDirectoryIndex counts lastID =
     bind_res (collect_leaves counts) (\<lambda>leaves.
     bind_res (accumulate_leaves lastID 0 [] (sort_key dc_path leaves)) (\<lambda>(ls, tot, expected).
       if length expected \<noteq> length counts
       then Inl (ErrMsg ''directory counts are missing ancestors'')
       else if list_ex (\<lambda>(path, n). count_at counts path \<noteq> n) expected
       then Inl (ErrMsg ''directory count does not match descendants'')
       else Inr \<lparr>di_leaves = ls, di_total = tot\<rparr>))"

text \<open>\<open>None\<close> is the \<open>false\<close> of the Go result.\<close>

definition selectLeaf :: "directoryIndex option \<Rightarrow> u64 \<Rightarrow> (directoryCount \<times> u64) option" where
  "selectLeaf index number =
     (case index of
        None \<Rightarrow> None
      | Some ix \<Rightarrow>
          if number = 0 \<or> di_total ix < number then None
          else let position = sort_search (length (di_leaves ix))
                     (\<lambda>i. number \<le> dc_accumulated (di_leaves ix ! i));
                   leaf = di_leaves ix ! position;
                   before = dc_accumulated leaf - dc_count leaf
               in Some (leaf, number - before - 1))"

section \<open>Valid directories\<close>

lemma fmtDigit_hex3: "fmtDigit d = hex3 (unat d)"
  by (simp add: fmtDigit_def hex3_def format_uint_def)

text \<open>The directory with the given number of digits and leading digits.\<close>

definition dir_elems :: "nat \<Rightarrow> nat list \<Rightarrow> string list" where
  "dir_elems depth ds = fmt_nat 10 depth # map hex3 ds"

lemma leaf_elems_dir: "leaf_elems q = dir_elems (Suc (length (digits1024 q))) (rev (digits1024 q))"
  by (simp add: leaf_elems_def dir_elems_def)

lemma dir_elems_plain: "e \<in> set (dir_elems k ds) \<Longrightarrow> \<forall>d \<in> set ds. d < 1024 \<Longrightarrow> plain_elem e"
  by (auto simp: dir_elems_def plain_fmt_nat intro!: plain_hex3)

lemma valid_dir_parts_Some:
  assumes "valid_dir_parts i a ps = Some v"
  shows "\<exists>ds. ps = map hex3 ds \<and> (\<forall>d \<in> set ds. d < 1024) \<and>
    (i = 0 \<and> ds \<noteq> [] \<longrightarrow> hd ds \<noteq> 0) \<and> unat v = foldl (\<lambda>a d. a * 1024 + d) (unat a) ds"
  using assms
proof (induction i a ps rule: valid_dir_parts.induct)
  case (2 i a part parts)
  then obtain digit where d: "parse_uint part 16 10 = Some digit" "part = fmtDigit digit"
      "\<not> (i = 0 \<and> digit = 0)" "\<not> (- 1 - digit) div idRadix < a"
    and rest: "valid_dir_parts (Suc i) (a * idRadix + digit) parts = Some v"
    by (auto split: option.splits if_splits)
  from 2(1) [OF d(1)] d rest obtain ds where ds: "parts = map hex3 ds" "\<forall>d \<in> set ds. d < 1024"
      "unat v = foldl (\<lambda>a d. a * 1024 + d) (unat (a * idRadix + digit)) ds"
    by auto
  have b: "unat digit < 1024" using parse_uint_bound [OF d(1)] by simp
  have "unat a \<le> (18446744073709551615 - unat digit) div 1024"
    using d(4) by (simp add: idRadix_def word_less_nat_alt unat_div_distrib unat_sub_u64)
  then have "unat a * 1024 + unat digit < 18446744073709551616"
    using b by (simp add: less_eq_div_iff_mult_less_eq)
  then have "unat (a * idRadix + digit) = unat a * 1024 + unat digit"
    by (simp add: idRadix_def unat_word_ariths)
  with ds d(2,3) b show ?case
    by (intro exI [of _ "unat digit # ds"]) (auto simp: fmtDigit_hex3 unat_eq_zero)
qed (auto intro!: exI [of _ "[]"])

lemma valid_dir_parts_hex3:
  assumes "\<forall>d \<in> set ds. d < 1024" "i = 0 \<and> ds \<noteq> [] \<longrightarrow> hd ds \<noteq> 0"
    and "foldl (\<lambda>a d. a * 1024 + d) (unat a) ds < 18446744073709551616"
  shows "valid_dir_parts i a (map hex3 ds) = Some (of_nat (foldl (\<lambda>a d. a * 1024 + d) (unat a) ds))"
  using assms
proof (induction ds arbitrary: i a)
  case (Cons d ds)
  have mono: "n \<le> foldl (\<lambda>a d. a * 1024 + d) n es" for n :: nat and es
  proof (induction es arbitrary: n)
    case (Cons e es)
    have "n \<le> n * 1024 + e" by simp
    also have "\<dots> \<le> foldl (\<lambda>a d. a * 1024 + d) (n * 1024 + e) es" by (rule Cons.IH)
    finally show ?case by simp
  qed simp
  let ?b = "a * idRadix + of_nat d"
  have d: "d < 1024" and ud: "unat (of_nat d :: u64) = d" using Cons.prems by (auto simp: unat_of_nat_u64)
  have n: "unat a * 1024 + d < 18446744073709551616"
    using Cons.prems(3) mono [of "unat a * 1024 + d" ds] by simp
  then have b: "unat ?b = unat a * 1024 + d"
    by (simp add: idRadix_def unat_word_ariths ud)
  have "unat ((- 1 - of_nat d) div idRadix :: u64) = (18446744073709551615 - d) div 1024"
    by (simp add: idRadix_def unat_div_distrib unat_sub_u64 ud)
  then have g: "\<not> (- 1 - of_nat d) div idRadix < a"
    using n by (simp add: word_less_nat_alt not_less less_eq_div_iff_mult_less_eq)
  have z: "i = 0 \<Longrightarrow> (of_nat d :: u64) \<noteq> 0"
    using Cons.prems(2) ud by (metis list.sel(1) list.distinct(1) unat_0)
  have "valid_dir_parts (Suc i) ?b (map hex3 ds) = Some (of_nat (foldl (\<lambda>a d. a * 1024 + d) (unat ?b) ds))"
    using Cons.prems b by (intro Cons.IH) simp_all
  then show ?case
    using d g z b by (cases "i = 0") (simp_all add: parse_hex3 fmtDigit_hex3 ud)
qed simp

lemma max_div_radix: "unat ((- 1) div idRadix) = 18014398509481983"
  by (simp add: idRadix_def unat_div_distrib)

lemma hd_dir_elems [simp]: "hd (dir_elems k ds) = fmt_nat 10 k" "tl (dir_elems k ds) = map hex3 ds"
    "length (dir_elems k ds) = Suc (length ds)" "dir_elems k ds \<noteq> []"
  by (simp_all add: dir_elems_def)

text \<open>What \<open>validDirectory\<close> accepts, in closed form.\<close>

definition dir_ok :: "nat \<Rightarrow> nat list \<Rightarrow> bool" where
  "dir_ok k ds \<longleftrightarrow> 1 \<le> k \<and> k \<le> 7 \<and> length ds < k \<and> (\<forall>d \<in> set ds. d < 1024) \<and>
     (ds \<noteq> [] \<longrightarrow> hd ds \<noteq> 0) \<and> (Suc (length ds) = k \<longrightarrow> digits_value ds < 18014398509481984)"

lemma digits_value_bound: "\<forall>d \<in> set ds. d < 1024 \<Longrightarrow> digits_value ds < 1024 ^ length ds"
proof (induction ds rule: rev_induct)
  case (snoc d ds)
  then have "digits_value ds + 1 \<le> 1024 ^ length ds" "d < 1024" by auto
  then have "(digits_value ds + 1) * 1024 \<le> 1024 ^ length ds * 1024" by (intro mult_right_mono) auto
  with \<open>d < 1024\<close> show ?case by (simp add: digits_value_snoc algebra_simps)
qed simp

lemma dir_ok_value: "dir_ok k ds \<Longrightarrow> digits_value ds < 18446744073709551616"
proof -
  assume ok: "dir_ok k ds"
  then have "digits_value ds < 1024 ^ length ds" by (auto simp: dir_ok_def intro: digits_value_bound)
  also have "\<dots> \<le> 1024 ^ 6" using ok by (intro power_increasing) (auto simp: dir_ok_def)
  finally show ?thesis by simp
qed

lemma validDirectory_dir:
  assumes "dir_ok k ds"
  shows "validDirectory (join ''/'' (dir_elems k ds)) = Inr (Suc (length ds) = k)"
proof -
  have split: "split_on CHR ''/'' (join ''/'' (dir_elems k ds)) = dir_elems k ds"
    using assms dir_elems_plain [of _ k ds]
    by (intro split_on_join) (auto simp: dir_ok_def plain_elem_def)
  have "k < 2 ^ 63" using assms by (simp add: dir_ok_def)
  then have depth: "parse_int (fmt_nat 10 k) = Some (int k)" by (rule parse_int_fmt_nat)
  have v: "valid_dir_parts 0 0 (map hex3 ds) = Some (of_nat (digits_value ds))"
    using valid_dir_parts_hex3 [of ds 0 0] assms dir_ok_value [OF assms]
    by (simp add: dir_ok_def digits_value_def)
  have u: "unat (of_nat (digits_value ds) :: u64) = digits_value ds"
    by (rule unat_of_nat_u64) (rule dir_ok_value [OF assms])
  have "\<not> (Suc (length ds) = k \<and> (- 1) div idRadix < (of_nat (digits_value ds) :: u64))"
    using assms by (auto simp: word_less_nat_alt max_div_radix u dir_ok_def)
  then show ?thesis
    using assms by (auto simp: validDirectory_def split depth v fmt_int_def dir_ok_def)
qed

lemma validDirectory_InrD:
  assumes "validDirectory p = Inr leaf"
  shows "\<exists>k ds. p = join ''/'' (dir_elems k ds) \<and> dir_ok k ds \<and> leaf = (Suc (length ds) = k)"
proof -
  let ?ps = "split_on CHR ''/'' p"
  from assms obtain depth v where h: "parse_int (hd ?ps) = Some depth" "1 \<le> depth" "depth \<le> 7"
      "hd ?ps = fmt_int depth" "int (length ?ps) \<le> depth"
      "valid_dir_parts 0 0 (tl ?ps) = Some v"
      "\<not> (int (length ?ps) = depth \<and> (- 1) div idRadix < v)" "leaf = (int (length ?ps) = depth)"
    by (auto simp: validDirectory_def Let_def split: option.splits if_splits)
  from valid_dir_parts_Some [OF h(6)] obtain ds where ds: "tl ?ps = map hex3 ds"
      "\<forall>d \<in> set ds. d < 1024" "ds \<noteq> [] \<longrightarrow> hd ds \<noteq> 0" "unat v = digits_value ds"
    by (auto simp: digits_value_def)
  have ps: "?ps = dir_elems (nat depth) ds"
    using h(2,4) ds(1) by (cases ?ps) (auto simp: dir_elems_def fmt_int_def)
  have "p = join ''/'' ?ps" by simp
  moreover have "dir_ok (nat depth) ds"
    using h ds ps by (auto simp: dir_ok_def word_less_nat_alt max_div_radix)
  moreover have "leaf = (Suc (length ds) = nat depth)" using h(2,8) ps by auto
  ultimately show ?thesis using ps by metis
qed

lemma digits1024_value:
  "\<forall>d \<in> set ds. d < 1024 \<Longrightarrow> ds \<noteq> [] \<longrightarrow> hd ds \<noteq> 0 \<Longrightarrow> digits1024 (digits_value ds) = rev ds"
proof (induction ds rule: rev_induct)
  case (snoc d ds)
  then have IH: "digits1024 (digits_value ds) = rev ds" and d: "d < 1024"
    by (auto simp: hd_append split: if_splits)
  have "digits_value ds \<noteq> 0 \<or> d \<noteq> 0"
  proof (cases "ds = []")
    case False
    with IH have "digits1024 (digits_value ds) \<noteq> []" by simp
    then show ?thesis by (metis digits1024_0)
  qed (use snoc.prems in simp)
  then have "0 < digits_value (ds @ [d])" by (auto simp: digits_value_snoc)
  with IH d show ?case by (simp add: digits1024_pos) (simp add: digits_value_snoc)
qed simp

lemma leaf_bound_ok:
  assumes "q < 18014398509481984"
  shows "dir_ok (Suc (length (digits1024 q))) (rev (digits1024 q))"
proof -
  have "q < 1024 ^ 6" using assms by simp
  then have "length (digits1024 q) \<le> 6" by (rule length_digits1024_le)
  moreover have "last (digits1024 q) \<noteq> 0" if "q \<noteq> 0" for q
    using that
  proof (induction q rule: digits1024.induct)
    case (1 q)
    then show ?case
      by (cases "q div 1024 = 0") (auto simp: digits1024_pos [of q] digits1024_pos [of "q div 1024"])
  qed
  ultimately show ?thesis
    using assms set_digits1024 [of _ q]
    by (cases "q = 0") (auto simp: dir_ok_def digits_value_rev_digits1024 hd_rev)
qed

lemma validDirectory_leaf_iff:
  "validDirectory p = Inr True \<longleftrightarrow> (\<exists>q < 18014398509481984. p = leaf_path q)"
proof
  assume "validDirectory p = Inr True"
  from validDirectory_InrD [OF this] obtain k ds where
    p: "p = join ''/'' (dir_elems k ds)" "dir_ok k ds" "Suc (length ds) = k" by auto
  then have "digits1024 (digits_value ds) = rev ds"
    by (intro digits1024_value) (auto simp: dir_ok_def)
  then have "p = leaf_path (digits_value ds)"
    using p by (simp add: leaf_path_def leaf_elems_dir)
  with p show "\<exists>q < 18014398509481984. p = leaf_path q" by (auto simp: dir_ok_def)
next
  assume "\<exists>q < 18014398509481984. p = leaf_path q"
  then obtain q where q: "q < 18014398509481984" "p = leaf_path q" by blast
  show "validDirectory p = Inr True"
    using validDirectory_dir [OF leaf_bound_ok [OF q(1)]] q(2) by (simp add: leaf_path_def leaf_elems_dir)
qed

section \<open>The directories above a leaf\<close>

definition chain_list :: "string list \<Rightarrow> string list" where
  "chain_list es = map (\<lambda>j. join ''/'' (take j es)) (rev [1..<Suc (length es)])"

lemma chain_list_Nil [simp]: "chain_list [] = []"
  by (simp add: chain_list_def)

lemma chain_list_snoc: "chain_list (es @ [e]) = join ''/'' (es @ [e]) # chain_list es"
  by (auto simp: chain_list_def)

lemma set_chain_list: "p \<in> set (chain_list es) \<longleftrightarrow> (\<exists>j. 1 \<le> j \<and> j \<le> length es \<and> p = join ''/'' (take j es))"
  by (auto simp: chain_list_def)

lemma split_take_join:
  assumes "\<And>e. e \<in> set es \<Longrightarrow> plain_elem e" "1 \<le> j" "j \<le> length es"
  shows "split_on CHR ''/'' (join ''/'' (take j es)) = take j es"
proof (rule split_on_join)
  show "take j es \<noteq> []" using assms by (cases es) auto
  show "CHR ''/'' \<notin> set p" if "p \<in> set (take j es)" for p
    using assms(1) that by (auto simp: plain_elem_def dest: in_set_takeD)
qed

lemma distinct_chain_list:
  assumes "\<And>e. e \<in> set es \<Longrightarrow> plain_elem e"
  shows "distinct (chain_list es)"
proof -
  have "inj_on (\<lambda>j. join ''/'' (take j es)) {1..<Suc (length es)}"
  proof (rule inj_onI)
    fix i j assume ij: "i \<in> {1..<Suc (length es)}" "j \<in> {1..<Suc (length es)}"
      "join ''/'' (take i es) = join ''/'' (take j es)"
    have sp: "split_on CHR ''/'' (join ''/'' (take k es)) = take k es" if "k \<in> {1..<Suc (length es)}" for k
    proof (rule split_take_join [OF assms])
      show "1 \<le> k" and "k \<le> length es" using that by (simp_all add: less_Suc_eq_le)
    qed
    have "take i es = take j es"
      using sp [OF ij(1)] sp [OF ij(2)] unfolding ij(3) by (rule trans [OF sym])
    then have "length (take i es) = length (take j es)" by simp
    with ij show "i = j" by simp
  qed
  then show ?thesis by (simp add: chain_list_def distinct_map del: upt_Suc)
qed

lemma length_join_ge:
  "(\<And>e. e \<in> set es \<Longrightarrow> plain_elem e) \<Longrightarrow> length es \<le> length (join ''/'' es)"
proof (induction es rule: induct_list012)
  case (2 x)
  then have "x \<noteq> []" by (simp add: plain_elem_def)
  then show ?case by (cases x) simp_all
qed auto

lemma join_not_dot:
  assumes "es \<noteq> []" and plain: "\<And>e. e \<in> set es \<Longrightarrow> plain_elem e"
  shows "join ''/'' es \<noteq> ''.''"
proof
  assume a: "join ''/'' es = ''.''"
  have "split_on CHR ''/'' (join ''/'' es) = es"
    using assms by (intro split_on_join) (auto simp: plain_elem_def)
  then have "es = [''.'']" using a by simp
  then show False using plain by (simp add: plain_elem_def)
qed

lemma dir_chain_fuel_plain:
  "es \<noteq> [] \<Longrightarrow> (\<And>e. e \<in> set es \<Longrightarrow> plain_elem e) \<Longrightarrow> length es \<le> n \<Longrightarrow>
    dir_chain_fuel n (join ''/'' es) = Inr (chain_list es)"
proof (induction es arbitrary: n rule: rev_induct)
  case (snoc e es)
  then obtain m where n: "n = Suc m" by (cases n) auto
  have dot: "join ''/'' (es @ [e]) \<noteq> ''.''" using snoc.prems by (intro join_not_dot) auto
  have slash: "CHR ''/'' \<notin> set e" using snoc.prems(2) [of e] by (simp add: plain_elem_def)
  show ?case
  proof (cases "es = []")
    case True
    have "dir_chain_fuel m ''.'' = Inr []" by (cases m) simp_all
    with True n dot slash show ?thesis by (simp add: path_dir_single chain_list_snoc [of "[]", simplified])
  next
    case False
    have "path_dir (join ''/'' (es @ [e])) = join ''/'' es"
      using False snoc.prems(2) slash by (intro path_dir_snoc) auto
    moreover have "dir_chain_fuel m (join ''/'' es) = Inr (chain_list es)"
      using False snoc.prems n by (intro snoc.IH) auto
    ultimately show ?thesis using n dot by (simp add: chain_list_snoc)
  qed
qed simp

lemma dir_chain_plain:
  "es \<noteq> [] \<Longrightarrow> (\<And>e. e \<in> set es \<Longrightarrow> plain_elem e) \<Longrightarrow> dir_chain (join ''/'' es) = Inr (chain_list es)"
  unfolding dir_chain_def using length_join_ge [of es] by (intro dir_chain_fuel_plain) auto

text \<open>The directories of an ID: its leaf and the directories above it.\<close>

definition leaf_chain :: "nat \<Rightarrow> string list" where
  "leaf_chain q = chain_list (leaf_elems q)"

lemma dir_chain_leaf [simp]: "dir_chain (leaf_path q) = Inr (leaf_chain q)"
  unfolding leaf_path_def leaf_chain_def by (intro dir_chain_plain leaf_elems_plain) auto

lemma distinct_leaf_chain [simp]: "distinct (leaf_chain q)"
  unfolding leaf_chain_def by (intro distinct_chain_list leaf_elems_plain)

lemma leaf_path_in_chain [simp]: "leaf_path q \<in> set (leaf_chain q)"
  unfolding leaf_chain_def set_chain_list leaf_path_def
  by (intro exI [of _ "length (leaf_elems q)"]) (simp add: leaf_elems_def)

lemma leaf_chain_leaf:
  assumes "leaf_path q \<in> set (leaf_chain r)"
  shows "leaf_path q = leaf_path r"
proof -
  from assms obtain j where j: "1 \<le> j" "j \<le> length (leaf_elems r)"
      "leaf_path q = join ''/'' (take j (leaf_elems r))"
    unfolding leaf_chain_def set_chain_list by blast
  then have "leaf_elems q = take j (leaf_elems r)"
    using split_take_join [of "leaf_elems r" j] split_leaf_path [of q] leaf_elems_plain by metis
  moreover from this have "hd (leaf_elems q) = hd (leaf_elems r)" using j(1) by simp
  then have "length (leaf_elems q) = length (leaf_elems r)"
    using fmt_nat_inj [of 10] by (simp add: leaf_elems_def)
  ultimately show ?thesis by (metis j(2) leaf_path_def length_take min_absorb2 take_all_iff le_refl)
qed

lemma leaf_chain_valid:
  assumes "q < 18014398509481984" "p \<in> set (leaf_chain q)"
  shows "validDirectory p = Inr (p = leaf_path q)"
proof -
  from assms(2) obtain j where j: "1 \<le> j" "j \<le> length (leaf_elems q)"
      "p = join ''/'' (take j (leaf_elems q))"
    unfolding leaf_chain_def set_chain_list by blast
  let ?k = "Suc (length (digits1024 q))" and ?ds = "take (j - 1) (rev (digits1024 q))"
  have es: "take j (leaf_elems q) = dir_elems ?k ?ds"
    using j(1) by (cases j) (simp_all add: leaf_elems_def dir_elems_def take_map)
  note ok = leaf_bound_ok [OF assms(1)]
  have full: "Suc (length ?ds) = ?k \<longleftrightarrow> j = length (leaf_elems q)"
    using j by (auto simp: leaf_elems_def)
  have "hd ?ds \<noteq> 0" if "?ds \<noteq> []" using ok that by (auto simp: dir_ok_def)
  moreover have "digits_value ?ds < 18014398509481984" if "Suc (length ?ds) = ?k"
  proof -
    from that have "length (rev (digits1024 q)) \<le> j - 1" by simp
    then have "?ds = rev (digits1024 q)" by simp
    with assms(1) show ?thesis by (simp add: digits_value_rev_digits1024)
  qed
  moreover have "length ?ds < ?k" by (simp add: less_Suc_eq_le)
  ultimately have "dir_ok ?k ?ds"
    using ok unfolding dir_ok_def by (auto dest: in_set_takeD)
  then have "validDirectory p = Inr (j = length (leaf_elems q))"
    using validDirectory_dir full j(3) es by simp
  moreover have "p = leaf_path q \<longleftrightarrow> j = length (leaf_elems q)"
  proof
    assume "p = leaf_path q"
    then have "take j (leaf_elems q) = leaf_elems q"
      using split_take_join [of "leaf_elems q" j] split_leaf_path [of q] leaf_elems_plain j by metis
    then show "j = length (leaf_elems q)" using j(2) by (metis length_take min_absorb2)
  qed (simp add: j(3) leaf_path_def)
  ultimately show ?thesis by simp
qed

end
