(* ===== verification/Directory_Index.thy ===== *)
theory Directory_Index
  imports Directories
begin

text \<open>
  What the directory counts and the index of \<open>directories.go\<close> promise, stated against a
  set of live archive IDs: the counts represent the set, adding and removing an ID keep them in
  step with it, an index is built exactly when the counts represent some set that fits below
  the last ID, and selecting a rank in the index gives the leaf and the offset of the ID with
  that rank.
\<close>

section \<open>Counts that represent a set of IDs\<close>

definition dirs_of :: "u64 \<Rightarrow> string list" where
  "dirs_of i = leaf_chain (unat i div 1024)"

definition dir_count :: "u64 set \<Rightarrow> string \<Rightarrow> nat" where
  "dir_count S p = card {i \<in> S. p \<in> set (dirs_of i)}"

definition counts_represent :: "directoryCounts \<Rightarrow> u64 set \<Rightarrow> bool" where
  "counts_represent counts S \<longleftrightarrow>
     distinct (map fst counts) \<and>
     (\<forall>p. map_of counts p = (if dir_count S p = 0 then None else Some (of_nat (dir_count S p))))"

lemma finite_u64 [simp]: "finite (S :: u64 set)"
  by (rule finite_subset [OF subset_UNIV]) simp

lemma card_u64_le: "0 \<notin> S \<Longrightarrow> card (S :: u64 set) \<le> 18446744073709551615"
proof -
  assume "0 \<notin> S"
  then have "unat ` S \<subseteq> {1..<18446744073709551616}"
    by (auto simp: unat_gt_0 Suc_le_eq)
  then have "card (unat ` S) \<le> card {1..<18446744073709551616 :: nat}"
    by (intro card_mono) auto
  moreover have "card (unat ` S) = card S"
    by (intro card_image inj_onI) (simp add: word_unat_eq_iff)
  ultimately show ?thesis by simp
qed

lemma dir_count_le: "dir_count S p \<le> card S"
  unfolding dir_count_def by (intro card_mono) auto

lemma dir_count_insert:
  "i \<notin> S \<Longrightarrow> dir_count (insert i S) p = dir_count S p + (if p \<in> set (dirs_of i) then 1 else 0)"
proof -
  assume "i \<notin> S"
  have "{j \<in> insert i S. p \<in> set (dirs_of j)} =
      (if p \<in> set (dirs_of i) then insert i {j \<in> S. p \<in> set (dirs_of j)}
       else {j \<in> S. p \<in> set (dirs_of j)})" by auto
  with \<open>i \<notin> S\<close> show ?thesis by (simp add: dir_count_def)
qed

lemma dir_count_remove:
  "i \<in> S \<Longrightarrow> dir_count S p = dir_count (S - {i}) p + (if p \<in> set (dirs_of i) then 1 else 0)"
  using dir_count_insert [of i "S - {i}" p] by (simp add: insert_absorb)

lemma counts_represent_empty [simp]: "counts_represent [] {}"
  by (simp add: counts_represent_def dir_count_def)

lemma unat_of_dir_count:
  "0 \<notin> S \<Longrightarrow> unat (of_nat (dir_count S p) :: u64) = dir_count S p"
  using card_u64_le [of S] dir_count_le [of S p] by (intro unat_of_nat_u64) simp

lemma counts_represent_at:
  "counts_represent counts S \<Longrightarrow> count_at counts p = of_nat (dir_count S p)"
  by (simp add: counts_represent_def count_at_def)

subsection \<open>Adding and removing along a chain\<close>

lemma count_at_plus: "count_at (count_plus n q c) p = (if p = q then count_at c q + n else count_at c p)"
  by (simp add: count_at_def count_plus_def update_conv')

lemma map_of_count_plus:
  "map_of (count_plus n q c) p = (if p = q then Some (count_at c q + n) else map_of c p)"
  by (simp add: count_plus_def update_conv')

lemma distinct_fold_count_plus:
  "distinct (map fst c) \<Longrightarrow> distinct (map fst (fold (count_plus n) ps c))"
  by (induction ps arbitrary: c) (simp_all add: count_plus_def distinct_update)

lemma map_of_fold_count_plus:
  "distinct ps \<Longrightarrow> map_of (fold (count_plus n) ps c) p =
     (if p \<in> set ps then Some (count_at c p + n) else map_of c p)"
  by (induction ps arbitrary: c) (auto simp: count_at_plus map_of_count_plus)

lemma count_at_delete: "count_at (AList.delete q c) p = (if p = q then 0 else count_at c p)"
  by (simp add: count_at_def delete_conv')

lemma count_at_update: "count_at (AList.update q n c) p = (if p = q then n else count_at c p)"
  by (simp add: count_at_def update_conv')

lemma remove_chain_ok:
  assumes "distinct ps" "\<And>p. p \<in> set ps \<Longrightarrow> count_at c p \<noteq> 0" "distinct (map fst c)"
  shows "\<exists>c'. remove_chain c ps = Inr c' \<and> distinct (map fst c') \<and>
    (\<forall>p. map_of c' p =
       (if p \<in> set ps then (if count_at c p = 1 then None else Some (count_at c p - 1)) else map_of c p))"
  using assms
proof (induction ps arbitrary: c)
  case (Cons q ps)
  let ?c = "if count_at c q = 1 then AList.delete q c else AList.update q (count_at c q - 1) c"
  have step: "remove_chain c (q # ps) = remove_chain ?c ps"
    using Cons.prems(2) [of q] by (simp add: Let_def)
  have at: "count_at ?c p = count_at c p" if "p \<in> set ps" for p
    using that Cons.prems(1) by (auto simp: count_at_delete count_at_update)
  have dist: "distinct (map fst ?c)"
    using Cons.prems(3) by (auto intro: distinct_delete distinct_update)
  have "\<exists>c'. remove_chain ?c ps = Inr c' \<and> distinct (map fst c') \<and>
    (\<forall>p. map_of c' p =
       (if p \<in> set ps then (if count_at ?c p = 1 then None else Some (count_at ?c p - 1)) else map_of ?c p))"
    using Cons.prems at dist by (intro Cons.IH) auto
  then obtain c' where c': "remove_chain ?c ps = Inr c'" "distinct (map fst c')"
    "\<And>p. map_of c' p =
       (if p \<in> set ps then (if count_at ?c p = 1 then None else Some (count_at ?c p - 1)) else map_of ?c p)"
    by blast
  have "map_of c' p = (if p \<in> set (q # ps) then (if count_at c p = 1 then None else Some (count_at c p - 1))
      else map_of c p)" for p
    using c'(3) [of p] at [of p] Cons.prems(1)
    by (cases "p \<in> set ps"; cases "p = q") (auto simp: delete_conv' update_conv')
  with c'(1,2) step show ?case by metis
qed simp

lemma leaf_of_chain [simp]: "dir_chain (leaf_of i) = Inr (dirs_of i)"
  by (simp add: leaf_of_def dirs_of_def)

lemma distinct_dirs_of [simp]: "distinct (dirs_of i)"
  by (simp add: dirs_of_def)

lemma counts_add_represent:
  assumes "counts_represent c S" "0 \<notin> S" "i \<notin> S" "i \<noteq> 0"
  shows "\<exists>c'. counts_add c (leaf_of i) = Inr c' \<and> counts_represent c' (insert i S)"
proof -
  let ?c = "fold (count_plus 1) (dirs_of i) c"
  have z: "of_nat (dir_count S p) + 1 = (of_nat (dir_count S p + 1) :: u64)" for p by simp
  have "counts_represent ?c (insert i S)"
    using assms counts_represent_at [OF assms(1)] distinct_fold_count_plus [of c 1 "dirs_of i"]
    by (auto simp: counts_represent_def map_of_fold_count_plus dir_count_insert add.commute)
  then show ?thesis by (simp add: counts_add_def)
qed

lemma counts_remove_represent:
  assumes "counts_represent c S" "0 \<notin> S" "i \<in> S"
  shows "\<exists>c'. counts_remove c (leaf_of i) = Inr c' \<and> counts_represent c' (S - {i})"
proof -
  have pos: "dir_count S p \<noteq> 0" if "p \<in> set (dirs_of i)" for p
    using dir_count_remove [OF assms(3), of p] that by simp
  have at: "unat (count_at c p) = dir_count S p" for p
    by (simp add: counts_represent_at [OF assms(1)] unat_of_dir_count assms(2))
  have nz: "count_at c p \<noteq> 0" if "p \<in> set (dirs_of i)" for p
    using at [of p] pos [OF that] by auto
  obtain c' where c': "remove_chain c (dirs_of i) = Inr c'" "distinct (map fst c')"
    "\<And>p. map_of c' p = (if p \<in> set (dirs_of i)
       then (if count_at c p = 1 then None else Some (count_at c p - 1)) else map_of c p)"
    using remove_chain_ok [of "dirs_of i" c] nz assms(1) by (auto simp: counts_represent_def)
  have "counts_represent c' (S - {i})"
    unfolding counts_represent_def
  proof (intro conjI allI)
    show "distinct (map fst c')" by (rule c'(2))
    show "map_of c' p = (if dir_count (S - {i}) p = 0 then None
        else Some (of_nat (dir_count (S - {i}) p)))" for p
    proof (cases "p \<in> set (dirs_of i)")
      case True
      have n: "dir_count S p = Suc (dir_count (S - {i}) p)"
        using dir_count_remove [OF assms(3), of p] True by simp
      have "count_at c p = of_nat (Suc (dir_count (S - {i}) p))"
        using counts_represent_at [OF assms(1)] n by simp
      moreover have "count_at c p = 1 \<longleftrightarrow> dir_count (S - {i}) p = 0"
        using at [of p] n by (metis One_nat_def Suc_inject unat_1 word_unat_eq_iff)
      ultimately show ?thesis using True c'(3) [of p] by simp
    next
      case False
      then have "dir_count S p = dir_count (S - {i}) p"
        using dir_count_remove [OF assms(3), of p] by simp
      with False c'(3) [of p] assms(1) show ?thesis by (simp add: counts_represent_def)
    qed
  qed
  with c'(1) show ?thesis by (simp add: counts_remove_def)
qed

section \<open>The index\<close>

subsection \<open>Collecting the leaves\<close>

definition entry_ok :: "string \<times> u64 \<Rightarrow> bool" where
  "entry_ok e \<longleftrightarrow> snd e \<noteq> 0 \<and> (\<exists>leaf. validDirectory (fst e) = Inr leaf \<and>
     (leaf \<longrightarrow> snd e \<le> idRadix \<and> \<not> (fst e = ''1'' \<and> snd e = idRadix)))"

definition leaf_entry :: "string \<times> u64 \<Rightarrow> directoryCount" where
  "leaf_entry e = \<lparr>dc_path = fst e, dc_count = snd e, dc_accumulated = 0\<rparr>"

lemma collect_leaves_Inr:
  "collect_leaves c = Inr ls \<longleftrightarrow> (\<forall>e \<in> set c. entry_ok e) \<and>
     ls = map leaf_entry (filter (\<lambda>e. validDirectory (fst e) = Inr True) c)"
proof (induction c arbitrary: ls)
  case (Cons e c)
  obtain p n where e: "e = (p, n)" by (cases e)
  show ?case
  proof (cases "validDirectory p")
    case (Inl x)
    then show ?thesis by (simp add: e entry_ok_def)
  next
    case (Inr leaf)
    show ?thesis
      by (cases leaf) (auto simp: e Inr entry_ok_def leaf_entry_def bind_res_Inr Cons.IH not_less)
  qed
qed auto

text \<open>The numbers of the leaves that have an entry.\<close>

definition leaf_numbers :: "directoryCounts \<Rightarrow> nat set" where
  "leaf_numbers c = {q. q < 18014398509481984 \<and> leaf_path q \<in> fst ` set c}"

lemma leaf_path_inj: "q < 18014398509481984 \<Longrightarrow> r < 18014398509481984 \<Longrightarrow> leaf_path q = leaf_path r \<longleftrightarrow> q = r"
  and leaf_path_mono: "q < 18014398509481984 \<Longrightarrow> r < 18014398509481984 \<Longrightarrow> leaf_path q \<le> leaf_path r \<longleftrightarrow> q \<le> r"
  using leaf_path_order [of q r] leaf_path_order [of r q] by auto

lemma finite_leaf_numbers [simp]: "finite (leaf_numbers c)"
proof -
  have "inj_on leaf_path (leaf_numbers c)"
    by (intro inj_onI) (simp add: leaf_numbers_def leaf_path_inj)
  moreover have "leaf_path ` leaf_numbers c \<subseteq> fst ` set c" by (auto simp: leaf_numbers_def)
  ultimately show ?thesis by (meson List.finite_set finite_imageD finite_imageI finite_subset)
qed

definition number_entry :: "directoryCounts \<Rightarrow> nat \<Rightarrow> nat \<times> nat" where
  "number_entry c q = (q, unat (count_at c (leaf_path q)))"

definition bare_leaf :: "nat \<times> nat \<Rightarrow> directoryCount" where
  "bare_leaf x = \<lparr>dc_path = leaf_path (fst x), dc_count = of_nat (snd x), dc_accumulated = 0\<rparr>"

lemma bare_leaf_Pair [simp]:
  "bare_leaf (q, n) = \<lparr>dc_path = leaf_path q, dc_count = of_nat n, dc_accumulated = 0\<rparr>"
  by (simp add: bare_leaf_def)

lemma sorted_leaves:
  assumes "distinct (map fst c)"
  shows "sort_key dc_path (map leaf_entry (filter (\<lambda>e. validDirectory (fst e) = Inr True) c)) =
    map (bare_leaf \<circ> number_entry c) (sorted_list_of_set (leaf_numbers c))"
    (is "sort_key dc_path ?ls = map ?f ?qs")
proof (rule map_sorted_distinct_set_unique [where f = dc_path])
  have at: "count_at c p = n" if "(p, n) \<in> set c" for p n
    using that assms by (simp add: count_at_def map_of_is_SomeI)
  have fst_inj: "inj_on fst (set c)" using assms by (simp add: distinct_map)
  have pf: "map dc_path (map ?f ?qs) = map leaf_path ?qs"
    by (simp add: bare_leaf_def number_entry_def comp_def)
  have qs: "q < 18014398509481984" if "q \<in> set ?qs" for q
    using that by (simp add: leaf_numbers_def)
  show "sorted (map dc_path (sort_key dc_path ?ls))" by simp
  have "distinct (map dc_path ?ls)"
    using assms by (simp add: leaf_entry_def comp_def distinct_map_filter)
  then show "distinct (map dc_path (sort_key dc_path ?ls))"
    by (simp only: distinct_map distinct_sort set_sort)
  show "sorted (map dc_path (map ?f ?qs))"
    unfolding pf sorted_map
    by (rule sorted_wrt_mono_rel [OF _ sorted_sorted_list_of_set]) (simp add: qs leaf_path_mono)
  show "distinct (map dc_path (map ?f ?qs))"
    unfolding pf distinct_map by (intro conjI inj_onI) (simp_all add: qs leaf_path_inj)
  show "set (sort_key dc_path ?ls) = set (map ?f ?qs)"
  proof -
    have "?f q = leaf_entry (p, n)" if "(p, n) \<in> set c" "p = leaf_path q" for p n q
      using that at by (simp add: bare_leaf_def number_entry_def leaf_entry_def)
    then show ?thesis
      by (force simp: validDirectory_leaf_iff leaf_numbers_def image_iff)
  qed
  show "inj_on dc_path (set (sort_key dc_path ?ls) \<union> set (map ?f ?qs))"
  proof -
    have "set (map ?f ?qs) \<subseteq> leaf_entry ` set c"
      using at by (fastforce simp: bare_leaf_def number_entry_def leaf_entry_def leaf_numbers_def image_iff)
    then have "set (sort_key dc_path ?ls) \<union> set (map ?f ?qs) \<subseteq> leaf_entry ` set c" by auto
    moreover have "inj_on dc_path (leaf_entry ` set c)"
      using fst_inj by (auto simp: inj_on_def leaf_entry_def)
    ultimately show ?thesis by (rule inj_on_subset [rotated])
  qed
qed

subsection \<open>Accumulating\<close>

text \<open>Leaves with their running totals, and the counts that they imply.\<close>

fun with_sums :: "nat \<Rightarrow> (nat \<times> nat) list \<Rightarrow> directoryCount list" where
  "with_sums t [] = []"
| "with_sums t ((q, n) # xs) =
     \<lparr>dc_path = leaf_path q, dc_count = of_nat n, dc_accumulated = of_nat (t + n)\<rparr> # with_sums (t + n) xs"

fun implied_counts :: "directoryCounts \<Rightarrow> (nat \<times> nat) list \<Rightarrow> directoryCounts" where
  "implied_counts c [] = c"
| "implied_counts c ((q, n) # xs) = implied_counts (fold (count_plus (of_nat n)) (leaf_chain q) c) xs"

definition below :: "string \<Rightarrow> (nat \<times> nat) list \<Rightarrow> nat" where
  "below p xs = (\<Sum>(q, n) \<leftarrow> xs. if p \<in> set (leaf_chain q) then n else 0)"

lemma accumulate_leaves_spec:
  assumes "t \<le> unat lastID" "\<And>q n. (q, n) \<in> set xs \<Longrightarrow> n < 18446744073709551616"
  shows "accumulate_leaves lastID (of_nat t) c (map bare_leaf xs) =
    (if t + sum_list (map snd xs) \<le> unat lastID
     then Inr (with_sums t xs, of_nat (t + sum_list (map snd xs)), implied_counts c xs)
     else Inl (ErrMsg ''directory counts exceed allocated IDs''))"
  using assms
proof (induction xs arbitrary: t c)
  case (Cons x xs)
  obtain q n where x: "x = (q, n)" by (cases x)
  have t: "unat (of_nat t :: u64) = t"
    using Cons.prems(1) unat_less_64 [of lastID] by (intro unat_of_nat_u64) linarith
  have n: "unat (of_nat n :: u64) = n" using Cons.prems(2) [of q n] x by (simp add: unat_of_nat_u64)
  have "lastID - of_nat t < of_nat n \<longleftrightarrow> unat lastID < t + n"
    using Cons.prems(1) t n by (simp add: word_less_nat_alt word_le_nat_alt unat_sub_u64 less_diff_conv2 add.commute)
  moreover have "accumulate_leaves lastID (of_nat (t + n)) c' (map bare_leaf xs) =
    (if t + n + sum_list (map snd xs) \<le> unat lastID
     then Inr (with_sums (t + n) xs, of_nat (t + n + sum_list (map snd xs)), implied_counts c' xs)
     else Inl (ErrMsg ''directory counts exceed allocated IDs''))" if "t + n \<le> unat lastID" for c'
    using Cons.prems(2) that by (intro Cons.IH) auto
  ultimately show ?case
    by (auto simp: x Let_def add.assoc)
qed simp

lemma distinct_implied_counts: "distinct (map fst c) \<Longrightarrow> distinct (map fst (implied_counts c xs))"
  by (induction c xs rule: implied_counts.induct) (auto intro: distinct_fold_count_plus)

lemma below_simps [simp]:
  "below p [] = 0"
  "below p ((q, n) # xs) = (if p \<in> set (leaf_chain q) then n else 0) + below p xs"
  by (simp_all add: below_def)

lemma below_none: "(\<And>q n. (q, n) \<in> set xs \<Longrightarrow> p \<notin> set (leaf_chain q)) \<Longrightarrow> below p xs = 0"
  by (induction xs) fastforce+

lemma map_of_implied_counts:
  "map_of (implied_counts c xs) p =
     (if \<exists>q n. (q, n) \<in> set xs \<and> p \<in> set (leaf_chain q)
      then Some (count_at c p + of_nat (below p xs)) else map_of c p)"
proof (induction c xs rule: implied_counts.induct)
  case (2 c q n xs)
  let ?c = "fold (count_plus (of_nat n)) (leaf_chain q) c"
  have at: "count_at ?c p = count_at c p + (if p \<in> set (leaf_chain q) then of_nat n else 0)"
    by (auto simp: count_at_def map_of_fold_count_plus)
  show ?case
  proof (cases "\<exists>r m. (r, m) \<in> set xs \<and> p \<in> set (leaf_chain r)")
    case True
    then have "map_of (implied_counts ?c xs) p = Some (count_at ?c p + of_nat (below p xs))"
      using 2 by simp
    with True show ?thesis by (auto simp: at add.assoc)
  next
    case False
    then have "map_of (implied_counts ?c xs) p = map_of ?c p" "below p xs = 0"
      using 2 below_none [of xs p] by auto
    with False show ?thesis by (auto simp: map_of_fold_count_plus)
  qed
qed simp

subsection \<open>When an index is built, in closed form\<close>

lemma alist_agree:
  assumes "distinct (map fst e)" "distinct (map fst c)" "\<And>p n. (p, n) \<in> set e \<Longrightarrow> n \<noteq> 0"
  shows "length e = length c \<and> \<not> list_ex (\<lambda>(p, n). count_at c p \<noteq> n) e \<longleftrightarrow> map_of e = map_of c"
proof
  have card: "card (dom (map_of m)) = length m" if "distinct (map fst m)" for m :: directoryCounts
    using distinct_card [OF that] by (simp add: dom_map_of_conv_image_fst)
  {
    assume a: "length e = length c \<and> \<not> list_ex (\<lambda>(p, n). count_at c p \<noteq> n) e"
    have le: "map_of c p = Some n" if "map_of e p = Some n" for p n
      using a assms(3) [of p n] map_of_SomeD [OF that]
      by (auto simp: list_ex_iff count_at_def split: option.splits)
    then have "dom (map_of e) \<subseteq> dom (map_of c)" by auto
    moreover have "card (dom (map_of e)) = card (dom (map_of c))" using a assms card by simp
    ultimately have "dom (map_of e) = dom (map_of c)"
      by (intro card_subset_eq finite_dom_map_of) auto
    with le show "map_of e = map_of c"
      by (intro ext) (metis domIff not_Some_eq)
  }
  assume eq: "map_of e = map_of c"
  then have "length e = length c" using assms card by metis
  moreover have "count_at c p = n" if "(p, n) \<in> set e" for p n
    using map_of_is_SomeI [OF assms(1) that] eq by (simp add: count_at_def)
  ultimately show "length e = length c \<and> \<not> list_ex (\<lambda>(p, n). count_at c p \<noteq> n) e"
    by (auto simp: list_ex_iff)
qed

definition leaf_entries :: "directoryCounts \<Rightarrow> (nat \<times> nat) list" where
  "leaf_entries c = map (number_entry c) (sorted_list_of_set (leaf_numbers c))"

lemma leaf_entries_ok:
  assumes "\<forall>e \<in> set c. entry_ok e" "distinct (map fst c)" "(q, n) \<in> set (leaf_entries c)"
  shows "1 \<le> n \<and> n \<le> 1024 \<and> (q = 0 \<longrightarrow> n < 1024) \<and> q < 18014398509481984"
proof -
  from assms(3) obtain m where q: "q < 18014398509481984" "(leaf_path q, m) \<in> set c"
      "n = unat (count_at c (leaf_path q))"
    by (auto simp: leaf_entries_def number_entry_def leaf_numbers_def)
  then have m: "n = unat m" using assms(2) by (simp add: count_at_def)
  have "validDirectory (leaf_path q) = Inr True" using q(1) validDirectory_leaf_iff by blast
  moreover have "entry_ok (leaf_path q, m)" using assms(1) q(2) by blast
  ultimately have ok: "m \<noteq> 0" "m \<le> idRadix" "\<not> (leaf_path q = ''1'' \<and> m = idRadix)"
    by (auto simp: entry_ok_def)
  have one: "leaf_path 0 = ''1''"
    using char_of_char [of "CHR ''1''"]
    by (simp add: leaf_path_def leaf_elems_def fmt_nat_small digit_char_def)
  have u: "unat (idRadix) = 1024" by (simp add: idRadix_def)
  have "1 \<le> n" using ok(1) m unat_gt_0 [of m] by simp
  moreover have le: "n \<le> 1024" using ok(2) u m unfolding word_le_nat_alt by simp
  moreover have "n < 1024" if "q = 0"
  proof (rule ccontr)
    assume "\<not> n < 1024"
    then have "unat m = unat idRadix" using le u m by simp
    then show False using ok(3) one that by (simp only: word_unat_eq_iff) simp
  qed
  ultimately show ?thesis using q(1) by blast
qed

lemma below_le: "below p xs \<le> sum_list (map snd xs)"
  by (induction xs) auto

lemma below_pos: "(q, n) \<in> set xs \<Longrightarrow> p \<in> set (leaf_chain q) \<Longrightarrow> n \<le> below p xs"
  by (induction xs) (auto intro: trans_le_add1 trans_le_add2)

lemma buildDirectoryIndex_Inr:
  assumes "distinct (map fst c)"
  shows "buildDirectoryIndex c lastID = Inr idx \<longleftrightarrow>
    (\<forall>e \<in> set c. entry_ok e) \<and> sum_list (map snd (leaf_entries c)) \<le> unat lastID \<and>
    map_of (implied_counts [] (leaf_entries c)) = map_of c \<and>
    idx = \<lparr>di_leaves = with_sums 0 (leaf_entries c),
           di_total = of_nat (sum_list (map snd (leaf_entries c)))\<rparr>"
    (is "?l \<longleftrightarrow> ?ok \<and> ?sum \<le> _ \<and> ?agree \<and> ?idx")
proof (cases ?ok)
  case False
  then have "\<exists>e. collect_leaves c = Inl e"
    using collect_leaves_Inr [of c] by (metis sum.exhaust)
  with False show ?thesis by (auto simp: buildDirectoryIndex_def)
next
  case True
  let ?ls = "map leaf_entry (filter (\<lambda>e. validDirectory (fst e) = Inr True) c)"
  let ?e = "implied_counts [] (leaf_entries c)"
  have ls: "collect_leaves c = Inr ?ls" using True collect_leaves_Inr by blast
  have ok: "1 \<le> n \<and> n < 18446744073709551616" if "(q, n) \<in> set (leaf_entries c)" for q n
    using leaf_entries_ok [OF True assms that] by simp
  have "accumulate_leaves lastID (of_nat 0) [] (map bare_leaf (leaf_entries c)) =
      (if 0 + ?sum \<le> unat lastID then Inr (with_sums 0 (leaf_entries c), of_nat (0 + ?sum), ?e)
       else Inl (ErrMsg ''directory counts exceed allocated IDs''))"
    using ok by (intro accumulate_leaves_spec) auto
  then have acc: "accumulate_leaves lastID 0 [] (sort_key dc_path ?ls) =
      (if ?sum \<le> unat lastID then Inr (with_sums 0 (leaf_entries c), of_nat ?sum, ?e)
       else Inl (ErrMsg ''directory counts exceed allocated IDs''))"
    using sorted_leaves [OF assms] by (simp add: leaf_entries_def)
  have agree: "length ?e = length c \<and> \<not> list_ex (\<lambda>(p, n). count_at c p \<noteq> n) ?e \<longleftrightarrow> ?agree"
    if s: "?sum \<le> unat lastID"
  proof (rule alist_agree)
    show "distinct (map fst ?e)" by (rule distinct_implied_counts) simp
    show "distinct (map fst c)" by (rule assms)
    fix p v assume "(p, v) \<in> set ?e"
    then have "map_of ?e p = Some v" by (intro map_of_is_SomeI distinct_implied_counts) simp_all
    then obtain q n where qn: "(q, n) \<in> set (leaf_entries c)" "p \<in> set (leaf_chain q)"
        and v: "v = of_nat (below p (leaf_entries c))"
      by (auto simp: map_of_implied_counts count_at_def split: if_splits)
    have "1 \<le> below p (leaf_entries c)" using below_pos [OF qn] ok [OF qn(1)] by simp
    moreover have "below p (leaf_entries c) < 18446744073709551616"
      using below_le [of p "leaf_entries c"] s unat_less_64 [of lastID] by linarith
    ultimately have "unat v \<noteq> 0" by (simp add: v unat_of_nat_u64)
    then show "v \<noteq> 0" by auto
  qed
  show ?thesis
    using True ls acc agree by (auto simp: buildDirectoryIndex_def list_ex_iff split: if_splits)
qed


subsection \<open>The index of a set of live IDs\<close>

definition leaf_card :: "u64 set \<Rightarrow> nat \<Rightarrow> nat" where
  "leaf_card S q = card {i \<in> S. unat i div 1024 = q}"

definition set_leaves :: "u64 set \<Rightarrow> nat set" where
  "set_leaves S = (\<lambda>i. unat i div 1024) ` S"

definition entries_of :: "u64 set \<Rightarrow> (nat \<times> nat) list" where
  "entries_of S = map (\<lambda>q. (q, leaf_card S q)) (sorted_list_of_set (set_leaves S))"

definition index_of_set :: "u64 set \<Rightarrow> directoryIndex" where
  "index_of_set S = \<lparr>di_leaves = with_sums 0 (entries_of S), di_total = of_nat (card S)\<rparr>"

lemma finite_set_leaves [simp]: "finite (set_leaves S)"
  by (simp add: set_leaves_def)

lemma leaf_number_u64: "unat (i :: u64) div 1024 < 18014398509481984"
  by (rule less_mult_imp_div_less, rule order_less_le_trans [OF unat_less_64]) simp

lemma set_leaves_bound: "q \<in> set_leaves S \<Longrightarrow> q < 18014398509481984"
  by (auto simp: set_leaves_def leaf_number_u64)

lemma leaf_card_pos: "0 < leaf_card S q \<longleftrightarrow> q \<in> set_leaves S"
  by (auto simp: leaf_card_def set_leaves_def card_gt_0_iff)

lemma set_entries_of: "(q, n) \<in> set (entries_of S) \<longleftrightarrow> q \<in> set_leaves S \<and> n = leaf_card S q"
  by (auto simp: entries_of_def)

lemma dir_count_sum:
  "dir_count S p = (\<Sum>q \<in> set_leaves S. if p \<in> set (leaf_chain q) then leaf_card S q else 0)"
proof -
  have "dir_count S p = (\<Sum>i \<in> S. if p \<in> set (dirs_of i) then 1 else 0)"
    by (simp add: dir_count_def sum.If_cases Int_def)
  also have "\<dots> = (\<Sum>q \<in> set_leaves S. \<Sum>i \<in> {i \<in> S. unat i div 1024 = q}. if p \<in> set (dirs_of i) then 1 else 0)"
    unfolding set_leaves_def by (rule sum.image_gen) simp
  also have "\<dots> = (\<Sum>q \<in> set_leaves S. if p \<in> set (leaf_chain q) then leaf_card S q else 0)"
    by (rule sum.cong) (auto simp: dirs_of_def leaf_card_def)
  finally show ?thesis .
qed

lemma below_entries_of: "below p (entries_of S) = dir_count S p"
  unfolding below_def entries_of_def dir_count_sum
  by (simp add: comp_def sum_list_distinct_conv_sum_set)

lemma sum_entries_of: "sum_list (map snd (entries_of S)) = card S"
proof -
  have "card S = (\<Sum>i \<in> S. 1)" by simp
  also have "\<dots> = (\<Sum>q \<in> set_leaves S. \<Sum>i \<in> {i \<in> S. unat i div 1024 = q}. 1)"
    unfolding set_leaves_def by (rule sum.image_gen) simp
  also have "\<dots> = sum_list (map snd (entries_of S))"
    by (simp add: entries_of_def leaf_card_def comp_def sum_list_distinct_conv_sum_set)
  finally show ?thesis by simp
qed

lemma dir_count_leaf:
  assumes "q < 18014398509481984" shows "dir_count S (leaf_path q) = leaf_card S q"
proof -
  have "leaf_path q \<in> set (dirs_of i) \<longleftrightarrow> unat i div 1024 = q" for i
    using leaf_chain_leaf [of q "unat i div 1024"] leaf_path_inj [OF assms leaf_number_u64 [of i]]
    by (auto simp: dirs_of_def)
  then show ?thesis by (simp add: dir_count_def leaf_card_def)
qed

text \<open>Counts that agree with what the leaves imply, and counts that represent a set, are the same.\<close>

lemma implied_entries_of:
  assumes "0 \<notin> S"
  shows "map_of (implied_counts [] (entries_of S)) p =
    (if dir_count S p = 0 then None else Some (of_nat (dir_count S p)))"
proof -
  have "(\<exists>q n. (q, n) \<in> set (entries_of S) \<and> p \<in> set (leaf_chain q)) \<longleftrightarrow> dir_count S p \<noteq> 0"
    using leaf_card_pos [of S] by (auto simp: set_entries_of dir_count_sum)
  then show ?thesis
    by (simp add: map_of_implied_counts below_entries_of count_at_def)
qed

lemma leaf_entries_represent:
  assumes "counts_represent c S" "0 \<notin> S"
  shows "leaf_entries c = entries_of S"
proof -
  have "leaf_numbers c = set_leaves S"
  proof -
    have "q \<in> leaf_numbers c \<longleftrightarrow> q \<in> set_leaves S" for q
    proof (cases "q < 18014398509481984")
      case True
      have "leaf_path q \<in> fst ` set c \<longleftrightarrow> map_of c (leaf_path q) \<noteq> None"
        by (simp add: map_of_eq_None_iff)
      also have "\<dots> \<longleftrightarrow> dir_count S (leaf_path q) \<noteq> 0"
        using assms(1) by (simp add: counts_represent_def)
      also have "\<dots> \<longleftrightarrow> q \<in> set_leaves S"
        using leaf_card_pos [of S q] by (simp add: dir_count_leaf [OF True])
      finally show ?thesis using True by (simp add: leaf_numbers_def)
    qed (use set_leaves_bound in \<open>auto simp: leaf_numbers_def\<close>)
    then show ?thesis by blast
  qed
  moreover have "number_entry c q = (q, leaf_card S q)" if "q \<in> set_leaves S" for q
    using counts_represent_at [OF assms(1), of "leaf_path q"] unat_of_dir_count [OF assms(2), of "leaf_path q"]
      dir_count_leaf [OF set_leaves_bound [OF that], of S]
    by (simp add: number_entry_def)
  ultimately show ?thesis by (simp add: leaf_entries_def entries_of_def)
qed

lemma leaf_card_bound:
  assumes "0 \<notin> S"
  shows "leaf_card S q \<le> 1024" "q = 0 \<Longrightarrow> leaf_card S q < 1024"
proof -
  let ?L = "{i \<in> S. unat i div 1024 = q}"
  have inj: "inj_on unat ?L" by (intro inj_onI) (simp add: word_unat_eq_iff)
  have sub: "unat ` ?L \<subseteq> {q * 1024..<q * 1024 + 1024}"
    using div_mult_mod_eq [of _ 1024] by (force simp: dividend_less_times_div)
  have "card (unat ` ?L) \<le> card {q * 1024..<q * 1024 + 1024}" by (intro card_mono sub) simp
  then show "leaf_card S q \<le> 1024" by (simp add: leaf_card_def card_image [OF inj])
  assume "q = 0"
  moreover have "0 \<notin> unat ` ?L" using assms by (auto simp: unat_eq_zero)
  ultimately have "unat ` ?L \<subseteq> {1..<1024}" using sub by (force simp: Suc_le_eq)
  then have "card (unat ` ?L) \<le> card {1..<1024 :: nat}" by (intro card_mono) simp_all
  then show "leaf_card S q < 1024" by (simp add: leaf_card_def card_image [OF inj])
qed

lemma leaf_path_0: "leaf_path 0 = ''1''"
  using char_of_char [of "CHR ''1''"]
  by (simp add: leaf_path_def leaf_elems_def fmt_nat_small digit_char_def)

lemma represent_entry_ok:
  assumes "counts_represent c S" "0 \<notin> S" "(p, n) \<in> set c"
  shows "entry_ok (p, n)"
proof -
  have "map_of c p = Some n"
    using assms(1,3) by (intro map_of_is_SomeI) (simp_all add: counts_represent_def)
  then have n: "dir_count S p \<noteq> 0" "n = of_nat (dir_count S p)"
    using assms(1) by (auto simp: counts_represent_def split: if_splits)
  have un: "unat n = dir_count S p" by (simp add: n(2) unat_of_dir_count assms(2))
  from n(1) obtain q where q: "q \<in> set_leaves S" "p \<in> set (leaf_chain q)"
    by (auto simp: dir_count_sum split: if_splits)
  note qb = set_leaves_bound [OF q(1)]
  have v: "validDirectory p = Inr (p = leaf_path q)" by (rule leaf_chain_valid [OF qb q(2)])
  have r: "unat idRadix = 1024" by (simp add: idRadix_def)
  have "n \<noteq> 0" using n(1) un by auto
  moreover have "n \<le> idRadix \<and> \<not> (p = ''1'' \<and> n = idRadix)" if p: "p = leaf_path q"
  proof
    have un': "unat n = leaf_card S q" using un dir_count_leaf [OF qb] p by simp
    show "n \<le> idRadix" using leaf_card_bound(1) [OF assms(2), of q] un' r by (simp add: word_le_nat_alt)
    show "\<not> (p = ''1'' \<and> n = idRadix)"
    proof
      assume a: "p = ''1'' \<and> n = idRadix"
      then have "leaf_path q = leaf_path 0" using p leaf_path_0 by simp
      then have "q = 0" using leaf_path_inj [of q 0] qb by simp
      then have "leaf_card S q < 1024" by (rule leaf_card_bound(2) [OF assms(2)])
      moreover have "unat n = 1024" using a r by simp
      ultimately show False using un' by simp
    qed
  qed
  ultimately show ?thesis using v by (simp add: entry_ok_def)
qed

lemma buildDirectoryIndex_represent:
  assumes "counts_represent c S" "0 \<notin> S" "card S \<le> unat lastID"
  shows "buildDirectoryIndex c lastID = Inr (index_of_set S)"
proof -
  note e = leaf_entries_represent [OF assms(1,2)]
  have "map_of (implied_counts [] (leaf_entries c)) = map_of c"
    using assms(1) by (intro ext) (simp add: e implied_entries_of assms(2) counts_represent_def)
  moreover have "\<forall>e \<in> set c. entry_ok e" using represent_entry_ok [OF assms(1,2)] by auto
  moreover have "distinct (map fst c)" using assms(1) by (simp add: counts_represent_def)
  ultimately show ?thesis
    using assms(3) by (simp add: buildDirectoryIndex_Inr e sum_entries_of index_of_set_def)
qed

text \<open>Conversely, accepted counts are those of the set with the first IDs of every leaf.\<close>

definition first_ids :: "nat \<times> nat \<Rightarrow> u64 set" where
  "first_ids x = (\<lambda>j. of_nat (fst x * 1024 + (if fst x = 0 then 1 else 0) + j)) ` {..<snd x}"

lemma first_ids:
  assumes "1 \<le> n \<and> n \<le> 1024 \<and> (q = 0 \<longrightarrow> n < 1024) \<and> q < 18014398509481984"
  shows "0 \<notin> first_ids (q, n)" "i \<in> first_ids (q, n) \<Longrightarrow> unat i div 1024 = q" "card (first_ids (q, n)) = n"
proof -
  let ?o = "if q = 0 then 1 else 0 :: nat" and ?f = "\<lambda>j. of_nat (q * 1024 + (if q = 0 then 1 else 0) + j) :: u64"
  have u: "unat (?f j) = q * 1024 + ?o + j" if "j < n" for j
    using assms that by (intro unat_of_nat_u64) (cases "q = 0"; simp)
  show "0 \<notin> first_ids (q, n)"
  proof
    assume "0 \<in> first_ids (q, n)"
    then obtain j where "j < n" "?f j = 0" unfolding first_ids_def by auto
    then show False using u [of j] by (cases "q = 0") simp_all
  qed
  show "unat i div 1024 = q" if i: "i \<in> first_ids (q, n)"
  proof -
    from i obtain j where "j < n" "i = ?f j" by (auto simp: first_ids_def)
    then have "unat i = q * 1024 + ?o + j" "?o + j < 1024" using u assms by auto
    then show ?thesis by simp
  qed
  have "inj_on ?f {..<n}" by (intro inj_onI) (metis u add_left_cancel lessThan_iff)
  then show "card (first_ids (q, n)) = n" by (simp add: first_ids_def card_image)
qed

lemma entries_of_first_ids:
  assumes "sorted (map fst xs)" "distinct (map fst xs)"
    and ok: "\<And>q n. (q, n) \<in> set xs \<Longrightarrow> 1 \<le> n \<and> n \<le> 1024 \<and> (q = 0 \<longrightarrow> n < 1024) \<and> q < 18014398509481984"
  shows "entries_of (\<Union> (first_ids ` set xs)) = xs"
proof -
  let ?S = "\<Union> (first_ids ` set xs)"
  have card: "leaf_card ?S q = n" if x: "(q, n) \<in> set xs" for q n
  proof -
    have "i \<in> first_ids (q, n)" if "i \<in> first_ids (r, m)" "(r, m) \<in> set xs" "unat i div 1024 = q" for i r m
    proof -
      have "r = q" using first_ids(2) [OF ok [OF that(2)] that(1)] that(3) by simp
      then have "m = n" using assms(2) that(2) x by (metis eq_key_imp_eq_value)
      with \<open>r = q\<close> that(1) show ?thesis by simp
    qed
    then have "{i \<in> ?S. unat i div 1024 = q} \<subseteq> first_ids (q, n)" by auto
    moreover have "first_ids (q, n) \<subseteq> {i \<in> ?S. unat i div 1024 = q}"
      using x first_ids(2) [OF ok [OF x]] by blast
    ultimately have "{i \<in> ?S. unat i div 1024 = q} = first_ids (q, n)" by (rule subset_antisym)
    then show ?thesis using first_ids(3) [OF ok [OF x]] by (simp add: leaf_card_def)
  qed
  have "q \<in> set_leaves ?S \<longleftrightarrow> q \<in> fst ` set xs" for q
  proof
    assume "q \<in> set_leaves ?S"
    then obtain i r m where "i \<in> first_ids (r, m)" "(r, m) \<in> set xs" "q = unat i div 1024"
      by (auto simp: set_leaves_def)
    then show "q \<in> fst ` set xs" using first_ids(2) [OF ok] by (metis fst_conv image_eqI)
  next
    assume "q \<in> fst ` set xs"
    then obtain n where x: "(q, n) \<in> set xs" by auto
    then have "0 < leaf_card ?S q" using card [OF x] ok [OF x] by simp
    then show "q \<in> set_leaves ?S" by (simp only: leaf_card_pos)
  qed
  then have "set_leaves ?S = set (map fst xs)" by (simp add: set_eq_iff)
  then have "entries_of ?S = map (\<lambda>q. (q, leaf_card ?S q)) (map fst xs)"
    using sorted_list_of_set.idem_if_sorted_distinct [OF assms(1,2)] by (simp only: entries_of_def)
  also have "\<dots> = xs" using card by (auto intro!: map_idI)
  finally show ?thesis .
qed

lemma buildDirectoryIndex_represents:
  assumes "distinct (map fst c)" "buildDirectoryIndex c lastID = Inr idx"
  shows "\<exists>S. 0 \<notin> S \<and> card S \<le> unat lastID \<and> counts_represent c S \<and> idx = index_of_set S"
proof -
  let ?xs = "leaf_entries c" and ?S = "\<Union> (first_ids ` set (leaf_entries c))"
  from assms have b: "\<forall>e \<in> set c. entry_ok e" "sum_list (map snd ?xs) \<le> unat lastID"
      "map_of (implied_counts [] ?xs) = map_of c"
      "idx = \<lparr>di_leaves = with_sums 0 ?xs, di_total = of_nat (sum_list (map snd ?xs))\<rparr>"
    by (auto simp: buildDirectoryIndex_Inr)
  note ok = leaf_entries_ok [OF b(1) assms(1)]
  have fst: "map fst ?xs = sorted_list_of_set (leaf_numbers c)"
    by (simp add: leaf_entries_def number_entry_def comp_def)
  have e: "entries_of ?S = ?xs"
    using ok by (intro entries_of_first_ids) (simp_all add: fst)
  have z: "0 \<notin> ?S" using first_ids(1) [OF ok] by auto
  have "card ?S = sum_list (map snd ?xs)" using sum_entries_of [of ?S] by (simp add: e)
  moreover have "counts_represent c ?S"
    unfolding counts_represent_def
  proof (intro conjI allI)
    fix p
    have "map_of c p = map_of (implied_counts [] (entries_of ?S)) p"
      using b(3) e by simp
    then show "map_of c p = (if dir_count ?S p = 0 then None else Some (of_nat (dir_count ?S p)))"
      using implied_entries_of [OF z, of p] by simp
  qed (rule assms(1))
  ultimately show ?thesis
    using b(2,4) z by (intro exI [of _ ?S]) (simp add: index_of_set_def e)
qed

text \<open>The index is exact: which counts are accepted, and what index they give.\<close>

lemma buildDirectoryIndex_iff:
  "distinct (map fst c) \<Longrightarrow> buildDirectoryIndex c lastID = Inr idx \<longleftrightarrow>
     (\<exists>S. 0 \<notin> S \<and> card S \<le> unat lastID \<and> counts_represent c S \<and> idx = index_of_set S)"
  using buildDirectoryIndex_represents buildDirectoryIndex_represent by blast

subsection \<open>Selecting by rank\<close>

lemma with_sums_nth:
  "j < length xs \<Longrightarrow> with_sums t xs ! j =
     \<lparr>dc_path = leaf_path (fst (xs ! j)), dc_count = of_nat (snd (xs ! j)),
      dc_accumulated = of_nat (t + sum_list (map snd (take (Suc j) xs)))\<rparr>"
proof (induction t xs arbitrary: j rule: with_sums.induct)
  case (2 t q n xs)
  then show ?case by (cases j) (simp_all add: add.assoc)
qed simp

lemma length_with_sums [simp]: "length (with_sums t xs) = length xs"
  by (induction t xs rule: with_sums.induct) simp_all

lemma set_take_sorted:
  assumes "sorted qs" "distinct qs" "j < length qs"
  shows "set (take (Suc j) qs) = {q \<in> set qs. q \<le> (qs ! j :: nat)}"
proof -
  have "qs ! k \<le> qs ! j \<longleftrightarrow> k \<le> j" if "k < length qs" for k
    using assms that
    by (metis distinct_conv_nth le_antisym linorder_le_less_linear order_less_imp_le sorted_nth_mono)
  then show ?thesis using assms(3)
    by (force simp: set_conv_nth less_Suc_eq_le)
qed

lemma leaves_up_to:
  assumes "j < length (entries_of S)"
  shows "sum_list (map snd (take (Suc j) (entries_of S))) =
    card {x \<in> S. unat x div 1024 \<le> fst (entries_of S ! j)}"
proof -
  let ?qs = "sorted_list_of_set (set_leaves S)"
  have j: "j < length ?qs" using assms by (simp add: entries_of_def)
  let ?q = "?qs ! j" and ?T = "{x \<in> S. unat x div 1024 \<le> ?qs ! j}"
  have T: "set_leaves ?T = set (take (Suc j) ?qs)"
    using j set_take_sorted [of ?qs j] by (auto simp: set_leaves_def)
  have "sum_list (map snd (take (Suc j) (entries_of S))) = (\<Sum>q \<in> set_leaves ?T. leaf_card S q)"
    by (simp add: T entries_of_def take_map comp_def sum_list_distinct_conv_sum_set)
  also have "\<dots> = (\<Sum>q \<in> set_leaves ?T. \<Sum>i \<in> {i \<in> ?T. unat i div 1024 = q}. 1)"
    by (rule sum.cong) (auto simp: leaf_card_def set_leaves_def intro!: arg_cong [where f = card])
  also have "\<dots> = (\<Sum>i \<in> ?T. 1)"
    unfolding set_leaves_def by (rule sum.image_gen [symmetric]) simp
  finally show ?thesis using j by (simp add: entries_of_def)
qed

lemma rank_offset: "a + Suc b = r + l \<Longrightarrow> of_nat r - (of_nat a - of_nat l) - 1 = (of_nat b :: u64)"
proof -
  assume "a + Suc b = r + l"
  then have "(of_nat (a + Suc b) :: u64) = of_nat (r + l)" by (rule arg_cong)
  then show ?thesis by (simp add: algebra_simps)
qed

theorem selectLeaf_rank:
  assumes "0 \<notin> S" "i \<in> S"
  defines "q \<equiv> unat i div 1024"
  shows "selectLeaf (Some (index_of_set S)) (of_nat (card {x \<in> S. x \<le> i})) =
    Some (\<lparr>dc_path = leaf_of i, dc_count = of_nat (leaf_card S q),
           dc_accumulated = of_nat (card {x \<in> S. unat x div 1024 \<le> q})\<rparr>,
          of_nat (card {x \<in> S. unat x div 1024 = q \<and> x < i}))"
proof -
  let ?es = "entries_of S" and ?qs = "sorted_list_of_set (set_leaves S)"
  let ?upto = "\<lambda>q. {x \<in> S. unat x div 1024 \<le> q}" and ?rank = "card {x \<in> S. x \<le> i}"
  let ?same = "{x \<in> S. unat x div 1024 = q \<and> x < i}"
  have le: "x \<le> i \<longleftrightarrow> unat x \<le> unat i" and less: "x < i \<longleftrightarrow> unat x < unat i" for x
    by (simp_all add: word_le_nat_alt word_less_nat_alt)
  have ne: "unat x < unat i" if "x \<noteq> i" "unat x \<le> unat i" for x
    using that by (simp add: order.strict_iff_order u64_eq_iff)
  have small: "card T < 18446744073709551616" if "T \<subseteq> S" for T
  proof -
    have "0 \<notin> T" using that assms(1) by blast
    from card_u64_le [OF this] show ?thesis by simp
  qed
  have bound: "unat (of_nat (card T) :: u64) = card T" if "T \<subseteq> S" for T
    using small [OF that] by (rule unat_of_nat_u64)
  have len: "length ?es = length ?qs" by (simp add: entries_of_def)
  have ix: "di_leaves (index_of_set S) ! j = \<lparr>dc_path = leaf_path (?qs ! j),
      dc_count = of_nat (leaf_card S (?qs ! j)), dc_accumulated = of_nat (card (?upto (?qs ! j)))\<rparr>"
    if "j < length ?qs" for j
    using that leaves_up_to [of j S] by (simp add: index_of_set_def with_sums_nth len) (simp add: entries_of_def)
  have "q \<in> set ?qs" using assms(2) by (simp add: q_def set_leaves_def)
  then obtain pos where pos: "pos < length ?qs" "?qs ! pos = q" by (metis in_set_conv_nth)
  have mono: "?qs ! a \<le> ?qs ! b" if "a \<le> b" "b < length ?qs" for a b
    using that by (intro sorted_nth_mono) simp_all
  have strict: "?qs ! a < ?qs ! b" if "a < b" "b < length ?qs" for a b
    using that by (intro sorted_wrt_nth_less [OF strict_sorted_list_of_set])
  have hit: "of_nat ?rank \<le> dc_accumulated (di_leaves (index_of_set S) ! j) \<longleftrightarrow> pos \<le> j"
    if j: "j < length ?qs" for j
  proof -
    have "of_nat ?rank \<le> dc_accumulated (di_leaves (index_of_set S) ! j) \<longleftrightarrow> ?rank \<le> card (?upto (?qs ! j))"
      by (simp add: ix [OF j] word_le_nat_alt bound)
    moreover have "?rank \<le> card (?upto (?qs ! j))" if "pos \<le> j"
      using mono [OF that j] pos(2)
      by (intro card_mono) (auto simp: le q_def dest: div_le_mono [where k = 1024])
    moreover have "card (?upto (?qs ! j)) < ?rank" if "j < pos"
    proof (rule psubset_card_mono)
      have "unat x < unat i" if "unat x div 1024 \<le> ?qs ! j" for x :: u64
        using strict [OF \<open>j < pos\<close> pos(1)] pos(2) that div_le_mono [of "unat i" "unat x" 1024]
        by (simp add: q_def not_le [symmetric])
      moreover have "\<not> unat i div 1024 \<le> ?qs ! j"
        using strict [OF that pos(1)] pos(2) by (simp add: q_def)
      ultimately show "?upto (?qs ! j) \<subset> {x \<in> S. x \<le> i}"
        using assms(2) by (auto simp: le intro: order_less_imp_le)
    qed simp
    ultimately show ?thesis by (meson not_le)
  qed
  have search: "sort_search (length ?qs)
      (\<lambda>j. of_nat ?rank \<le> dc_accumulated (di_leaves (index_of_set S) ! j)) = pos"
    using pos(1) by (intro sort_search_eqI) (auto simp: hit)
  have rank: "1 \<le> ?rank" "?rank \<le> card S"
    using assms(2) by (auto simp: card_gt_0_iff Suc_le_eq intro: card_mono)
  have split: "?upto q = ({x \<in> S. x \<le> i} - ?same - {i}) \<union> {x \<in> S. unat x div 1024 = q}"
    by (auto simp: le less q_def dest: div_le_mono [where k = 1024])
  have "card (?upto q) = card ({x \<in> S. x \<le> i} - ?same - {i}) + leaf_card S q"
    unfolding leaf_card_def
    by (subst split, rule card_Un_disjoint) (auto simp: q_def le less dest: ne)
  moreover have "card ({x \<in> S. x \<le> i} - ?same - {i}) = ?rank - card ?same - 1"
  proof -
    have "card ({x \<in> S. x \<le> i} - ?same - {i}) = card ({x \<in> S. x \<le> i} - ?same) - 1"
      using assms(2) by (intro card_Diff_singleton) auto
    moreover have "card ({x \<in> S. x \<le> i} - ?same) = ?rank - card ?same"
      by (intro card_Diff_subset) auto
    ultimately show ?thesis by simp
  qed
  moreover have "Suc (card ?same) \<le> ?rank"
  proof -
    have "card (insert i ?same) \<le> ?rank" using assms(2) by (intro card_mono) auto
    then show ?thesis by simp
  qed
  ultimately have sum: "card (?upto q) + Suc (card ?same) = ?rank + leaf_card S q" by simp
  have off: "of_nat ?rank - (of_nat (card (?upto q)) - of_nat (leaf_card S q)) - 1 = (of_nat (card ?same) :: u64)"
    by (rule rank_offset [OF sum])
  have "(of_nat ?rank :: u64) \<noteq> 0" "\<not> of_nat (card S) < (of_nat ?rank :: u64)"
  proof -
    have r: "unat (of_nat ?rank :: u64) = ?rank" "unat (of_nat (card S) :: u64) = card S" by (rule bound; simp)+
    show "(of_nat ?rank :: u64) \<noteq> 0" using r(1) rank(1) by (metis not_one_le_zero unat_0)
    show "\<not> of_nat (card S) < (of_nat ?rank :: u64)"
      using rank(2) unfolding word_less_nat_alt r by simp
  qed
  moreover have "di_total (index_of_set S) = of_nat (card S)" "length (di_leaves (index_of_set S)) = length ?qs"
    by (simp_all add: index_of_set_def len)
  ultimately show ?thesis
    using search ix [OF pos(1)] pos(2) off
    by (simp add: selectLeaf_def leaf_of_def q_def)
qed

lemma selectLeaf_None:
  assumes "0 \<notin> S"
  shows "selectLeaf (Some (index_of_set S)) number = None \<longleftrightarrow> number = 0 \<or> card S < unat number"
  using card_u64_le [OF assms]
  by (auto simp: selectLeaf_def index_of_set_def word_less_nat_alt unat_of_nat_u64 Let_def)
section \<open>Properties\<close>

text \<open>C16: \<open>buildDirectoryIndex\<close> accepts exactly the counts of a set of live IDs, at most as many as
  were allocated, and gives the index of that set; every other map is an error.\<close>

theorem directory_index_exact:
  assumes "distinct (map fst counts)"
  shows "buildDirectoryIndex counts lastID = Inr index \<longleftrightarrow>
    (\<exists>S. 0 \<notin> S \<and> card S \<le> unat lastID \<and> counts_represent counts S \<and> index = index_of_set S)"
  using buildDirectoryIndex_iff [OF assms] .

lemma directory_index_exact_witness:
  "\<exists>S. 0 \<notin> S \<and> card S \<le> unat (5 :: u64) \<and> counts_represent [(''1'', 1)] S \<and>
     \<lparr>di_leaves = [\<lparr>dc_path = ''1'', dc_count = 1, dc_accumulated = 1\<rparr>], di_total = 1\<rparr> = index_of_set S"
proof -
  have "distinct (map fst [(''1'', 1 :: u64)])" by simp
  note exact = directory_index_exact [OF this]
  have n: "parse_int ''1'' = Some 1" by (simp add: Let_def parse_int_def parse_uint_def digit_val_def)
  have leaf: "validDirectory ''1'' = Inr True"
    by (simp add: validDirectory_def n fmt_int_def fmt_nat_small digit_char_values(2) [simplified] Let_def idRadix_def)
  have chain: "dir_chain ''1'' = Inr [''1'']" by code_simp
  have "buildDirectoryIndex [(''1'', 1)] 5 =
      Inr \<lparr>di_leaves = [\<lparr>dc_path = ''1'', dc_count = 1, dc_accumulated = 1\<rparr>], di_total = 1\<rparr>"
    by (simp add: buildDirectoryIndex_def leaf chain idRadix_def count_plus_def count_at_def)
  then show ?thesis by (simp only: exact)
qed

end
