(* ===== verification/State_Json.thy ===== *)
theory State_Json
  imports Directory_Index Receipts
begin

text \<open>
  The mailbox state of \<open>internal/archive/state.go\<close> and its JSON text: \<open>json.Marshal\<close> of
  the Go standard library on this type, as \<open>importCommitLocked\<close> uses it.
\<close>

record mailboxState =
  mb_Version :: int
  mb_LastID :: u64
  mb_TotalOctets :: u64
  mb_Directories :: directoryCounts
  mb_DailyReceipt :: "dailyReceipt option"
  mb_index :: "directoryIndex option"

definition mailboxStateVersion :: int where "mailboxStateVersion = 2"

definition emptyMailboxState :: mailboxState where
  "emptyMailboxState =
     \<lparr>mb_Version = mailboxStateVersion, mb_LastID = 0, mb_TotalOctets = 0, mb_Directories = [],
      mb_DailyReceipt = None, mb_index = None\<rparr>"

section \<open>JSON strings\<close>

text \<open>The length of the UTF-8 encoding that a string begins with, 0 when it is none.\<close>

definition in_bytes :: "nat \<Rightarrow> nat \<Rightarrow> char \<Rightarrow> bool" where
  "in_bytes a b c \<longleftrightarrow> a \<le> code c \<and> code c \<le> b"

fun utf8_len :: "string \<Rightarrow> nat" where
  "utf8_len [] = 0"
| "utf8_len (c # s) =
     (if in_bytes 0 0x7F c then 1
      else if in_bytes 0xC2 0xDF c then
        (case s of d # _ \<Rightarrow> if in_bytes 0x80 0xBF d then 2 else 0 | _ \<Rightarrow> 0)
      else if in_bytes 0xE0 0xEF c then
        (case s of d # e # _ \<Rightarrow>
           if in_bytes (if code c = 0xE0 then 0xA0 else 0x80) (if code c = 0xED then 0x9F else 0xBF) d \<and>
              in_bytes 0x80 0xBF e then 3 else 0
         | _ \<Rightarrow> 0)
      else if in_bytes 0xF0 0xF4 c then
        (case s of d # e # f # _ \<Rightarrow>
           if in_bytes (if code c = 0xF0 then 0x90 else 0x80) (if code c = 0xF4 then 0x8F else 0xBF) d \<and>
              in_bytes 0x80 0xBF e \<and> in_bytes 0x80 0xBF f then 4 else 0
         | _ \<Rightarrow> 0)
      else 0)"

definition json_ascii :: "char \<Rightarrow> string" where
  "json_ascii c =
     (if c = CHR 0x5C \<or> c = CHR 0x22 then [CHR 0x5C, c]
      else if c = CHR 0x08 then [CHR 0x5C, CHR ''b'']
      else if c = CHR 0x0C then [CHR 0x5C, CHR ''f'']
      else if c = CHR 0x0A then [CHR 0x5C, CHR ''n'']
      else if c = CHR 0x0D then [CHR 0x5C, CHR ''r'']
      else if c = CHR 0x09 then [CHR 0x5C, CHR ''t'']
      else if code c < 0x20 \<or> c = CHR ''<'' \<or> c = CHR ''>'' \<or> c = CHR ''&''
      then CHR 0x5C # ''u00'' @ [digit_char (code c div 16), digit_char (code c mod 16)]
      else [c])"

fun json_chars :: "string \<Rightarrow> string" where
  "json_chars [] = []"
| "json_chars (c # s) =
     (if code c < 0x80 then json_ascii c @ json_chars s
      else case utf8_len (c # s) of
             0 \<Rightarrow> CHR 0x5C # ''ufffd'' @ json_chars s
           | Suc n \<Rightarrow>
               (if take 3 (c # s) = [CHR 0xE2, CHR 0x80, CHR 0xA8] then CHR 0x5C # ''u2028''
                else if take 3 (c # s) = [CHR 0xE2, CHR 0x80, CHR 0xA9] then CHR 0x5C # ''u2029''
                else c # take n s) @ json_chars (drop n s))"

definition json_string :: "string \<Rightarrow> string" where
  "json_string s = CHR 0x22 # json_chars s @ [CHR 0x22]"

section \<open>The state as JSON\<close>

definition json_uint :: "u64 \<Rightarrow> string" where
  "json_uint n = fmt_nat 10 (unat n)"

definition json_member :: "string \<Rightarrow> string \<Rightarrow> string" where
  "json_member k v = json_string k @ '':'' @ v"

definition json_object :: "string list \<Rightarrow> string" where
  "json_object ms = ''{'' @ join '','' ms @ ''}''"

text \<open>A map is written with its keys sorted.\<close>

definition json_counts :: "directoryCounts \<Rightarrow> string" where
  "json_counts counts = json_object (map (\<lambda>(p, n). json_member p (json_uint n)) (sort_key fst counts))"

definition json_receipt :: "dailyReceipt \<Rightarrow> string" where
  "json_receipt r = json_object [json_member ''day'' (json_string (dr_Day r)),
     json_member ''charged_bytes'' (json_uint (dr_ChargedBytes r))]"

definition json_state :: "mailboxState \<Rightarrow> string" where
  "json_state st = json_object
     ([json_member ''version'' (fmt_int (mb_Version st)),
       json_member ''last_id'' (json_uint (mb_LastID st)),
       json_member ''total_octets'' (json_uint (mb_TotalOctets st))] @
      (if mb_Directories st = [] then [] else [json_member ''directories'' (json_counts (mb_Directories st))]) @
      (case mb_DailyReceipt st of None \<Rightarrow> [] | Some r \<Rightarrow> [json_member ''daily_receipt'' (json_receipt r)]))"

end
