(* ===== verification/Dir_Cache.thy ===== *)
theory Dir_Cache
  imports Id_Path
begin

text \<open>
  \<open>internal/archive/cache.go\<close>: the least-recently-used cache of parsed directories. The code
  keeps a map from keys to elements of a doubly linked list; here an element is a number, its
  value is looked up in a store, and the list holds the elements from most to least recent. The
  lemmas show that this refines one list of key-value pairs ordered by use.
\<close>

record directoryKey =
  ky_path :: string
  ky_tree :: string

record cachedDirectory =
  cd_key :: directoryKey
  cd_messages :: "message list"

record directoryCache =
  ca_capacity :: nat
  ca_entries :: "(directoryKey \<times> nat) list"
  ca_recency :: "nat list"
  ca_values :: "nat \<Rightarrow> cachedDirectory"
  ca_next :: nat

definition directoryCacheCapacity :: nat where "directoryCacheCapacity = 64"

definition newDirectoryCache :: "nat \<Rightarrow> directoryCache" where
  "newDirectoryCache capacity =
     \<lparr>ca_capacity = capacity, ca_entries = [], ca_recency = [],
      ca_values = (\<lambda>_. \<lparr>cd_key = \<lparr>ky_path = [], ky_tree = []\<rparr>, cd_messages = []\<rparr>), ca_next = 0\<rparr>"

definition moveToFront :: "nat \<Rightarrow> directoryCache \<Rightarrow> directoryCache" where
  "moveToFront element cache = cache\<lparr>ca_recency := element # remove1 element (ca_recency cache)\<rparr>"

definition cache_get :: "directoryCache \<Rightarrow> directoryKey \<Rightarrow> message list option \<times> directoryCache" where
  "cache_get cache key =
     (case map_of (ca_entries cache) key of
        None \<Rightarrow> (None, cache)
      | Some element \<Rightarrow> (Some (cd_messages (ca_values cache element)), moveToFront element cache))"

definition cache_put :: "directoryCache \<Rightarrow> directoryKey \<Rightarrow> message list \<Rightarrow> directoryCache" where
  "cache_put cache key messages =
     (case map_of (ca_entries cache) key of
        Some element \<Rightarrow>
          moveToFront element
            (cache\<lparr>ca_values := (ca_values cache)(element := \<lparr>cd_key = key, cd_messages = messages\<rparr>)\<rparr>)
      | None \<Rightarrow>
          let element = ca_next cache;
              cache = cache\<lparr>ca_next := Suc element,
                ca_values := (ca_values cache)(element := \<lparr>cd_key = key, cd_messages = messages\<rparr>),
                ca_recency := element # ca_recency cache,
                ca_entries := AList.update key element (ca_entries cache)\<rparr>
          in if ca_capacity cache < length (ca_recency cache)
             then let oldest = last (ca_recency cache) in
                  cache\<lparr>ca_entries := AList.delete (cd_key (ca_values cache oldest)) (ca_entries cache),
                        ca_recency := remove1 oldest (ca_recency cache)\<rparr>
             else cache)"

section \<open>Refinement to a list ordered by use\<close>

definition lru_of :: "directoryCache \<Rightarrow> (directoryKey \<times> message list) list" where
  "lru_of cache = map (\<lambda>e. (cd_key (ca_values cache e), cd_messages (ca_values cache e))) (ca_recency cache)"

definition lru_touch :: "directoryKey \<Rightarrow> message list \<Rightarrow> (directoryKey \<times> message list) list
    \<Rightarrow> (directoryKey \<times> message list) list" where
  "lru_touch key v l = (key, v) # filter (\<lambda>x. fst x \<noteq> key) l"

definition lru_put :: "nat \<Rightarrow> directoryKey \<Rightarrow> message list \<Rightarrow> (directoryKey \<times> message list) list
    \<Rightarrow> (directoryKey \<times> message list) list" where
  "lru_put capacity key v l = take capacity (lru_touch key v l)"

definition cache_ok :: "directoryCache \<Rightarrow> bool" where
  "cache_ok cache \<longleftrightarrow>
     distinct (ca_recency cache) \<and> distinct (map fst (ca_entries cache)) \<and>
     (\<forall>key e. map_of (ca_entries cache) key = Some e \<longleftrightarrow>
        e \<in> set (ca_recency cache) \<and> cd_key (ca_values cache e) = key) \<and>
     (\<forall>e \<in> set (ca_recency cache). e < ca_next cache) \<and>
     length (ca_recency cache) \<le> ca_capacity cache \<and> 0 < ca_capacity cache"

lemma cache_ok_new: "0 < n \<Longrightarrow> cache_ok (newDirectoryCache n)"
  by (simp add: cache_ok_def newDirectoryCache_def)

lemma cache_ok_key_inj:
  assumes "cache_ok c" "e \<in> set (ca_recency c)" "d \<in> set (ca_recency c)"
    and "cd_key (ca_values c e) = cd_key (ca_values c d)"
  shows "e = d"
proof -
  have "map_of (ca_entries c) (cd_key (ca_values c e)) = Some e"
    "map_of (ca_entries c) (cd_key (ca_values c e)) = Some d"
    using assms by (simp_all add: cache_ok_def)
  then show ?thesis by simp
qed

lemma distinct_lru: "cache_ok c \<Longrightarrow> distinct (map fst (lru_of c))"
  using cache_ok_key_inj [of c]
  by (auto simp: lru_of_def distinct_map inj_on_def cache_ok_def comp_def)

lemma map_of_lru: "cache_ok c \<Longrightarrow>
  map_of (lru_of c) key = map_option (\<lambda>e. cd_messages (ca_values c e)) (map_of (ca_entries c) key)"
proof -
  assume ok: "cache_ok c"
  show ?thesis
  proof (cases "map_of (ca_entries c) key")
    case (Some e)
    then have "e \<in> set (ca_recency c)" "cd_key (ca_values c e) = key"
      using ok by (auto simp: cache_ok_def)
    then have "(key, cd_messages (ca_values c e)) \<in> set (lru_of c)" by (force simp: lru_of_def)
    then have "map_of (lru_of c) key = Some (cd_messages (ca_values c e))"
      by (rule map_of_is_SomeI [OF distinct_lru [OF ok]])
    with Some show ?thesis by simp
  next
    case None
    then have "\<forall>e \<in> set (ca_recency c). cd_key (ca_values c e) \<noteq> key"
      using ok by (auto simp: cache_ok_def)
    then have "map_of (lru_of c) key = None" by (auto simp: lru_of_def map_of_eq_None_iff)
    with None show ?thesis by simp
  qed
qed

lemma lru_filter_element:
  assumes "cache_ok c" "e \<in> set (ca_recency c)"
  shows "filter (\<lambda>x. fst x \<noteq> cd_key (ca_values c e)) (lru_of c) =
    map (\<lambda>e. (cd_key (ca_values c e), cd_messages (ca_values c e))) (remove1 e (ca_recency c))"
proof -
  have "remove1 e (ca_recency c) = filter (\<lambda>d. d \<noteq> e) (ca_recency c)"
    using assms(1) by (simp add: cache_ok_def distinct_remove1_removeAll removeAll_filter_not_eq) metis
  moreover have "filter (\<lambda>d. cd_key (ca_values c d) \<noteq> cd_key (ca_values c e)) (ca_recency c) =
      filter (\<lambda>d. d \<noteq> e) (ca_recency c)"
    using cache_ok_key_inj [OF assms(1) _ assms(2)] by (intro filter_cong) auto
  ultimately show ?thesis by (simp add: lru_of_def filter_map comp_def)
qed

lemma cache_get_refines:
  assumes "cache_ok c" "cache_get c key = (res, c')"
  shows "cache_ok c' \<and> res = map_of (lru_of c) key \<and>
    lru_of c' = (case res of None \<Rightarrow> lru_of c | Some v \<Rightarrow> lru_touch key v (lru_of c))"
proof (cases "map_of (ca_entries c) key")
  case None
  with assms map_of_lru [OF assms(1), of key] show ?thesis by (auto simp: cache_get_def)
next
  case (Some e)
  then have e: "e \<in> set (ca_recency c)" "cd_key (ca_values c e) = key"
    using assms(1) by (auto simp: cache_ok_def)
  have res: "res = Some (cd_messages (ca_values c e))" "c' = moveToFront e c"
    using assms(2) Some by (auto simp: cache_get_def)
  have set: "set (e # remove1 e (ca_recency c)) = set (ca_recency c)"
    and len: "length (e # remove1 e (ca_recency c)) = length (ca_recency c)"
    using e(1) assms(1) length_pos_if_in_set [OF e(1)] by (auto simp: cache_ok_def length_remove1)
  have "cache_ok c'"
    using assms(1) set len unfolding cache_ok_def res(2) moveToFront_def by auto
  moreover have "lru_of c' = lru_touch key (cd_messages (ca_values c e)) (lru_of c)"
    using lru_filter_element [OF assms(1) e(1)] e(2)
    by (simp add: lru_touch_def res(2)) (simp add: lru_of_def moveToFront_def)
  ultimately show ?thesis using map_of_lru [OF assms(1), of key] Some res by simp
qed


lemma lru_of_values_update:
  assumes "e \<notin> set es"
  shows "map (\<lambda>d. (cd_key ((vs(e := v)) d), cd_messages ((vs(e := v)) d))) es =
    map (\<lambda>d. (cd_key (vs d), cd_messages (vs d))) es"
  using assms by auto

text \<open>Overwriting the value of a cached key.\<close>

lemma cache_put_hit:
  assumes "cache_ok c" "map_of (ca_entries c) key = Some e"
  shows "cache_ok (cache_put c key messages) \<and> lru_of (cache_put c key messages) = lru_touch key messages (lru_of c)"
proof -
  let ?v = "\<lparr>cd_key = key, cd_messages = messages\<rparr>"
  let ?c = "c\<lparr>ca_values := (ca_values c)(e := ?v)\<rparr>"
  have e: "e \<in> set (ca_recency c)" "cd_key (ca_values c e) = key"
    using assms by (auto simp: cache_ok_def)
  have keys: "cd_key (ca_values ?c d) = cd_key (ca_values c d)" for d using e(2) by simp
  have ok: "cache_ok ?c" using assms(1) unfolding cache_ok_def keys by simp
  have put: "cache_put c key messages = moveToFront e ?c" by (simp add: cache_put_def assms(2))
  have get: "cache_get ?c key = (Some messages, moveToFront e ?c)"
    by (simp add: cache_get_def assms(2))
  from cache_get_refines [OF ok get]
  have "cache_ok (moveToFront e ?c)" "lru_of (moveToFront e ?c) = lru_touch key messages (lru_of ?c)" by simp_all
  moreover have "filter (\<lambda>x. fst x \<noteq> key) (lru_of ?c) = filter (\<lambda>x. fst x \<noteq> key) (lru_of c)"
  proof -
    have "filter (\<lambda>x. fst x \<noteq> key) (lru_of ?c) =
        map (\<lambda>d. (cd_key (ca_values ?c d), cd_messages (ca_values ?c d))) (remove1 e (ca_recency c))"
      using lru_filter_element [OF ok, of e] e by simp
    also have "\<dots> = map (\<lambda>d. (cd_key (ca_values c d), cd_messages (ca_values c d))) (remove1 e (ca_recency c))"
      using assms(1) lru_of_values_update [of e "remove1 e (ca_recency c)" "ca_values c" ?v]
      by (simp add: cache_ok_def)
    finally show ?thesis using lru_filter_element [OF assms(1) e(1)] e(2) by simp
  qed
  ultimately show ?thesis by (simp add: put lru_touch_def)
qed

text \<open>A new key, before the oldest one is evicted.\<close>

definition cache_insert :: "directoryCache \<Rightarrow> directoryKey \<Rightarrow> message list \<Rightarrow> directoryCache" where
  "cache_insert c key messages =
     c\<lparr>ca_next := Suc (ca_next c),
       ca_values := (ca_values c)(ca_next c := \<lparr>cd_key = key, cd_messages = messages\<rparr>),
       ca_recency := ca_next c # ca_recency c,
       ca_entries := AList.update key (ca_next c) (ca_entries c)\<rparr>"

lemma cache_insert_entries:
  fixes messages :: "message list"
  assumes "cache_ok c" "map_of (ca_entries c) key = None"
  defines "d \<equiv> cache_insert c key messages"
  shows "distinct (ca_recency d)" "distinct (map fst (ca_entries d))"
    and "\<And>k e. map_of (ca_entries d) k = Some e \<longleftrightarrow> e \<in> set (ca_recency d) \<and> cd_key (ca_values d e) = k"
    and "\<And>e. e \<in> set (ca_recency d) \<Longrightarrow> e < ca_next d"
    and "lru_of d = (key, messages) # lru_of c" "ca_capacity d = ca_capacity c"
    and "length (ca_recency d) \<le> Suc (ca_capacity c)"
proof -
  have new: "ca_next c \<notin> set (ca_recency c)" using assms(1) by (auto simp: cache_ok_def)
  have key: "\<forall>e \<in> set (ca_recency c). cd_key (ca_values c e) \<noteq> key"
    using assms(1,2) by (auto simp: cache_ok_def)
  show "distinct (ca_recency d)" "distinct (map fst (ca_entries d))" "ca_capacity d = ca_capacity c"
    "length (ca_recency d) \<le> Suc (ca_capacity c)"
    using assms(1) new by (simp_all add: d_def cache_insert_def cache_ok_def distinct_update)
  show "map_of (ca_entries d) k = Some e \<longleftrightarrow> e \<in> set (ca_recency d) \<and> cd_key (ca_values d e) = k" for k e
    using assms(1) new key by (auto simp: d_def cache_insert_def update_conv' cache_ok_def)
  show "e < ca_next d" if "e \<in> set (ca_recency d)" for e
    using that assms(1) by (auto simp: d_def cache_insert_def cache_ok_def)
  show "lru_of d = (key, messages) # lru_of c"
    using new by (auto simp: lru_of_def d_def cache_insert_def)
qed

lemma cache_put_miss:
  assumes "cache_ok c" "map_of (ca_entries c) key = None"
  shows "cache_ok (cache_put c key messages) \<and>
    lru_of (cache_put c key messages) = take (ca_capacity c) ((key, messages) # lru_of c)"
proof -
  let ?d = "cache_insert c key messages"
  note d = cache_insert_entries [OF assms, where messages = messages]
  have len: "length (lru_of c) = length (ca_recency c)" by (simp add: lru_of_def)
  have put: "cache_put c key messages =
      (if ca_capacity c < length (ca_recency ?d)
       then ?d\<lparr>ca_entries := AList.delete (cd_key (ca_values ?d (last (ca_recency ?d)))) (ca_entries ?d),
               ca_recency := remove1 (last (ca_recency ?d)) (ca_recency ?d)\<rparr>
       else ?d)"
    by (simp add: cache_put_def assms(2) cache_insert_def Let_def)
  have cap: "0 < ca_capacity c" "length (ca_recency c) \<le> ca_capacity c" using assms(1) by (simp_all add: cache_ok_def)
  show ?thesis
  proof (cases "ca_capacity c < length (ca_recency ?d)")
    case False
    then have "length (ca_recency c) < ca_capacity c" by (simp add: cache_insert_def)
    moreover have "cache_ok ?d" using d False cap unfolding cache_ok_def by (simp only: d(6)) auto
    ultimately show ?thesis using False d(5) len by (simp add: put)
  next
    case True
    then have full: "length (ca_recency c) = ca_capacity c" using cap by (simp add: cache_insert_def)
    let ?old = "last (ca_recency ?d)"
    have ne: "ca_recency c \<noteq> []" using full cap by auto
    have split: "ca_recency ?d = butlast (ca_recency ?d) @ [?old]" using ne by (simp add: cache_insert_def)
    have bl: "remove1 ?old (ca_recency ?d) = butlast (ca_recency ?d)"
    proof -
      have "?old \<notin> set (butlast (ca_recency ?d))" using d(1) split by (metis distinct_append disjoint_insert(1) list.set(2))
      then show ?thesis by (subst split) (simp add: remove1_append)
    qed
    let ?r = "?d\<lparr>ca_entries := AList.delete (cd_key (ca_values ?d ?old)) (ca_entries ?d),
               ca_recency := butlast (ca_recency ?d)\<rparr>"
    have sub: "e \<in> set (butlast (ca_recency ?d)) \<longleftrightarrow> e \<in> set (ca_recency ?d) \<and> e \<noteq> ?old" for e
      using bl d(1) by (metis set_remove1_eq Diff_iff singletonI singletonD)
    have inj: "cd_key (ca_values ?d e) = cd_key (ca_values ?d ?old) \<Longrightarrow> e = ?old"
      if "e \<in> set (ca_recency ?d)" for e
      using d(3) [of "cd_key (ca_values ?d ?old)"] that split by (metis in_set_conv_decomp option.inject)
    have "cache_ok ?r"
      unfolding cache_ok_def
    proof (intro conjI allI)
      fix k e
      show "map_of (ca_entries ?r) k = Some e \<longleftrightarrow> e \<in> set (ca_recency ?r) \<and> cd_key (ca_values ?r e) = k"
        using d(3) [of k e] inj [of e] sub [of e] by (auto simp: delete_conv')
    qed (use d(1,2,4,6) cap full sub in \<open>auto simp: distinct_butlast distinct_delete cache_insert_def dest: in_set_butlastD\<close>)
    moreover have "lru_of ?r = take (ca_capacity c) ((key, messages) # lru_of c)"
    proof -
      have "lru_of ?r = butlast (lru_of ?d)" by (simp add: lru_of_def map_butlast)
      also have "\<dots> = take (ca_capacity c) (lru_of ?d)"
        using full len d(5) by (simp add: butlast_conv_take)
      finally show ?thesis by (simp add: d(5))
    qed
    ultimately show ?thesis using True bl by (simp add: put)
  qed
qed

lemma cache_put_refines:
  assumes "cache_ok c"
  shows "cache_ok (cache_put c key messages) \<and>
    lru_of (cache_put c key messages) = lru_put (ca_capacity c) key messages (lru_of c) \<and>
    ca_capacity (cache_put c key messages) = ca_capacity c"
proof -
  have cap: "ca_capacity (cache_put c key messages) = ca_capacity c"
    by (simp add: cache_put_def moveToFront_def Let_def split: option.splits)
  have len: "length (lru_of c) \<le> ca_capacity c" using assms by (simp add: lru_of_def cache_ok_def)
  show ?thesis
  proof (cases "map_of (ca_entries c) key")
    case None
    then have "map_of (lru_of c) key = None" using map_of_lru [OF assms] by simp
    then have "filter (\<lambda>x. fst x \<noteq> key) (lru_of c) = lru_of c"
      by (auto simp: map_of_eq_None_iff intro!: filter_True)
    with cache_put_miss [OF assms None] cap show ?thesis by (simp add: lru_put_def lru_touch_def)
  next
    case (Some e)
    note hit = cache_put_hit [OF assms Some, of messages]
    then have "length (lru_touch key messages (lru_of c)) \<le> ca_capacity c"
      using cap by (metis cache_ok_def length_map lru_of_def)
    with hit cap show ?thesis by (simp add: lru_put_def)
  qed
qed

section \<open>Any use of the cache\<close>

datatype cache_op = Get directoryKey | Put directoryKey "message list"

fun cache_run :: "cache_op list \<Rightarrow> directoryCache \<Rightarrow> message list option list \<times> directoryCache" where
  "cache_run [] c = ([], c)"
| "cache_run (Get k # ops) c =
     (let (r, c) = cache_get c k; (rs, c) = cache_run ops c in (r # rs, c))"
| "cache_run (Put k v # ops) c = cache_run ops (cache_put c k v)"

fun lru_run :: "nat \<Rightarrow> cache_op list \<Rightarrow> (directoryKey \<times> message list) list
    \<Rightarrow> message list option list \<times> (directoryKey \<times> message list) list" where
  "lru_run n [] l = ([], l)"
| "lru_run n (Get k # ops) l =
     (let (rs, l') = lru_run n ops (case map_of l k of None \<Rightarrow> l | Some v \<Rightarrow> lru_touch k v l)
      in (map_of l k # rs, l'))"
| "lru_run n (Put k v # ops) l = lru_run n ops (lru_put n k v l)"

lemma cache_get_capacity: "ca_capacity (snd (cache_get c k)) = ca_capacity c"
  by (simp add: cache_get_def moveToFront_def split: option.splits)

lemma cache_run_refines:
  "cache_ok c \<Longrightarrow> cache_run ops c = (rs, c') \<Longrightarrow>
     lru_run (ca_capacity c) ops (lru_of c) = (rs, lru_of c') \<and> cache_ok c' \<and> ca_capacity c' = ca_capacity c"
proof (induction ops c arbitrary: rs rule: cache_run.induct)
  case (2 k ops c)
  obtain r d where g: "cache_get c k = (r, d)" by fastforce
  obtain rs' e where r: "cache_run ops d = (rs', e)" by fastforce
  have out: "rs = r # rs'" "c' = e" using 2(3) by (simp_all add: g r)
  note get = cache_get_refines [OF 2(2) g]
  from 2(1) [OF g [symmetric] refl conjunct1 [OF get]] r cache_get_capacity [of c k] g
  have "lru_run (ca_capacity c) ops (lru_of d) = (rs', lru_of e) \<and> cache_ok e \<and> ca_capacity e = ca_capacity c"
    by (simp add: out(2))
  with get out show ?case by simp
next
  case (3 k v ops c)
  with cache_put_refines [OF 3(2), of k v] show ?case by simp
qed simp

section \<open>Properties\<close>

text \<open>C30: Whatever is looked up and stored, in any order, the cache answers like a list of the most
  recently used distinct keys that never holds more than its capacity.\<close>

theorem cache_refines_lru:
  assumes "0 < n" "cache_run ops (newDirectoryCache n) = (rs, c)"
  shows "lru_run n ops [] = (rs, lru_of c) \<and> distinct (map fst (lru_of c)) \<and> length (lru_of c) \<le> n"
proof -
  have "lru_of (newDirectoryCache n) = []" "ca_capacity (newDirectoryCache n) = n"
    by (simp_all add: lru_of_def newDirectoryCache_def)
  with cache_run_refines [OF cache_ok_new [OF assms(1)] assms(2)]
  have "lru_run n ops [] = (rs, lru_of c)" "cache_ok c" "ca_capacity c = n" by simp_all
  with distinct_lru [of c] show ?thesis by (simp add: cache_ok_def lru_of_def)
qed

lemma cache_refines_lru_witness:
  "length (lru_of (snd (cache_run
     [Put \<lparr>ky_path = ''1'', ky_tree = ''a''\<rparr> [], Put \<lparr>ky_path = ''1'', ky_tree = ''b''\<rparr> [],
      Get \<lparr>ky_path = ''1'', ky_tree = ''a''\<rparr>] (newDirectoryCache 1)))) \<le> 1"
  using cache_refines_lru [of 1 "[Put \<lparr>ky_path = ''1'', ky_tree = ''a''\<rparr> [], Put \<lparr>ky_path = ''1'', ky_tree = ''b''\<rparr> [],
      Get \<lparr>ky_path = ''1'', ky_tree = ''a''\<rparr>]"]
  by (metis less_numeral_extra(1) prod.collapse)

end
