(* ===== verification/Store.thy ===== *)
theory Store
  imports Git_Repo State_Json Dir_Cache
begin

text \<open>
  The store of \<open>internal/archive/store.go\<close> and its commits, \<open>import.go\<close>: the state that one
  \<open>Store\<close> keeps, the \<open>fast-import\<close> process, \<open>commitChanges\<close> with every check before HEAD is
  believed to have moved, \<open>Publish\<close> and \<open>Deliver\<close>.
\<close>

section \<open>The state\<close>

record importer =
  im_nextMark :: u64
  im_out :: pipe

text \<open>
  The fields of the Go struct that \<open>Receipts.spool\<close> does not have yet. The read process and its
  lock are \<open>st_reader\<close>; \<open>st_maintenanceRequested\<close> is the channel of capacity one.
\<close>

record 'g store = spool +
  st_state :: mailboxState
  st_headID :: string
  st_refName :: string
  st_git :: 'g
  st_importer :: "importer option"
  st_importError :: "goerr option"
  st_closed :: bool
  st_idleGeneration :: u64
  st_idleTimer :: "u64 option"
  st_reader :: git_reader
  st_cache :: directoryCache
  st_maintenanceRequested :: bool
  st_commitsSinceMaintenance :: u64
  st_lastMaintenanceHead :: string

definition maintenanceCommitThreshold :: u64 where "maintenanceCommitThreshold = 256"

section \<open>The import process\<close>

text \<open>\<open>rev-parse --verify HEAD\<close>; on an error the Go function also returns the empty string.\<close>

definition git_head :: "'g git \<Rightarrow> 'g store \<Rightarrow> string res \<times> 'g store" where
  "git_head G s = (let (r, g) = gi_head G (st_git s) in (map_sum id trim_space r, s\<lparr>st_git := g\<rparr>))"

definition importerLocked :: "'g git \<Rightarrow> 'g store \<Rightarrow> importer res \<times> 'g store" where
  "importerLocked G s =
     (let s = s\<lparr>st_idleGeneration := st_idleGeneration s + 1, st_idleTimer := None\<rparr> in
      if st_closed s then (Inl (ErrMsg ''archive is closed''), s)
      else case st_importError s of
             Some e \<Rightarrow> (Inl e, s)
           | None \<Rightarrow>
               (case st_importer s of
                  Some p \<Rightarrow> (Inr p, s)
                | None \<Rightarrow>
                    (case gi_start G (st_git s) of
                       (Some e, g) \<Rightarrow> (Inl e, s\<lparr>st_git := g\<rparr>)
                     | (None, g) \<Rightarrow>
                         let p = \<lparr>im_nextMark = 0, im_out = ([], IoEOF)\<rparr>
                         in (Inr p, s\<lparr>st_git := g, st_importer := Some p\<rparr>))))"

definition armIdleLocked :: "'g store \<Rightarrow> 'g store" where
  "armIdleLocked s =
     (if st_importer s = None then s
      else s\<lparr>st_idleGeneration := st_idleGeneration s + 1, st_idleTimer := Some (st_idleGeneration s + 1)\<rparr>)"

definition closeImporterLocked :: "'g git \<Rightarrow> 'g store \<Rightarrow> goerr option \<times> 'g store" where
  "closeImporterLocked G s =
     (case st_importer s of
        None \<Rightarrow> (None, s)
      | Some p \<Rightarrow>
          let (err, g) = gi_close G (st_git s)
          in (map_option (WrapErr ''close git fast-import'') err, s\<lparr>st_git := g, st_importer := None\<rparr>))"

text \<open>The function that the idle timer armed with \<open>generation\<close> runs.\<close>

definition import_idle_fired :: "'g git \<Rightarrow> u64 \<Rightarrow> 'g store \<Rightarrow> 'g store" where
  "import_idle_fired G generation s =
     (if st_idleGeneration s \<noteq> generation then s
      else case closeImporterLocked G s of
             (None, s) \<Rightarrow> s
           | (Some e, s) \<Rightarrow> s\<lparr>st_importError := Some e\<rparr>)"

definition abortImporterLocked :: "'g git \<Rightarrow> goerr \<Rightarrow> 'g store \<Rightarrow> goerr \<times> 'g store" where
  "abortImporterLocked G cause s =
     (case st_importer s of
        None \<Rightarrow> (cause, s\<lparr>st_importError := Some cause\<rparr>)
      | Some p \<Rightarrow>
          let cause = WrapErr ''fast-import'' cause
          in (cause, s\<lparr>st_git := gi_kill G (st_git s), st_importer := None, st_importError := Some cause\<rparr>))"

text \<open>\<open>Close\<close>: the importer first, then the reader.\<close>

definition store_Close :: "'g git \<Rightarrow> 'g store \<Rightarrow> goerr option \<times> 'g store" where
  "store_Close G s =
     (let s = s\<lparr>st_closed := True, st_idleGeneration := st_idleGeneration s + 1, st_idleTimer := None\<rparr>;
          (writeErr, s) = closeImporterLocked G s;
          r = st_reader s;
          r = r\<lparr>rs_closed := True, rs_generation := rs_generation r + 1, rs_timer := None\<rparr>;
          (readErr, r) = closeReaderLocked (gi_catClose G (st_git s)) r
      in ((case writeErr of None \<Rightarrow> readErr | Some e \<Rightarrow> Some e), s\<lparr>st_reader := r\<rparr>))"

section \<open>Commits\<close>

text \<open>
  What one commit takes from outside: the clock, the order in which Go visits the map of changes,
  and the files of a legacy archive.
\<close>

record commit_env =
  ce_clock :: int
  ce_order :: "(string \<times> string option) list \<Rightarrow> (string \<times> string option) list"
  ce_legacy :: "string \<Rightarrow> string res"

text \<open>Write a request, flush it, read one line.\<close>

definition import_exchange :: "'g git \<Rightarrow> string \<Rightarrow> 'g store \<Rightarrow> string res \<times> 'g store" where
  "import_exchange G request s =
     (case st_importer s of
        None \<Rightarrow> (Inl OsErrClosed, s)
      | Some p \<Rightarrow>
          (case gi_send G request (st_git s) of
             (Inl e, g) \<Rightarrow> (Inl e, s\<lparr>st_git := g\<rparr>)
           | (Inr ans, g) \<Rightarrow>
               let (line, out) = git_line (fst (im_out p) @ fst ans, snd ans)
               in (line, s\<lparr>st_git := g, st_importer := Some (p\<lparr>im_out := out\<rparr>)\<rparr>)))"

definition importCommitLocked ::
  "'g git \<Rightarrow> commit_env \<Rightarrow> string \<Rightarrow> mailboxState \<Rightarrow> (string \<times> string option) list \<Rightarrow> string list
    \<Rightarrow> importer \<Rightarrow> 'g store \<Rightarrow> goerr option \<times> 'g store" where
  "importCommitLocked G env title state changes removals p s =
     (let changes = AList.update mailboxStateName (Some (json_state state @ [CHR 0x0A])) changes;
          p = p\<lparr>im_nextMark := im_nextMark p + 1\<rparr>;
          s = s\<lparr>st_importer := Some p\<rparr>
      in case commit_request (st_refName s) (unat (im_nextMark p)) (ce_clock env) title (st_headID s)
                (ce_legacy env) (ce_order env changes) removals of
           Inl e \<Rightarrow> (Some e, s)
         | Inr request \<Rightarrow>
             (case import_exchange G request s of
                (Inl e, s) \<Rightarrow> (Some e, s)
              | (Inr next, s) \<Rightarrow>
                  if \<not> validObjectID next then (Some (ErrMsg ''invalid commit object ID from git''), s)
                  else (case import_exchange G (checkpoint_request next) s of
                          (Inl e, s) \<Rightarrow> (Some e, s)
                        | (Inr progress, s) \<Rightarrow>
                            if progress \<noteq> ''progress '' @ next
                            then (Some (ErrMsg ''invalid git checkpoint response''), s)
                            else (case git_head G s of
                                    (Inl e, s) \<Rightarrow> (Some e, s)
                                  | (Inr current, s) \<Rightarrow>
                                      if current \<noteq> next
                                      then (Some (ErrMsg ''git checkpoint did not publish the expected HEAD''), s)
                                      else (None, s\<lparr>st_headID := next\<rparr>)))))"

text \<open>The result of the watched operation joined with what interrupted it.\<close>

definition watched :: "'g git \<Rightarrow> goerr option \<times> 'g store \<Rightarrow> goerr option \<times> 'g store" where
  "watched G r =
     (let (err, s) = r; (interruption, g) = gi_watch G (st_git s)
      in ((case interruption of None \<Rightarrow> err | Some e \<Rightarrow> Some e), s\<lparr>st_git := g\<rparr>))"

text \<open>A full channel is left alone.\<close>

definition countCommit :: "'g store \<Rightarrow> 'g store" where
  "countCommit s =
     (let s = s\<lparr>st_commitsSinceMaintenance := st_commitsSinceMaintenance s + 1\<rparr> in
      if maintenanceCommitThreshold \<le> st_commitsSinceMaintenance s
      then s\<lparr>st_maintenanceRequested := True\<rparr> else s)"

definition commitChanges ::
  "'g git \<Rightarrow> commit_env \<Rightarrow> string \<Rightarrow> mailboxState \<Rightarrow> (string \<times> string option) list \<Rightarrow> string list
    \<Rightarrow> 'g store \<Rightarrow> goerr option \<times> 'g store" where
  "commitChanges G env title state changes removals s =
     (case st_failure s of
        Some e \<Rightarrow> (Some e, s)
      | None \<Rightarrow>
          (case buildDirectoryIndex (mb_Directories state) (mb_LastID state) of
             Inl e \<Rightarrow> (Some e, s)
           | Inr _ \<Rightarrow>
               let (current, s) = git_head G s in
               if (case current of Inl _ \<Rightarrow> st_headID s \<noteq> [] | Inr h \<Rightarrow> h \<noteq> st_headID s)
               then (Some (ErrMsg ''archive HEAD changed outside picomx; restart required''), armIdleLocked s)
               else (case importerLocked G s of
                       (Inl e, s) \<Rightarrow> (Some e, armIdleLocked s)
                     | (Inr p, s) \<Rightarrow>
                         (case watched G (importCommitLocked G env title state changes removals p s) of
                            (Some e, s) \<Rightarrow>
                              let (e, s) = abortImporterLocked G e s
                              in (Some e, armIdleLocked (s\<lparr>st_failure := Some e\<rparr>))
                          | (None, s) \<Rightarrow>
                              (None, armIdleLocked (countCommit s))))))"

section \<open>Publishing\<close>

record publish_env =
  pe_day :: string
  pe_chargeDay :: string
  pe_read :: "goerr option"
  pe_receipt :: receipt_io
  pe_commit :: commit_env

definition publish_title :: "u64 \<Rightarrow> string" where
  "publish_title i = ''mail: receive '' @ fmt_nat 10 (unat i)"

text \<open>The state that \<open>Publish\<close> computes for the next ID, and its path.\<close>

definition publish_next :: "u64 \<Rightarrow> mailboxState \<Rightarrow> (u64 \<times> string \<times> mailboxState) res" where
  "publish_next sz st =
     (if mb_LastID st = - 1 then Inl (ErrMsg ''message ID space exhausted'')
      else let nextID = mb_LastID st + 1 in
           bind_res (messagePath nextID sz) (\<lambda>path.
             if - 1 - mb_TotalOctets st < sz then Inl (ErrMsg ''mailbox octet count overflow'')
             else bind_res (counts_add (mb_Directories st) (path_dir path)) (\<lambda>counts.
                  bind_res (buildDirectoryIndex counts nextID) (\<lambda>index.
                    Inr (nextID, path,
                      \<lparr>mb_Version = mailboxStateVersion, mb_LastID = nextID,
                       mb_TotalOctets = mb_TotalOctets st + sz, mb_Directories = counts,
                       mb_DailyReceipt = None, mb_index = Some index\<rparr>)))))"

definition Publish :: "'g git \<Rightarrow> publish_env \<Rightarrow> nat \<Rightarrow> 'g store \<Rightarrow> (u64 \<times> string) res \<times> 'g store" where
  "Publish G env i s =
     (if length (st_staged s) \<le> i \<or> sm_path (st_staged s ! i) = []
      then (Inl (ErrMsg ''staged message does not belong to this store''), s)
      else case st_failure s of
             Some e \<Rightarrow> (Inl e, s)
           | None \<Rightarrow>
               if sm_done (st_staged s ! i) then (Inl (ErrMsg ''staged message is no longer available''), s)
               else if \<not> canReserveLocked (pe_day env) s 0 then (Inl ErrDailyLimit, s)
               else case publish_next (sm_size (st_staged s ! i)) (st_state s) of
                      Inl e \<Rightarrow> (Inl e, s)
                    | Inr (nextID, path, nextState) \<Rightarrow>
                        (case (case pe_read env of Some e \<Rightarrow> Inl e | None \<Rightarrow> staged_Open i s) of
                           Inl e \<Rightarrow> (Inl e, s)
                         | Inr content \<Rightarrow>
                             (case publish_charge (pe_chargeDay env) (pe_receipt env) i s of
                                (Inl e, s) \<Rightarrow> (Inl e, s)
                              | (Inr _, s) \<Rightarrow>
                                  (case commitChanges G (pe_commit env) (publish_title nextID) nextState
                                          [(path, Some content)] [] s of
                                     (Some e, s) \<Rightarrow> (Inl e, s)
                                   | (None, s) \<Rightarrow> (Inr (nextID, path), s\<lparr>st_state := nextState\<rparr>)))))"

text \<open>\<open>Deliver\<close>: stage, publish, and the deferred discard.\<close>

definition Deliver ::
  "'g git \<Rightarrow> nat \<Rightarrow> stage_io \<Rightarrow> publish_env \<Rightarrow> ('r \<Rightarrow> nat \<Rightarrow> string \<times> goerr option \<times> 'r) \<Rightarrow> 'r
    \<Rightarrow> 'g store \<Rightarrow> string res \<times> 'r \<times> 'g store" where
  "Deliver G fuel io env rd src s =
     (case Stage fuel io rd src s of
        (Inl e, src, s) \<Rightarrow> (Inl e, src, s)
      | (Inr i, src, s) \<Rightarrow>
          let (r, s) = Publish G env i s
          in (map_sum id snd r, src, Discard i s))"

end
