(* ===== verification/Mailbox_Ops.thy ===== *)
theory Mailbox_Ops
  imports Store Go_Quote
begin

text \<open>
  The mailbox operations of \<open>internal/archive/mailbox.go\<close> and the directory listings of
  \<open>tree.go\<close>: snapshots, lookup by number and by ID, listing, deletion, and opening a message.
\<close>

section \<open>Reading objects\<close>

text \<open>
  The requests of \<open>read.go\<close> on the store; after each, Git may answer differently (\<open>gi_tick\<close>).
  A reader of an object leases the pipe of the process until it is closed.
\<close>

definition store_objectInfo :: "'g git \<Rightarrow> string \<Rightarrow> string \<Rightarrow> 'g store \<Rightarrow> objectHeader res \<times> 'g store" where
  "store_objectInfo G spec kind s =
     (let g = st_git s; (r, rd) = objectInfo (gi_catStart G g) (gi_ask G g) spec kind (st_reader s)
      in (r, s\<lparr>st_reader := rd, st_git := gi_tick G g\<rparr>))"

definition store_readObject :: "'g git \<Rightarrow> string \<Rightarrow> string \<Rightarrow> 'g store \<Rightarrow> blobReader res \<times> 'g store" where
  "store_readObject G spec kind s =
     (let g = st_git s; (r, rd) = readObject (gi_catStart G g) (gi_ask G g) spec kind (st_reader s)
      in (r, s\<lparr>st_reader := rd, st_git := gi_tick G g\<rparr>))"

definition store_readBlob :: "'g git \<Rightarrow> string \<Rightarrow> string \<Rightarrow> 'g store \<Rightarrow> blobReader res \<times> 'g store" where
  "store_readBlob G commit path s = store_readObject G (commit @ '':'' @ path) ''blob'' s"

definition leased_pipe :: "git_reader \<Rightarrow> pipe" where
  "leased_pipe r = (case rs_process r of Some out \<Rightarrow> out | None \<Rightarrow> ([], IoEOF))"

text \<open>\<open>io.ReadAll\<close>; every read gives a byte at least, so the fuel is enough.\<close>

fun read_all :: "nat \<Rightarrow> blobReader \<times> pipe \<Rightarrow> string \<times> goerr option \<times> blobReader \<times> pipe" where
  "read_all 0 x = ([], Some Diverges, x)"
| "read_all (Suc fuel) x =
     (let (bytes, err, y) = blob_Read x 512 in
      case err of
        Some e \<Rightarrow> (bytes, (if e = IoEOF then None else Some e), y)
      | None \<Rightarrow> let (more, e, z) = read_all fuel y in (bytes @ more, e, z))"

definition store_ReadAll :: "blobReader \<Rightarrow> 'g store \<Rightarrow> string \<times> goerr option \<times> blobReader \<times> 'g store" where
  "store_ReadAll br s =
     (let (bytes, err, br, out) = read_all (Suc (Suc (nat (br_remaining br)))) (br, leased_pipe (st_reader s))
      in (bytes, err, br, s\<lparr>st_reader := (st_reader s)\<lparr>rs_process := Some out\<rparr>\<rparr>))"

definition store_CloseBlob :: "blobReader \<Rightarrow> 'g store \<Rightarrow> goerr option \<times> 'g store" where
  "store_CloseBlob br s = (let (err, br, rd) = blob_Close br (st_reader s) in (err, s\<lparr>st_reader := rd\<rparr>))"

definition join_errors :: "goerr option \<Rightarrow> goerr option \<Rightarrow> goerr option" where
  "join_errors a b = (case a of Some e \<Rightarrow> Some e | None \<Rightarrow> b)"

definition tree :: "'g git \<Rightarrow> string \<Rightarrow> 'g store \<Rightarrow> (treeEntry list \<times> string) res \<times> 'g store" where
  "tree G spec s =
     (case store_readObject G spec ''tree'' s of
        (Inl e, s) \<Rightarrow> (Inl e, s)
      | (Inr reader, s) \<Rightarrow>
          if 256 * 1024 < br_remaining reader then
            (let (_, s) = store_CloseBlob reader s
             in (Inl (ErrMsg ''archive tree exceeds bounded directory size''), s))
          else let (bytes, readErr, reader, s) = store_ReadAll reader s;
                   (closeErr, s) = store_CloseBlob reader s
               in case join_errors readErr closeErr of
                    Some e \<Rightarrow> (Inl e, s)
                  | None \<Rightarrow>
                      (case parseTree bytes (length (oh_oid (br_header reader)) div 2) of
                         Inl e \<Rightarrow> (Inl e, s)
                       | Inr entries \<Rightarrow>
                           if unat idRadix + 3 < length entries
                           then (Inl (ErrMsg ''archive directory exceeds fanout''), s)
                           else (Inr (entries, oh_oid (br_header reader)), s)))"

section \<open>Directory listings\<close>

definition entry_message :: "string \<Rightarrow> treeEntry \<Rightarrow> message res" where
  "entry_message path e =
     (if te_mode e \<noteq> ''100644'' then Inl (ErrMsg ''message directory contains a subtree'')
      else messageFromPath (path @ ''/'' @ te_name e))"

definition directory_messages :: "string \<Rightarrow> treeEntry list \<Rightarrow> message list res" where
  "directory_messages path entries =
     bind_res (map_res (entry_message path) entries) (\<lambda>messages.
       let messages = sort_key MsgID messages in
       if list_ex (\<lambda>i. MsgID (messages ! (i - 1)) = MsgID (messages ! i)) [1..<length messages]
       then Inl (ErrMsg ''duplicate message ID in directory'') else Inr messages)"

definition directory :: "'g git \<Rightarrow> string \<Rightarrow> string \<Rightarrow> 'g store \<Rightarrow> message list res \<times> 'g store" where
  "directory G commit path s =
     (case store_objectInfo G (commit @ '':'' @ path) ''tree'' s of
        (Inl e, s) \<Rightarrow> (Inl e, s)
      | (Inr header, s) \<Rightarrow>
          let key = \<lparr>ky_path = path, ky_tree = oh_oid header\<rparr>;
              (hit, cache) = cache_get (st_cache s) key;
              s = s\<lparr>st_cache := cache\<rparr>
          in case hit of
               Some messages \<Rightarrow> (Inr messages, s)
             | None \<Rightarrow>
                 (case tree G (oh_oid header) s of
                    (Inl e, s) \<Rightarrow> (Inl e, s)
                  | (Inr (entries, _), s) \<Rightarrow>
                      (case directory_messages path entries of
                         Inl e \<Rightarrow> (Inl e, s)
                       | Inr messages \<Rightarrow> (Inr messages, s\<lparr>st_cache := cache_put (st_cache s) key messages\<rparr>))))"

section \<open>Snapshots\<close>

record snapshot =
  sn_LastID :: u64
  sn_TotalOctets :: u64
  sn_MessageCount :: u64
  sn_index :: "directoryIndex option"
  sn_commit :: string

definition snapshot_Count :: "snapshot \<Rightarrow> u64" where
  "snapshot_Count snap = sn_MessageCount snap"

definition snapshotLocked :: "'g store \<Rightarrow> snapshot" where
  "snapshotLocked s =
     \<lparr>sn_LastID = mb_LastID (st_state s), sn_TotalOctets = mb_TotalOctets (st_state s),
      sn_MessageCount = (case mb_index (st_state s) of None \<Rightarrow> 0 | Some index \<Rightarrow> di_total index),
      sn_index = mb_index (st_state s), sn_commit = st_headID s\<rparr>"

definition Snapshot :: "'g store \<Rightarrow> snapshot" where
  "Snapshot s = snapshotLocked s"

definition Lookup :: "'g git \<Rightarrow> snapshot \<Rightarrow> u64 \<Rightarrow> 'g store \<Rightarrow> message res \<times> 'g store" where
  "Lookup G snap number s =
     (case selectLeaf (sn_index snap) number of
        None \<Rightarrow> (Inl ErrNoSuchMessage, s)
      | Some (leaf, offset) \<Rightarrow>
          (case directory G (sn_commit snap) (dc_path leaf) s of
             (Inl e, s) \<Rightarrow> (Inl e, s)
           | (Inr messages, s) \<Rightarrow>
               if of_nat (length messages) \<noteq> dc_count leaf
               then (Inl (ErrMsg ''directory listing does not match count''), s)
               else (Inr (messages ! unat offset), s)))"

definition messageByID :: "'g git \<Rightarrow> snapshot \<Rightarrow> u64 \<Rightarrow> 'g store \<Rightarrow> message res \<times> 'g store" where
  "messageByID G snap i s =
     (case sn_index snap of
        None \<Rightarrow> (Inl ErrNoSuchMessage, s)
      | Some index \<Rightarrow>
          if i = 0 \<or> sn_LastID snap < i then (Inl ErrNoSuchMessage, s)
          else let path = (case messageRelativePath i of Inl _ \<Rightarrow> path_dir [] | Inr legacy \<Rightarrow> path_dir legacy);
                   leaves = di_leaves index;
                   position = sort_search (length leaves) (\<lambda>k. path \<le> dc_path (leaves ! k))
               in if position = length leaves \<or> dc_path (leaves ! position) \<noteq> path
                  then (Inl ErrNoSuchMessage, s)
                  else (case directory G (sn_commit snap) path s of
                          (Inl e, s) \<Rightarrow> (Inl e, s)
                        | (Inr messages, s) \<Rightarrow>
                            if of_nat (length messages) \<noteq> dc_count (leaves ! position)
                            then (Inl (ErrMsg ''directory listing does not match count''), s)
                            else let position = sort_search (length messages) (\<lambda>k. i \<le> MsgID (messages ! k))
                                 in if position = length messages \<or> MsgID (messages ! position) \<noteq> i
                                    then (Inl ErrNoSuchMessage, s)
                                    else (Inr (messages ! position), s)))"

text \<open>
  \<open>ListAt\<close> with the callback \<open>visit number id size\<close>, which has a state of its own.
\<close>

fun list_messages ::
  "u64 \<Rightarrow> (u64 \<Rightarrow> u64 \<Rightarrow> u64 \<Rightarrow> 'c \<Rightarrow> goerr option \<times> 'c) \<Rightarrow> u64 \<Rightarrow> message list \<Rightarrow> 'c
    \<Rightarrow> u64 res \<times> 'c" where
  "list_messages lastID visit number [] c = (Inr number, c)"
| "list_messages lastID visit number (m # ms) c =
     (if lastID < MsgID m then (Inl (ErrMsg ''directory contains unallocated message ID''), c)
      else case visit (number + 1) (MsgID m) (MsgSize m) c of
             (Some e, c) \<Rightarrow> (Inl e, c)
           | (None, c) \<Rightarrow> list_messages lastID visit (number + 1) ms c)"

fun list_leaves ::
  "'g git \<Rightarrow> snapshot \<Rightarrow> (u64 \<Rightarrow> u64 \<Rightarrow> u64 \<Rightarrow> 'c \<Rightarrow> goerr option \<times> 'c) \<Rightarrow> u64
    \<Rightarrow> directoryCount list \<Rightarrow> 'c \<Rightarrow> 'g store \<Rightarrow> goerr option \<times> 'c \<times> 'g store" where
  "list_leaves G snap visit number [] c s = (None, c, s)"
| "list_leaves G snap visit number (leaf # leaves) c s =
     (case directory G (sn_commit snap) (dc_path leaf) s of
        (Inl e, s) \<Rightarrow> (Some e, c, s)
      | (Inr messages, s) \<Rightarrow>
          if of_nat (length messages) \<noteq> dc_count leaf
          then (Some (ErrMsg ''directory listing does not match count''), c, s)
          else (case list_messages (sn_LastID snap) visit number messages c of
                  (Inl e, c) \<Rightarrow> (Some e, c, s)
                | (Inr number, c) \<Rightarrow> list_leaves G snap visit number leaves c s))"

definition ListAt ::
  "'g git \<Rightarrow> snapshot \<Rightarrow> (u64 \<Rightarrow> u64 \<Rightarrow> u64 \<Rightarrow> 'c \<Rightarrow> goerr option \<times> 'c) \<Rightarrow> 'c
    \<Rightarrow> 'g store \<Rightarrow> goerr option \<times> 'c \<times> 'g store" where
  "ListAt G snap visit c s =
     (case sn_index snap of
        None \<Rightarrow> (Some ErrNoSuchMessage, c, s)
      | Some index \<Rightarrow> list_leaves G snap visit 0 (di_leaves index) c s)"

section \<open>Opening\<close>

definition OpenMessage :: "'g git \<Rightarrow> snapshot \<Rightarrow> message \<Rightarrow> 'g store \<Rightarrow> blobReader res \<times> 'g store" where
  "OpenMessage G snap m s =
     (if messageFromPath (MsgPath m) \<noteq> Inr m \<or> sn_LastID snap < MsgID m then (Inl ErrNoSuchMessage, s)
      else case store_readBlob G (sn_commit snap) (MsgPath m) s of
             (Inl e, s) \<Rightarrow> (Inl e, s)
           | (Inr reader, s) \<Rightarrow>
               if br_remaining reader \<noteq> int64 (uint (MsgSize m)) then
                 (let (_, s) = store_CloseBlob reader s
                  in (Inl (ErrMsg ''message size does not match filename''), s))
               else (Inr reader, s))"

definition SizeAt :: "'g git \<Rightarrow> snapshot \<Rightarrow> u64 \<Rightarrow> 'g store \<Rightarrow> u64 res \<times> 'g store" where
  "SizeAt G snap i s = (let (r, s) = messageByID G snap i s in (map_sum id MsgSize r, s))"

definition OpenAt :: "'g git \<Rightarrow> snapshot \<Rightarrow> u64 \<Rightarrow> 'g store \<Rightarrow> blobReader res \<times> 'g store" where
  "OpenAt G snap i s =
     (case messageByID G snap i s of (Inl e, s) \<Rightarrow> (Inl e, s) | (Inr m, s) \<Rightarrow> OpenMessage G snap m s)"

definition store_Open :: "'g git \<Rightarrow> u64 \<Rightarrow> 'g store \<Rightarrow> blobReader res \<times> 'g store" where
  "store_Open G i s = OpenAt G (Snapshot s) i s"

definition store_Size :: "'g git \<Rightarrow> u64 \<Rightarrow> 'g store \<Rightarrow> u64 res \<times> 'g store" where
  "store_Size G i s = SizeAt G (Snapshot s) i s"

section \<open>Deletion\<close>

text \<open>The loop of \<open>deleteLocked\<close>: the octets and counts that remain, and the paths to remove.\<close>

fun delete_next :: "message list \<Rightarrow> mailboxState \<Rightarrow> (mailboxState \<times> string list) res" where
  "delete_next [] st = Inr (st, [])"
| "delete_next (m # ms) st =
     (if mb_TotalOctets st < MsgSize m then Inl (ErrMsg ''message size exceeds mailbox octets'')
      else bind_res (counts_remove (mb_Directories st) (path_dir (MsgPath m))) (\<lambda>counts.
           bind_res (delete_next ms (st\<lparr>mb_TotalOctets := mb_TotalOctets st - MsgSize m, mb_Directories := counts\<rparr>))
             (\<lambda>(st, paths). Inr (st, MsgPath m # paths))))"

definition delete_title :: "(string \<Rightarrow> bool) \<Rightarrow> nat \<Rightarrow> string \<Rightarrow> string" where
  "delete_title graphic n username =
     ''mail: delete '' @ fmt_nat 10 n @ '' messages'' @
     (if username = [] then []
      else let printable = quoteToGraphic graphic username;
               printable = (if printable = CHR 0x22 # username @ [CHR 0x22] then username else printable)
           in [CHR 0x0A, CHR 0x0A] @ ''POP3 user: '' @ printable)"

definition deleteLocked ::
  "'g git \<Rightarrow> (string \<Rightarrow> bool) \<Rightarrow> commit_env \<Rightarrow> message list \<Rightarrow> string \<Rightarrow> 'g store \<Rightarrow> goerr option \<times> 'g store" where
  "deleteLocked G graphic env messages username s =
     (case st_failure s of
        Some e \<Rightarrow> (Some e, s)
      | None \<Rightarrow>
          if messages = [] then (None, s)
          else case delete_next messages (st_state s) of
                 Inl e \<Rightarrow> (Some e, s)
               | Inr (st, paths) \<Rightarrow>
                   (case buildDirectoryIndex (mb_Directories st) (mb_LastID st) of
                      Inl e \<Rightarrow> (Some e, s)
                    | Inr index \<Rightarrow>
                        let st = st\<lparr>mb_index := Some index\<rparr> in
                        (case commitChanges G env (delete_title graphic (length paths) username) st [] paths s of
                           (Some e, s) \<Rightarrow> (Some e, s)
                         | (None, s) \<Rightarrow> (None, s\<lparr>st_state := st\<rparr>))))"

text \<open>The IDs resolved against a snapshot; an absent one is already deleted.\<close>

fun resolve_ids :: "'g git \<Rightarrow> snapshot \<Rightarrow> u64 \<Rightarrow> u64 list \<Rightarrow> 'g store \<Rightarrow> message list res \<times> 'g store" where
  "resolve_ids G snap previous [] s = (Inr [], s)"
| "resolve_ids G snap previous (i # ids) s =
     (if i = 0 \<or> sn_LastID snap < i then (Inl ErrNoSuchMessage, s)
      else if i = previous then resolve_ids G snap previous ids s
      else case messageByID G snap i s of
             (Inl e, s) \<Rightarrow>
               if errors_is e ErrNoSuchMessage then resolve_ids G snap i ids s else (Inl e, s)
           | (Inr m, s) \<Rightarrow>
               (case resolve_ids G snap i ids s of
                  (Inl e, s) \<Rightarrow> (Inl e, s)
                | (Inr ms, s) \<Rightarrow> (Inr (m # ms), s)))"

text \<open>
  \<open>DeleteAs\<close>: while the paths are resolved no lock is held, so that \<open>others k\<close>, whatever other
  sessions do then, may move HEAD; the k-th turn is then repeated. Nothing bounds the turns, which
  the fuel stands for.
\<close>

fun delete_loop ::
  "nat \<Rightarrow> 'g git \<Rightarrow> (string \<Rightarrow> bool) \<Rightarrow> commit_env \<Rightarrow> (nat \<Rightarrow> 'g store \<Rightarrow> 'g store) \<Rightarrow> u64 list \<Rightarrow> string
    \<Rightarrow> 'g store \<Rightarrow> goerr option \<times> 'g store" where
  "delete_loop 0 G graphic env others ids username s = (Some Diverges, s)"
| "delete_loop (Suc k) G graphic env others ids username s =
     (let snap = Snapshot s in
      case resolve_ids G snap 0 ids s of
        (Inl e, s) \<Rightarrow> (Some e, s)
      | (Inr messages, s) \<Rightarrow>
          let s = others k s in
          if st_headID s \<noteq> sn_commit snap then delete_loop k G graphic env others ids username s
          else deleteLocked G graphic env messages username s)"

definition DeleteAs ::
  "nat \<Rightarrow> 'g git \<Rightarrow> (string \<Rightarrow> bool) \<Rightarrow> commit_env \<Rightarrow> (nat \<Rightarrow> 'g store \<Rightarrow> 'g store) \<Rightarrow> u64 list \<Rightarrow> string
    \<Rightarrow> 'g store \<Rightarrow> goerr option \<times> 'g store" where
  "DeleteAs fuel G graphic env others ids username s = delete_loop fuel G graphic env others (sort ids) username s"

definition Delete ::
  "nat \<Rightarrow> 'g git \<Rightarrow> (string \<Rightarrow> bool) \<Rightarrow> commit_env \<Rightarrow> (nat \<Rightarrow> 'g store \<Rightarrow> 'g store) \<Rightarrow> u64 list
    \<Rightarrow> 'g store \<Rightarrow> goerr option \<times> 'g store" where
  "Delete fuel G graphic env others ids s = DeleteAs fuel G graphic env others ids [] s"

end
