(* ===== verification/Archive_Tree.thy ===== *)
theory Archive_Tree
  imports Git_Repo Directory_Index
begin

text \<open>
  The abstract mailbox, a map from IDs to messages, and the tree of files that stands for it in
  every commit: a file for every message, named by \<open>messagePath\<close>, beside the \<open>state\<close> file. The
  lemmas show how the files change with the mailbox and what the tree object of a leaf holds.
\<close>

type_synonym mailbox = "u64 \<Rightarrow> string option"

definition mailbox_ok :: "mailbox \<Rightarrow> bool" where
  "mailbox_ok M \<longleftrightarrow> M 0 = None \<and> (\<forall>i c. M i = Some c \<longrightarrow> length c < 18446744073709551616)"

definition special_files :: "string set" where
  "special_files = {''state'', ''.gitignore'', ''.gitattributes''}"

definition message_file :: "mailbox \<Rightarrow> string \<Rightarrow> string option" where
  "message_file M p =
     (case messageFromPath p of
        Inl e \<Rightarrow> None
      | Inr m \<Rightarrow>
          (case M (MsgID m) of
             None \<Rightarrow> None
           | Some c \<Rightarrow> if length c = unat (MsgSize m) then Some c else None))"

definition archive_tree :: "tree_files \<Rightarrow> mailbox \<Rightarrow> bool" where
  "archive_tree fs M \<longleftrightarrow> (\<forall>p. p \<notin> special_files \<longrightarrow> fs p = message_file M p)"

text \<open>The message that the mailbox holds under an ID, as the archive describes it.\<close>

definition message_of :: "u64 \<Rightarrow> string \<Rightarrow> message" where
  "message_of i c =
     \<lparr>MsgID = i, MsgSize = of_nat (length c),
      MsgPath = leaf_of i @ ''/'' @ hex3 (unat i mod 1024) @ ''-s'' @ format_uint (of_nat (length c)) 10 @ ''.eml''\<rparr>"

lemma message_of_simps [simp]:
  "MsgID (message_of i c) = i" "MsgSize (message_of i c) = of_nat (length c)"
  by (simp_all add: message_of_def)

lemma message_of_path: "i \<noteq> 0 \<Longrightarrow> messagePath i (of_nat (length c)) = Inr (MsgPath (message_of i c))"
  by (simp add: messagePath_leaf message_of_def)

lemma messageFromPath_message_of: "i \<noteq> 0 \<Longrightarrow> messageFromPath (MsgPath (message_of i c)) = Inr (message_of i c)"
  using messageFromPath_messagePath [OF message_of_path [of i c]] by (simp add: message_of_def)

lemma message_file_Some:
  assumes "mailbox_ok M"
  shows "message_file M p = Some c \<longleftrightarrow> (\<exists>i. M i = Some c \<and> p = MsgPath (message_of i c))"
proof
  assume "message_file M p = Some c"
  then obtain m where m: "messageFromPath p = Inr m" "M (MsgID m) = Some c" "length c = unat (MsgSize m)"
    by (auto simp: message_file_def split: sum.splits option.splits if_splits)
  have "MsgID m \<noteq> 0" using m(2) assms by (auto simp: mailbox_ok_def)
  moreover have "MsgSize m = of_nat (length c)" by (simp add: m(3))
  moreover have "messagePath (MsgID m) (MsgSize m) = Inr p" using messageFromPath_SomeD [OF m(1)] by simp
  ultimately have "p = MsgPath (message_of (MsgID m) c)" using message_of_path [of "MsgID m" c] by simp
  with m(2) show "\<exists>i. M i = Some c \<and> p = MsgPath (message_of i c)" by blast
next
  assume "\<exists>i. M i = Some c \<and> p = MsgPath (message_of i c)"
  then obtain i where i: "M i = Some c" "p = MsgPath (message_of i c)" by blast
  then have "i \<noteq> 0" "length c < 18446744073709551616" using assms by (auto simp: mailbox_ok_def)
  then show "message_file M p = Some c"
    using i messageFromPath_message_of [of i c] by (simp add: message_file_def unat_of_nat_u64)
qed

section \<open>Paths\<close>

lemma message_path_not_special: "messageFromPath p = Inr m \<Longrightarrow> p \<notin> special_files"
proof
  assume "messageFromPath p = Inr m" "p \<in> special_files"
  then have "messagePath (MsgID m) (MsgSize m) = Inr p" using messageFromPath_SomeD by blast
  from messagePath_chars(3) [OF this] obtain d where d: "hd p = digit_char d" "d < 10" by blast
  then have "digit_val (hd p) = Some d" by (simp add: digit_val_digit_char)
  with \<open>p \<in> special_files\<close> d(2) show False by (auto simp: special_files_def digit_val_def split: if_splits)
qed

text \<open>A message path is a leaf and a name, and no dot comes before the name.\<close>

definition message_name :: "u64 \<Rightarrow> u64 \<Rightarrow> string" where
  "message_name i sz = hex3 (unat i mod 1024) @ ''-s'' @ format_uint sz 10 @ ''.eml''"

lemma message_name_plain:
  "plain_elem (message_name i sz)" "CHR 0x0A \<notin> set (message_name i sz)" "CHR 0x0D \<notin> set (message_name i sz)"
  "CHR 0x00 \<notin> set (message_name i sz)"
proof -
  have c: "set (hex3 (unat i mod 1024)) \<subseteq> path_chars" "set (format_uint sz 10) \<subseteq> path_chars"
    using hex3_path [of "unat i mod 1024"] fmt_nat_path [of 10 "unat sz"] by (simp_all add: format_uint_def)
  then have "set (message_name i sz) \<subseteq> path_chars" by (auto simp: message_name_def path_chars_def)
  then show "CHR 0x0A \<notin> set (message_name i sz)" "CHR 0x0D \<notin> set (message_name i sz)"
      "CHR 0x00 \<notin> set (message_name i sz)" by (auto simp: path_chars_def)
  have "CHR ''/'' \<notin> set (message_name i sz)"
    using plain_hex3 [of "unat i mod 1024"] plain_fmt_nat [of 10 "unat sz"]
    by (auto simp: message_name_def plain_elem_def format_uint_def order_less_trans [OF mod_less_divisor])
  moreover have "4 < length (message_name i sz)" by (simp add: message_name_def)
  ultimately show "plain_elem (message_name i sz)" by (auto simp: plain_elem_def)
qed

lemma message_of_name: "MsgPath (message_of i c) = leaf_of i @ CHR ''/'' # message_name i (of_nat (length c))"
  by (simp add: message_of_def message_name_def)

lemma split_on_sep: "split_on c (a @ c # s) = split_on c a @ split_on c s"
  by (induction a) (auto split: list.splits)

lemma fmt_nat_eq: "fmt_nat 10 a = fmt_nat 10 b \<longleftrightarrow> a = b"
  by (rule fmt_nat_inj) simp_all

lemma leaf_of_elems: "split_on CHR ''/'' (leaf_of i) = leaf_elems (unat i div 1024)"
  by (simp add: leaf_of_def split_leaf_path)

lemma leaf_elems_hd: "hd (leaf_elems q) = fmt_nat 10 (length (leaf_elems q))"
  by (simp add: leaf_elems_def)

lemma split_message_path:
  "split_on CHR ''/'' (MsgPath (message_of i c)) =
     leaf_elems (unat i div 1024) @ [message_name i (of_nat (length c))]"
  using message_name_plain(1) [of i "of_nat (length c)"]
  by (simp add: message_of_name split_on_sep leaf_of_elems split_on_absent plain_elem_def)

text \<open>The first element of a path is its depth, so no message lies below another or below a file of a leaf.\<close>

lemma message_depth:
  assumes "split_on CHR ''/'' p = leaf_elems q @ [name]" "MsgPath (message_of i c) = p @ CHR ''/'' # rest"
  shows False
proof -
  have "leaf_elems (unat i div 1024) @ [message_name i (of_nat (length c))] =
      leaf_elems q @ name # split_on CHR ''/'' rest"
    using split_message_path [of i c] assms by (simp add: split_on_sep)
  moreover from arg_cong [OF this, of hd] have "length (leaf_elems (unat i div 1024)) = length (leaf_elems q)"
    by (simp add: leaf_elems_hd fmt_nat_eq)
  ultimately show False
    using append_eq_append_conv [of "leaf_elems (unat i div 1024)" "leaf_elems q"] by (metis list.inject split_on_not_Nil)
qed

lemma special_no_slash: "p \<in> special_files \<Longrightarrow> CHR ''/'' \<notin> set p \<and> p \<noteq> []"
  by (auto simp: special_files_def)

lemma message_first:
  assumes "MsgPath (message_of i c) = p @ CHR ''/'' # rest" "p \<in> special_files"
  shows False
proof -
  have "split_on CHR ''/'' p = [p]" using special_no_slash [OF assms(2)] by (simp add: split_on_absent)
  then have "leaf_elems (unat i div 1024) @ [message_name i (of_nat (length c))] = p # split_on CHR ''/'' rest"
    using split_message_path [of i c] assms(1) by (simp add: split_on_sep)
  from arg_cong [OF this, of hd] have "hd (leaf_elems (unat i div 1024)) = p" by simp
  then have "hd p = hd (fmt_nat 10 (length (leaf_elems (unat i div 1024))))" by (simp add: leaf_elems_hd)
  moreover obtain d where "d < 10" "hd (fmt_nat 10 (length (leaf_elems (unat i div 1024)))) = digit_char d"
    using set_fmt_nat [of 10 "hd (fmt_nat 10 (length (leaf_elems (unat i div 1024))))" "length (leaf_elems (unat i div 1024))"]
    by fastforce
  ultimately have "digit_val (hd p) = Some d" by (simp add: digit_val_digit_char)
  with assms(2) \<open>d < 10\<close> show False by (auto simp: special_files_def digit_val_def split: if_splits)
qed

lemma archive_file:
  assumes "archive_tree fs M" "mailbox_ok M" "fs p \<noteq> None"
  shows "p \<in> special_files \<or> (\<exists>i c. M i = Some c \<and> fs p = Some c \<and> p = MsgPath (message_of i c))"
  using assms message_file_Some [OF assms(2), of p] by (fastforce simp: archive_tree_def)

lemma archive_tree_like:
  assumes "archive_tree fs M" "mailbox_ok M"
  shows "tree_like fs"
  unfolding tree_like_def files_below_def
proof (intro allI impI conjI notI, goal_cases)
  case (1 p)
  with archive_file [OF assms 1(1)] show ?case by (auto simp: special_files_def message_of_name)
next
  case (2 p)
  then obtain rest where r: "fs (p @ CHR ''/'' # rest) \<noteq> None" by blast
  have "p @ CHR ''/'' # rest \<notin> special_files" using special_no_slash [of "p @ CHR ''/'' # rest"] by auto
  with archive_file [OF assms r] obtain i c where ic: "MsgPath (message_of i c) = p @ CHR ''/'' # rest" by metis
  from archive_file [OF assms 2(1)] show ?case
  proof (elim disjE exE conjE)
    assume "p \<in> special_files" with message_first [OF ic] show False .
  next
    fix j d assume "p = MsgPath (message_of j d)"
    with message_depth [OF _ ic] split_message_path [of j d] show False by metis
  qed
qed

lemma leaf_of_plain_path:
  "plain_path (leaf_of i)"
  "plain_path (MsgPath (message_of i c))"
proof -
  have "list_all plain_elem (leaf_elems q)" for q by (simp add: list_all_iff leaf_elems_plain)
  moreover have "CHR 0x0A \<notin> set (leaf_of i)" "CHR 0x00 \<notin> set (leaf_of i)"
    using leaf_path_chars [of "unat i div 1024"] by (auto simp: leaf_of_def path_chars_def)
  ultimately show "plain_path (leaf_of i)" "plain_path (MsgPath (message_of i c))"
    using message_name_plain [of i "of_nat (length c)"]
    by (simp_all add: plain_path_def leaf_of_elems split_message_path) (simp_all add: message_of_name)
qed

section \<open>Changes\<close>

lemma message_of_path_inj:
  "i \<noteq> 0 \<Longrightarrow> j \<noteq> 0 \<Longrightarrow> MsgPath (message_of i c) = MsgPath (message_of j d) \<Longrightarrow> i = j"
  using messageFromPath_message_of [of i c] messageFromPath_message_of [of j d]
  by (metis message_of_simps(1) sum.inject(2))

lemma archive_tree_insert:
  assumes "archive_tree fs M" "mailbox_ok M" "i \<noteq> 0" "M i = None" "length c < 18446744073709551616"
  shows "mailbox_ok (M(i \<mapsto> c))"
    and "archive_tree (fs(MsgPath (message_of i c) := Some c, ''state'' := x)) (M(i \<mapsto> c))"
proof -
  show ok: "mailbox_ok (M(i \<mapsto> c))" using assms by (simp add: mailbox_ok_def)
  show "archive_tree (fs(MsgPath (message_of i c) := Some c, ''state'' := x)) (M(i \<mapsto> c))"
    unfolding archive_tree_def
  proof (intro allI impI)
    fix p assume p: "p \<notin> special_files"
    then have s: "p \<noteq> ''state''" by (auto simp: special_files_def)
    have old: "fs p = message_file M p" using assms(1) p by (simp add: archive_tree_def)
    show "(fs(MsgPath (message_of i c) := Some c, ''state'' := x)) p = message_file (M(i \<mapsto> c)) p"
    proof (cases "p = MsgPath (message_of i c)")
      case True
      with s message_file_Some [OF ok, of p c] show ?thesis by auto
    next
      case False
      have "message_file (M(i \<mapsto> c)) p = Some d \<longleftrightarrow> message_file M p = Some d" for d
        unfolding message_file_Some [OF ok] message_file_Some [OF assms(2)]
        using False assms(4) by (metis fun_upd_other fun_upd_same option.distinct(1) option.inject)
      then have "message_file (M(i \<mapsto> c)) p = message_file M p" by (metis not_Some_eq)
      with False s old show ?thesis by simp
    qed
  qed
qed

lemma option_filter:
  assumes "\<And>d. x = Some d \<longleftrightarrow> y = Some d \<and> Q"
  shows "x = (if Q then y else None)"
proof (cases x)
  case None
  with assms show ?thesis by (metis not_Some_eq)
next
  case (Some d)
  with assms [of d] show ?thesis by simp
qed

lemma archive_tree_remove:
  assumes "archive_tree fs M" "mailbox_ok M"
    and "\<And>i. i \<in> I \<Longrightarrow> \<exists>c. M i = Some c" "P = (\<lambda>i. MsgPath (message_of i (the (M i)))) ` I"
  shows "mailbox_ok (M |` (- I))"
    and "archive_tree (\<lambda>p. if p \<in> P then None else if p = ''state'' then x else fs p) (M |` (- I))"
proof -
  show ok: "mailbox_ok (M |` (- I))" using assms(2) by (auto simp: mailbox_ok_def restrict_map_def)
  show "archive_tree (\<lambda>p. if p \<in> P then None else if p = ''state'' then x else fs p) (M |` (- I))"
    unfolding archive_tree_def
  proof (intro allI impI)
    fix p assume p: "p \<notin> special_files"
    then have s: "p \<noteq> ''state''" by (auto simp: special_files_def)
    have old: "fs p = message_file M p" using assms(1) p by (simp add: archive_tree_def)
    have nz: "M i \<noteq> None \<Longrightarrow> i \<noteq> 0" for i using assms(2) by (auto simp: mailbox_ok_def)
    have "message_file (M |` (- I)) p = Some d \<longleftrightarrow> message_file M p = Some d \<and> p \<notin> P" for d
    proof -
      have mem: "p \<in> P \<longleftrightarrow> i \<in> I" if "M i = Some d" "p = MsgPath (message_of i d)" for i
      proof
        assume "p \<in> P"
        then obtain j where j: "j \<in> I" "p = MsgPath (message_of j (the (M j)))" by (auto simp: assms(4))
        then have "i = j" using that nz [of i] nz [of j] assms(3) [of j] message_of_path_inj [of i j] by auto
        with j(1) show "i \<in> I" by simp
      next
        assume "i \<in> I"
        with that show "p \<in> P" by (force simp: assms(4))
      qed
      have "(M |` (- I)) i = Some d \<and> p = MsgPath (message_of i d) \<longleftrightarrow>
          M i = Some d \<and> p = MsgPath (message_of i d) \<and> p \<notin> P" for i
      proof (cases "M i = Some d \<and> p = MsgPath (message_of i d)")
        case True
        from mem [OF conjunct1 [OF True] conjunct2 [OF True]] True show ?thesis
          by (simp only: restrict_map_def Compl_iff simp_thms if_True if_False) simp
      next
        case False
        then show ?thesis by (cases "i \<in> I") (simp_all only: restrict_map_def Compl_iff simp_thms if_True if_False, blast+)
      qed
      then show ?thesis
        unfolding message_file_Some [OF ok] message_file_Some [OF assms(2)] by (simp only: ex_simps conj_assoc [symmetric])
    qed
    from option_filter [OF this] have "message_file (M |` (- I)) p = (if p \<in> P then None else message_file M p)" by auto
    with s old show "(if p \<in> P then None else if p = ''state'' then x else fs p) = message_file (M |` (- I)) p"
      by simp
  qed
qed

section \<open>The tree object of a leaf\<close>

text \<open>The messages of a leaf, in ID order.\<close>

definition leaf_ids :: "u64 set \<Rightarrow> string \<Rightarrow> u64 set" where
  "leaf_ids S d = {i \<in> S. leaf_of i = d}"

definition leaf_messages :: "mailbox \<Rightarrow> string \<Rightarrow> message list" where
  "leaf_messages M d = map (\<lambda>i. message_of i (the (M i))) (sorted_list_of_set (leaf_ids (dom M) d))"

lemma append_slash_eq:
  "CHR ''/'' \<notin> set x \<Longrightarrow> CHR ''/'' \<notin> set y \<Longrightarrow> a @ CHR ''/'' # x = b @ CHR ''/'' # y \<longleftrightarrow> a = b \<and> x = y"
  by (auto simp: append_eq_append_conv2 append_eq_Cons_conv Cons_eq_append_conv)

lemma leaf_file:
  assumes "archive_tree fs M" "mailbox_ok M" "CHR ''/'' \<notin> set name"
  shows "fs (leaf_of j @ CHR ''/'' # name) = Some c \<longleftrightarrow>
    (\<exists>i. M i = Some c \<and> leaf_of i = leaf_of j \<and> name = message_name i (of_nat (length c)))"
proof -
  have "leaf_of j @ CHR ''/'' # name \<notin> special_files" using special_no_slash by fastforce
  then have "fs (leaf_of j @ CHR ''/'' # name) = message_file M (leaf_of j @ CHR ''/'' # name)"
    using assms(1) by (simp add: archive_tree_def)
  then show ?thesis
    using message_name_plain(1) assms(3)
    by (auto simp: message_file_Some [OF assms(2)] message_of_name append_slash_eq plain_elem_def)
qed

lemma leaf_no_subdir:
  assumes "archive_tree fs M" "mailbox_ok M" "CHR ''/'' \<notin> set name"
  shows "\<not> files_below fs (leaf_of j @ CHR ''/'' # name)"
proof
  assume "files_below fs (leaf_of j @ CHR ''/'' # name)"
  then obtain rest where "fs ((leaf_of j @ CHR ''/'' # name) @ CHR ''/'' # rest) \<noteq> None" by (auto simp: files_below_def)
  moreover have "(leaf_of j @ CHR ''/'' # name) @ CHR ''/'' # rest \<notin> special_files" using special_no_slash by fastforce
  ultimately obtain i c where ic: "MsgPath (message_of i c) = (leaf_of j @ CHR ''/'' # name) @ CHR ''/'' # rest"
    using archive_file [OF assms(1,2)] by metis
  have "split_on CHR ''/'' (leaf_of j @ CHR ''/'' # name) = leaf_elems (unat j div 1024) @ [name]"
    using assms(3) by (simp add: split_on_sep leaf_of_elems split_on_absent)
  from message_depth [OF this ic] show False .
qed

lemma messages_of_leaf:
  assumes "archive_tree fs M" "mailbox_ok M" "tree_of_dir fs (leaf_of j) raws"
  shows "\<forall>x \<in> set raws. fst x = ''100644'' \<and>
      (\<exists>i c. M i = Some c \<and> leaf_of i = leaf_of j \<and> leaf_of j @ CHR ''/'' # raw_name x = MsgPath (message_of i c))"
    and "\<And>i c. M i = Some c \<Longrightarrow> leaf_of i = leaf_of j \<Longrightarrow> message_name i (of_nat (length c)) \<in> raw_name ` set raws"
    and "distinct (map raw_name raws)"
proof -
  show "distinct (map raw_name raws)" using assms(3) by (simp add: tree_of_dir_def)
  show "\<forall>x \<in> set raws. fst x = ''100644'' \<and>
      (\<exists>i c. M i = Some c \<and> leaf_of i = leaf_of j \<and> leaf_of j @ CHR ''/'' # raw_name x = MsgPath (message_of i c))"
  proof
    fix x assume x: "x \<in> set raws"
    obtain mode name raw where n: "x = (mode, name, raw)" by (cases x)
    with x assms(3) have t: "CHR ''/'' \<notin> set name"
        "if fs (leaf_of j @ CHR ''/'' # name) \<noteq> None then mode = ''100644''
         else mode = ''40000'' \<and> files_below fs (leaf_of j @ CHR ''/'' # name)"
      unfolding tree_of_dir_def by blast+
    from leaf_no_subdir [OF assms(1,2) t(1)] t(2) obtain c where
      c: "fs (leaf_of j @ CHR ''/'' # name) = Some c" "mode = ''100644''" by (auto split: if_splits)
    from c(1)[unfolded leaf_file [OF assms(1,2) t(1)]] c(2) n
    show "fst x = ''100644'' \<and>
      (\<exists>i c. M i = Some c \<and> leaf_of i = leaf_of j \<and> leaf_of j @ CHR ''/'' # raw_name x = MsgPath (message_of i c))"
      by (force simp: message_of_name)
  qed
  fix i c assume "M i = Some c" "leaf_of i = leaf_of j"
  then show "message_name i (of_nat (length c)) \<in> raw_name ` set raws"
    using leaf_file [OF assms(1,2), of "message_name i (of_nat (length c))" j c] message_name_plain(1)
      assms(3) unfolding tree_of_dir_def plain_elem_def by blast
qed

end
