(* ===== verification/Mailbox_Store.thy ===== *)
theory Mailbox_Store
  imports Store Archive_Tree
begin

text \<open>
  What the store promises: its state and the files of the commit that it believes to be HEAD
  describe one mailbox, and \<open>Publish\<close> adds one message to it. Every error leaves the mailbox as it
  was, or poisons the store.
\<close>

section \<open>The frame of a commit\<close>

text \<open>A commit changes nothing but the process, HEAD, the failure and the maintenance counters.\<close>

definition commit_frame :: "'g store \<Rightarrow> 'g store \<Rightarrow> bool" where
  "commit_frame s s' \<longleftrightarrow>
     s' = s\<lparr>st_git := st_git s', st_importer := st_importer s', st_importError := st_importError s',
            st_idleGeneration := st_idleGeneration s', st_idleTimer := st_idleTimer s',
            st_failure := st_failure s', st_headID := st_headID s',
            st_commitsSinceMaintenance := st_commitsSinceMaintenance s',
            st_maintenanceRequested := st_maintenanceRequested s'\<rparr>"

lemma commit_frame_refl [simp]: "commit_frame s s"
  by (simp add: commit_frame_def)

lemma commit_frame_trans [trans]: "commit_frame s t \<Longrightarrow> commit_frame t u \<Longrightarrow> commit_frame s u"
  by (cases s; cases t; cases u) (simp add: commit_frame_def)

lemma commit_frame_updates [simp]:
  "commit_frame s (s\<lparr>st_git := g\<rparr>)" "commit_frame s (s\<lparr>st_importer := p\<rparr>)"
  "commit_frame s (s\<lparr>st_importError := e\<rparr>)" "commit_frame s (s\<lparr>st_failure := f\<rparr>)"
  "commit_frame s (s\<lparr>st_headID := h\<rparr>)" "commit_frame s (s\<lparr>st_commitsSinceMaintenance := n\<rparr>)"
  "commit_frame s (s\<lparr>st_maintenanceRequested := m\<rparr>)"
  "commit_frame s (s\<lparr>st_idleGeneration := q, st_idleTimer := t\<rparr>)"
  by (simp_all add: commit_frame_def)

lemma commit_frameD:
  assumes "commit_frame s s'"
  shows "st_state s' = st_state s" "st_refName s' = st_refName s" "st_closed s' = st_closed s"
    "st_reader s' = st_reader s" "st_cache s' = st_cache s" "st_staged s' = st_staged s"
    "st_files s' = st_files s" "st_reservedBytes s' = st_reservedBytes s" "st_receipt s' = st_receipt s"
    "st_receiptFile s' = st_receiptFile s" "st_maxDailyBytes s' = st_maxDailyBytes s"
    "st_lastMaintenanceHead s' = st_lastMaintenanceHead s"
  using assms by (cases s; cases s'; simp add: commit_frame_def)+

section \<open>One commit\<close>

lemma git_soundD:
  assumes "git_sound G view"
  shows "repo_ok (view g)" "answers_sound (view g) (gi_ask G g)" "gi_catStart G g = Some e \<Longrightarrow> os_error e"
    and "git_imports G view" "git_lines G" "git_keeps G view"
  using assms by (simp_all add: git_sound_def)

lemma git_keepsD:
  assumes "git_keeps G view"
  shows "repo_extends (view g) (view (snd (gi_head G g)))"
    "repo_extends (view g) (view (snd (gi_start G g)))"
    "repo_extends (view g) (view (snd (gi_send G req g)))"
    "repo_extends (view g) (view (snd (gi_close G g)))"
    "repo_extends (view g) (view (gi_kill G g))"
    "repo_extends (view g) (view (snd (gi_watch G g)))"
    "repo_extends (view g) (view (gi_tick G g))"
  using assms unfolding git_keeps_def by blast+

lemma git_importsD:
  assumes "git_imports G view" "gi_send G request g = (Inr ans1, g1)"
    and "read_stream request = Some [ImportCommit ref mark who title parent changes, ImportBlank, ImportGetMark mark]"
    and "case parent of None \<Rightarrow> base = (\<lambda>_. None) | Some c \<Rightarrow> rp_commit (view g) c = Some base"
    and "tree_like (apply_changes changes base)" "git_line ans1 = (Inr name, rest)"
    and "gi_send G chk g1 = (Inr ans2, g2)" "read_stream chk = Some [ImportCheckpoint, ImportProgress name]"
    and "gi_head G g2 = (Inr out, g3)" "trim_space out = name"
  shows "rp_commit (view g3) name = Some (apply_changes changes base)"
  using assms unfolding git_imports_def by blast

text \<open>The steps of a commit, each with what it keeps.\<close>

definition commit_step :: "('g \<Rightarrow> repo) \<Rightarrow> 'g store \<Rightarrow> 'g store \<Rightarrow> bool" where
  "commit_step view s s' \<longleftrightarrow> commit_frame s s' \<and> repo_extends (view (st_git s)) (view (st_git s'))"

lemma commit_step_refl [simp]: "commit_step view s s"
  by (simp add: commit_step_def)

lemma commit_step_trans [trans]: "commit_step view s t \<Longrightarrow> commit_step view t u \<Longrightarrow> commit_step view s u"
  unfolding commit_step_def by (blast intro: commit_frame_trans repo_extends_trans)

lemma git_head_step:
  assumes "git_sound G view" "git_head G s = (r, s')"
  shows "commit_step view s s' \<and> st_headID s' = st_headID s \<and> st_importer s' = st_importer s \<and>
    st_failure s' = st_failure s"
  using assms(2) git_keepsD(1) [OF git_soundD(6) [OF assms(1)], of "st_git s"]
  by (auto simp: git_head_def commit_step_def split: prod.splits)

definition importer_idle :: "'g store \<Rightarrow> bool" where
  "importer_idle s \<longleftrightarrow> (\<forall>p. st_importer s = Some p \<longrightarrow> fst (im_out p) = [])"

lemma importerLocked_step:
  assumes "git_sound G view" "importer_idle s" "importerLocked G s = (r, s')"
  shows "commit_step view s s' \<and> st_headID s' = st_headID s \<and> st_failure s' = st_failure s \<and> importer_idle s' \<and>
    (\<forall>p. r = Inr p \<longrightarrow> st_importer s' = Some p \<and> fst (im_out p) = [])"
proof -
  let ?t = "s\<lparr>st_idleGeneration := st_idleGeneration s + 1, st_idleTimer := None\<rparr>"
  obtain e g where st: "gi_start G (st_git s) = (e, g)" by fastforce
  have ext: "repo_extends (view (st_git s)) (view g)"
    using git_keepsD(2) [OF git_soundD(6) [OF assms(1)], of "st_git s"] st by simp
  have t: "commit_frame s (?t\<lparr>st_git := g\<rparr>)" "commit_frame s (?t\<lparr>st_git := g, st_importer := p\<rparr>)" "commit_frame s ?t" for p
    by (simp_all add: commit_frame_def)
  show ?thesis
    using assms(2,3) st ext t
    by (auto simp: importerLocked_def commit_step_def importer_idle_def Let_def split: if_splits option.splits)
qed

lemma armIdleLocked_step:
  "commit_step view s (armIdleLocked s) \<and> st_headID (armIdleLocked s) = st_headID s \<and>
   st_failure (armIdleLocked s) = st_failure s \<and> st_importer (armIdleLocked s) = st_importer s \<and>
   st_git (armIdleLocked s) = st_git s"
  by (simp add: armIdleLocked_def commit_step_def)

lemma import_exchange_step:
  assumes "git_sound G view" "import_exchange G request s = (r, s')"
    and "st_importer s = Some p" "fst (im_out p) = []"
  shows "commit_step view s s' \<and> st_headID s' = st_headID s \<and> st_failure s' = st_failure s \<and>
    (\<forall>line. r = Inr line \<longrightarrow> (\<exists>ans out. gi_send G request (st_git s) = (Inr ans, st_git s') \<and>
       git_line ans = (Inr line, out) \<and> st_importer s' = Some (p\<lparr>im_out := out\<rparr>)))"
proof -
  obtain a g where snd: "gi_send G request (st_git s) = (a, g)" by fastforce
  have "repo_extends (view (st_git s)) (view g)"
    using git_keepsD(3) [OF git_soundD(6) [OF assms(1)], of "st_git s" request] snd by simp
  moreover have "commit_frame s (s\<lparr>st_git := g, st_importer := q\<rparr>)" for q by (simp add: commit_frame_def)
  ultimately show ?thesis
    using assms(2-4) snd
    by (auto simp: import_exchange_def commit_step_def Let_def split: sum.splits prod.splits)
qed

text \<open>The order of a map's entries is Go's choice; every entry is visited once.\<close>

definition order_ok :: "commit_env \<Rightarrow> bool" where
  "order_ok env \<longleftrightarrow> (\<forall>xs. distinct (map fst xs) \<longrightarrow>
     distinct (map fst (ce_order env xs)) \<and> set (ce_order env xs) = set xs)"

definition state_text :: "mailboxState \<Rightarrow> string" where
  "state_text st = json_state st @ [CHR 0x0A]"

text \<open>The files of the new commit, whatever the order.\<close>

definition commit_files ::
  "mailboxState \<Rightarrow> (string \<times> string option) list \<Rightarrow> string list \<Rightarrow> tree_files \<Rightarrow> tree_files" where
  "commit_files st changes removals base p =
     (if p \<in> set removals then None
      else case map_of (AList.update mailboxStateName (Some (state_text st)) changes) p of
             Some c \<Rightarrow> c
           | None \<Rightarrow> base p)"

lemma apply_changes_append: "apply_changes (xs @ ys) fs = apply_changes ys (apply_changes xs fs)"
  by (simp add: apply_changes_def)

lemma apply_modifies:
  "distinct (map fst xs) \<Longrightarrow> \<forall>x \<in> set xs. snd x \<noteq> None \<Longrightarrow>
   apply_changes (map (\<lambda>(p, c). FileModify p (the c)) xs) fs p = (case map_of xs p of Some c \<Rightarrow> c | None \<Rightarrow> fs p)"
proof (induction xs arbitrary: fs)
  case (Cons x xs)
  obtain q c where x: "x = (q, c)" by (cases x)
  with Cons.prems(2) obtain d where d: "c = Some d" by auto
  have IH: "apply_changes (map (\<lambda>(p, c). FileModify p (the c)) xs) gs p = (case map_of xs p of Some c \<Rightarrow> c | None \<Rightarrow> gs p)" for gs
    using Cons by (intro Cons.IH) auto
  have "apply_changes (map (\<lambda>(p, c). FileModify p (the c)) (x # xs)) fs p =
      apply_changes (map (\<lambda>(p, c). FileModify p (the c)) xs) (fs(q := Some d)) p"
    by (simp add: apply_changes_def x d)
  also have "\<dots> = (case map_of xs p of Some c \<Rightarrow> c | None \<Rightarrow> (fs(q := Some d)) p)" by (rule IH)
  also have "\<dots> = (case map_of (x # xs) p of Some c \<Rightarrow> c | None \<Rightarrow> fs p)"
    using Cons.prems(1) by (auto simp: x d split: option.splits dest: map_of_SomeD intro: rev_image_eqI)
  finally show ?case .
qed (simp add: apply_changes_def)

lemma apply_deletes: "apply_changes (map FileDelete ps) fs p = (if p \<in> set ps then None else fs p)"
  by (induction ps arbitrary: fs) (auto simp: apply_changes_def)

lemma update_contents:
  "\<forall>x \<in> set xs. snd x \<noteq> None \<Longrightarrow> \<forall>x \<in> set (AList.update k (Some v) xs). snd x \<noteq> None"
  by (induction xs) auto

lemma resolved_contents:
  "list_all2 (resolved legacy) xs cs \<Longrightarrow> \<forall>x \<in> set xs. snd x \<noteq> None \<Longrightarrow>
     cs = map (\<lambda>(p, c). FileModify p (the c)) xs"
  by (induction xs cs rule: list_all2_induct) (auto simp: resolved_def split: option.splits)

lemma ordered_changes:
  assumes "order_ok env" "distinct (map fst xs)" "\<forall>x \<in> set xs. snd x \<noteq> None"
  shows "apply_changes (map (\<lambda>(p, c). FileModify p (the c)) (ce_order env xs) @ map FileDelete ps) fs p =
    (if p \<in> set ps then None else case map_of xs p of Some c \<Rightarrow> c | None \<Rightarrow> fs p)"
proof -
  let ?ys = "ce_order env xs"
  have ys: "distinct (map fst ?ys)" "set ?ys = set xs" using assms(1,2) by (simp_all add: order_ok_def)
  have "map_of ?ys = map_of xs" using ys assms(2) by (intro map_of_eqI) (auto simp: map_of_eq_Some_iff)
  then show ?thesis
    using apply_modifies [of ?ys fs p] ys assms(3) by (simp add: apply_changes_append apply_deletes)
qed

text \<open>
  The whole exchange: when it reports no error, HEAD is a commit with exactly the intended files;
  when it does, the believed HEAD has not moved.
\<close>

lemma importCommitLocked_spec:
  assumes "git_sound G view" "importCommitLocked G env title st changes removals p s = (err, s')"
    and "fst (im_out p) = []" "order_ok env" "CHR 0x0A \<notin> set (st_refName s)" "validObjectID (st_headID s)"
    and "distinct (map fst changes)" "\<forall>x \<in> set changes. snd x \<noteq> None"
    and "rp_commit (view (st_git s)) (st_headID s) = Some base"
    and "tree_like (commit_files st changes removals base)"
  shows "commit_step view s s' \<and> st_failure s' = st_failure s \<and>
    (err = None \<longrightarrow> importer_idle s' \<and> validObjectID (st_headID s') \<and>
       rp_commit (view (st_git s')) (st_headID s') = Some (commit_files st changes removals base)) \<and>
    (err \<noteq> None \<longrightarrow> st_headID s' = st_headID s)"
proof -
  let ?xs = "AList.update mailboxStateName (Some (state_text st)) changes"
  let ?p = "p\<lparr>im_nextMark := im_nextMark p + 1\<rparr>"
  let ?t = "s\<lparr>st_importer := Some ?p\<rparr>"
  let ?req = "commit_request (st_refName s) (unat (im_nextMark ?p)) (ce_clock env) title (st_headID s)
                (ce_legacy env) (ce_order env ?xs) removals"
  have t: "commit_step view s ?t" by (simp add: commit_step_def)
  have xs: "distinct (map fst ?xs)" "\<forall>x \<in> set ?xs. snd x \<noteq> None"
    using assms(7,8) by (simp_all add: distinct_update update_contents)
  have ne: "st_headID s \<noteq> []" "CHR 0x0A \<notin> set (st_headID s)"
    using assms(6) validObjectID_no_LF by (auto simp: validObjectID_def)
  note def = assms(2) [unfolded importCommitLocked_def Let_def, folded state_text_def]
  show ?thesis
  proof (cases ?req)
    case (Inl e)
    with def t show ?thesis by auto
  next
    case (Inr request)
    obtain r1 s1 where x1: "import_exchange G request ?t = (r1, s1)" by fastforce
    have i1: "st_importer ?t = Some ?p" "fst (im_out ?p) = []" using assms(3) by simp_all
    note e1 = import_exchange_step [OF assms(1) x1 i1]
    have s1: "commit_step view s s1" using e1 t commit_step_trans by blast
    have h1: "st_headID s1 = st_headID s" "st_failure s1 = st_failure s" using e1 by simp_all
    from read_commit_request [OF Inr assms(5) ne(2)] obtain cs where
      cs: "list_all2 (resolved (ce_legacy env)) (ce_order env ?xs) cs" and
      rd: "read_stream request = Some
        [ImportCommit (st_refName s) (fmt_nat 10 (unat (im_nextMark ?p))) (committer_line (ce_clock env)) title
           (Some (st_headID s)) (cs @ map FileDelete removals), ImportBlank,
         ImportGetMark (fmt_nat 10 (unat (im_nextMark ?p)))]"
      using ne(1) by auto
    have ys: "\<forall>x \<in> set (ce_order env ?xs). snd x \<noteq> None"
      using xs assms(4) by (simp add: order_ok_def)
    have cs': "cs = map (\<lambda>(q, c). FileModify q (the c)) (ce_order env ?xs)" using resolved_contents [OF cs ys] .
    have files: "apply_changes (cs @ map FileDelete removals) base = commit_files st changes removals base"
    proof
      fix q
      show "apply_changes (cs @ map FileDelete removals) base q = commit_files st changes removals base q"
        unfolding cs' by (subst ordered_changes [OF assms(4) xs]) (simp_all add: commit_files_def)
    qed
    show ?thesis
    proof (cases r1)
      case (Inl e)
      with def Inr x1 s1 h1 show ?thesis by auto
    next
      case r1: (Inr nid)
      from e1 r1 obtain ans1 out1 where a1: "gi_send G request (st_git ?t) = (Inr ans1, st_git s1)"
          "git_line ans1 = (Inr nid, out1)" "st_importer s1 = Some (?p\<lparr>im_out := out1\<rparr>)" by blast
      have "fst out1 = []"
        using git_soundD(5) [OF assms(1)] a1(1,2) rd unfolding git_lines_def by blast
      then have i2: "fst (im_out (?p\<lparr>im_out := out1\<rparr>)) = []" by simp
      show ?thesis
      proof (cases "validObjectID nid")
        case False
        with def Inr x1 r1 s1 h1 show ?thesis by auto
      next
        case valid: True
        obtain r2 s2 where x2: "import_exchange G (checkpoint_request nid) s1 = (r2, s2)" by fastforce
        note e2 = import_exchange_step [OF assms(1) x2 a1(3) i2]
        have s2: "commit_step view s s2" using e2 s1 commit_step_trans by blast
        have h2: "st_headID s2 = st_headID s" "st_failure s2 = st_failure s" using e2 h1 by simp_all
        show ?thesis
        proof (cases r2)
          case (Inl e)
          with def Inr x1 r1 valid x2 s2 h2 show ?thesis by auto
        next
          case r2: (Inr progress)
          from e2 r2 obtain ans2 out2 where a2: "gi_send G (checkpoint_request nid) (st_git s1) = (Inr ans2, st_git s2)"
              "git_line ans2 = (Inr progress, out2)" "st_importer s2 = Some (?p\<lparr>im_out := out2\<rparr>)" by auto
          have rd2: "read_stream (checkpoint_request nid) = Some [ImportCheckpoint, ImportProgress nid]"
            by (rule read_checkpoint_request [OF valid])
          have o2: "fst out2 = []"
            using git_soundD(5) [OF assms(1)] a2(1,2) rd2 unfolding git_lines_def by blast
          obtain r3 s3 where x3: "git_head G s2 = (r3, s3)" by fastforce
          note e3 = git_head_step [OF assms(1) x3]
          have s3: "commit_step view s s3" using e3 s2 commit_step_trans by blast
          have h3: "st_headID s3 = st_headID s" "st_failure s3 = st_failure s" using e3 h2 by simp_all
          show ?thesis
          proof (cases "progress = ''progress '' @ nid \<and> r3 = Inr nid")
            case False
            then have "err \<noteq> None \<and> (s' = s2 \<or> s' = s3)"
              using def Inr x1 r1 valid x2 r2 x3 by (auto split: if_splits sum.splits)
            with s2 s3 h2 h3 show ?thesis by auto
          next
            case True
            then have s': "err = None" "s' = s3\<lparr>st_headID := nid\<rparr>"
              using def Inr x1 r1 valid x2 r2 x3 by auto
            from x3 True obtain out where hd: "gi_head G (st_git s2) = (Inr out, st_git s3)" "trim_space out = nid"
              by (auto simp: git_head_def split: prod.splits sum.splits) (metis map_sum.simps old.sum.exhaust sum.distinct(1) sum.inject(2))
            have "rp_commit (view (st_git s3)) nid = Some (apply_changes (cs @ map FileDelete removals) base)"
              using git_importsD [OF git_soundD(4) [OF assms(1)] a1(1) rd _ _ a1(2) a2(1) rd2 hd]
                assms(9,10) files by simp
            then have "rp_commit (view (st_git s')) (st_headID s') = Some (commit_files st changes removals base)"
              by (simp add: s' files)
            moreover have "importer_idle s'" using a2(3) o2 e3 by (simp add: s' importer_idle_def)
            moreover have "commit_step view s s'"
              using s3 commit_step_trans [of view s s3 s'] by (simp add: s' commit_step_def)
            ultimately show ?thesis using s' valid h3 by simp
          qed
        qed
      qed
    qed
  qed
qed

lemma abortImporterLocked_step:
  assumes "git_sound G view" "abortImporterLocked G cause s = (e, s')"
  shows "commit_step view s s' \<and> st_headID s' = st_headID s \<and> st_failure s' = st_failure s \<and> st_importer s' = None"
proof -
  have "repo_extends (view (st_git s)) (view (gi_kill G (st_git s)))"
    by (rule git_keepsD(5) [OF git_soundD(6) [OF assms(1)]])
  moreover have "commit_frame s (s\<lparr>st_git := g, st_importer := p, st_importError := f\<rparr>)" for g p f
    by (simp add: commit_frame_def)
  moreover have "commit_frame s (s\<lparr>st_importError := f\<rparr>)" for f by simp
  ultimately show ?thesis
    using assms(2) by (auto simp: abortImporterLocked_def commit_step_def Let_def split: option.splits)
qed

lemma watched_step:
  assumes "git_sound G view" "watched G (err, s) = (err', s')"
  shows "commit_step view s s' \<and> st_headID s' = st_headID s \<and> st_failure s' = st_failure s \<and>
    st_importer s' = st_importer s \<and> (err' = None \<longrightarrow> err = None)"
  using assms(2) git_keepsD(6) [OF git_soundD(6) [OF assms(1)], of "st_git s"]
  by (auto simp: watched_def commit_step_def split: prod.splits option.splits)

lemma countCommit_step:
  "commit_step view s (countCommit s) \<and> st_headID (countCommit s) = st_headID s \<and>
   st_failure (countCommit s) = st_failure s \<and> st_importer (countCommit s) = st_importer s"
  by (simp add: countCommit_def commit_step_def Let_def) (simp add: commit_frame_def)

lemma commit_stepD:
  assumes "commit_step view s s'"
  shows "commit_frame s s'" "repo_extends (view (st_git s)) (view (st_git s'))"
    and "rp_commit (view (st_git s)) h = Some fs \<Longrightarrow> rp_commit (view (st_git s')) h = Some fs"
  using assms by (auto simp: commit_step_def repo_extends_def)

text \<open>What a commit attempt may do to HEAD: nothing, or exactly the intended commit.\<close>

definition committed :: "('g \<Rightarrow> repo) \<Rightarrow> tree_files \<Rightarrow> 'g store \<Rightarrow> bool" where
  "committed view fs s \<longleftrightarrow> validObjectID (st_headID s) \<and> rp_commit (view (st_git s)) (st_headID s) = Some fs"

lemma committed_step:
  "committed view fs s \<Longrightarrow> commit_step view s s' \<Longrightarrow> st_headID s' = st_headID s \<Longrightarrow> committed view fs s'"
  using commit_stepD(3) by (fastforce simp: committed_def)

lemma commitChanges_spec:
  assumes "git_sound G view" "commitChanges G env title st changes removals s = (err, s')"
    and "importer_idle s" "order_ok env" "CHR 0x0A \<notin> set (st_refName s)" "committed view base s"
    and "distinct (map fst changes)" "\<forall>x \<in> set changes. snd x \<noteq> None"
    and "tree_like (commit_files st changes removals base)"
  shows "commit_step view s s' \<and> importer_idle s' \<and>
    (case err of
       None \<Rightarrow> st_failure s = None \<and> st_failure s' = None \<and>
               committed view (commit_files st changes removals base) s'
     | Some e \<Rightarrow> (st_headID s' = st_headID s \<and> (st_failure s \<noteq> None \<longrightarrow> s' = s)) \<or>
               (st_failure s' = Some e \<and> committed view (commit_files st changes removals base) s'))"
proof (cases "st_failure s")
  case (Some e)
  with assms(2) have "err = Some e" "s' = s" by (simp_all add: commitChanges_def)
  with assms(3) show ?thesis by simp
next
  case None
  note def = assms(2) [unfolded commitChanges_def None option.case]
  let ?fs = "commit_files st changes removals base"
  show ?thesis
  proof (cases "buildDirectoryIndex (mb_Directories st) (mb_LastID st)")
    case (Inl e)
    with def assms(3) None show ?thesis by auto
  next
    case (Inr idx)
    obtain cur s1 where x1: "git_head G s = (cur, s1)" by fastforce
    note e1 = git_head_step [OF assms(1) x1]
    have idle1: "importer_idle s1" using assms(3) e1 by (simp add: importer_idle_def)
    let ?stale = "case cur of Inl _ \<Rightarrow> st_headID s1 \<noteq> [] | Inr h \<Rightarrow> h \<noteq> st_headID s1"
    show ?thesis
    proof (cases ?stale)
      case True
      then have "err \<noteq> None \<and> s' = armIdleLocked s1" using def Inr x1 by auto
      with armIdleLocked_step [of view s1] e1 idle1 None show ?thesis
        by (auto simp: importer_idle_def intro: commit_step_trans)
    next
      case False
      obtain ip s2 where x2: "importerLocked G s1 = (ip, s2)" by fastforce
      note e2 = importerLocked_step [OF assms(1) idle1 x2]
      have s2: "commit_step view s s2" using e1 e2 commit_step_trans by blast
      show ?thesis
      proof (cases ip)
        case (Inl e)
        then have "err \<noteq> None \<and> s' = armIdleLocked s2" using def Inr x1 False x2 by auto
        with armIdleLocked_step [of view s2] e1 e2 s2 None show ?thesis
          by (auto simp: importer_idle_def intro: commit_step_trans)
      next
        case ip: (Inr p)
        have c2: "committed view base s2" using committed_step [OF assms(6) s2] e1 e2 by simp
        have ref: "CHR 0x0A \<notin> set (st_refName s2)" using commit_frameD(2) [OF commit_stepD(1) [OF s2]] assms(5) by simp
        obtain ie s3 where x3: "importCommitLocked G env title st changes removals p s2 = (ie, s3)" by fastforce
        have "fst (im_out p) = []" using e2 ip by simp
        from importCommitLocked_spec [OF assms(1) x3 this assms(4) ref _ assms(7,8) _ assms(9)] c2
        have e3: "commit_step view s2 s3" "st_failure s3 = st_failure s2"
            "ie = None \<longrightarrow> importer_idle s3 \<and> committed view ?fs s3" "ie \<noteq> None \<longrightarrow> st_headID s3 = st_headID s2"
          by (auto simp: committed_def)
        obtain we s4 where x4: "watched G (ie, s3) = (we, s4)" by fastforce
        note e4 = watched_step [OF assms(1) x4]
        have s4: "commit_step view s s4" using s2 e3(1) e4 commit_step_trans by blast
        have f4: "st_failure s4 = None" using e1 e2 e3(2) e4 None by simp
        show ?thesis
        proof (cases we)
          case we: None
          then have c4: "committed view ?fs s4" "importer_idle s4"
            using e4 e3(3) committed_step [of view ?fs s3 s4] by (auto simp: importer_idle_def)
          have out: "err = None" "s' = armIdleLocked (countCommit s4)"
            using def Inr x1 False x2 ip x3 x4 we by auto
          have s': "commit_step view s4 s'"
            using countCommit_step [of view s4] armIdleLocked_step [of view "countCommit s4"] commit_step_trans out(2) by blast
          have f: "st_headID s' = st_headID s4" "st_failure s' = None" "st_importer s' = st_importer s4"
            using countCommit_step [of view s4] armIdleLocked_step [of view "countCommit s4"] f4 by (simp_all add: out(2))
          have "importer_idle s'" "committed view ?fs s'"
            using c4 f committed_step [OF c4(1) s'] by (simp_all add: importer_idle_def)
          then show ?thesis using commit_step_trans [OF s4 s'] out(1) f(2) None by simp
        next
          case (Some e)
          obtain e5 s5 where x5: "abortImporterLocked G e s4 = (e5, s5)" by fastforce
          note a5 = abortImporterLocked_step [OF assms(1) x5]
          have out: "err = Some e5" "s' = armIdleLocked (s5\<lparr>st_failure := Some e5\<rparr>)"
            using def Inr x1 False x2 ip x3 x4 Some x5 by auto
          have "commit_frame s5 (s5\<lparr>st_failure := Some e5\<rparr>)" by simp
          then have "commit_step view s5 (s5\<lparr>st_failure := Some e5\<rparr>)" by (simp add: commit_step_def)
          then have s': "commit_step view s4 s'"
            using a5 armIdleLocked_step [of view "s5\<lparr>st_failure := Some e5\<rparr>"] commit_step_trans out(2) by metis
          have f: "st_headID s' = st_headID s4" "st_failure s' = Some e5" "st_importer s' = None"
            using armIdleLocked_step [of view "s5\<lparr>st_failure := Some e5\<rparr>"] a5 by (simp_all add: out(2))
          have "st_headID s' = st_headID s \<or> committed view ?fs s'"
            using e1 e2 e3(3,4) e4 f(1) committed_step [of view ?fs s3 s4] committed_step [OF _ s', of ?fs]
            by (cases ie) auto
          then show ?thesis
            using out(1) f s4 s' None commit_step_trans [of view s s4 s'] by (auto simp: importer_idle_def)
        qed
      qed
    qed
  qed
qed

section \<open>The mailbox that a store holds\<close>

definition mailbox_octets :: "mailbox \<Rightarrow> nat" where
  "mailbox_octets M = (\<Sum>i \<in> dom M. length (the (M i)))"

definition state_ok :: "mailboxState \<Rightarrow> mailbox \<Rightarrow> bool" where
  "state_ok st M \<longleftrightarrow>
     mb_Version st = mailboxStateVersion \<and> mb_DailyReceipt st = None \<and>
     (\<forall>i \<in> dom M. i \<le> mb_LastID st) \<and> unat (mb_TotalOctets st) = mailbox_octets M \<and>
     counts_represent (mb_Directories st) (dom M) \<and> mb_index st = Some (index_of_set (dom M))"

text \<open>
  A store that has failed may believe in a commit that its state does not describe yet: the
  operation was interrupted after HEAD had moved. Nothing is published after that.
\<close>

definition store_holds :: "('g \<Rightarrow> repo) \<Rightarrow> 'g store \<Rightarrow> mailbox \<Rightarrow> bool" where
  "store_holds view s M \<longleftrightarrow> mailbox_ok M \<and>
     (\<exists>fs. committed view fs s \<and> archive_tree fs M \<and>
        (st_failure s = None \<longrightarrow> state_ok (st_state s) M \<and> fs mailboxStateName = Some (state_text (st_state s))))"

lemma mailbox_unique:
  assumes "mailbox_ok M" "mailbox_ok N" "archive_tree fs M" "archive_tree fs N"
  shows "M = N"
proof -
  have sub: "N i = Some c" if prem: "mailbox_ok M" "mailbox_ok N" "archive_tree fs M" "archive_tree fs N" "M i = Some c"
    for M N i c
  proof -
    have i: "i \<noteq> 0" using prem(1,5) by (auto simp: mailbox_ok_def)
    let ?p = "MsgPath (message_of i c)"
    have p: "?p \<notin> special_files" using message_path_not_special messageFromPath_message_of [OF i] by blast
    have "message_file M ?p = Some c" using message_file_Some [OF prem(1)] prem(5) by blast
    then have "message_file N ?p = Some c" using prem(3,4) p by (simp add: archive_tree_def)
    then obtain j where j: "N j = Some c" "?p = MsgPath (message_of j c)" using message_file_Some [OF prem(2)] by blast
    moreover have "j \<noteq> 0" using j(1) prem(2) by (auto simp: mailbox_ok_def)
    ultimately show ?thesis using message_of_path_inj [OF i] by blast
  qed
  show ?thesis
  proof
    fix i
    show "M i = N i"
    proof (cases "M i")
      case (Some c)
      with sub [OF assms Some] show ?thesis by simp
    next
      case None
      have "N i \<noteq> Some c" for c using sub [OF assms(2,1,4,3), of i c] None by auto
      then have "N i = None" by (metis not_Some_eq)
      with None show ?thesis by simp
    qed
  qed
qed

lemma card_ids: "(\<forall>i \<in> S. i \<noteq> 0 \<and> i \<le> n) \<Longrightarrow> card (S :: u64 set) \<le> unat n"
proof -
  assume a: "\<forall>i \<in> S. i \<noteq> 0 \<and> i \<le> n"
  then have "unat ` S \<subseteq> {1..unat n}" by (auto simp: u64_le Suc_le_eq unat_gt_0)
  then have "card (unat ` S) \<le> unat n" using card_mono [of "{1..unat n}" "unat ` S"] by simp
  moreover have "card (unat ` S) = card S" by (intro card_image inj_onI) (simp add: u64_eq_iff)
  ultimately show ?thesis by simp
qed

lemma next_id_fresh:
  assumes "state_ok st M" "mb_LastID st \<noteq> - 1"
  shows "mb_LastID st + 1 \<noteq> 0" "M (mb_LastID st + 1) = None" "unat (mb_LastID st + 1) = Suc (unat (mb_LastID st))"
proof -
  show n: "unat (mb_LastID st + 1) = Suc (unat (mb_LastID st))" by (rule unat_suc_u64 [OF assms(2)])
  then show "mb_LastID st + 1 \<noteq> 0" by (metis nat.simps(3) unat_0)
  show "M (mb_LastID st + 1) = None"
  proof (rule ccontr)
    assume "M (mb_LastID st + 1) \<noteq> None"
    then have "mb_LastID st + 1 \<le> mb_LastID st" using assms(1) by (auto simp: state_ok_def)
    then show False using n by (simp add: u64_le)
  qed
qed

lemma publish_next_ok:
  assumes "publish_next (of_nat (length c)) st = Inr (nid, path, st')"
    and "state_ok st M" "mailbox_ok M" "length c < 18446744073709551616"
  shows "nid = mb_LastID st + 1 \<and> nid \<noteq> 0 \<and> M nid = None \<and> path = MsgPath (message_of nid c) \<and>
    mb_LastID st' = nid \<and> state_ok st' (M(nid \<mapsto> c))"
proof -
  let ?n = "mb_LastID st + 1" and ?sz = "of_nat (length c) :: u64"
  from assms(1) have ne: "mb_LastID st \<noteq> - 1" by (auto simp: publish_next_def split: if_splits)
  note fresh = next_id_fresh [OF assms(2) ne]
  have p: "messagePath ?n ?sz = Inr (MsgPath (message_of ?n c))" by (rule message_of_path [OF fresh(1)])
  then have d: "path_dir (MsgPath (message_of ?n c)) = leaf_of ?n" by (rule path_dir_message)
  have z: "0 \<notin> dom M" using assms(3) by (auto simp: mailbox_ok_def)
  have rep: "counts_represent (mb_Directories st) (dom M)" using assms(2) by (simp add: state_ok_def)
  from counts_add_represent [OF rep z _ fresh(1)] fresh(2) obtain counts where
    counts: "counts_add (mb_Directories st) (leaf_of ?n) = Inr counts" "counts_represent counts (insert ?n (dom M))" by auto
  have "\<forall>i \<in> insert ?n (dom M). i \<noteq> 0 \<and> i \<le> ?n"
    using fresh assms(2) z by (auto simp: state_ok_def u64_le) (metis domI le_SucI z)
  then have "card (insert ?n (dom M)) \<le> unat ?n" by (rule card_ids)
  from buildDirectoryIndex_represent [OF counts(2) _ this] fresh(1) z have
    idx: "buildDirectoryIndex counts ?n = Inr (index_of_set (insert ?n (dom M)))" by simp
  have fit: "\<not> - 1 - mb_TotalOctets st < ?sz" and st': "nid = ?n" "path = MsgPath (message_of ?n c)"
      "st' = \<lparr>mb_Version = mailboxStateVersion, mb_LastID = ?n, mb_TotalOctets = mb_TotalOctets st + ?sz,
         mb_Directories = counts, mb_DailyReceipt = None, mb_index = Some (index_of_set (insert ?n (dom M)))\<rparr>"
    using assms(1) ne p d counts(1) idx by (auto simp: publish_next_def Let_def split: if_splits)
  have sz: "unat ?sz = length c" using assms(4) by (rule unat_of_nat_u64)
  have "unat (- 1 - mb_TotalOctets st) = 18446744073709551615 - unat (mb_TotalOctets st)"
    by (subst unat_sub_u64) (simp_all add: u64_le)
  moreover have "unat ?sz \<le> unat (- 1 - mb_TotalOctets st)" using fit by (simp only: u64_less not_less)
  ultimately have "unat (mb_TotalOctets st) + length c < 18446744073709551616"
    using sz unat_le_64 [of "mb_TotalOctets st"] by linarith
  then have "unat (mb_TotalOctets st + ?sz) = unat (mb_TotalOctets st) + length c" by (simp add: unat_add_u64 sz)
  moreover have "mailbox_octets (M(?n \<mapsto> c)) = length c + mailbox_octets M"
  proof -
    have "(\<Sum>i \<in> dom M. length (the ((M(?n \<mapsto> c)) i))) = (\<Sum>i \<in> dom M. length (the (M i)))"
      using fresh(2) by (intro sum.cong) auto
    moreover have "finite (dom M)" "?n \<notin> dom M" using fresh(2) by auto
    ultimately show ?thesis by (simp add: mailbox_octets_def)
  qed
  moreover have "\<forall>i \<in> dom (M(?n \<mapsto> c)). i \<le> ?n"
    using assms(2) fresh(3) by (auto simp: state_ok_def u64_le) (metis domI le_SucI)
  ultimately show ?thesis
    using assms(2) fresh counts(2) by (simp add: st' state_ok_def)
qed

section \<open>Publishing\<close>

text \<open>A staged message that is complete: its file holds \<open>c\<close> and its size is the length of \<open>c\<close>.\<close>

definition staged_ready :: "nat \<Rightarrow> string \<Rightarrow> ('a :: type) spool_scheme \<Rightarrow> bool" where
  "staged_ready i c s \<longleftrightarrow> i < length (st_staged s) \<and> sm_path (st_staged s ! i) \<noteq> [] \<and>
     st_files s (sm_path (st_staged s ! i)) = Some c \<and> sm_size (st_staged s ! i) = of_nat (length c) \<and>
     length c < 18446744073709551616"

text \<open>The charge touches only the spool.\<close>

definition spool_frame :: "'g store \<Rightarrow> 'g store \<Rightarrow> bool" where
  "spool_frame s s' \<longleftrightarrow> s' = s\<lparr>st_receipt := st_receipt s', st_receiptFile := st_receiptFile s',
     st_reservedBytes := st_reservedBytes s', st_failure := st_failure s', st_staged := st_staged s', st_files := st_files s'\<rparr>"

lemma spool_frameD:
  assumes "spool_frame s s'"
  shows "st_state s' = st_state s" "st_headID s' = st_headID s" "st_refName s' = st_refName s" "st_git s' = st_git s"
    "st_importer s' = st_importer s" "st_reader s' = st_reader s" "st_cache s' = st_cache s" "st_closed s' = st_closed s"
  using assms by (cases s; cases s'; simp add: spool_frame_def)+

lemma discardLocked_frame: "spool_frame s (discardLocked i s)"
  by (simp add: spool_frame_def discardLocked_def removeFile_def Let_def)

lemma spool_frame_trans: "spool_frame s t \<Longrightarrow> spool_frame t u \<Longrightarrow> spool_frame s u"
  by (cases s; cases t; cases u) (simp add: spool_frame_def)

lemma publish_charge_frame:
  assumes "publish_charge day io i s = (r, s')"
  shows "spool_frame s s' \<and> (r = Inr () \<longrightarrow> st_failure s' = st_failure s) \<and> (\<forall>e. r = Inl e \<longrightarrow> st_failure s' = Some e)"
proof -
  obtain e t where w: "writeReceipt io \<lparr>dr_Day = fst (receiptUsageLocked day s),
      dr_ChargedBytes = snd (receiptUsageLocked day s) + sm_reserved (st_staged s ! i)\<rparr> s = (e, t)" by fastforce
  then have t: "spool_frame s t \<and> st_failure t = st_failure s"
    by (auto simp: writeReceipt_def spool_frame_def split: if_splits)
  have u: "spool_frame t (t\<lparr>st_receipt := x\<rparr>)" "spool_frame t (t\<lparr>st_failure := y\<rparr>)" for x y
    by (simp_all add: spool_frame_def)
  show ?thesis
  proof (cases e)
    case None
    with assms w have "r = Inr () \<and> (\<exists>x. s' = discardLocked i (t\<lparr>st_receipt := x\<rparr>))"
      by (auto simp: publish_charge_def case_prod_beta)
    then obtain x where x: "r = Inr ()" "s' = discardLocked i (t\<lparr>st_receipt := x\<rparr>)" by blast
    have "spool_frame t s'" unfolding x(2) by (rule spool_frame_trans [OF u(1) discardLocked_frame])
    with t have "spool_frame s s'" using spool_frame_trans by blast
    moreover have "st_failure s' = st_failure s" using t by (simp add: x(2))
    ultimately show ?thesis using x(1) by simp
  next
    case (Some f)
    let ?e = "WrapErr ''persist receipt budget'' f"
    from Some assms w have x: "r = Inl ?e" "s' = t\<lparr>st_failure := Some ?e\<rparr>"
      by (simp_all add: publish_charge_def case_prod_beta)
    have "spool_frame s s'" unfolding x(2) using t u(2) spool_frame_trans by blast
    with x show ?thesis by simp
  qed
qed

text \<open>What an attempt to change the mailbox from \<open>M\<close> to \<open>N\<close> leaves behind.\<close>

definition outcome_ok :: "('g \<Rightarrow> repo) \<Rightarrow> mailbox \<Rightarrow> mailbox \<Rightarrow> bool \<Rightarrow> 'g store \<Rightarrow> bool" where
  "outcome_ok view M N done s \<longleftrightarrow>
     (if done then store_holds view s N \<and> st_failure s = None
      else store_holds view s M \<or> (store_holds view s N \<and> st_failure s \<noteq> None))"

definition store_base :: "('g \<Rightarrow> repo) \<Rightarrow> 'g store \<Rightarrow> bool" where
  "store_base view s \<longleftrightarrow> importer_idle s \<and> CHR 0x0A \<notin> set (st_refName s)"

lemma store_base_frames:
  "spool_frame s s' \<Longrightarrow> store_base view s' = store_base view s"
  "commit_step view s s' \<Longrightarrow> importer_idle s' \<Longrightarrow> store_base view s \<Longrightarrow> store_base view s'"
  by (simp_all add: store_base_def importer_idle_def spool_frameD commit_frameD(2) [OF commit_stepD(1)])

lemma store_holds_spool:
  assumes "spool_frame s s'" "store_holds view s M" "st_failure s' = st_failure s \<or> st_failure s' \<noteq> None"
  shows "store_holds view s' M"
  using assms(2,3) spool_frameD [OF assms(1)] by (auto simp: store_holds_def committed_def)

lemma store_holds_step:
  assumes "commit_step view s s'" "st_headID s' = st_headID s" "store_holds view s M"
    and "st_failure s' = st_failure s \<or> st_failure s' \<noteq> None"
  shows "store_holds view s' M"
proof -
  from assms(3) obtain fs where fs: "mailbox_ok M" "committed view fs s" "archive_tree fs M"
      "st_failure s = None \<longrightarrow> state_ok (st_state s) M \<and> fs mailboxStateName = Some (state_text (st_state s))"
    by (auto simp: store_holds_def)
  have "committed view fs s'" by (rule committed_step [OF fs(2) assms(1,2)])
  moreover have "st_state s' = st_state s" by (rule commit_frameD(1) [OF commit_stepD(1) [OF assms(1)]])
  ultimately show ?thesis using fs assms(4) by (auto simp: store_holds_def)
qed

text \<open>A commit that carries out a change of the mailbox, for any change.\<close>

lemma commit_outcome:
  assumes "git_sound G view" "store_base view s" "store_holds view s M" "order_ok env"
    and "distinct (map fst changes)" "\<forall>x \<in> set changes. snd x \<noteq> None"
    and "commitChanges G env title st changes removals s = (err, s')"
    and "mailbox_ok N" "state_ok st N"
    and tree: "\<And>fs. archive_tree fs M \<Longrightarrow> archive_tree (commit_files st changes removals fs) N"
    and "mailboxStateName \<notin> set removals"
  shows "store_base view s' \<and> commit_step view s s' \<and>
    (case err of
       None \<Rightarrow> st_failure s' = None \<and> store_holds view (s'\<lparr>st_state := st\<rparr>) N
     | Some e \<Rightarrow> outcome_ok view M N False s')"
proof -
  from assms(3) obtain fs where fs: "mailbox_ok M" "committed view fs s" "archive_tree fs M"
    by (auto simp: store_holds_def)
  let ?fs = "commit_files st changes removals fs"
  have N: "archive_tree ?fs N" by (rule tree [OF fs(3)])
  have st: "?fs mailboxStateName = Some (state_text st)" using assms(11) by (simp add: commit_files_def update_conv')
  from commitChanges_spec [OF assms(1,7) _ assms(4) _ fs(2) assms(5,6) archive_tree_like [OF N assms(8)]] assms(2)
  have spec: "commit_step view s s'" "importer_idle s'" "case err of
       None \<Rightarrow> st_failure s = None \<and> st_failure s' = None \<and> committed view ?fs s'
     | Some e \<Rightarrow> (st_headID s' = st_headID s \<and> (st_failure s \<noteq> None \<longrightarrow> s' = s)) \<or>
               (st_failure s' = Some e \<and> committed view ?fs s')"
    by (auto simp: store_base_def)
  have base: "store_base view s'" by (rule store_base_frames(2) [OF spec(1,2) assms(2)])
  show ?thesis
  proof (cases err)
    case None
    with spec(3) have "committed view ?fs (s'\<lparr>st_state := st\<rparr>)" "st_failure s' = None"
      by (simp_all add: committed_def)
    with base spec(1) None N st assms(8,9) show ?thesis by (auto simp: store_holds_def)
  next
    case (Some e)
    with spec(3) consider
      (same) "st_headID s' = st_headID s" "st_failure s \<noteq> None \<longrightarrow> s' = s"
      | (moved) "st_failure s' \<noteq> None" "committed view ?fs s'" by auto
    then have "outcome_ok view M N False s'"
    proof cases
      case same
      then have "st_failure s' = st_failure s \<or> st_failure s' \<noteq> None" by (cases "st_failure s") auto
      with store_holds_step [OF spec(1) same(1) assms(3)] show ?thesis by (simp add: outcome_ok_def)
    next
      case moved
      with N assms(8) show ?thesis by (auto simp: outcome_ok_def store_holds_def)
    qed
    with base spec(1) Some show ?thesis by simp
  qed
qed

text \<open>The mailbox that publishing \<open>c\<close> is to make of \<open>M\<close>, in state \<open>s\<close>.\<close>

abbreviation published :: "'g store \<Rightarrow> mailbox \<Rightarrow> string \<Rightarrow> mailbox" where
  "published s M c \<equiv> M(mb_LastID (st_state s) + 1 \<mapsto> c)"

lemma commit_frame_spool:
  assumes "commit_frame s s'"
  shows "spool_ok s' = spool_ok s" "st_staged s' = st_staged s"
  using assms by (cases s; cases s'; simp add: commit_frame_def spool_ok_def)+

lemma publish_charge_length:
  "publish_charge day io i s = (r, s') \<Longrightarrow> length (st_staged s') = length (st_staged s)"
  by (auto simp: publish_charge_def writeReceipt_def discardLocked_def removeFile_def Let_def split: if_splits prod.splits option.splits)

lemma Publish_spec:
  assumes "git_sound G view" "store_base view s" "store_holds view s M" "order_ok (pe_commit env)"
    and "staged_ready i c s" "Publish G env i s = (res, s')"
  shows "store_base view s' \<and> repo_extends (view (st_git s)) (view (st_git s')) \<and>
    st_reader s' = st_reader s \<and> st_cache s' = st_cache s \<and>
    (spool_ok s \<longrightarrow> spool_ok s') \<and> length (st_staged s') = length (st_staged s) \<and>
    (case res of
       Inr (nid, path) \<Rightarrow>
         nid = mb_LastID (st_state s) + 1 \<and> nid \<noteq> 0 \<and> M nid = None \<and> path = MsgPath (message_of nid c) \<and>
         mb_LastID (st_state s') = nid \<and> outcome_ok view M (M(nid \<mapsto> c)) True s'
     | Inl e \<Rightarrow> outcome_ok view M (published s M c) False s' \<and> st_state s' = st_state s)"
proof -
  let ?m = "st_staged s ! i"
  from assms(5) have ready: "i < length (st_staged s)" "sm_path ?m \<noteq> []" "st_files s (sm_path ?m) = Some c"
      "sm_size ?m = of_nat (length c)" "length c < 18446744073709551616"
    by (simp_all add: staged_ready_def)
  have same: "outcome_ok view M N False s" for N using assms(3) by (simp add: outcome_ok_def)
  note def = assms(6) [unfolded Publish_def]
  show ?thesis
  proof (cases "st_failure s \<noteq> None \<or> sm_done ?m \<or> \<not> canReserveLocked (pe_day env) s 0 \<or> pe_read env \<noteq> None \<or>
      (\<exists>e. publish_next (sm_size ?m) (st_state s) = Inl e)")
    case True
    then have "\<exists>e. res = Inl e \<and> s' = s" using def ready by (auto split: option.splits if_splits sum.splits)
    with assms(2) same show ?thesis by auto
  next
    case False
    then obtain nid path st where pn: "publish_next (of_nat (length c)) (st_state s) = Inr (nid, path, st)"
      using ready(4) by (cases "publish_next (sm_size ?m) (st_state s)") auto
    have stok: "state_ok (st_state s) M" "mailbox_ok M" using assms(3) False by (auto simp: store_holds_def)
    note ok = publish_next_ok [OF pn stok ready(5)]
    obtain cr s1 where x1: "publish_charge (pe_chargeDay env) (pe_receipt env) i s = (cr, s1)" by fastforce
    note fr = publish_charge_frame [OF x1]
    have sp1: "spool_ok s \<longrightarrow> spool_ok s1" "length (st_staged s1) = length (st_staged s)"
      using publish_charge_ok [OF _ ready(1) x1] publish_charge_length [OF x1] by simp_all
    have base1: "store_base view s1" using store_base_frames(1) fr assms(2) by blast
    have op: "staged_Open i s = Inr c" using ready by (simp add: staged_Open_def)
    have holds1: "store_holds view s1 M"
      using fr store_holds_spool [of s s1 view M] assms(3) by (cases cr) auto
    show ?thesis
    proof (cases cr)
      case (Inl e)
      then have "res = Inl e" "s' = s1" using def ready False pn x1 op by auto
      with base1 holds1 fr spool_frameD [of s s1] sp1 show ?thesis by (auto simp: outcome_ok_def)
    next
      case (Inr u)
      let ?N = "M(nid \<mapsto> c)"
      obtain err s2 where x2: "commitChanges G (pe_commit env) (publish_title nid) st [(path, Some c)] [] s1 = (err, s2)"
        by fastforce
      have np: "path \<notin> special_files" using ok messageFromPath_message_of message_path_not_special by blast
      then have cf: "commit_files st [(path, Some c)] [] fs =
          fs(path := Some c, ''state'' := Some (state_text st))" for fs
        by (auto simp: commit_files_def mailboxStateName_def special_files_def)
      have nn: "nid \<noteq> 0" "M nid = None" "path = MsgPath (message_of nid c)" "state_ok st ?N" using ok by blast+
      have mok: "mailbox_ok ?N" using stok(2) nn(1) ready(5) by (simp add: mailbox_ok_def)
      have tree: "archive_tree (commit_files st [(path, Some c)] [] fs) ?N" if "archive_tree fs M" for fs
        using archive_tree_insert(2) [OF that stok(2) nn(1,2) ready(5)] by (simp add: cf flip: nn(3))
      have sd: "distinct (map fst [(path, Some c)])" "\<forall>x \<in> set [(path, Some c)]. snd x \<noteq> None"
          "mailboxStateName \<notin> set []" by simp_all
      note out = commit_outcome [OF assms(1) base1 holds1 assms(4) sd(1,2) x2 mok nn(4) tree sd(3)]
      have step: "commit_step view s1 s2" using out by blast
      note sp = spool_frameD [OF conjunct1 [OF fr]] and co = commit_frameD [OF commit_stepD(1) [OF step]]
      have st1: "st_state s2 = st_state s" "st_reader s2 = st_reader s" "st_cache s2 = st_cache s"
          "repo_extends (view (st_git s)) (view (st_git s2))"
        using sp co commit_stepD(2) [OF step] by simp_all
      have sp2: "spool_ok s \<longrightarrow> spool_ok s2" "length (st_staged s2) = length (st_staged s)"
        using sp1 commit_frame_spool [OF commit_stepD(1) [OF step]] by simp_all
      show ?thesis
      proof (cases err)
        case (Some e)
        then have "res = Inl e" "s' = s2" using def ready False pn x1 op Inr x2 by auto
        with out Some st1 sp2 ok show ?thesis by simp
      next
        case None
        then have r: "res = Inr (nid, path)" "s' = s2\<lparr>st_state := st\<rparr>" using def ready False pn x1 op Inr x2 by auto
        have "store_base view s'" using out by (simp add: r(2) store_base_def importer_idle_def)
        moreover have "outcome_ok view M ?N True s'" using out None by (simp add: outcome_ok_def r(2))
        moreover have "mb_LastID (st_state s') = nid" using ok by (simp add: r(2))
        moreover have "repo_extends (view (st_git s)) (view (st_git s'))" "st_reader s' = st_reader s" "st_cache s' = st_cache s"
          using st1 by (simp_all add: r(2))
        moreover have "spool_ok s \<longrightarrow> spool_ok s'" "length (st_staged s') = length (st_staged s)"
          using sp2 by (simp_all add: r(2) spool_ok_def)
        ultimately show ?thesis using nn(1-3) ok unfolding r(1) sum.case prod.case by blast
      qed
    qed
  qed
qed

end
