(* ===== verification/Mailbox_Read.thy ===== *)
theory Mailbox_Read
  imports Mailbox_Ops Mailbox_Store
begin

text \<open>
  Reading the mailbox of any commit: whatever Git answers, and however its answers are cut off, a
  listing, a lookup or an opened message that does not end in an error is the right one for the
  mailbox that the commit holds, and the process and the cache stay fit for the next request.
\<close>

section \<open>Requests\<close>

lemma parse_int_fmt_nat_SomeD:
  assumes "parse_int (fmt_nat 10 n) = Some i"
  shows "i = int n \<and> n < 2 ^ 63"
proof -
  obtain d s where ds: "fmt_nat 10 n = d # s" by (cases "fmt_nat 10 n") auto
  then obtain e where "e < 10" "d = digit_char e" using set_fmt_nat [of 10 d n] by auto
  then have "digit_val d = Some e" by (simp add: digit_val_digit_char)
  then have d: "d \<noteq> CHR ''-'' \<and> d \<noteq> CHR ''+''" by (auto simp: digit_val_def)
  from assms d ds obtain u where u: "parse_uint (fmt_nat 10 n) 10 64 = Some u" "\<not> 2 ^ 63 \<le> unat u" "i = int (unat u)"
    by (auto simp: parse_int_def Let_def split: option.splits if_splits)
  then have "u = of_nat n" "n < 2 ^ 64"
    by (auto simp: parse_uint_def parse_digits_fmt_nat split: if_splits)
  then have "unat u = n" by (simp add: unat_of_nat_u64)
  with u show ?thesis by simp
qed

lemma git_line_prefix:
  assumes "a @ CHR 0x0A # x = fst out @ rest" "CHR 0x0A \<notin> set a" "git_line out = (res, out')"
  shows "(res = Inl (snd out) \<and> fst out' = []) \<or> (res = Inr a \<and> x = fst out' @ rest)"
    and "snd out' = snd out"
proof -
  show "snd out' = snd out" using assms(3) by (auto simp: git_line_def split: option.splits)
  show "(res = Inl (snd out) \<and> fst out' = []) \<or> (res = Inr a \<and> x = fst out' @ rest)"
  proof (cases "length (fst out) \<le> length a")
    case True
    then have "fst out = take (length (fst out)) a" using arg_cong [OF assms(1), of "take (length (fst out))"] by simp
    then have "CHR 0x0A \<notin> set (fst out)" using assms(2) by (metis in_set_takeD)
    then show ?thesis using assms(3) by (auto simp: git_line_def index_byte_None [THEN iffD2])
  next
    case False
    then have "a @ [CHR 0x0A] = take (Suc (length a)) (fst out)"
      using arg_cong [OF assms(1), of "take (Suc (length a))"] by simp
    then obtain p where p: "fst out = a @ CHR 0x0A # p" by (metis append.assoc append_Cons append_Nil append_take_drop_id)
    then have "x = p @ rest" using assms(1) by simp
    with p assms(2,3) show ?thesis by (auto simp: git_line_def)
  qed
qed

definition answer_data :: "string \<Rightarrow> string \<Rightarrow> string" where
  "answer_data command d = (if command = ''contents'' then d @ [CHR 0x0A] else [])"

lemma queryObjectInner_sound:
  assumes "answers_sound R ask" "repo_ok R" "fst out = []" "command \<in> {''info'', ''contents''}"
    and "queryObjectInner ask command spec kind out = (res, out')"
  shows "case res of
      Inr h \<Rightarrow> \<exists>d rest. rp_resolve R spec = Some (oh_oid h) \<and> rp_object R (oh_oid h) = Some (kind, d) \<and>
                 oh_size h = int (length d) \<and> answer_data command d = fst out' @ rest \<and> os_error (snd out')
    | Inl e \<Rightarrow> errors_is e ErrNoSuchMessage \<longrightarrow> rp_resolve R spec = None \<and> fst out' = []"
proof (cases "contains_any spec [CHR 0x0D, CHR 0x0A]")
  case True
  with assms(5) show ?thesis by (auto simp: queryObjectInner_def)
next
  case False
  then have lf: "CHR 0x0A \<notin> set spec" by (auto simp: contains_any_iff)
  let ?ans = "ask (command @ '' '' @ spec @ [CHR 0x0A])"
  obtain res1 out1 where gl: "git_line ?ans = (res1, out1)" by (meson surj_pair)
  obtain rest where full: "cat_answer R command spec = fst ?ans @ rest"
    using assms(1,4) lf unfolding answers_sound_def by blast
  have os: "os_error (snd ?ans)" using assms(1) by (simp add: answers_sound_def)
  have pair: "(fst out @ fst ?ans, snd ?ans) = ?ans" by (simp add: assms(3))
  note def = assms(5) [unfolded queryObjectInner_def pair Let_def gl prod.case if_not_P [OF False]]
  show ?thesis
  proof (cases "rp_resolve R spec")
    case None
    then have m: "(spec @ '' missing'') @ CHR 0x0A # [] = fst ?ans @ rest" using full by (simp add: cat_answer_def)
    have "CHR 0x0A \<notin> set (spec @ '' missing'')" using lf by simp
    from git_line_prefix [OF m this gl] def os None show ?thesis
      by (auto simp: os_error_def)
  next
    case (Some oid)
    with assms(2) obtain k d where o: "rp_object R oid = Some (k, d)" unfolding repo_ok_def by fastforce
    with assms(2) have v: "validObjectID oid" "word_ok k" unfolding repo_ok_def by blast+
    have m: "header_line oid k (length d) @ CHR 0x0A # answer_data command d = fst ?ans @ rest"
      using full Some o by (simp add: cat_answer_def answer_data_def)
    have fs: "Go_Strings.fields (header_line oid k (length d)) = [oid, k, fmt_nat 10 (length d)]"
      unfolding header_line_def using validObjectID_word [OF v(1)] v(2) by (intro fields_three word_ok_fmt_nat)
    have os1: "os_error (snd out1)" using os git_line_prefix(2) [OF m header_line_plain(1) [OF v] gl] by simp
    from git_line_prefix(1) [OF m header_line_plain(1) [OF v] gl] show ?thesis
    proof
      assume "res1 = Inl (snd ?ans) \<and> fst out1 = []"
      with def os show ?thesis by (auto simp: os_error_def)
    next
      assume r: "res1 = Inr (header_line oid k (length d)) \<and> answer_data command d = fst out1 @ rest"
      show ?thesis
      proof (cases "k = kind \<and> (\<exists>i. parse_int (fmt_nat 10 (length d)) = Some i \<and> \<not> i < 0)")
        case True
        then obtain i where i: "parse_int (fmt_nat 10 (length d)) = Some i" by blast
        from parse_int_fmt_nat_SomeD [OF i] have "i = int (length d)" by simp
        with def r True i v header_line_plain(2) [OF v] fs Some o os1 show ?thesis by auto
      next
        case no: False
        then have "\<exists>m. res = Inl (ErrMsg m)"
          using def r v header_line_plain(2) [OF v] fs by (auto split: if_splits option.splits)
        then show ?thesis by auto
      qed
    qed
  qed
qed

section \<open>The process between requests\<close>

definition reader_idle :: "git_reader \<Rightarrow> bool" where
  "reader_idle r \<longleftrightarrow> (\<forall>out. rs_process r = Some out \<longrightarrow> fst out = [])"

lemma armReadIdleLocked_idle [simp]: "reader_idle (armReadIdleLocked r) = reader_idle r"
  by (simp add: armReadIdleLocked_def reader_idle_def)

lemma armReadIdleLocked_process [simp]: "rs_process (armReadIdleLocked r) = rs_process r"
  by (simp add: armReadIdleLocked_def)

lemma readerLocked_idle:
  "reader_idle r \<Longrightarrow> readerLocked start r = (res, r') \<Longrightarrow>
     reader_idle r' \<and> (\<forall>out. res = Inr out \<longrightarrow> fst out = []) \<and> (\<forall>e. res = Inl e \<longrightarrow> start = Some e \<or> \<not> errors_is e ErrNoSuchMessage)"
  by (auto simp: readerLocked_def reader_idle_def Let_def split: if_splits option.splits)

lemma abortReaderLocked_idle: "abortReaderLocked e r = (e', r') \<Longrightarrow> reader_idle r' \<and> rs_process r' = None"
  by (auto simp: abortReaderLocked_def reader_idle_def split: option.splits)

lemma objectInfo_sound:
  assumes "answers_sound R ask" "repo_ok R" "\<And>e. start = Some e \<Longrightarrow> os_error e" "reader_idle r"
    and "objectInfo start ask spec kind r = (res, r')"
  shows "reader_idle r' \<and>
    (case res of
       Inr h \<Rightarrow> \<exists>d. rp_resolve R spec = Some (oh_oid h) \<and> rp_object R (oh_oid h) = Some (kind, d)
     | Inl e \<Rightarrow> errors_is e ErrNoSuchMessage \<longrightarrow> rp_resolve R spec = None)"
proof -
  obtain ro r1 where l: "readerLocked start r = (ro, r1)" by (meson surj_pair)
  note ri = readerLocked_idle [OF assms(4) l]
  show ?thesis
  proof (cases ro)
    case (Inl e)
    with assms(3,5) l ri show ?thesis by (auto simp: objectInfo_def os_error_def)
  next
    case (Inr out)
    obtain q out1 where q: "queryObjectInner ask ''info'' spec kind out = (q, out1)" by (meson surj_pair)
    from queryObjectInner_sound [OF assms(1,2) _ _ q] ri Inr
    have s: "case q of
      Inr h \<Rightarrow> \<exists>d. rp_resolve R spec = Some (oh_oid h) \<and> rp_object R (oh_oid h) = Some (kind, d) \<and> fst out1 = []
    | Inl e \<Rightarrow> errors_is e ErrNoSuchMessage \<longrightarrow> rp_resolve R spec = None \<and> fst out1 = []"
      by (fastforce simp: answer_data_def split: sum.splits)
    show ?thesis
    proof (cases q)
      case (Inr h)
      with assms(5) l \<open>ro = Inr out\<close> q s show ?thesis by (auto simp: objectInfo_def reader_idle_def)
    next
      case (Inl e)
      show ?thesis
      proof (cases "errors_is e ErrNoSuchMessage")
        case True
        with assms(5) l \<open>ro = Inr out\<close> q s Inl show ?thesis by (auto simp: objectInfo_def reader_idle_def)
      next
        case False
        obtain e' r2 where ab: "abortReaderLocked e (r1\<lparr>rs_process := Some out1\<rparr>) = (e', r2)" by (meson surj_pair)
        then have "e' = WrapErr ''cat-file'' e" by (auto simp: abortReaderLocked_def)
        with assms(5) l \<open>ro = Inr out\<close> q s Inl False ab abortReaderLocked_idle [OF ab] show ?thesis
          by (auto simp: objectInfo_def)
      qed
    qed
  qed
qed

text \<open>The reader of an object whose remaining content is \<open>d\<close>, on a pipe that may be cut off.\<close>

definition reading :: "string \<Rightarrow> blobReader \<Rightarrow> pipe \<Rightarrow> bool" where
  "reading d br out \<longleftrightarrow> \<not> br_closed br \<and> br_remaining br = int (length d) \<and> (\<exists>rest. d @ [CHR 0x0A] = fst out @ rest) \<and>
     os_error (snd out)"

lemma readObject_sound:
  assumes "answers_sound R ask" "repo_ok R" "\<And>e. start = Some e \<Longrightarrow> os_error e" "reader_idle r"
    and "readObject start ask spec kind r = (res, r')"
  shows "case res of
       Inr br \<Rightarrow> \<exists>d. rp_resolve R spec = Some (oh_oid (br_header br)) \<and>
                   rp_object R (oh_oid (br_header br)) = Some (kind, d) \<and> reading d br (leased_pipe r') \<and> rs_process r' \<noteq> None
     | Inl e \<Rightarrow> reader_idle r' \<and> (errors_is e ErrNoSuchMessage \<longrightarrow> rp_resolve R spec = None)"
proof -
  obtain ro r1 where l: "readerLocked start r = (ro, r1)" by (meson surj_pair)
  note ri = readerLocked_idle [OF assms(4) l]
  show ?thesis
  proof (cases ro)
    case (Inl e)
    with assms(3,5) l ri show ?thesis by (auto simp: readObject_def os_error_def)
  next
    case (Inr out)
    obtain q out1 where q: "queryObjectInner ask ''contents'' spec kind out = (q, out1)" by (meson surj_pair)
    from queryObjectInner_sound [OF assms(1,2) _ _ q] ri Inr
    have s: "case q of
      Inr h \<Rightarrow> \<exists>d rest. rp_resolve R spec = Some (oh_oid h) \<and> rp_object R (oh_oid h) = Some (kind, d) \<and>
                 oh_size h = int (length d) \<and> d @ [CHR 0x0A] = fst out1 @ rest \<and> os_error (snd out1)
    | Inl e \<Rightarrow> errors_is e ErrNoSuchMessage \<longrightarrow> rp_resolve R spec = None \<and> fst out1 = []"
      by (auto simp: answer_data_def split: sum.splits)
    show ?thesis
    proof (cases q)
      case (Inr h)
      with assms(5) l \<open>ro = Inr out\<close> q s show ?thesis
        by (auto simp: readObject_def reading_def leased_pipe_def)
    next
      case (Inl e)
      show ?thesis
      proof (cases "errors_is e ErrNoSuchMessage")
        case True
        with assms(5) l \<open>ro = Inr out\<close> q s Inl show ?thesis by (auto simp: readObject_def reader_idle_def)
      next
        case False
        obtain e' r2 where ab: "abortReaderLocked e (r1\<lparr>rs_process := Some out1\<rparr>) = (e', r2)" by (meson surj_pair)
        then have "e' = WrapErr ''cat-file'' e" by (auto simp: abortReaderLocked_def)
        with assms(5) l \<open>ro = Inr out\<close> q s Inl False ab abortReaderLocked_idle [OF ab] show ?thesis
          by (auto simp: readObject_def)
      qed
    qed
  qed
qed

lemma blob_Read_reading:
  assumes "reading d br out" "0 < n" "blob_Read (br, out) n = (bytes, err, br', out')"
  shows "\<exists>d'. d = bytes @ d' \<and> reading d' br' out' \<and> br_header br' = br_header br \<and>
    (case err of
       None \<Rightarrow> bytes \<noteq> [] \<and> length bytes \<le> n
     | Some e \<Rightarrow> bytes = [] \<and> (e = IoEOF \<longleftrightarrow> d = []) \<and> os_error e)"
proof (cases "d = []")
  case True
  with assms show ?thesis by (auto simp: blob_Read_def reading_def os_error_def)
next
  case False
  from assms(1) obtain rest where r: "\<not> br_closed br" "br_remaining br = int (length d)"
      "d @ [CHR 0x0A] = fst out @ rest" "os_error (snd out)" by (auto simp: reading_def)
  let ?b = "take (min n (length d)) (fst out)"
  have def: "(bytes, err, br', out') =
      (if ?b = [] then ([], Some (if errors_is (snd out) IoEOF then IoErrUnexpectedEOF else snd out), br, out)
       else (?b, None, br\<lparr>br_remaining := br_remaining br - int (length ?b)\<rparr>, (drop (length ?b) (fst out), snd out)))"
    using assms(2) False r(1,2) unfolding assms(3) [symmetric] by (simp add: blob_Read_def Let_def)
  have b: "?b @ drop (length ?b) d = d"
  proof -
    have "fst out @ rest = ?b @ drop (min n (length d)) (fst out) @ rest" by simp
    then have "take (length ?b) (d @ [CHR 0x0A]) = ?b" unfolding r(3) by (metis append_eq_conv_conj)
    then have "take (length ?b) d = ?b" by simp
    then show ?thesis by (metis append_take_drop_id)
  qed
  show ?thesis
  proof (cases "?b = []")
    case True
    with def assms(1) False r(4) show ?thesis by (auto simp: os_error_def)
  next
    case ne: False
    have "drop (length ?b) d @ [CHR 0x0A] = drop (length ?b) (fst out) @ rest"
      using arg_cong [OF r(3), of "drop (length ?b)"] by simp
    moreover have len: "length ?b \<le> length d" using arg_cong [OF b, of length] by simp
    moreover from def [unfolded if_not_P [OF ne] prod.inject] have o: "bytes = ?b" "err = None"
        "br' = br\<lparr>br_remaining := br_remaining br - int (length ?b)\<rparr>" "out' = (drop (length ?b) (fst out), snd out)"
      by blast+
    ultimately have "reading (drop (length ?b) d) br' out'"
      using r(1,2,4) by (simp only: reading_def o fst_conv snd_conv length_drop of_nat_diff) simp
    with o b ne show ?thesis by (intro exI [of _ "drop (length ?b) d"]) simp
  qed
qed

lemma read_all_reading:
  assumes "reading d br out" "length d < fuel" "read_all fuel (br, out) = (bytes, err, br', out')"
  shows "\<exists>d'. reading d' br' out' \<and> d = bytes @ d' \<and> br_header br' = br_header br \<and> (err = None \<longrightarrow> d' = []) \<and>
    (\<forall>e. err = Some e \<longrightarrow> os_error e)"
  using assms
proof (induction fuel arbitrary: d br out bytes err br' out')
  case (Suc fuel)
  obtain b e br1 out1 where rd: "blob_Read (br, out) 512 = (b, e, br1, out1)" by (metis surj_pair)
  from blob_Read_reading [OF Suc.prems(1) _ rd] obtain d1 where d1: "d = b @ d1" "reading d1 br1 out1"
      "br_header br1 = br_header br" "case e of None \<Rightarrow> b \<noteq> [] \<and> length b \<le> 512 | Some e \<Rightarrow> b = [] \<and> (e = IoEOF \<longleftrightarrow> d = []) \<and> os_error e"
    by auto
  show ?case
  proof (cases e)
    case (Some x)
    with Suc.prems(3) rd d1 show ?thesis by (auto split: if_splits)
  next
    case None
    obtain m f br2 out2 where ra: "read_all fuel (br1, out1) = (m, f, br2, out2)" by (metis surj_pair)
    have "length d1 < fuel" using Suc.prems(2) d1(1,4) None by (cases b) auto
    from Suc.IH [OF d1(2) this ra] Suc.prems(3) rd None ra d1(1,3) show ?thesis by auto
  qed
qed simp

lemma blob_Close_reading:
  assumes "reading d br (leased_pipe r)" "rs_process r \<noteq> None" "blob_Close br r = (err, br', r')"
  shows "reader_idle r' \<and> (\<forall>e. err = Some e \<longrightarrow> os_error e)"
proof -
  from assms(2) obtain out where out: "rs_process r = Some out" by blast
  with assms(1) obtain rest where d: "\<not> br_closed br" "br_remaining br = int (length d)" "d @ [CHR 0x0A] = fst out @ rest"
      "os_error (snd out)" by (auto simp: reading_def leased_pipe_def)
  obtain e out1 where dr: "drain (length d) out = (e, out1)" by (meson surj_pair)
  have "fst out1 = []"
  proof (cases "length (fst out) \<le> length d")
    case True
    with dr show ?thesis by (auto simp: drain_def split: if_splits list.splits)
  next
    case False
    then have "rest = []" using arg_cong [OF d(3), of length] by (cases rest) auto
    with d(3) have "fst out = d @ [CHR 0x0A]" by simp
    with dr show ?thesis by (auto simp: drain_def)
  qed
  moreover have "\<forall>x. e = Some x \<longrightarrow> os_error x"
    using dr d(4) by (auto simp: drain_def os_error_def split: if_splits list.splits)
  ultimately show ?thesis
    using assms(3) out d(1,2) dr
    by (auto simp: os_error_def blob_Close_def Let_def reader_idle_def abortReaderLocked_def split: option.splits)
qed

section \<open>Listings\<close>

text \<open>A cached listing is the one that its tree object gives.\<close>

definition listing_of :: "repo \<Rightarrow> string \<Rightarrow> string \<Rightarrow> message list \<Rightarrow> bool" where
  "listing_of R path oid ms \<longleftrightarrow>
     (\<exists>d es. rp_object R oid = Some (''tree'', d) \<and> parseTree d (length oid div 2) = Inr es \<and>
        directory_messages path es = Inr ms)"

definition cache_sound :: "repo \<Rightarrow> directoryCache \<Rightarrow> bool" where
  "cache_sound R c \<longleftrightarrow> cache_ok c \<and> (\<forall>x \<in> set (lru_of c). listing_of R (ky_path (fst x)) (ky_tree (fst x)) (snd x))"

lemma cache_sound_get:
  assumes "cache_sound R c" "cache_get c key = (res, c')"
  shows "cache_sound R c' \<and> (\<forall>ms. res = Some ms \<longrightarrow> listing_of R (ky_path key) (ky_tree key) ms)"
proof -
  have c: "cache_ok c" "\<forall>x \<in> set (lru_of c). listing_of R (ky_path (fst x)) (ky_tree (fst x)) (snd x)"
    using assms(1) by (simp_all add: cache_sound_def)
  note g = cache_get_refines [OF c(1) assms(2)]
  have hit: "listing_of R (ky_path key) (ky_tree key) ms" if "res = Some ms" for ms
    using g that c(2) map_of_SomeD [of "lru_of c" key ms] by fastforce
  have "\<forall>x \<in> set (lru_of c'). listing_of R (ky_path (fst x)) (ky_tree (fst x)) (snd x)"
    using g c(2) hit by (cases res) (auto simp: lru_touch_def)
  with g hit show ?thesis by (simp add: cache_sound_def)
qed

lemma cache_sound_put:
  assumes "cache_sound R c" "listing_of R (ky_path key) (ky_tree key) ms"
  shows "cache_sound R (cache_put c key ms)"
  using assms cache_put_refines [of c key ms]
  by (auto simp: cache_sound_def lru_put_def lru_touch_def dest!: in_set_takeD)

lemma cache_sound_extends: "repo_extends R R' \<Longrightarrow> cache_sound R c \<Longrightarrow> cache_sound R' c"
  unfolding cache_sound_def listing_of_def repo_extends_def by blast

text \<open>What a read may change of the store.\<close>

definition read_step :: "('g \<Rightarrow> repo) \<Rightarrow> 'g store \<Rightarrow> 'g store \<Rightarrow> bool" where
  "read_step view s s' \<longleftrightarrow>
     s' = s\<lparr>st_reader := st_reader s', st_git := st_git s', st_cache := st_cache s'\<rparr> \<and>
     repo_extends (view (st_git s)) (view (st_git s'))"

lemma read_step_refl [simp]: "read_step view s s"
  by (simp add: read_step_def)

lemma read_step_trans [trans]: "read_step view s t \<Longrightarrow> read_step view t u \<Longrightarrow> read_step view s u"
proof -
  assume a: "read_step view s t" "read_step view t u"
  then have "u = s\<lparr>st_reader := st_reader u, st_git := st_git u, st_cache := st_cache u\<rparr>"
    by (cases s; cases t; cases u) (simp add: read_step_def)
  with a repo_extends_trans show ?thesis unfolding read_step_def by blast
qed

lemma read_stepD:
  assumes "read_step view s s'"
  shows "repo_extends (view (st_git s)) (view (st_git s'))" "st_headID s' = st_headID s" "st_state s' = st_state s"
    "st_failure s' = st_failure s" "st_importer s' = st_importer s" "st_refName s' = st_refName s"
    "rp_commit (view (st_git s)) c = Some fs \<Longrightarrow> rp_commit (view (st_git s')) c = Some fs"
  using assms by (cases s; cases s'; auto simp: read_step_def repo_extends_def)+

definition read_ready :: "('g \<Rightarrow> repo) \<Rightarrow> 'g store \<Rightarrow> bool" where
  "read_ready view s \<longleftrightarrow> reader_idle (st_reader s) \<and> cache_sound (view (st_git s)) (st_cache s)"

lemma store_objectInfo_sound:
  assumes "git_sound G view" "read_ready view s" "store_objectInfo G spec kind s = (res, s')"
  shows "read_step view s s' \<and> read_ready view s' \<and>
    (case res of
       Inr h \<Rightarrow> \<exists>d. rp_resolve (view (st_git s)) spec = Some (oh_oid h) \<and> rp_object (view (st_git s)) (oh_oid h) = Some (kind, d)
     | Inl e \<Rightarrow> errors_is e ErrNoSuchMessage \<longrightarrow> rp_resolve (view (st_git s)) spec = None)"
proof -
  let ?g = "st_git s"
  obtain r rd where q: "objectInfo (gi_catStart G ?g) (gi_ask G ?g) spec kind (st_reader s) = (r, rd)" by (meson surj_pair)
  have ext: "repo_extends (view ?g) (view (gi_tick G ?g))" by (rule git_keepsD(7) [OF git_soundD(6) [OF assms(1)]])
  have "reader_idle (st_reader s)" using assms(2) by (simp add: read_ready_def)
  from objectInfo_sound [OF git_soundD(2,1) [OF assms(1)] _ this q] git_soundD(3) [OF assms(1)]
  have "reader_idle rd \<and>
    (case r of
       Inr h \<Rightarrow> \<exists>d. rp_resolve (view ?g) spec = Some (oh_oid h) \<and> rp_object (view ?g) (oh_oid h) = Some (kind, d)
     | Inl e \<Rightarrow> errors_is e ErrNoSuchMessage \<longrightarrow> rp_resolve (view ?g) spec = None)" by blast
  moreover have "res = r" "s' = s\<lparr>st_reader := rd, st_git := gi_tick G ?g\<rparr>"
    using assms(3) q by (auto simp: store_objectInfo_def Let_def)
  ultimately show ?thesis
    using ext assms(2) cache_sound_extends by (auto simp: read_step_def read_ready_def)
qed

lemma store_readObject_sound:
  assumes "git_sound G view" "read_ready view s" "store_readObject G spec kind s = (res, s')"
  shows "read_step view s s' \<and> cache_sound (view (st_git s')) (st_cache s') \<and>
    (case res of
       Inr br \<Rightarrow> \<exists>d. rp_resolve (view (st_git s)) spec = Some (oh_oid (br_header br)) \<and>
          rp_object (view (st_git s)) (oh_oid (br_header br)) = Some (kind, d) \<and>
          reading d br (leased_pipe (st_reader s')) \<and> rs_process (st_reader s') \<noteq> None
     | Inl e \<Rightarrow> read_ready view s' \<and> (errors_is e ErrNoSuchMessage \<longrightarrow> rp_resolve (view (st_git s)) spec = None))"
proof -
  let ?g = "st_git s"
  obtain r rd where q: "readObject (gi_catStart G ?g) (gi_ask G ?g) spec kind (st_reader s) = (r, rd)" by (meson surj_pair)
  have ext: "repo_extends (view ?g) (view (gi_tick G ?g))" by (rule git_keepsD(7) [OF git_soundD(6) [OF assms(1)]])
  have "reader_idle (st_reader s)" using assms(2) by (simp add: read_ready_def)
  note rs = readObject_sound [OF git_soundD(2,1) [OF assms(1)] git_soundD(3) [OF assms(1)] this q]
  moreover have "res = r" "s' = s\<lparr>st_reader := rd, st_git := gi_tick G ?g\<rparr>"
    using assms(3) q by (auto simp: store_readObject_def Let_def)
  moreover have "cache_sound (view (gi_tick G ?g)) (st_cache s)"
    using ext assms(2) cache_sound_extends by (auto simp: read_ready_def)
  ultimately show ?thesis
    using ext by (cases r) (simp_all add: read_step_def read_ready_def)
qed

lemma store_CloseBlob_sound:
  assumes "reading d br (leased_pipe (st_reader s))" "rs_process (st_reader s) \<noteq> None"
    and "cache_sound (view (st_git s)) (st_cache s)" "store_CloseBlob br s = (err, s')"
  shows "read_step view s s' \<and> read_ready view s' \<and> st_git s' = st_git s \<and> (\<forall>e. err = Some e \<longrightarrow> os_error e)"
proof -
  obtain e br' rd where c: "blob_Close br (st_reader s) = (e, br', rd)" by (metis surj_pair)
  from blob_Close_reading [OF assms(1,2) c] have "reader_idle rd \<and> (\<forall>x. e = Some x \<longrightarrow> os_error x)" .
  with assms(3,4) c show ?thesis by (auto simp: store_CloseBlob_def read_step_def read_ready_def)
qed

lemma store_ReadAll_sound:
  assumes "reading d br (leased_pipe (st_reader s))" "store_ReadAll br s = (bytes, err, br', s')"
  shows "read_step view s s' \<and> st_git s' = st_git s \<and> st_cache s' = st_cache s \<and> br_header br' = br_header br \<and>
    rs_process (st_reader s') \<noteq> None \<and>
    (\<exists>d'. reading d' br' (leased_pipe (st_reader s')) \<and> d = bytes @ d' \<and> (err = None \<longrightarrow> d' = [])) \<and>
    (\<forall>e. err = Some e \<longrightarrow> os_error e)"
proof -
  obtain b e br1 out where r: "read_all (Suc (Suc (nat (br_remaining br)))) (br, leased_pipe (st_reader s)) = (b, e, br1, out)"
    by (metis surj_pair)
  have "length d < Suc (Suc (nat (br_remaining br)))" using assms(1) by (simp add: reading_def)
  from read_all_reading [OF assms(1) this r] r assms(2) show ?thesis
    by (auto simp: store_ReadAll_def read_step_def leased_pipe_def)
qed

lemma parseTree_error: "parseTree d h = Inl e \<Longrightarrow> os_error e"
proof -
  have "parse_tree_from h seen d = Inl e \<Longrightarrow> os_error e" for seen
    by (induction h seen d rule: parse_tree_from.induct)
      (subst (asm) (2) parse_tree_from.simps, auto simp: os_error_def Let_def bind_res_Inl split: if_splits option.splits prod.splits)
  then show "parseTree d h = Inl e \<Longrightarrow> os_error e" by (simp add: parseTree_def)
qed

lemma tree_sound:
  assumes "git_sound G view" "read_ready view s" "tree G spec s = (res, s')"
  shows "read_step view s s' \<and> read_ready view s' \<and>
    (case res of
       Inr (es, oid) \<Rightarrow> \<exists>d. rp_resolve (view (st_git s)) spec = Some oid \<and> rp_object (view (st_git s)) oid = Some (''tree'', d) \<and>
          parseTree d (length oid div 2) = Inr es
     | Inl e \<Rightarrow> errors_is e ErrNoSuchMessage \<longrightarrow> rp_resolve (view (st_git s)) spec = None)"
proof -
  obtain ro s1 where x1: "store_readObject G spec ''tree'' s = (ro, s1)" by (meson surj_pair)
  note r1 = store_readObject_sound [OF assms(1,2) x1]
  show ?thesis
  proof (cases ro)
    case (Inl e)
    with r1 x1 assms(3) show ?thesis by (auto simp: tree_def)
  next
    case (Inr br)
    with r1 obtain d where d: "rp_resolve (view (st_git s)) spec = Some (oh_oid (br_header br))"
        "rp_object (view (st_git s)) (oh_oid (br_header br)) = Some (''tree'', d)"
        "reading d br (leased_pipe (st_reader s1))" "rs_process (st_reader s1) \<noteq> None"
        "read_step view s s1" "cache_sound (view (st_git s1)) (st_cache s1)" by auto
    show ?thesis
    proof (cases "256 * 1024 < br_remaining br")
      case True
      obtain ce s2 where x2: "store_CloseBlob br s1 = (ce, s2)" by (meson surj_pair)
      from store_CloseBlob_sound [where view = view, OF d(3,4,6) x2] True x1 x2 Inr assms(3) d(5) show ?thesis
        using read_step_trans by (auto simp: tree_def)
    next
      case False
      obtain bytes re br2 s2 where x2: "store_ReadAll br s1 = (bytes, re, br2, s2)" by (metis surj_pair)
      from store_ReadAll_sound [where view = view, OF d(3) x2] obtain d' where r2: "read_step view s1 s2" "st_git s2 = st_git s1"
          "st_cache s2 = st_cache s1" "br_header br2 = br_header br" "rs_process (st_reader s2) \<noteq> None"
          "reading d' br2 (leased_pipe (st_reader s2))" "d = bytes @ d'" "re = None \<longrightarrow> d' = []"
          "\<forall>e. re = Some e \<longrightarrow> os_error e" by blast
      obtain ce s3 where x3: "store_CloseBlob br2 s2 = (ce, s3)" by (meson surj_pair)
      from store_CloseBlob_sound [where view = view, OF r2(6,5) _ x3] d(6) r2(2,3)
      have r3: "read_step view s2 s3" "read_ready view s3" "\<forall>e. ce = Some e \<longrightarrow> os_error e" by auto
      have st: "read_step view s s3" using d(5) r2(1) r3(1) read_step_trans by blast
      show ?thesis
      proof (cases "join_errors re ce")
        case (Some e)
        then have "os_error e" using r2(9) r3(3) by (auto simp: join_errors_def split: option.splits)
        with Some x1 x2 x3 Inr False assms(3) st r3(2) show ?thesis by (auto simp: tree_def os_error_def)
      next
        case None
        then have "re = None" by (auto simp: join_errors_def split: option.splits)
        then have bytes: "bytes = d" using r2(7,8) by simp
        let ?h = "length (oh_oid (br_header br)) div 2"
        show ?thesis
        proof (cases "parseTree d ?h")
          case (Inl e)
          with parseTree_error [OF Inl] None x1 x2 x3 \<open>ro = Inr br\<close> False assms(3) st r3(2) bytes r2(4) show ?thesis
            by (auto simp: tree_def os_error_def)
        next
          case (Inr es)
          with None x1 x2 x3 \<open>ro = Inr br\<close> False assms(3) st r3(2) bytes r2(4) d(1,2) show ?thesis
            by (auto simp: tree_def split: if_splits)
        qed
      qed
    qed
  qed
qed

end
