(* ===== verification/Mailbox_Lookup.thy ===== *)
theory Mailbox_Lookup
  imports Mailbox_Read
begin

text \<open>
  Lookups and listings against the mailbox of a snapshot: the listing of a leaf is the messages of
  that leaf in ID order, the n-th message is the one of rank n, and \<open>ListAt\<close> visits every message
  once, in ID order.
\<close>

section \<open>One directory\<close>

lemma entry_of_raw_simps [simp]:
  "te_mode (entry_of_raw x) = fst x" "te_name (entry_of_raw x) = raw_name x"
  by (simp_all add: entry_of_raw_def raw_name_def split: prod.splits)

lemma finite_leaf_ids [simp]: "finite (leaf_ids S d)"
  by simp

lemma set_leaf_messages:
  "set (leaf_messages M d) = {message_of i c | i c. M i = Some c \<and> leaf_of i = d}"
  by (force simp: leaf_messages_def leaf_ids_def)

lemma MsgID_leaf_messages: "map MsgID (leaf_messages M d) = sorted_list_of_set (leaf_ids (dom M) d)"
  by (simp add: leaf_messages_def comp_def)

lemma directory_messages_leaf:
  assumes "archive_tree fs M" "mailbox_ok M" "tree_of_dir fs (leaf_of j) raws"
  shows "directory_messages (leaf_of j) (map entry_of_raw raws) = Inr (leaf_messages M (leaf_of j))"
proof -
  let ?d = "leaf_of j"
  note raws = messages_of_leaf [OF assms]
  have nz: "M i = Some c \<Longrightarrow> i \<noteq> 0" for i c using assms(2) by (auto simp: mailbox_ok_def)
  define g where "g x = (case messageFromPath (?d @ CHR ''/'' # raw_name x) of Inl _ \<Rightarrow> message_of 0 [] | Inr m \<Rightarrow> m)" for x
  have g: "\<exists>i c. M i = Some c \<and> leaf_of i = ?d \<and> g x = message_of i c \<and> ?d @ CHR ''/'' # raw_name x = MsgPath (message_of i c)"
    if x: "x \<in> set raws" for x
  proof -
    from raws(1) x obtain i c where ic: "M i = Some c" "leaf_of i = ?d"
        "?d @ CHR ''/'' # raw_name x = MsgPath (message_of i c)" by blast
    from messageFromPath_message_of [OF nz [OF ic(1)]] have "g x = message_of i c" by (simp add: g_def ic(3))
    with ic show ?thesis by blast
  qed
  have "entry_message ?d (entry_of_raw x) = Inr (g x)" if x: "x \<in> set raws" for x
  proof -
    from g [OF x] obtain i c where ic: "M i = Some c" "g x = message_of i c"
        "?d @ CHR ''/'' # raw_name x = MsgPath (message_of i c)" by blast
    then have "messageFromPath (?d @ ''/'' @ raw_name x) = Inr (g x)"
      using messageFromPath_message_of [OF nz [OF ic(1)]] by simp
    moreover have "fst x = ''100644''" using raws(1) x by blast
    ultimately show ?thesis by (simp add: entry_message_def)
  qed
  then have mr: "map_res (entry_message ?d) (map entry_of_raw raws) = Inr (map g raws)"
    by (induction raws) auto
  have "set (map g raws) = set (leaf_messages M ?d)"
  proof
    show "set (map g raws) \<subseteq> set (leaf_messages M ?d)" using g by (auto simp: set_leaf_messages) blast
    show "set (leaf_messages M ?d) \<subseteq> set (map g raws)"
    proof
      fix m assume "m \<in> set (leaf_messages M ?d)"
      then obtain i c where ic: "m = message_of i c" "M i = Some c" "leaf_of i = ?d" by (auto simp: set_leaf_messages)
      from raws(2) [OF ic(2,3)] obtain x where x: "x \<in> set raws" "raw_name x = message_name i (of_nat (length c))" by auto
      from g [OF x(1)] obtain k e where ke: "M k = Some e" "g x = message_of k e"
          "?d @ CHR ''/'' # raw_name x = MsgPath (message_of k e)" by blast
      then have "MsgPath (message_of i c) = MsgPath (message_of k e)" by (simp add: x(2) message_of_name ic(3))
      from message_of_path_inj [OF nz [OF ic(2)] nz [OF ke(1)] this] have "g x = m" using ke ic by simp
      with x(1) show "m \<in> set (map g raws)" by auto
    qed
  qed
  moreover have dist: "distinct (map MsgID (map g raws))"
    unfolding distinct_map
  proof (intro conjI)
    have inj: "inj_on (\<lambda>x. MsgID (g x)) (set raws)"
    proof (rule inj_onI)
      fix x y assume xy: "x \<in> set raws" "y \<in> set raws" "MsgID (g x) = MsgID (g y)"
      from g [OF xy(1)] obtain i c where x: "M i = Some c" "g x = message_of i c"
          "?d @ CHR ''/'' # raw_name x = MsgPath (message_of i c)" by blast
      from g [OF xy(2)] obtain k e where y: "M k = Some e" "g y = message_of k e"
          "?d @ CHR ''/'' # raw_name y = MsgPath (message_of k e)" by blast
      have "i = k" using xy(3) x(2) y(2) by simp
      then have "c = e" using x(1) y(1) by simp
      then have "?d @ CHR ''/'' # raw_name x = ?d @ CHR ''/'' # raw_name y" unfolding x(3) y(3) \<open>i = k\<close> by simp
      then have "raw_name x = raw_name y" by simp
      with raws(3) xy(1,2) show "x = y" by (simp add: distinct_map inj_on_def)
    qed
    have "distinct raws" using raws(3) by (simp add: distinct_map)
    with inj show "distinct raws" "inj_on g (set raws)" "inj_on MsgID (set (map g raws))"
      by (auto simp: inj_on_def)
  qed
  moreover have inj: "inj_on MsgID (set (map g raws))" using dist unfolding distinct_map by blast
  moreover have "distinct (map MsgID (sort_key MsgID (map g raws)))"
    using dist inj unfolding distinct_map [of MsgID] by (simp only: distinct_sort set_sort simp_thms)
  ultimately have st: "sort_key MsgID (map g raws) = leaf_messages M ?d"
    by (intro map_sorted_distinct_set_unique [where f = MsgID])
       (simp_all only: MsgID_leaf_messages set_sort Un_absorb sorted_sort_key sorted_sorted_list_of_set
          distinct_sorted_list_of_set)
  have "sorted (map MsgID (leaf_messages M ?d)) \<and> distinct (map MsgID (leaf_messages M ?d))"
    by (simp add: MsgID_leaf_messages)
  then have nodup: "\<not> list_ex (\<lambda>i. MsgID (leaf_messages M ?d ! (i - 1)) = MsgID (leaf_messages M ?d ! i))
      [1..<length (leaf_messages M ?d)]"
    by (auto simp: list_ex_iff distinct_conv_nth)
  show ?thesis unfolding directory_messages_def mr bind_res_simps Let_def st using nodup by simp
qed

text \<open>The tree object of a leaf, and what the parser makes of it.\<close>

lemma leaf_tree:
  assumes "repo_ok R" "rp_commit R c = Some fs" "archive_tree fs M" "mailbox_ok M"
    and "rp_resolve R (c @ CHR '':'' # leaf_of j) = Some oid" "rp_object R oid = Some (''tree'', d)"
  obtains raws where "d = concat (map encode_entry raws)" "\<forall>x \<in> set raws. length (snd (snd x)) = length oid div 2"
    "tree_of_dir fs (leaf_of j) raws" "parseTree d (length oid div 2) = Inr (map entry_of_raw raws)"
proof -
  have t: "case fs (leaf_of j) of
           Some d \<Rightarrow> (\<exists>oid. rp_resolve R (c @ CHR '':'' # leaf_of j) = Some oid \<and> rp_object R oid = Some (''blob'', d))
         | None \<Rightarrow>
             (case rp_resolve R (c @ CHR '':'' # leaf_of j) of
                None \<Rightarrow> \<not> files_below fs (leaf_of j)
              | Some oid \<Rightarrow> \<exists>raws. rp_object R oid = Some (''tree'', concat (map encode_entry raws)) \<and>
                  (\<forall>x \<in> set raws. length (snd (snd x)) = length oid div 2) \<and> tree_of_dir fs (leaf_of j) raws)"
    using assms(1,2) leaf_of_plain_path(1) [of j] unfolding repo_ok_def by blast
  have "fs (leaf_of j) = None"
  proof (rule ccontr)
    assume "fs (leaf_of j) \<noteq> None"
    with t assms(5,6) show False by auto
  qed
  with t assms(5,6) obtain raws where r: "d = concat (map encode_entry raws)"
      "\<forall>x \<in> set raws. length (snd (snd x)) = length oid div 2" "tree_of_dir fs (leaf_of j) raws" by auto
  note raws = messages_of_leaf [OF assms(3,4) r(3)]
  have "raw_ok (length oid div 2) x" if x: "x \<in> set raws" for x
  proof -
    obtain mode name raw where n: "x = (mode, name, raw)" by (cases x)
    from raws(1) x n obtain i e where ie: "mode = ''100644''" "leaf_of i = leaf_of j"
        "leaf_of j @ CHR ''/'' # name = MsgPath (message_of i e)" by fastforce
    then have "name = message_name i (of_nat (length e))" by (simp add: message_of_name)
    then have "name \<notin> {[], ''.'', ''..''}" "set name \<inter> {CHR ''/'', CHR 0x0D, CHR 0x0A, CHR 0x00} = {}"
      using message_name_plain [of i "of_nat (length e)"] by (auto simp: plain_elem_def)
    moreover have "length raw = length oid div 2" using r(2) x n by auto
    ultimately show ?thesis unfolding raw_ok_def n prod.case using ie(1) by blast
  qed
  from parse_tree_from_encode [OF this raws(3), where seen = "[]"]
  have "parseTree d (length oid div 2) = Inr (map entry_of_raw raws)" by (simp add: parseTree_def r(1))
  with r show thesis by (rule that)
qed

lemma cached_listing:
  assumes "repo_ok R" "rp_commit R c = Some fs" "archive_tree fs M" "mailbox_ok M"
    and "rp_resolve R (c @ CHR '':'' # leaf_of j) = Some oid" "rp_object R oid = Some (''tree'', d)"
  shows "\<exists>es. (\<forall>r. parseTree d (length oid div 2) = r \<longrightarrow> r = Inr es) \<and>
    directory_messages (leaf_of j) es = Inr (leaf_messages M (leaf_of j))"
proof -
  obtain raws where r: "tree_of_dir fs (leaf_of j) raws" "parseTree d (length oid div 2) = Inr (map entry_of_raw raws)"
    by (rule leaf_tree [OF assms])
  with directory_messages_leaf [OF assms(3,4) r(1)] show ?thesis by blast
qed

text \<open>Whatever the commit and the path, a listing only reads.\<close>

lemma directory_step:
  assumes "git_sound G view" "read_ready view s" "directory G c path s = (res, s')"
  shows "read_step view s s' \<and> read_ready view s'"
proof -
  obtain ho s1 where x1: "store_objectInfo G (c @ '':'' @ path) ''tree'' s = (ho, s1)" by (meson surj_pair)
  note r1 = store_objectInfo_sound [OF assms(1,2) x1]
  show ?thesis
  proof (cases ho)
    case (Inl e)
    with r1 x1 assms(3) show ?thesis by (auto simp: directory_def)
  next
    case (Inr h)
    with r1 obtain d where d: "rp_object (view (st_git s)) (oh_oid h) = Some (''tree'', d)"
        "read_step view s s1" "read_ready view s1" by auto
    let ?key = "\<lparr>ky_path = path, ky_tree = oh_oid h\<rparr>"
    have d1: "rp_object (view (st_git s1)) (oh_oid h) = Some (''tree'', d)"
      using d(1,2) unfolding read_step_def repo_extends_def by blast
    obtain hit ca where g: "cache_get (st_cache s1) ?key = (hit, ca)" by (meson surj_pair)
    let ?s1 = "s1\<lparr>st_cache := ca\<rparr>"
    have "cache_sound (view (st_git s1)) (st_cache s1)" using d(3) by (simp add: read_ready_def)
    from cache_sound_get [OF this g] have ready: "read_ready view ?s1" using d(3) by (simp add: read_ready_def)
    have "read_step view s1 ?s1" by (simp add: read_step_def)
    then have st: "read_step view s ?s1" using d(2) read_step_trans by blast
    note def = assms(3) [unfolded directory_def x1 prod.case Inr sum.case Let_def g]
    show ?thesis
    proof (cases hit)
      case (Some ms)
      with def ready st show ?thesis by auto
    next
      case None
      obtain tr s2 where x2: "tree G (oh_oid h) ?s1 = (tr, s2)" by (meson surj_pair)
      note r2 = tree_sound [OF assms(1) ready x2]
      have st2: "read_step view s s2" using st r2 read_step_trans by blast
      show ?thesis
      proof (cases tr)
        case (Inl e)
        with def None x2 r2 st2 show ?thesis by auto
      next
        case (Inr x)
        obtain es oid where x: "x = (es, oid)" by (cases x)
        have "rp_resolve (view (st_git s1)) (oh_oid h) = Some (oh_oid h)"
          using git_soundD(1) [OF assms(1), of "st_git s1"] d1 unfolding repo_ok_def by blast
        with r2 Inr x d1 have es: "parseTree d (length (oh_oid h) div 2) = Inr es" by auto
        show ?thesis
        proof (cases "directory_messages path es")
          case (Inl e)
          with def None x2 \<open>tr = Inr x\<close> x r2 st2 show ?thesis by auto
        next
          case (Inr ms)
          let ?s' = "s2\<lparr>st_cache := cache_put (st_cache s2) ?key ms\<rparr>"
          have "rp_object (view (st_git s2)) (oh_oid h) = Some (''tree'', d)"
            using d1 r2 unfolding read_step_def repo_extends_def by auto
          then have "listing_of (view (st_git s2)) path (oh_oid h) ms" using es Inr by (auto simp: listing_of_def)
          then have "cache_sound (view (st_git s2)) (cache_put (st_cache s2) ?key ms)"
            using r2 by (intro cache_sound_put) (simp_all add: read_ready_def)
          then have "read_ready view ?s'" using r2 by (simp add: read_ready_def)
          moreover have "read_step view s2 ?s'" by (simp add: read_step_def)
          moreover have "s' = ?s'" using def None x2 \<open>tr = Inr x\<close> x Inr by simp
          ultimately show ?thesis using st2 read_step_trans by blast
        qed
      qed
    qed
  qed
qed

lemma directory_sound:
  assumes "git_sound G view" "read_ready view s"
    and "rp_commit (view (st_git s)) c = Some fs" "archive_tree fs M" "mailbox_ok M"
    and "directory G c (leaf_of j) s = (res, s')"
  shows "read_step view s s' \<and> read_ready view s' \<and>
    (case res of
       Inr ms \<Rightarrow> ms = leaf_messages M (leaf_of j)
     | Inl e \<Rightarrow> errors_is e ErrNoSuchMessage \<longrightarrow> leaf_ids (dom M) (leaf_of j) = {})"
proof -
  let ?R = "view (st_git s)" and ?spec = "c @ '':'' @ leaf_of j"
  have R: "repo_ok ?R" by (rule git_soundD(1) [OF assms(1)])
  obtain ho s1 where x1: "store_objectInfo G ?spec ''tree'' s = (ho, s1)" by (meson surj_pair)
  note r1 = store_objectInfo_sound [OF assms(1,2) x1]
  show ?thesis
  proof (cases ho)
    case (Inl e)
    have "leaf_ids (dom M) (leaf_of j) = {}" if e: "errors_is e ErrNoSuchMessage"
    proof -
      have none: "rp_resolve ?R (c @ CHR '':'' # leaf_of j) = None" using r1 Inl e by simp
      have "\<not> files_below fs (leaf_of j)"
        using R assms(3) leaf_of_plain_path(1) [of j] none unfolding repo_ok_def
        by (cases "fs (leaf_of j)") fastforce+
      then have "fs (leaf_of j @ CHR ''/'' # name) = None" for name by (auto simp: files_below_def)
      then show ?thesis
        using leaf_file [OF assms(4,5)] message_name_plain(1)
        by (auto simp: leaf_ids_def plain_elem_def) (metis option.distinct(1))
    qed
    with r1 Inl x1 assms(6) show ?thesis by (auto simp: directory_def)
  next
    case (Inr h)
    with r1 obtain d where d: "rp_resolve ?R ?spec = Some (oh_oid h)" "rp_object ?R (oh_oid h) = Some (''tree'', d)"
        "read_step view s s1" "read_ready view s1" by auto
    from cached_listing [OF R assms(3-5) _ d(2)] d(1) obtain es where
      es: "parseTree d (length (oh_oid h) div 2) = Inr es" "directory_messages (leaf_of j) es = Inr (leaf_messages M (leaf_of j))"
      by auto
    let ?key = "\<lparr>ky_path = leaf_of j, ky_tree = oh_oid h\<rparr>"
    have ext: "rp_object ?R x = Some y \<Longrightarrow> rp_object (view (st_git s1)) x = Some y" for x y
      using d(3) unfolding read_step_def repo_extends_def by blast
    have list: "ms = leaf_messages M (leaf_of j)" if "listing_of (view (st_git s1)) (leaf_of j) (oh_oid h) ms" for ms
      using that ext [OF d(2)] es by (auto simp: listing_of_def)
    obtain hit ca where g: "cache_get (st_cache s1) ?key = (hit, ca)" by (meson surj_pair)
    let ?s1 = "s1\<lparr>st_cache := ca\<rparr>"
    from d(4) have "cache_sound (view (st_git s1)) (st_cache s1)" by (simp add: read_ready_def)
    from cache_sound_get [OF this g] have ca: "cache_sound (view (st_git s1)) ca"
        "\<forall>ms. hit = Some ms \<longrightarrow> listing_of (view (st_git s1)) (leaf_of j) (oh_oid h) ms" by simp_all
    have ready: "read_ready view ?s1" using d(4) ca(1) by (simp add: read_ready_def)
    have "read_step view s1 ?s1" by (simp add: read_step_def)
    then have st: "read_step view s ?s1" using d(3) read_step_trans by blast
    note def = assms(6) [unfolded directory_def x1 prod.case Inr sum.case Let_def g]
    show ?thesis
    proof (cases hit)
      case (Some ms)
      with def ca(2) list ready st show ?thesis by auto
    next
      case None
      obtain tr s2 where x2: "tree G (oh_oid h) ?s1 = (tr, s2)" by (meson surj_pair)
      note r2 = tree_sound [OF assms(1) ready x2]
      have res: "rp_resolve (view (st_git s1)) (oh_oid h) = Some (oh_oid h)"
        using git_soundD(1) [OF assms(1), of "st_git s1"] ext [OF d(2)] unfolding repo_ok_def by blast
      have st2: "read_step view s s2" using st r2 read_step_trans by blast
      show ?thesis
      proof (cases tr)
        case (Inl e)
        with def None x2 r2 res st2 show ?thesis by auto
      next
        case (Inr x)
        obtain es' oid where x: "x = (es', oid)" by (cases x)
        with r2 Inr res ext [OF d(2)] es have es': "oid = oh_oid h" "es' = es" by auto
        have "listing_of (view (st_git s2)) (leaf_of j) (oh_oid h) (leaf_messages M (leaf_of j))"
          using ext [OF d(2)] es r2 unfolding listing_of_def read_step_def repo_extends_def by auto
        then have "cache_sound (view (st_git s2)) (cache_put (st_cache s2) ?key (leaf_messages M (leaf_of j)))"
          using r2 by (intro cache_sound_put) (simp_all add: read_ready_def)
        then have "read_ready view (s2\<lparr>st_cache := cache_put (st_cache s2) ?key (leaf_messages M (leaf_of j))\<rparr>)"
          using r2 by (simp add: read_ready_def)
        moreover have "read_step view s2 (s2\<lparr>st_cache := cache_put (st_cache s2) ?key (leaf_messages M (leaf_of j))\<rparr>)"
          by (simp add: read_step_def)
        moreover have "res = Inr (leaf_messages M (leaf_of j))"
            "s' = s2\<lparr>st_cache := cache_put (st_cache s2) ?key (leaf_messages M (leaf_of j))\<rparr>"
          using def None x2 Inr x es' by (simp_all add: es(2))
        ultimately show ?thesis
          using st2 read_step_trans by (simp only: sum.case) blast
      qed
    qed
  qed
qed

end
