(* ===== verification/Mailbox_Snapshot.thy ===== *)
theory Mailbox_Snapshot
  imports Mailbox_Lookup
begin

text \<open>
  Snapshots: a snapshot shows a mailbox, and goes on showing it whatever is committed later. The
  operations on a snapshot (\<open>Lookup\<close>, \<open>messageByID\<close>, \<open>ListAt\<close>, \<open>OpenMessage\<close>) answer for that
  mailbox.
\<close>

section \<open>The messages in order\<close>

definition mail_list :: "mailbox \<Rightarrow> message list" where
  "mail_list M = map (\<lambda>i. message_of i (the (M i))) (sorted_list_of_set (dom M))"

lemma length_mail_list [simp]: "length (mail_list M) = card (dom M)"
  by (simp add: mail_list_def)

lemma sorted_at:
  assumes "finite A" "i \<in> A"
  shows "card {x \<in> A. x < i} < card A" "sorted_list_of_set A ! card {x \<in> A. x < i} = (i :: 'a :: linorder)"
proof -
  let ?l = "sorted_list_of_set A"
  obtain k where k: "k < length ?l" "?l ! k = i" using assms by (metis in_set_conv_nth set_sorted_list_of_set)
  have lt: "?l ! j < i \<longleftrightarrow> j < k" if "j < length ?l" for j
    using that k sorted_sorted_list_of_set [of A] distinct_sorted_list_of_set [of A]
    by (metis distinct_conv_nth le_less_linear less_le not_le sorted_nth_mono)
  have "{x \<in> A. x < i} = (\<lambda>j. ?l ! j) ` {..<k}"
  proof
    show "{x \<in> A. x < i} \<subseteq> (\<lambda>j. ?l ! j) ` {..<k}"
    proof
      fix x assume "x \<in> {x \<in> A. x < i}"
      then obtain j where "j < length ?l" "?l ! j = x" "x < i" using assms(1) by (metis (mono_tags) in_set_conv_nth mem_Collect_eq set_sorted_list_of_set)
      with lt show "x \<in> (\<lambda>j. ?l ! j) ` {..<k}" by auto
    qed
    show "(\<lambda>j. ?l ! j) ` {..<k} \<subseteq> {x \<in> A. x < i}"
      using lt k(1) assms(1) nth_mem [of _ ?l] by auto
  qed
  moreover have "inj_on (\<lambda>j. ?l ! j) {..<k}"
    using k(1) by (intro inj_onI) (simp add: nth_eq_iff_index_eq)
  ultimately have "card {x \<in> A. x < i} = k" by (simp add: card_image)
  with k show "card {x \<in> A. x < i} < card A" "?l ! card {x \<in> A. x < i} = i" by simp_all
qed

lemma sorted_rank:
  assumes "finite A" "k < card A"
  shows "card {x \<in> A. x \<le> sorted_list_of_set A ! k} = Suc k"
proof -
  let ?i = "sorted_list_of_set A ! k"
  have i: "?i \<in> A" using assms by (metis length_sorted_list_of_set nth_mem set_sorted_list_of_set)
  from sorted_at [OF assms(1) i] assms have "card {x \<in> A. x < ?i} = k"
    by (metis distinct_sorted_list_of_set length_sorted_list_of_set nth_eq_iff_index_eq)
  moreover have "{x \<in> A. x \<le> ?i} = insert ?i {x \<in> A. x < ?i}" using i by auto
  ultimately show ?thesis using assms(1) by simp
qed

lemma leaf_of_eq: "leaf_of i = leaf_of j \<longleftrightarrow> unat i div 1024 = unat j div 1024"
  by (simp add: leaf_of_def leaf_path_inj leaf_number_u64)

lemma leaf_ids_number: "leaf_ids S (leaf_of j) = {i \<in> S. unat i div 1024 = unat j div 1024}"
  by (auto simp: leaf_ids_def leaf_of_eq)

lemma length_leaf_messages: "length (leaf_messages M (leaf_of j)) = leaf_card (dom M) (unat j div 1024)"
  by (simp add: leaf_messages_def leaf_ids_number leaf_card_def)

lemma leaf_messages_nth:
  assumes "M i = Some c"
  shows "leaf_messages M (leaf_of i) ! card {x \<in> dom M. unat x div 1024 = unat i div 1024 \<and> x < i} = message_of i c"
    "card {x \<in> dom M. unat x div 1024 = unat i div 1024 \<and> x < i} < leaf_card (dom M) (unat i div 1024)"
proof -
  let ?A = "leaf_ids (dom M) (leaf_of i)"
  have "i \<in> ?A" using assms by (auto simp: leaf_ids_def)
  note at = sorted_at [OF finite_leaf_ids this]
  have "{x \<in> ?A. x < i} = {x \<in> dom M. unat x div 1024 = unat i div 1024 \<and> x < i}"
    by (auto simp: leaf_ids_number)
  with at assms show "leaf_messages M (leaf_of i) ! card {x \<in> dom M. unat x div 1024 = unat i div 1024 \<and> x < i} = message_of i c"
    "card {x \<in> dom M. unat x div 1024 = unat i div 1024 \<and> x < i} < leaf_card (dom M) (unat i div 1024)"
    by (simp_all add: leaf_messages_def leaf_card_def leaf_ids_number)
qed

section \<open>What a snapshot shows\<close>

definition snapshot_shows :: "('g \<Rightarrow> repo) \<Rightarrow> 'g store \<Rightarrow> snapshot \<Rightarrow> mailbox \<Rightarrow> bool" where
  "snapshot_shows view s snap M \<longleftrightarrow> mailbox_ok M \<and> sn_index snap = Some (index_of_set (dom M)) \<and>
     sn_MessageCount snap = of_nat (card (dom M)) \<and> unat (sn_TotalOctets snap) = mailbox_octets M \<and>
     (\<forall>i \<in> dom M. i \<le> sn_LastID snap) \<and> validObjectID (sn_commit snap) \<and>
     (\<exists>fs. rp_commit (view (st_git s)) (sn_commit snap) = Some fs \<and> archive_tree fs M)"

lemma Snapshot_shows:
  assumes "store_holds view s M" "st_failure s = None"
  shows "snapshot_shows view s (Snapshot s) M"
  using assms
  by (auto simp: store_holds_def state_ok_def committed_def snapshot_shows_def Snapshot_def snapshotLocked_def index_of_set_def)

lemma snapshot_shows_extends:
  "repo_extends (view (st_git s)) (view (st_git s')) \<Longrightarrow> snapshot_shows view s snap M \<Longrightarrow> snapshot_shows view s' snap M"
  unfolding snapshot_shows_def repo_extends_def by blast

lemma snapshot_showsD:
  assumes "snapshot_shows view s snap M"
  shows "mailbox_ok M" "sn_index snap = Some (index_of_set (dom M))" "0 \<notin> dom M" "i \<in> dom M \<Longrightarrow> i \<le> sn_LastID snap"
  using assms by (auto simp: snapshot_shows_def mailbox_ok_def)

lemma snapshot_directory:
  assumes "git_sound G view" "read_ready view s" "snapshot_shows view s snap M"
    and "directory G (sn_commit snap) (leaf_of j) s = (res, s')"
  shows "read_step view s s' \<and> read_ready view s' \<and> snapshot_shows view s' snap M \<and>
    (case res of
       Inr ms \<Rightarrow> ms = leaf_messages M (leaf_of j)
     | Inl e \<Rightarrow> errors_is e ErrNoSuchMessage \<longrightarrow> leaf_ids (dom M) (leaf_of j) = {})"
proof -
  from assms(3) obtain fs where "rp_commit (view (st_git s)) (sn_commit snap) = Some fs" "archive_tree fs M" "mailbox_ok M"
    by (auto simp: snapshot_shows_def)
  from directory_sound [OF assms(1,2) this assms(4)] snapshot_shows_extends [OF _ assms(3)] read_stepD(1) show ?thesis by blast
qed

section \<open>Lookup by number\<close>

text \<open>The leaf and the place in it that the index gives for a number.\<close>

lemma selected_leaf:
  assumes "0 \<notin> dom M" "number \<noteq> 0" "unat number \<le> card (dom M)"
  obtains i c acc where "M i = Some c" "mail_list M ! (unat number - 1) = message_of i c"
    "selectLeaf (Some (index_of_set (dom M))) number =
      Some (\<lparr>dc_path = leaf_of i, dc_count = of_nat (leaf_card (dom M) (unat i div 1024)), dc_accumulated = acc\<rparr>,
          of_nat (card {x \<in> dom M. unat x div 1024 = unat i div 1024 \<and> x < i}))"
proof -
  let ?k = "unat number - 1"
  have "0 < unat number" using assms(2) by (simp add: unat_gt_0)
  then have n: "Suc ?k = unat number" "?k < card (dom M)" using assms(3) by linarith+
  define i where "i = sorted_list_of_set (dom M) ! ?k"
  have fin: "finite (dom M)" by simp
  have i: "i \<in> dom M" using n(2) fin unfolding i_def by (metis length_sorted_list_of_set nth_mem set_sorted_list_of_set)
  then obtain c where c: "M i = Some c" by blast
  have "card {x \<in> dom M. x \<le> i} = unat number" using sorted_rank [OF fin n(2)] n(1) by (simp add: i_def)
  with selectLeaf_rank [OF assms(1) i] obtain acc where "selectLeaf (Some (index_of_set (dom M))) number =
    Some (\<lparr>dc_path = leaf_of i, dc_count = of_nat (leaf_card (dom M) (unat i div 1024)), dc_accumulated = acc\<rparr>,
        of_nat (card {x \<in> dom M. unat x div 1024 = unat i div 1024 \<and> x < i}))" by auto
  moreover have "mail_list M ! ?k = message_of i c" using n(2) c by (simp add: mail_list_def i_def)
  ultimately show thesis using c that by blast
qed

lemma Lookup_sound:
  assumes "git_sound G view" "read_ready view s" "snapshot_shows view s snap M"
    and "Lookup G snap number s = (res, s')"
  shows "read_step view s s' \<and> read_ready view s' \<and> snapshot_shows view s' snap M \<and>
    (if number = 0 \<or> card (dom M) < unat number then res = Inl ErrNoSuchMessage
     else case res of
            Inr m \<Rightarrow> m = mail_list M ! (unat number - 1)
          | Inl e \<Rightarrow> os_error e)"
proof -
  note sh = snapshot_showsD [OF assms(3)]
  note def = assms(4) [unfolded Lookup_def sh(2)]
  show ?thesis
  proof (cases "number = 0 \<or> card (dom M) < unat number")
    case True
    then have "selectLeaf (Some (index_of_set (dom M))) number = None" using selectLeaf_None [OF sh(3)] by simp
    with def assms(2,3) True show ?thesis by auto
  next
    case False
    then have n: "number \<noteq> 0" "unat number \<le> card (dom M)" by simp_all
    obtain i c acc where i: "M i = Some c" "mail_list M ! (unat number - 1) = message_of i c"
      and sel: "selectLeaf (Some (index_of_set (dom M))) number =
        Some (\<lparr>dc_path = leaf_of i, dc_count = of_nat (leaf_card (dom M) (unat i div 1024)), dc_accumulated = acc\<rparr>,
          of_nat (card {x \<in> dom M. unat x div 1024 = unat i div 1024 \<and> x < i}))"
      by (rule selected_leaf [OF sh(3) n])
    obtain dr s1 where x: "directory G (sn_commit snap) (leaf_of i) s = (dr, s1)" by (meson surj_pair)
    note d = snapshot_directory [OF assms(1-3) x]
    show ?thesis
    proof (cases dr)
      case (Inl e)
      have "i \<in> leaf_ids (dom M) (leaf_of i)" using i(1) by (auto simp: leaf_ids_def)
      with d Inl have "os_error e" by (auto simp: os_error_def)
      with def sel x Inl d False show ?thesis by auto
    next
      case (Inr ms)
      with d have ms: "ms = leaf_messages M (leaf_of i)" by simp
      let ?o = "card {x \<in> dom M. unat x div 1024 = unat i div 1024 \<and> x < i}"
      note at = leaf_messages_nth [where M = M, OF i(1)]
      have "?o < 18446744073709551616" using at(2) leaf_card_bound [of "dom M" "unat i div 1024"] sh(3) by simp
      then have "unat (of_nat ?o :: u64) = ?o" by (rule unat_of_nat_u64)
      then have "res = Inr (message_of i c)" "s' = s1"
        using def sel x Inr at(1) by (simp_all add: ms length_leaf_messages)
      then show ?thesis using d False i(2) by simp
    qed
  qed
qed

section \<open>Lookup by ID\<close>

text \<open>Binary search for a key in a sorted list.\<close>

lemma sort_search_key:
  fixes x :: "'a :: linorder"
  assumes "sorted (map key xs)"
  defines "p \<equiv> sort_search (length xs) (\<lambda>k. x \<le> key (xs ! k))"
  shows "p = length xs \<or> key (xs ! p) \<noteq> x \<longleftrightarrow> x \<notin> key ` set xs" "p \<le> length xs"
proof -
  let ?f = "\<lambda>k. x \<le> key (xs ! k)"
  have mono: "key (xs ! a) \<le> key (xs ! b)" if "a \<le> b" "b < length xs" for a b
    using sorted_nth_mono [OF assms(1), of a b] that by simp
  then have "\<forall>a b. a \<le> b \<and> b < length xs \<and> ?f a \<longrightarrow> ?f b" using order_trans by blast
  from search_range_spec [OF _ this, of 0]
  have s: "p \<le> length xs" "p < length xs \<longrightarrow> ?f p" "\<forall>i < p. \<not> ?f i"
    by (auto simp: sort_search_def p_def)
  show "p \<le> length xs" by (rule s(1))
  show "p = length xs \<or> key (xs ! p) \<noteq> x \<longleftrightarrow> x \<notin> key ` set xs"
  proof
    assume a: "p = length xs \<or> key (xs ! p) \<noteq> x"
    show "x \<notin> key ` set xs"
    proof
      assume "x \<in> key ` set xs"
      then obtain j where j: "j < length xs" "key (xs ! j) = x" by (auto simp: in_set_conv_nth)
      then have "p \<le> j" using s(3) by (meson not_le order_refl)
      with j s(1,2) mono [of p j] a show False by (auto dest: order.antisym)
    qed
  next
    assume "x \<notin> key ` set xs"
    with s(1) show "p = length xs \<or> key (xs ! p) \<noteq> x" by (cases "p = length xs") auto
  qed
qed

lemma leaves_sorted: "sorted (map dc_path (di_leaves (index_of_set S)))"
  and leaves_paths: "dc_path ` set (di_leaves (index_of_set S)) = leaf_of ` S"
  and leaf_at: "k < length (di_leaves (index_of_set S)) \<Longrightarrow> dc_path (di_leaves (index_of_set S) ! k) = leaf_of i \<Longrightarrow>
     dc_count (di_leaves (index_of_set S) ! k) = of_nat (leaf_card S (unat i div 1024))"
proof -
  let ?qs = "sorted_list_of_set (set_leaves S)"
  have ws: "map dc_path (with_sums t xs) = map (leaf_path \<circ> fst) xs" for t xs
    by (induction t xs rule: with_sums.induct) simp_all
  have paths: "map dc_path (di_leaves (index_of_set S)) = map leaf_path ?qs"
    by (simp add: index_of_set_def ws entries_of_def)
  have "sorted_wrt (\<lambda>x y. leaf_path x \<le> leaf_path y) ?qs"
    by (rule sorted_wrt_mono_rel [OF _ sorted_sorted_list_of_set]) (simp add: set_leaves_bound leaf_path_mono)
  then show "sorted (map dc_path (di_leaves (index_of_set S)))" by (simp add: paths sorted_wrt_map)
  have "dc_path ` set (di_leaves (index_of_set S)) = set (map leaf_path ?qs)" by (simp only: flip: paths) simp
  then show "dc_path ` set (di_leaves (index_of_set S)) = leaf_of ` S"
    by (simp add: set_leaves_def image_image leaf_of_def)
  assume k: "k < length (di_leaves (index_of_set S))" "dc_path (di_leaves (index_of_set S) ! k) = leaf_of i"
  then have k': "k < length (entries_of S)" "k < length ?qs" by (simp_all add: index_of_set_def entries_of_def)
  then have "leaf_path (?qs ! k) = leaf_of i" using k by (simp add: index_of_set_def with_sums_nth entries_of_def)
  moreover have "?qs ! k < 18014398509481984"
    using k'(2) nth_mem [of k ?qs] set_leaves_bound [of "?qs ! k" S] by simp
  ultimately have "?qs ! k = unat i div 1024" by (simp add: leaf_of_def leaf_path_inj leaf_number_u64)
  then show "dc_count (di_leaves (index_of_set S) ! k) = of_nat (leaf_card S (unat i div 1024))"
    using k' by (simp add: index_of_set_def with_sums_nth entries_of_def)
qed

lemma messageByID_sound:
  assumes "git_sound G view" "read_ready view s" "snapshot_shows view s snap M"
    and "messageByID G snap i s = (res, s')"
  shows "read_step view s s' \<and> read_ready view s' \<and> snapshot_shows view s' snap M \<and>
    (case res of
       Inr m \<Rightarrow> \<exists>c. M i = Some c \<and> m = message_of i c
     | Inl e \<Rightarrow> errors_is e ErrNoSuchMessage \<longrightarrow> M i = None)"
proof -
  note sh = snapshot_showsD [OF assms(3)]
  let ?S = "dom M" and ?leaves = "di_leaves (index_of_set (dom M))"
  note def = assms(4) [unfolded messageByID_def sh(2) option.case]
  show ?thesis
  proof (cases "i = 0 \<or> sn_LastID snap < i")
    case True
    then have "M i = None" using sh(3) sh(4) [of i] by (metis domIff leD)
    with def True assms(2,3) show ?thesis by auto
  next
    case False
    then have path: "(case messageRelativePath i of Inl _ \<Rightarrow> path_dir [] | Inr legacy \<Rightarrow> path_dir legacy) = leaf_of i"
      using messageRelativePath_leaf [of i] path_dir_relative [of i] by (auto split: sum.split)
    define p where "p = sort_search (length ?leaves) (\<lambda>k. leaf_of i \<le> dc_path (?leaves ! k))"
    note srch = sort_search_key [OF leaves_sorted [of ?S], of "leaf_of i", folded p_def, unfolded leaves_paths]
    note def = def [unfolded path Let_def if_not_P [OF False], folded p_def]
    show ?thesis
    proof (cases "p = length ?leaves \<or> dc_path (?leaves ! p) \<noteq> leaf_of i")
      case True
      then have "M i = None" using srch by auto
      with def True assms(2,3) show ?thesis by auto
    next
      case c2: False
      obtain dr s1 where x: "directory G (sn_commit snap) (leaf_of i) s = (dr, s1)" by (meson surj_pair)
      note d = snapshot_directory [OF assms(1-3) x]
      note def = def [unfolded if_not_P [OF c2] x prod.case]
      show ?thesis
      proof (cases dr)
        case (Inl e)
        then have "errors_is e ErrNoSuchMessage \<longrightarrow> M i = None" using d by (auto simp: leaf_ids_def)
        with def Inl d show ?thesis by auto
      next
        case (Inr ms)
        with d have ms: "ms = leaf_messages M (leaf_of i)" by simp
        have cnt: "of_nat (length ms) = dc_count (?leaves ! p)"
          using leaf_at [where S = ?S and k = p and i = i] c2 srch(2) by (simp add: ms length_leaf_messages)
        define k where "k = sort_search (length ms) (\<lambda>k. i \<le> MsgID (ms ! k))"
        have "sorted (map MsgID ms)" by (simp add: ms MsgID_leaf_messages)
        note srch2 = sort_search_key [OF this, of i, folded k_def]
        note def = def [unfolded Inr sum.case cnt, simplified, folded k_def]
        show ?thesis
        proof (cases "k = length ms \<or> MsgID (ms ! k) \<noteq> i")
          case True
          then have "i \<notin> set (map MsgID ms)" using srch2 by simp
          then have "M i = None" by (auto simp: ms MsgID_leaf_messages leaf_ids_def)
          with def True d show ?thesis by auto
        next
          case hit: False
          then have "ms ! k \<in> set ms" using srch2(2) by simp
          with hit obtain c where "M i = Some c" "ms ! k = message_of i c" by (auto simp: ms set_leaf_messages)
          with def hit d show ?thesis by auto
        qed
      qed
    qed
  qed
qed

section \<open>Listing\<close>

text \<open>What \<open>ListAt\<close> is to do: visit the messages in order, numbered from one, until a visit fails.\<close>

fun visit_all ::
  "(u64 \<Rightarrow> u64 \<Rightarrow> u64 \<Rightarrow> 'c \<Rightarrow> goerr option \<times> 'c) \<Rightarrow> u64 \<Rightarrow> message list \<Rightarrow> 'c \<Rightarrow> goerr option \<times> 'c" where
  "visit_all visit number [] c = (None, c)"
| "visit_all visit number (m # ms) c =
     (case visit (number + 1) (MsgID m) (MsgSize m) c of
        (Some e, c) \<Rightarrow> (Some e, c)
      | (None, c) \<Rightarrow> visit_all visit (number + 1) ms c)"

lemma visit_all_append:
  "visit_all visit n (xs @ ys) c =
     (case visit_all visit n xs c of (Some e, c) \<Rightarrow> (Some e, c) | (None, c) \<Rightarrow> visit_all visit (n + of_nat (length xs)) ys c)"
  by (induction xs arbitrary: n c) (auto split: prod.split option.split simp: add_ac)

lemma list_messages_visit:
  "\<forall>m \<in> set ms. \<not> lastID < MsgID m \<Longrightarrow>
   list_messages lastID visit n ms c =
     (case visit_all visit n ms c of (Some e, c) \<Rightarrow> (Inl e, c) | (None, c) \<Rightarrow> (Inr (n + of_nat (length ms)), c))"
  by (induction ms arbitrary: n c) (auto split: prod.split option.split simp: add_ac)

lemma sorted_concat:
  fixes f :: "'a :: linorder \<Rightarrow> 'b :: linorder list"
  assumes "sorted_wrt (<) qs" "\<And>q. q \<in> set qs \<Longrightarrow> sorted_wrt (<) (f q)"
    and "\<And>p q x y. p < q \<Longrightarrow> x \<in> set (f p) \<Longrightarrow> y \<in> set (f q) \<Longrightarrow> x < y"
  shows "sorted_wrt (<) (concat (map f qs))"
  using assms(1,2) by (induction qs) (auto simp: sorted_wrt_append intro: assms(3))

lemma leaves_in_order:
  "concat (map (\<lambda>q. leaf_messages M (leaf_path q)) (sorted_list_of_set (set_leaves (dom M)))) = mail_list M"
proof -
  let ?S = "dom M" and ?m = "\<lambda>i. message_of i (the (M i))"
  let ?f = "\<lambda>q. sorted_list_of_set {i \<in> ?S. unat i div 1024 = q}"
  have ids: "leaf_ids ?S (leaf_path q) = {i \<in> ?S. unat i div 1024 = q}" if "q \<in> set_leaves ?S" for q
    using that set_leaves_bound [OF that] by (auto simp: leaf_ids_def leaf_of_def leaf_path_inj leaf_number_u64)
  have "sorted_wrt (<) (concat (map ?f (sorted_list_of_set (set_leaves ?S))))"
  proof (rule sorted_concat)
    show "x < y" if "p < q" "x \<in> set (?f p)" "y \<in> set (?f q)" for p q :: nat and x y
      using that by (auto simp: word_less_nat_alt)
  qed (simp_all flip: strict_sorted_iff)
  moreover have "set (concat (map ?f (sorted_list_of_set (set_leaves ?S)))) = ?S" by (auto simp: set_leaves_def)
  ultimately have "concat (map ?f (sorted_list_of_set (set_leaves ?S))) = sorted_list_of_set ?S"
    by (intro strict_sorted_equal) (simp_all add: set_leaves_def)
  then have "map ?m (concat (map ?f (sorted_list_of_set (set_leaves ?S)))) = mail_list M"
    by (simp only: mail_list_def)
  moreover have "map (\<lambda>q. leaf_messages M (leaf_path q)) (sorted_list_of_set (set_leaves ?S)) =
      map (\<lambda>q. map ?m (?f q)) (sorted_list_of_set (set_leaves ?S))"
    by (intro map_cong refl) (simp add: leaf_messages_def ids)
  ultimately show ?thesis by (simp only: map_concat map_map comp_def)
qed

lemma list_leaves_sound:
  assumes "git_sound G view" "read_ready view s" "snapshot_shows view s snap M" "set qs \<subseteq> set_leaves (dom M)"
    and "list_leaves G snap visit n (with_sums t (map (\<lambda>q. (q, leaf_card (dom M) q)) qs)) c s = (err, c', s')"
  defines "ms \<equiv> concat (map (\<lambda>q. leaf_messages M (leaf_path q)) qs)"
  shows "read_step view s s' \<and> read_ready view s' \<and> snapshot_shows view s' snap M \<and>
    ((err, c') = visit_all visit n ms c \<or>
     (\<exists>e xs ys. err = Some e \<and> os_error e \<and> ms = xs @ ys \<and> visit_all visit n xs c = (None, c')))"
  using assms(2-5) unfolding ms_def
proof (induction qs arbitrary: t n c s)
  case Nil
  then show ?case by simp
next
  case (Cons q qs)
  from Cons.prems(3) obtain i where i: "i \<in> dom M" "q = unat i div 1024" by (auto simp: set_leaves_def)
  then have lp: "leaf_path q = leaf_of i" by (simp add: leaf_of_def)
  obtain dr s1 where x: "directory G (sn_commit snap) (leaf_of i) s = (dr, s1)" by (meson surj_pair)
  note d = snapshot_directory [OF assms(1) Cons.prems(1,2) x]
  note def = Cons.prems(4) [simplified, unfolded lp x prod.case]
  show ?case
  proof (cases dr)
    case (Inl e)
    have "i \<in> leaf_ids (dom M) (leaf_of i)" using i by (simp add: leaf_ids_def)
    with d Inl have "os_error e" by (auto simp: os_error_def)
    moreover have "err = Some e" "c' = c" "s' = s1" using def Inl by simp_all
    moreover have "visit_all visit n [] c = (None, c)" by simp
    ultimately show ?thesis using d append_Nil by blast
  next
    case (Inr ms)
    with d have ms: "ms = leaf_messages M (leaf_of i)" by simp
    have "\<forall>m \<in> set ms. \<not> sn_LastID snap < MsgID m"
      using snapshot_showsD(4) [OF Cons.prems(2)] by (force simp: ms set_leaf_messages not_less)
    note lm = list_messages_visit [OF this, of visit n c]
    obtain v c1 where v: "visit_all visit n ms c = (v, c1)" by (meson surj_pair)
    have len: "of_nat (length ms) = (of_nat (leaf_card (dom M) q) :: u64)" by (simp add: ms length_leaf_messages i(2))
    show ?thesis
    proof (cases v)
      case (Some e)
      then have "err = Some e" "c' = c1" "s' = s1" using def Inr lm v len by simp_all
      with d Some v ms lp show ?thesis by (simp add: visit_all_append)
    next
      case None
      then have "list_leaves G snap visit (n + of_nat (length ms))
          (with_sums (t + leaf_card (dom M) q) (map (\<lambda>q. (q, leaf_card (dom M) q)) qs)) c1 s1 = (err, c', s')"
        using def Inr lm v len by simp
      from Cons.IH [OF _ _ _ this] d Cons.prems(3)
      have IH: "read_step view s1 s'" "read_ready view s'" "snapshot_shows view s' snap M"
        "(err, c') = visit_all visit (n + of_nat (length ms)) (concat (map (\<lambda>q. leaf_messages M (leaf_path q)) qs)) c1 \<or>
        (\<exists>e xs ys. err = Some e \<and> os_error e \<and> concat (map (\<lambda>q. leaf_messages M (leaf_path q)) qs) = xs @ ys \<and>
            visit_all visit (n + of_nat (length ms)) xs c1 = (None, c'))"
        by auto
      let ?ms = "concat (map (\<lambda>q. leaf_messages M (leaf_path q)) (q # qs))"
      have eq: "?ms = ms @ concat (map (\<lambda>q. leaf_messages M (leaf_path q)) qs)" by (simp add: ms lp)
      have "(err, c') = visit_all visit n ?ms c \<or>
        (\<exists>e xs ys. err = Some e \<and> os_error e \<and> ?ms = xs @ ys \<and> visit_all visit n xs c = (None, c'))"
        using IH(4)
      proof (elim disjE exE conjE)
        fix e xs ys
        assume a: "err = Some e" "os_error e" "concat (map (\<lambda>q. leaf_messages M (leaf_path q)) qs) = xs @ ys"
          "visit_all visit (n + of_nat (length ms)) xs c1 = (None, c')"
        then have "?ms = (ms @ xs) @ ys" "visit_all visit n (ms @ xs) c = (None, c')"
          using v None by (simp_all add: eq visit_all_append del: concat.simps list.map)
        with a(1,2) show ?thesis by blast
      qed (simp add: eq visit_all_append v None del: concat.simps list.map)
      with IH(1-3) d read_step_trans show ?thesis by blast
    qed
  qed
qed

lemma ListAt_sound:
  assumes "git_sound G view" "read_ready view s" "snapshot_shows view s snap M"
    and "ListAt G snap visit c s = (err, c', s')"
  shows "read_step view s s' \<and> read_ready view s' \<and> snapshot_shows view s' snap M \<and>
    ((err, c') = visit_all visit 0 (mail_list M) c \<or>
     (\<exists>e xs ys. err = Some e \<and> os_error e \<and> mail_list M = xs @ ys \<and> visit_all visit 0 xs c = (None, c')))"
proof -
  note sh = snapshot_showsD [OF assms(3)]
  have "list_leaves G snap visit 0
      (with_sums 0 (map (\<lambda>q. (q, leaf_card (dom M) q)) (sorted_list_of_set (set_leaves (dom M))))) c s = (err, c', s')"
    using assms(4) by (simp add: ListAt_def sh(2) index_of_set_def entries_of_def)
  from list_leaves_sound [OF assms(1-3) _ this] show ?thesis by (simp add: leaves_in_order)
qed

section \<open>Opening\<close>

lemma OpenMessage_sound:
  assumes "git_sound G view" "read_ready view s" "snapshot_shows view s snap M" "M i = Some c"
    and "OpenMessage G snap (message_of i c) s = (res, s')"
  shows "read_step view s s' \<and> cache_sound (view (st_git s')) (st_cache s') \<and> snapshot_shows view s' snap M \<and>
    (case res of
       Inr br \<Rightarrow> reading c br (leased_pipe (st_reader s')) \<and> rs_process (st_reader s') \<noteq> None
     | Inl e \<Rightarrow> read_ready view s' \<and> os_error e)"
proof -
  note sh = snapshot_showsD [OF assms(3)]
  have i: "i \<noteq> 0" "\<not> sn_LastID snap < i" using sh(3) sh(4) [of i] assms(4) by (auto simp: not_less)
  let ?m = "message_of i c"
  have "\<not> (messageFromPath (MsgPath ?m) \<noteq> Inr ?m \<or> sn_LastID snap < MsgID ?m)"
    using messageFromPath_message_of [OF i(1)] i(2) by simp
  note def = assms(5) [unfolded OpenMessage_def if_not_P [OF this] store_readBlob_def]
  from assms(3) obtain fs where fs: "rp_commit (view (st_git s)) (sn_commit snap) = Some fs" "archive_tree fs M" "mailbox_ok M"
    by (auto simp: snapshot_shows_def)
  have blob: "fs (MsgPath ?m) = Some c"
    using leaf_file [OF fs(2,3), of "message_name i (of_nat (length c))" i c] message_name_plain(1) assms(4)
    by (auto simp: message_of_name plain_elem_def)
  have "repo_ok (view (st_git s))" by (rule git_soundD(1) [OF assms(1)])
  then have "case fs (MsgPath ?m) of
      Some d \<Rightarrow> (\<exists>oid. rp_resolve (view (st_git s)) (sn_commit snap @ CHR '':'' # MsgPath ?m) = Some oid \<and>
         rp_object (view (st_git s)) oid = Some (''blob'', d))
    | None \<Rightarrow> True"
    using fs(1) leaf_of_plain_path(2) [of i c] unfolding repo_ok_def by (cases "fs (MsgPath ?m)") fastforce+
  then obtain oid where
    oid: "rp_resolve (view (st_git s)) (sn_commit snap @ CHR '':'' # MsgPath ?m) = Some oid"
      "rp_object (view (st_git s)) oid = Some (''blob'', c)"
    by (auto simp: blob)
  obtain ro s1 where x: "store_readObject G (sn_commit snap @ '':'' @ MsgPath ?m) ''blob'' s = (ro, s1)" by (meson surj_pair)
  note r = store_readObject_sound [OF assms(1,2) x]
  have sh1: "snapshot_shows view s1 snap M" using r read_stepD(1) snapshot_shows_extends [OF _ assms(3)] by blast
  show ?thesis
  proof (cases ro)
    case (Inl e)
    with def x have "res = Inl e" "s' = s1" by simp_all
    with r Inl oid sh1 show ?thesis by (auto simp: os_error_def read_ready_def)
  next
    case (Inr br)
    with r oid have rd: "read_step view s s1" "cache_sound (view (st_git s1)) (st_cache s1)"
        "reading c br (leased_pipe (st_reader s1))" "rs_process (st_reader s1) \<noteq> None" by auto
    show ?thesis
    proof (cases "br_remaining br \<noteq> int64 (uint (MsgSize ?m))")
      case True
      obtain ce s2 where y: "store_CloseBlob br s1 = (ce, s2)" by (meson surj_pair)
      note cl = store_CloseBlob_sound [where view = view, OF rd(3,4,2) y]
      have "res = Inl (ErrMsg ''message size does not match filename'')" "s' = s2" using def x Inr True y by simp_all
      moreover have "snapshot_shows view s2 snap M" using cl sh1 read_stepD(1) snapshot_shows_extends by blast
      ultimately show ?thesis using cl rd(1) read_step_trans [of view s s1 s2] by (auto simp: os_error_def read_ready_def)
    next
      case False
      then have "res = Inr br" "s' = s1" using def x Inr by simp_all
      with rd sh1 show ?thesis by simp
    qed
  qed
qed

end
