(* ===== verification/Mailbox_Delete.thy ===== *)
theory Mailbox_Delete
  imports Mailbox_Snapshot
begin

text \<open>
  Deletion: the counts and octets that remain, the commit that removes the files, and \<open>DeleteAs\<close>,
  which resolves the IDs without the lock and starts again when HEAD has moved meanwhile.
\<close>

section \<open>The next state\<close>

lemma mailbox_octets_remove:
  assumes "M i = Some c"
  shows "mailbox_octets M = length c + mailbox_octets (M |` (- {i}))"
proof -
  have "(\<Sum>j \<in> dom M - {i}. length (the ((M |` (- {i})) j))) = (\<Sum>j \<in> dom M - {i}. length (the (M j)))"
    by (intro sum.cong) (auto simp: restrict_map_def)
  moreover have "dom (M |` (- {i})) = dom M - {i}" by auto
  moreover have "(\<Sum>j \<in> dom M. length (the (M j))) = length (the (M i)) + (\<Sum>j \<in> dom M - {i}. length (the (M j)))"
    using assms by (intro sum.remove) auto
  ultimately show ?thesis using assms by (simp add: mailbox_octets_def)
qed

lemma restrict_insert: "M |` (- insert i I) = (M |` (- {i})) |` (- I)"
  by (auto simp: restrict_map_def)

text \<open>The messages that an operation is given, for a mailbox.\<close>

definition mails_of :: "mailbox \<Rightarrow> message list \<Rightarrow> bool" where
  "mails_of M ms \<longleftrightarrow> (\<forall>m \<in> set ms. \<exists>i c. M i = Some c \<and> m = message_of i c) \<and> distinct (map MsgID ms)"

lemma delete_next_ok:
  assumes "mailbox_ok M" "mails_of M ms"
    and "counts_represent (mb_Directories st) (dom M)" "unat (mb_TotalOctets st) = mailbox_octets M"
  shows "\<exists>octets counts. delete_next ms st =
      Inr (st\<lparr>mb_TotalOctets := octets, mb_Directories := counts\<rparr>, map MsgPath ms) \<and>
    counts_represent counts (dom (M |` (- MsgID ` set ms))) \<and> unat octets = mailbox_octets (M |` (- MsgID ` set ms))"
  using assms
proof (induction ms arbitrary: M st)
  case Nil
  have "st = st\<lparr>mb_TotalOctets := mb_TotalOctets st, mb_Directories := mb_Directories st\<rparr>" by simp
  with Nil show ?case by (intro exI) (auto simp: restrict_map_def)
next
  case (Cons m ms)
  from Cons.prems(2) obtain i c where m: "M i = Some c" "m = message_of i c" by (auto simp: mails_of_def)
  let ?M = "M |` (- {i})"
  have c: "length c < 18446744073709551616" "i \<noteq> 0" using m(1) Cons.prems(1) by (auto simp: mailbox_ok_def)
  then have sz: "unat (MsgSize m) = length c" by (simp add: m(2) unat_of_nat_u64)
  note oct = mailbox_octets_remove [where M = M, OF m(1)]
  have le: "\<not> mb_TotalOctets st < MsgSize m"
    using Cons.prems(4) sz oct by (simp add: u64_less)
  have z: "0 \<notin> dom M" using Cons.prems(1) by (auto simp: mailbox_ok_def)
  have "path_dir (MsgPath m) = leaf_of i" using path_dir_message [OF message_of_path [OF c(2)]] by (simp add: m(2))
  with counts_remove_represent [OF Cons.prems(3) z, of i] m(1) obtain counts where
    counts: "counts_remove (mb_Directories st) (path_dir (MsgPath m)) = Inr counts" "counts_represent counts (dom M - {i})"
    by auto
  let ?st = "st\<lparr>mb_TotalOctets := mb_TotalOctets st - MsgSize m, mb_Directories := counts\<rparr>"
  have "mailbox_ok ?M" using Cons.prems(1) by (auto simp: mailbox_ok_def restrict_map_def)
  moreover have "mails_of ?M ms"
    unfolding mails_of_def
  proof (intro conjI ballI)
    show "distinct (map MsgID ms)" using Cons.prems(2) by (simp add: mails_of_def)
    fix n assume n: "n \<in> set ms"
    then obtain j d where j: "M j = Some d" "n = message_of j d" using Cons.prems(2) by (auto simp: mails_of_def)
    have "j \<noteq> i" using Cons.prems(2) n j(2) m(2) by (force simp: mails_of_def)
    with j show "\<exists>j d. ?M j = Some d \<and> n = message_of j d" by (intro exI [of _ j] exI [of _ d]) simp
  qed
  moreover have "dom ?M = dom M - {i}" by auto
  then have "counts_represent (mb_Directories ?st) (dom ?M)" using counts(2) by simp
  moreover have "unat (mb_TotalOctets ?st) = mailbox_octets ?M"
    using Cons.prems(4) sz oct le by (simp add: unat_sub_u64 u64_le not_less)
  ultimately obtain octets counts' where IH: "delete_next ms ?st =
      Inr (?st\<lparr>mb_TotalOctets := octets, mb_Directories := counts'\<rparr>, map MsgPath ms)"
    "counts_represent counts' (dom (?M |` (- MsgID ` set ms)))" "unat octets = mailbox_octets (?M |` (- MsgID ` set ms))"
    using Cons.IH by blast
  have "M |` (- MsgID ` set (m # ms)) = ?M |` (- MsgID ` set ms)" by (simp add: m(2) restrict_insert [of M i "MsgID ` set ms"] del: Compl_insert)
  then show ?case using IH le counts(1) by (intro exI [of _ octets] exI [of _ counts']) simp
qed

section \<open>The commit\<close>

lemma mails_paths:
  assumes "mailbox_ok M" "mails_of M ms"
  shows "set (map MsgPath ms) = (\<lambda>i. MsgPath (message_of i (the (M i)))) ` (MsgID ` set ms)"
  using assms(2) by (force simp: mails_of_def image_iff)

lemma deleteLocked_spec:
  assumes "git_sound G view" "store_base view s" "store_holds view s M" "order_ok env" "mails_of M ms"
    and "deleteLocked G graphic env ms username s = (err, s')"
  defines "N \<equiv> M |` (- MsgID ` set ms)"
  shows "store_base view s' \<and> repo_extends (view (st_git s)) (view (st_git s')) \<and>
    st_reader s' = st_reader s \<and> st_cache s' = st_cache s \<and> mb_LastID (st_state s') = mb_LastID (st_state s) \<and>
    (case err of None \<Rightarrow> outcome_ok view M N True s' | Some e \<Rightarrow> outcome_ok view M N False s' \<and> st_state s' = st_state s)"
proof -
  have same: "outcome_ok view M N False s" using assms(3) by (simp add: outcome_ok_def)
  note def = assms(6) [unfolded deleteLocked_def]
  show ?thesis
  proof (cases "st_failure s")
    case (Some e)
    with def have "err = Some e" "s' = s" by simp_all
    with assms(2) same show ?thesis by simp
  next
    case None
    then have st: "state_ok (st_state s) M" "mailbox_ok M" using assms(3) by (auto simp: store_holds_def)
    show ?thesis
    proof (cases "ms = []")
      case True
      then have "N = M" by (simp add: N_def restrict_map_def)
      with True def assms(2,3) None show ?thesis by (auto simp: outcome_ok_def)
    next
      case False
      have pre: "counts_represent (mb_Directories (st_state s)) (dom M)" "unat (mb_TotalOctets (st_state s)) = mailbox_octets M"
        using st(1) by (simp_all add: state_ok_def)
      from delete_next_ok [OF st(2) assms(5) pre] obtain octets counts where
        nx: "delete_next ms (st_state s) = Inr ((st_state s)\<lparr>mb_TotalOctets := octets, mb_Directories := counts\<rparr>, map MsgPath ms)"
          "counts_represent counts (dom N)" "unat octets = mailbox_octets N"
        unfolding N_def by blast
      let ?st = "(st_state s)\<lparr>mb_TotalOctets := octets, mb_Directories := counts\<rparr>"
      let ?st' = "?st\<lparr>mb_index := Some (index_of_set (dom N))\<rparr>"
      have z: "0 \<notin> dom N" using st(2) by (auto simp: mailbox_ok_def N_def restrict_map_def split: if_splits)
      have ids: "\<forall>i \<in> dom N. i \<noteq> 0 \<and> i \<le> mb_LastID (st_state s)"
        using st(1) z by (auto simp: state_ok_def N_def restrict_map_def split: if_splits) 
      have idx: "buildDirectoryIndex counts (mb_LastID (st_state s)) = Inr (index_of_set (dom N))"
        by (rule buildDirectoryIndex_represent [OF nx(2) z card_ids [OF ids]])
      obtain e2 s2 where x: "commitChanges G env (delete_title graphic (length (map MsgPath ms)) username) ?st' []
          (map MsgPath ms) s = (e2, s2)" by (meson surj_pair)
      have paths: "set (map MsgPath ms) = (\<lambda>i. MsgPath (message_of i (the (M i)))) ` (MsgID ` set ms)"
        by (rule mails_paths [OF st(2) assms(5)])
      have in_M: "\<exists>c. M i = Some c" if "i \<in> MsgID ` set ms" for i using that assms(5) by (force simp: mails_of_def)
      from assms(3) obtain fs0 where "archive_tree fs0 M" by (auto simp: store_holds_def)
      then have okN: "mailbox_ok N" unfolding N_def by (rule archive_tree_remove(1) [OF _ st(2) in_M paths])
      have stN: "state_ok ?st' N" using st(1) nx(2,3) ids by (auto simp: state_ok_def)
      have tree: "archive_tree (commit_files ?st' [] (map MsgPath ms) fs) N" if t: "archive_tree fs M" for fs
      proof -
        have "commit_files ?st' [] (map MsgPath ms) fs =
            (\<lambda>p. if p \<in> set (map MsgPath ms) then None else if p = ''state'' then Some (state_text ?st') else fs p)"
          by (rule ext) (simp add: commit_files_def mailboxStateName_def)
        then show ?thesis using archive_tree_remove(2) [OF t st(2) in_M paths] by (simp add: N_def)
      qed
      have nostate: "mailboxStateName \<notin> set (map MsgPath ms)"
      proof
        assume "mailboxStateName \<in> set (map MsgPath ms)"
        then obtain i c where "M i = Some c" "MsgPath (message_of i c) = ''state''"
          using assms(5) by (auto simp: mails_of_def mailboxStateName_def)
        moreover from this have "i \<noteq> 0" using st(2) by (auto simp: mailbox_ok_def)
        ultimately show False
          using message_path_not_special [OF messageFromPath_message_of [of i c]] by (simp add: special_files_def)
      qed
      have "distinct (map fst ([] :: (string \<times> string option) list))" "\<forall>x \<in> set ([] :: (string \<times> string option) list). snd x \<noteq> None" by simp_all
      note out = commit_outcome [OF assms(1-4) this x okN stN tree nostate]
      have st2: "st_state s2 = st_state s" using commit_frameD(1) [OF commit_stepD(1)] out by blast
      have fr: "repo_extends (view (st_git s)) (view (st_git s2))" "st_reader s2 = st_reader s" "st_cache s2 = st_cache s"
        using out commit_stepD(2) commit_frameD [OF commit_stepD(1)] by blast+
      show ?thesis
      proof (cases e2)
        case (Some e)
        then have "err = Some e" "s' = s2" using def None False nx(1) idx x by simp_all
        with out Some st2 fr show ?thesis by simp
      next
        case None
        then have r: "err = None" "s' = s2\<lparr>st_state := ?st'\<rparr>" using def \<open>st_failure s = None\<close> False nx(1) idx x by simp_all
        have "store_base view s'" using out by (simp add: r(2) store_base_def importer_idle_def)
        with out None fr show ?thesis by (simp add: r outcome_ok_def)
      qed
    qed
  qed
qed

section \<open>Resolving the IDs\<close>

lemma store_holds_read:
  assumes "read_step view s s'"
  shows "store_holds view s M \<Longrightarrow> store_holds view s' M" "store_base view s' = store_base view s"
proof -
  note st = read_stepD [OF assms]
  show "store_base view s' = store_base view s" using st by (simp add: store_base_def importer_idle_def)
  assume "store_holds view s M"
  then obtain fs where fs: "mailbox_ok M" "committed view fs s" "archive_tree fs M"
      "st_failure s = None \<longrightarrow> state_ok (st_state s) M \<and> fs mailboxStateName = Some (state_text (st_state s))"
    by (auto simp: store_holds_def)
  have "committed view fs s'" using fs(2) st(2) st(7) by (simp add: committed_def)
  with fs st(3,4) show "store_holds view s' M" by (auto simp: store_holds_def)
qed

text \<open>Whatever the snapshot, resolving only reads.\<close>

lemma messageByID_step:
  assumes "git_sound G view" "read_ready view s" "messageByID G snap i s = (res, s')"
  shows "read_step view s s' \<and> read_ready view s'"
proof -
  obtain dr s1 path where x: "directory G (sn_commit snap) path s = (dr, s1)" "s' = s \<or> s' = s1"
  proof -
    let ?path = "case messageRelativePath i of Inl _ \<Rightarrow> path_dir [] | Inr legacy \<Rightarrow> path_dir legacy"
    obtain dr s1 where "directory G (sn_commit snap) ?path s = (dr, s1)" by (meson surj_pair)
    with that [of ?path dr s1] assms(3) show thesis
      by (auto simp: messageByID_def Let_def split: option.splits if_splits sum.splits)
  qed
  with directory_step [OF assms(1,2) x(1)] assms(2) show ?thesis by auto
qed

lemma resolve_ids_step:
  assumes "git_sound G view" "read_ready view s" "resolve_ids G snap previous ids s = (res, s')"
  shows "read_step view s s' \<and> read_ready view s'"
  using assms(2,3)
proof (induction ids arbitrary: previous s res s')
  case (Cons i ids)
  obtain mr s1 where x: "messageByID G snap i s = (mr, s1)" by (meson surj_pair)
  note r1 = messageByID_step [OF assms(1) Cons.prems(1) x]
  obtain rr s2 where y: "resolve_ids G snap i ids s1 = (rr, s2)" by (meson surj_pair)
  have "read_step view s s2 \<and> read_ready view s2" using Cons.IH [OF conjunct2 [OF r1] y] r1 read_step_trans by blast
  with r1 x y Cons.prems Cons.IH [OF Cons.prems(1)] show ?case
    by (auto split: if_splits sum.splits)
qed simp

lemma resolve_ids_sound:
  assumes "git_sound G view" "read_ready view s" "snapshot_shows view s snap M"
    and "sorted ids" "\<forall>i \<in> set ids. previous \<le> i" "resolve_ids G snap previous ids s = (res, s')"
  shows "read_step view s s' \<and> read_ready view s' \<and> snapshot_shows view s' snap M \<and>
    (case res of
       Inr ms \<Rightarrow> mails_of M ms \<and> MsgID ` set ms = (set ids - {previous}) \<inter> dom M \<and> (\<forall>i \<in> set ids. i \<noteq> 0 \<and> i \<le> sn_LastID snap)
     | Inl e \<Rightarrow> errors_is e ErrNoSuchMessage \<longrightarrow> (\<exists>i \<in> set ids. i = 0 \<or> sn_LastID snap < i))"
  using assms(2-6)
proof (induction ids arbitrary: previous s res s')
  case Nil
  then show ?case by (auto simp: mails_of_def)
next
  case (Cons i ids)
  note def = Cons.prems(5) [unfolded resolve_ids.simps]
  show ?case
  proof (cases "i = 0 \<or> sn_LastID snap < i")
    case True
    with def Cons.prems(1,2) show ?thesis by auto
  next
    case range: False
    have le: "sorted ids" "\<forall>k \<in> set ids. i \<le> k" using Cons.prems(3) by simp_all
    show ?thesis
    proof (cases "i = previous")
      case True
      with def range have "resolve_ids G snap i ids s = (res, s')" by simp
      from Cons.IH [OF Cons.prems(1,2) le this] range True show ?thesis by (auto split: sum.splits)
    next
      case False
      obtain mr s1 where x: "messageByID G snap i s = (mr, s1)" by (meson surj_pair)
      note r1 = messageByID_sound [OF assms(1) Cons.prems(1,2) x]
      obtain rr s2 where y: "resolve_ids G snap i ids s1 = (rr, s2)" by (meson surj_pair)
      have "read_ready view s1" "snapshot_shows view s1 snap M" using r1 by blast+
      note r2 = Cons.IH [OF this le y]
      have st: "read_step view s s2" using r1 r2 read_step_trans by blast
      have less: "previous < i" "\<forall>k \<in> set ids. previous < k" using Cons.prems(4) le(2) False by fastforce+
      show ?thesis
      proof (cases mr)
        case (Inl e)
        show ?thesis
        proof (cases "errors_is e ErrNoSuchMessage")
          case True
          then have "res = rr" "s' = s2" using def range False x y Inl by simp_all
          moreover have "M i = None" using r1 Inl True by simp
          ultimately show ?thesis using r2 st less range by (auto split: sum.splits)
        next
          case ne: False
          then have "res = Inl e" "s' = s1" using def range False x Inl by simp_all
          with r1 ne show ?thesis by simp
        qed
      next
        case (Inr m)
        with r1 obtain c where m: "M i = Some c" "m = message_of i c" by auto
        show ?thesis
        proof (cases rr)
          case (Inl e)
          then have "res = Inl e" "s' = s2" using def range False x y Inr by simp_all
          with r2 st Inl show ?thesis by auto
        next
          case (Inr ms)
          then have r: "res = Inr (m # ms)" "s' = s2" using def range False x y \<open>mr = Inr m\<close> by simp_all
          from r2 Inr have ms: "mails_of M ms" "MsgID ` set ms = (set ids - {i}) \<inter> dom M"
              "\<forall>i \<in> set ids. i \<noteq> 0 \<and> i \<le> sn_LastID snap" by simp_all
          have "mails_of M (m # ms)"
            using ms(1) m unfolding mails_of_def list.map distinct.simps set_map ms(2) by auto
          moreover have "MsgID ` set (m # ms) = (set (i # ids) - {previous}) \<inter> dom M"
            using ms(2) m less by auto
          ultimately show ?thesis using r2 st ms(3) range by (simp add: r not_less)
        qed
      qed
    qed
  qed
qed

section \<open>The loop\<close>

text \<open>
  A store that serves requests, and what other sessions may do to it while the IDs are resolved:
  they keep it so, and change the mailbox by steps of \<open>R\<close>.
\<close>

definition serving :: "('g \<Rightarrow> repo) \<Rightarrow> 'g store \<Rightarrow> mailbox \<Rightarrow> bool" where
  "serving view s M \<longleftrightarrow> store_base view s \<and> read_ready view s \<and> store_holds view s M \<and> st_failure s = None"

definition others_keep ::
  "('g \<Rightarrow> repo) \<Rightarrow> (mailbox \<Rightarrow> mailbox \<Rightarrow> bool) \<Rightarrow> (nat \<Rightarrow> 'g store \<Rightarrow> 'g store) \<Rightarrow> bool" where
  "others_keep view R others \<longleftrightarrow>
     (\<forall>k s M. serving view s M \<longrightarrow> (\<exists>N. R M N \<and> serving view (others k s) N) \<and>
        repo_extends (view (st_git s)) (view (st_git (others k s))))"

lemma delete_loop_sound:
  assumes "git_sound G view" "order_ok env" "others_keep view R others" "sorted ids"
    and "serving view s M" "delete_loop fuel G graphic env others ids username s = (err, s')"
  shows "\<exists>M'. R\<^sup>*\<^sup>* M M' \<and> store_base view s' \<and> read_ready view s' \<and>
    (case err of
       None \<Rightarrow> serving view s' (M' |` (- set ids))
     | Some e \<Rightarrow> outcome_ok view M' (M' |` (- set ids)) False s')"
  using assms(5,6)
proof (induction fuel arbitrary: s M)
  case 0
  then have "err = Some Diverges" "s' = s" by simp_all
  with "0.prems"(1) show ?case by (auto simp: serving_def outcome_ok_def)
next
  case (Suc fuel)
  from Suc.prems(1) have s: "store_base view s" "read_ready view s" "store_holds view s M" "st_failure s = None"
    by (simp_all add: serving_def)
  let ?snap = "Snapshot s"
  note shown = Snapshot_shows [OF s(3,4)]
  obtain rr s1 where x: "resolve_ids G ?snap 0 ids s = (rr, s1)" by (meson surj_pair)
  have "\<forall>i \<in> set ids. 0 \<le> i" by simp
  note r1 = resolve_ids_sound [OF assms(1) s(2) shown assms(4) this x]
  note h1 = store_holds_read [OF conjunct1 [OF r1]]
  have sv1: "serving view s1 M"
    using h1 r1 s read_stepD(4) [of view s s1] by (simp add: serving_def)
  show ?case
  proof (cases rr)
    case (Inl e)
    then have "err = Some e" "s' = s1" using Suc.prems(2) x by simp_all
    with sv1 show ?thesis by (auto simp: serving_def outcome_ok_def)
  next
    case (Inr ms)
    let ?s2 = "others fuel s1"
    from sv1 assms(3) obtain N where N: "R M N" "serving view ?s2 N"
        "repo_extends (view (st_git s1)) (view (st_git ?s2))"
      unfolding others_keep_def by blast
    show ?thesis
    proof (cases "st_headID ?s2 = sn_commit ?snap")
      case False
      then have "delete_loop fuel G graphic env others ids username ?s2 = (err, s')"
        using Suc.prems(2) x Inr by (simp add: Let_def)
      from Suc.IH [OF N(2) this] N(1) show ?thesis by (blast intro: converse_rtranclp_into_rtranclp)
    next
      case True
      then have d: "deleteLocked G graphic env ms username ?s2 = (err, s')"
        using Suc.prems(2) x Inr by (simp add: Let_def)
      have "snapshot_shows view ?s2 ?snap M" using r1 N(3) snapshot_shows_extends by blast
      then obtain fs where fs: "rp_commit (view (st_git ?s2)) (st_headID ?s2) = Some fs" "archive_tree fs M" "mailbox_ok M"
        using True by (auto simp: snapshot_shows_def)
      from N(2) obtain fs2 where fs2: "rp_commit (view (st_git ?s2)) (st_headID ?s2) = Some fs2" "archive_tree fs2 N" "mailbox_ok N"
        by (auto simp: serving_def store_holds_def committed_def)
      have "N = M" using mailbox_unique [OF fs(3) fs2(3) fs(2)] fs(1) fs2(1,2) by simp
      with N(2) have s2: "store_base view ?s2" "read_ready view ?s2" "store_holds view ?s2 M"
        by (simp_all add: serving_def)
      from r1 Inr have ms: "mails_of M ms" "MsgID ` set ms = set ids \<inter> dom M"
        using \<open>N = M\<close> fs(3) by (auto simp: mailbox_ok_def)
      have rest: "M |` (- MsgID ` set ms) = M |` (- set ids)" by (rule ext) (auto simp: restrict_map_def ms(2))
      note del = deleteLocked_spec [OF assms(1) s2(1,3) assms(2) ms(1) d, unfolded rest]
      have "read_ready view s'"
        using del s2(2) cache_sound_extends by (auto simp: read_ready_def)
      with del have "store_base view s' \<and> read_ready view s' \<and>
        (case err of
           None \<Rightarrow> serving view s' (M |` (- set ids))
         | Some e \<Rightarrow> outcome_ok view M (M |` (- set ids)) False s')"
        by (auto simp: serving_def outcome_ok_def split: option.splits)
      then show ?thesis by blast
    qed
  qed
qed

end
