(* ===== verification/Model_Git.thy ===== *)
theory Model_Git
  imports Git_Repo
begin

text \<open>
  A Git that behaves as documented, for repositories of at most sixteen commits with at most
  sixteen files each, all named \<open>state\<close> or lying in the leaf \<open>1\<close>; it refuses anything more.
  It shows that \<open>git_sound\<close> can hold together with commits that succeed.
\<close>

record model_git =
  mg_commits :: "(string \<times> string) list list"
  mg_head :: nat

definition hex_digits :: string where "hex_digits = ''0123456789abcdef''"

definition hex_index :: "char \<Rightarrow> nat option" where
  "hex_index c = List.find (\<lambda>n. hex_digits ! n = c) [0..<16]"

definition oid_for :: "nat \<Rightarrow> char \<Rightarrow> nat \<Rightarrow> string" where
  "oid_for n k j = hex_digits ! n # k # hex_digits ! j # replicate 37 CHR ''0''"

definition oid_parts :: "string \<Rightarrow> (nat \<times> char \<times> nat) option" where
  "oid_parts oid =
     (if length oid = 40 \<and> drop 3 oid = replicate 37 CHR ''0'' then
        (case (hex_index (oid ! 0), hex_index (oid ! 2)) of
           (Some n, Some j) \<Rightarrow> Some (n, oid ! 1, j)
         | _ \<Rightarrow> None)
      else None)"

definition name_fits :: "string \<Rightarrow> bool" where
  "name_fits name \<longleftrightarrow> name \<notin> {[], ''.'', ''..''} \<and> CHR ''/'' \<notin> set name \<and> CHR 0x00 \<notin> set name"

definition path_fits :: "string \<Rightarrow> bool" where
  "path_fits p \<longleftrightarrow> p = ''state'' \<or> take 2 p = ''1/'' \<and> name_fits (drop 2 p)"

definition files_fit :: "(string \<times> string) list \<Rightarrow> bool" where
  "files_fit fl \<longleftrightarrow> distinct (map fst fl) \<and> length fl \<le> 16 \<and> (\<forall>p \<in> fst ` set fl. path_fits p)"

definition git_fits :: "model_git \<Rightarrow> bool" where
  "git_fits g \<longleftrightarrow> length (mg_commits g) \<le> 16 \<and> (\<forall>fl \<in> set (mg_commits g). files_fit fl)"

definition commit_oid :: "nat \<Rightarrow> string" where "commit_oid n = oid_for n CHR ''c'' 0"

definition commit_list :: "model_git \<Rightarrow> string \<Rightarrow> (string \<times> string) list option" where
  "commit_list g c =
     (case oid_parts c of
        Some (n, k, j) \<Rightarrow>
          if git_fits g \<and> k = CHR ''c'' \<and> j = 0 \<and> n < length (mg_commits g) then Some (mg_commits g ! n) else None
      | None \<Rightarrow> None)"

definition leaf_entries_of :: "(string \<times> string) list \<Rightarrow> raw_entry list" where
  "leaf_entries_of fl =
     map (\<lambda>(p, d). (''100644'', drop 2 p, replicate 20 CHR ''x'')) (filter (\<lambda>(p, d). p \<noteq> ''state'') fl)"

definition model_object :: "model_git \<Rightarrow> string \<Rightarrow> (string \<times> string) option" where
  "model_object g oid =
     (case oid_parts oid of
        Some (n, k, j) \<Rightarrow>
          if \<not> (git_fits g \<and> n < length (mg_commits g)) then None
          else let fl = mg_commits g ! n in
               if k = CHR ''a'' \<and> j = 0 then Some (''tree'', concat (map encode_entry (leaf_entries_of fl)))
               else if k = CHR ''b'' \<and> j < length fl then Some (''blob'', snd (fl ! j))
               else None
      | None \<Rightarrow> None)"

definition model_resolve :: "model_git \<Rightarrow> string \<Rightarrow> string option" where
  "model_resolve g spec =
     (if model_object g spec \<noteq> None then Some spec
      else case (commit_list g (take 40 spec), oid_parts (take 40 spec)) of
             (Some fl, Some (n, _)) \<Rightarrow>
               if spec = take 40 spec @ '':1'' then
                 (if leaf_entries_of fl = [] then None else Some (oid_for n CHR ''a'' 0))
               else (case List.find (\<lambda>j. spec = take 40 spec @ CHR '':'' # fst (fl ! j)) [0..<length fl] of
                       Some j \<Rightarrow> Some (oid_for n CHR ''b'' j)
                     | None \<Rightarrow> None)
           | _ \<Rightarrow> None)"

definition model_view :: "model_git \<Rightarrow> repo" where
  "model_view g =
     \<lparr>rp_head = (if mg_head g = 0 then [] else commit_oid (mg_head g - 1)),
      rp_commit = (\<lambda>c. map_option map_of (commit_list g c)),
      rp_resolve = model_resolve g, rp_object = model_object g\<rparr>"

fun model_change :: "file_change \<Rightarrow> (string \<times> string) list \<Rightarrow> (string \<times> string) list" where
  "model_change (FileModify p d) fl = AList.update p d fl"
| "model_change (FileDelete p) fl = AList.delete p fl"

definition model_send :: "string \<Rightarrow> model_git \<Rightarrow> pipe res \<times> model_git" where
  "model_send request g =
     (case read_stream request of
        Some [ImportCommit ref mark who title parent changes, ImportBlank, ImportGetMark mark'] \<Rightarrow>
          (case (case parent of None \<Rightarrow> Some [] | Some c \<Rightarrow> commit_list g c) of
             None \<Rightarrow> (Inl OsErrClosed, g)
           | Some fl \<Rightarrow>
               let fl = fold model_change changes fl in
               if git_fits g \<and> length (mg_commits g) < 16 \<and> files_fit fl
               then (Inr (commit_oid (length (mg_commits g)) @ [CHR 0x0A], IoEOF),
                     g\<lparr>mg_commits := mg_commits g @ [fl]\<rparr>)
               else (Inl OsErrClosed, g))
      | Some [ImportCheckpoint, ImportProgress name] \<Rightarrow>
          if CHR 0x0A \<in> set name then (Inl OsErrClosed, g)
          else (Inr (''progress '' @ name @ [CHR 0x0A], IoEOF), g\<lparr>mg_head := length (mg_commits g)\<rparr>)
      | _ \<Rightarrow> (Inl OsErrClosed, g))"

definition model_ask :: "model_git \<Rightarrow> string \<Rightarrow> pipe" where
  "model_ask g request =
     (if take 5 request = ''info '' then (cat_answer (model_view g) ''info'' (butlast (drop 5 request)), IoEOF)
      else if take 9 request = ''contents '' then (cat_answer (model_view g) ''contents'' (butlast (drop 9 request)), IoEOF)
      else ([], IoEOF))"

definition model_git :: "model_git git" where
  "model_git =
     \<lparr>gi_head = (\<lambda>g. (if mg_head g = 0 then Inl OsErrClosed else Inr (commit_oid (mg_head g - 1) @ [CHR 0x0A]), g)),
      gi_start = (\<lambda>g. (None, g)), gi_send = model_send, gi_close = (\<lambda>g. (None, g)), gi_kill = (\<lambda>g. g),
      gi_watch = (\<lambda>g. (None, g)), gi_catStart = (\<lambda>g. None), gi_catClose = (\<lambda>g. None),
      gi_ask = model_ask, gi_tick = (\<lambda>g. g)\<rparr>"

section \<open>Object names\<close>

lemma hex_digits_nth: "n < 16 \<Longrightarrow> hex_index (hex_digits ! n) = Some n"
proof -
  assume "n < 16"
  moreover have "list_all (\<lambda>n. hex_index (hex_digits ! n) = Some n) [0..<16]" by code_simp
  ultimately show ?thesis by (simp add: list_all_iff)
qed

lemma length_hex_digits [simp]: "length hex_digits = 16"
  by (simp add: hex_digits_def)

lemma hex_index_less: "hex_index c = Some n \<Longrightarrow> n < 16 \<and> hex_digits ! n = c"
  by (auto simp: hex_index_def find_Some_iff)

lemma oid_parts_for: "n < 16 \<Longrightarrow> j < 16 \<Longrightarrow> oid_parts (oid_for n k j) = Some (n, k, j)"
  by (simp add: oid_parts_def oid_for_def hex_digits_nth)

lemma oid_parts_Some:
  assumes "oid_parts oid = Some (n, k, j)"
  shows "n < 16" "j < 16" "oid = oid_for n k j"
proof -
  have l: "length oid = 40" "drop 3 oid = replicate 37 CHR ''0''" "hex_index (oid ! 0) = Some n"
      "oid ! 1 = k" "hex_index (oid ! 2) = Some j"
    using assms by (auto simp: oid_parts_def split: if_splits option.splits)
  show "n < 16" "j < 16" using hex_index_less l(3,5) by blast+
  have "oid = oid ! 0 # oid ! 1 # oid ! 2 # drop 3 oid"
    using l(1) by (simp add: Cons_nth_drop_Suc numeral_eq_Suc)
  then show "oid = oid_for n k j" using hex_index_less l(2-5) by (simp add: oid_for_def)
qed

lemma oid_valid:
  assumes "n < 16" "j < 16" "k \<in> set ''abc''"
  shows "validObjectID (oid_for n k j)"
proof -
  have "list_all (\<lambda>c. (CHR ''0'' \<le> c \<and> c \<le> CHR ''9'') \<or> (CHR ''a'' \<le> c \<and> c \<le> CHR ''f'')) hex_digits"
    by code_simp
  then have "(CHR ''0'' \<le> c \<and> c \<le> CHR ''9'') \<or> (CHR ''a'' \<le> c \<and> c \<le> CHR ''f'')" if "c \<in> set hex_digits" for c
    using that by (simp add: list_all_iff)
  moreover have "hex_digits ! n \<in> set hex_digits" "hex_digits ! j \<in> set hex_digits" using assms by simp_all
  moreover have "k \<in> set hex_digits" "CHR ''0'' \<in> set hex_digits" using assms(3) by (auto simp: hex_digits_def)
  ultimately show ?thesis by (auto simp: validObjectID_def oid_for_def list_all_iff)
qed

section \<open>It is sound\<close>

lemma commit_list_Some:
  assumes "commit_list g c = Some fl"
  shows "\<exists>n < length (mg_commits g). n < 16 \<and> c = commit_oid n \<and> fl = mg_commits g ! n \<and> git_fits g \<and> files_fit fl"
proof -
  from assms obtain n k j where c: "oid_parts c = Some (n, k, j)" "git_fits g" "k = CHR ''c''" "j = 0"
      "n < length (mg_commits g)" "fl = mg_commits g ! n"
    by (auto simp: commit_list_def split: option.splits if_splits)
  with oid_parts_Some [OF c(1)] show ?thesis by (auto simp: commit_oid_def git_fits_def)
qed

lemma commit_list_at:
  assumes "git_fits g" "n < length (mg_commits g)"
  shows "commit_list g (commit_oid n) = Some (mg_commits g ! n)"
proof -
  have "n < 16" using assms by (simp add: git_fits_def)
  then show ?thesis using assms by (simp add: commit_list_def commit_oid_def oid_parts_for)
qed

lemma model_object_Some:
  assumes "model_object g oid = Some (kind, d)"
  shows "validObjectID oid \<and> word_ok kind"
proof -
  from assms obtain n k j where p: "oid_parts oid = Some (n, k, j)" "k = CHR ''a'' \<and> kind = ''tree'' \<or> k = CHR ''b'' \<and> kind = ''blob''"
    by (auto simp: model_object_def Let_def split: option.splits if_splits)
  with oid_valid [of n j k] oid_parts_Some [OF p(1)] show ?thesis by (auto simp: word_ok_def)
qed

lemma length_oid [simp]: "length (oid_for n k j) = 40" "length (commit_oid n) = 40"
  by (simp_all add: oid_for_def commit_oid_def)

lemma spec_not_object: "model_object g (commit_oid n @ c # p) = None"
  by (simp add: model_object_def oid_parts_def)

lemma model_resolve_spec:
  assumes "git_fits g" "n < length (mg_commits g)"
  defines "fl \<equiv> mg_commits g ! n"
  shows "model_resolve g (commit_oid n @ CHR '':'' # p) =
    (if p = ''1'' then (if leaf_entries_of fl = [] then None else Some (oid_for n CHR ''a'' 0))
     else (case List.find (\<lambda>j. p = fst (fl ! j)) [0..<length fl] of
             Some j \<Rightarrow> Some (oid_for n CHR ''b'' j) | None \<Rightarrow> None))"
proof -
  have "n < 16" using assms by (simp add: git_fits_def)
  then have "oid_parts (commit_oid n) = Some (n, CHR ''c'', 0)" by (simp add: commit_oid_def oid_parts_for)
  then show ?thesis
    using commit_list_at [OF assms(1,2)] by (auto simp: model_resolve_def spec_not_object fl_def)
qed

lemma leaf_entries_names: "map raw_name (leaf_entries_of fl) = map (drop 2) (filter (\<lambda>p. p \<noteq> ''state'') (map fst fl))"
  by (induction fl) (auto simp: leaf_entries_of_def raw_name_def)

lemma path_fits_leaf: "path_fits p \<Longrightarrow> p \<noteq> ''state'' \<Longrightarrow> \<exists>name. p = CHR ''1'' # CHR ''/'' # name \<and> name_fits name"
  using append_take_drop_id [of 2 p] by (intro exI [of _ "drop 2 p"]) (simp add: path_fits_def)

lemma files_fit_leaf:
  assumes "files_fit fl"
  shows "map_of fl (''1'' @ CHR ''/'' # name) \<noteq> None \<longleftrightarrow> name \<in> raw_name ` set (leaf_entries_of fl)"
    and "tree_of_dir (map_of fl) ''1'' (leaf_entries_of fl)"
proof -
  let ?paths = "filter (\<lambda>p. p \<noteq> ''state'') (map fst fl)"
  have fit: "\<exists>name. p = CHR ''1'' # CHR ''/'' # name \<and> name_fits name" if "p \<in> set ?paths" for p
    using that assms path_fits_leaf by (auto simp: files_fit_def)
  have names: "raw_name ` set (leaf_entries_of fl) = drop 2 ` set ?paths"
    using arg_cong [OF leaf_entries_names, of set] by simp
  show mem: "map_of fl (''1'' @ CHR ''/'' # name) \<noteq> None \<longleftrightarrow> name \<in> raw_name ` set (leaf_entries_of fl)" for name
  proof -
    have "map_of fl (''1'' @ CHR ''/'' # name) \<noteq> None \<longleftrightarrow> ''1'' @ CHR ''/'' # name \<in> set ?paths"
      by (auto simp: map_of_eq_None_iff image_iff)
    also have "\<dots> \<longleftrightarrow> name \<in> drop 2 ` set ?paths"
    proof
      assume "''1'' @ CHR ''/'' # name \<in> set ?paths"
      then have "drop 2 (''1'' @ CHR ''/'' # name) \<in> drop 2 ` set ?paths" by (rule imageI)
      then show "name \<in> drop 2 ` set ?paths" by simp
    next
      assume "name \<in> drop 2 ` set ?paths"
      then obtain p where p: "p \<in> set ?paths" "name = drop 2 p" by blast
      from fit [OF p(1)] p(2) have "p = ''1'' @ CHR ''/'' # name" by auto
      with p(1) show "''1'' @ CHR ''/'' # name \<in> set ?paths" by (simp only:)
    qed
    finally show ?thesis by (simp only: names)
  qed
  have "distinct (map (drop 2) ?paths)"
    unfolding distinct_map [of "drop 2"]
  proof
    show "distinct ?paths" using assms by (simp add: files_fit_def)
    show "inj_on (drop 2) (set ?paths)"
    proof (rule inj_onI)
      fix p q assume pq: "p \<in> set ?paths" "q \<in> set ?paths" "drop 2 p = drop 2 q"
      with fit [OF pq(1)] fit [OF pq(2)] show "p = q" by auto
    qed
  qed
  then have "distinct (map raw_name (leaf_entries_of fl))" by (simp only: leaf_entries_names)
  moreover have fits: "name_fits name \<and> mode = ''100644''" if e: "(mode, name, raw) \<in> set (leaf_entries_of fl)" for mode name raw
  proof -
    have "name \<in> raw_name ` set (leaf_entries_of fl)" using e by (rule rev_image_eqI) (simp add: raw_name_def)
    then obtain p where "p \<in> set ?paths" "name = drop 2 p" using names by auto
    with fit [of p] have "name_fits name" by auto
    moreover have "mode = ''100644''" using e by (auto simp: leaf_entries_of_def)
    ultimately show ?thesis by simp
  qed
  moreover have "map_of fl (''1'' @ CHR ''/'' # name) \<noteq> None" if e: "(mode, name, raw) \<in> set (leaf_entries_of fl)" for mode name raw
    unfolding mem using e by (rule rev_image_eqI) (simp add: raw_name_def)
  ultimately show "tree_of_dir (map_of fl) ''1'' (leaf_entries_of fl)"
    unfolding tree_of_dir_def using mem by (auto simp: name_fits_def simp del: append.simps not_None_eq)
qed

lemma find_path:
  assumes "files_fit fl"
  shows "case map_of fl p of
      Some d \<Rightarrow> \<exists>j < length fl. List.find (\<lambda>j. p = fst (fl ! j)) [0..<length fl] = Some j \<and> snd (fl ! j) = d
    | None \<Rightarrow> List.find (\<lambda>j. p = fst (fl ! j)) [0..<length fl] = None"
proof (cases "map_of fl p")
  case None
  then have "p \<notin> fst ` set fl" by (simp add: map_of_eq_None_iff)
  then have "\<not> p = fst (fl ! j)" if "j < length fl" for j using that by auto
  with None show ?thesis by (auto simp: find_None_iff)
next
  case (Some d)
  from map_of_SomeD [OF Some] obtain i where "i < length fl" "fl ! i = (p, d)" by (auto simp: in_set_conv_nth)
  then have "\<exists>i \<in> set [0..<length fl]. p = fst (fl ! i)" by force
  then have "List.find (\<lambda>j. p = fst (fl ! j)) [0..<length fl] \<noteq> None" unfolding find_None_iff by blast
  then obtain j where j: "List.find (\<lambda>j. p = fst (fl ! j)) [0..<length fl] = Some j" by auto
  then have "j < length fl" "p = fst (fl ! j)" by (auto simp: find_Some_iff)
  moreover from this have "map_of fl p = Some (snd (fl ! j))"
    using assms by (auto simp: files_fit_def intro!: map_of_is_SomeI)
  ultimately show ?thesis using Some j by simp
qed

lemma model_repo_ok: "repo_ok (model_view g)"
  unfolding repo_ok_def
proof (intro conjI allI impI)
  fix oid kind d assume "rp_object (model_view g) oid = Some (kind, d)"
  then have o: "model_object g oid = Some (kind, d)" by (simp add: model_view_def)
  then show "validObjectID oid" "word_ok kind" using model_object_Some by blast+
  from o show "rp_resolve (model_view g) oid = Some oid" by (simp add: model_view_def model_resolve_def)
next
  fix spec oid assume "rp_resolve (model_view g) spec = Some oid"
  then have r: "model_resolve g spec = Some oid" by (simp add: model_view_def)
  show "rp_object (model_view g) oid \<noteq> None"
  proof (cases "model_object g spec = None")
    case False
    with r show ?thesis by (simp add: model_resolve_def model_view_def)
  next
    case True
    then obtain fl n k j where c: "commit_list g (take 40 spec) = Some fl" "oid_parts (take 40 spec) = Some (n, k, j)"
      using r by (auto simp: model_resolve_def split: option.splits)
    from commit_list_Some [OF c(1)] obtain m where m: "m < length (mg_commits g)" "m < 16" "take 40 spec = commit_oid m"
        "fl = mg_commits g ! m" "git_fits g" "files_fit fl" by blast
    have n: "n = m" using c(2) m(2,3) by (simp add: commit_oid_def oid_parts_for)
    from True r c obtain k' j' where "oid = oid_for n k' j'" "k' = CHR ''a'' \<and> j' = 0 \<or> k' = CHR ''b'' \<and> j' < length fl"
      by (auto simp: model_resolve_def find_Some_iff split: if_splits option.splits)
    moreover have "length fl \<le> 16" using m(6) by (simp add: files_fit_def)
    ultimately show ?thesis using m n by (auto simp: model_view_def model_object_def oid_parts_for)
  qed
next
  fix c fs p assume "rp_commit (model_view g) c = Some fs"
  then obtain fl where cl: "commit_list g c = Some fl" "fs = map_of fl" by (auto simp: model_view_def)
  from commit_list_Some [OF cl(1)] obtain n where n: "n < length (mg_commits g)" "n < 16" "c = commit_oid n"
      "fl = mg_commits g ! n" "git_fits g" "files_fit fl" by blast
  assume plain: "plain_path p"
  note res = model_resolve_spec [OF n(5,1), of p, folded n(3,4)]
  have tree: "rp_object (model_view g) (oid_for n CHR ''a'' 0) = Some (''tree'', concat (map encode_entry (leaf_entries_of fl)))"
    using n by (simp add: model_view_def model_object_def oid_parts_for)
  have len: "\<forall>x \<in> set (leaf_entries_of fl). length (snd (snd x)) = length (oid_for n CHR ''a'' 0) div 2"
    by (auto simp: leaf_entries_of_def)
  have not1: "map_of fl ''1'' = None"
    using n(6) by (force simp: files_fit_def path_fits_def name_fits_def map_of_eq_None_iff)
  show "case fs p of
         Some d \<Rightarrow> (\<exists>oid. rp_resolve (model_view g) (c @ CHR '':'' # p) = Some oid \<and> rp_object (model_view g) oid = Some (''blob'', d))
       | None \<Rightarrow>
           (case rp_resolve (model_view g) (c @ CHR '':'' # p) of
              None \<Rightarrow> \<not> files_below fs p
            | Some oid \<Rightarrow> \<exists>raws. rp_object (model_view g) oid = Some (''tree'', concat (map encode_entry raws)) \<and>
                (\<forall>x \<in> set raws. length (snd (snd x)) = length oid div 2) \<and> tree_of_dir fs p raws)"
  proof (cases "p = ''1''")
    case True
    have "\<not> files_below fs p" if "leaf_entries_of fl = []"
      using that files_fit_leaf(1) [OF n(6)] by (simp add: files_below_def True cl(2))
    moreover have "tree_of_dir fs p (leaf_entries_of fl)" using files_fit_leaf(2) [OF n(6)] by (simp only: True cl(2))
    moreover have "rp_resolve (model_view g) (c @ CHR '':'' # p) = (if leaf_entries_of fl = [] then None else Some (oid_for n CHR ''a'' 0))"
      using res True by (simp add: model_view_def)
    moreover have "fs p = None" using not1 by (simp add: True cl(2))
    ultimately show ?thesis using tree len by (auto simp del: length_oid)
  next
    case False
    note find = find_path [OF n(6), of p]
    show ?thesis
    proof (cases "map_of fl p")
      case (Some d)
      with find obtain j where j: "j < length fl" "List.find (\<lambda>j. p = fst (fl ! j)) [0..<length fl] = Some j" "snd (fl ! j) = d"
        by auto
      have "j < 16" using j(1) n(6) by (simp add: files_fit_def)
      then have "rp_object (model_view g) (oid_for n CHR ''b'' j) = Some (''blob'', d)"
        using n j by (simp add: model_view_def model_object_def oid_parts_for)
      with res False j(2) Some cl(2) show ?thesis by (simp add: model_view_def)
    next
      case None
      have "\<not> files_below fs p"
      proof
        assume "files_below fs p"
        then obtain rest where "map_of fl (p @ CHR ''/'' # rest) \<noteq> None" by (auto simp: files_below_def cl(2))
        then have "path_fits (p @ CHR ''/'' # rest)" using n(6) by (force simp: files_fit_def map_of_eq_None_iff)
        moreover have "p @ CHR ''/'' # rest \<noteq> ''state''"
        proof
          assume "p @ CHR ''/'' # rest = ''state''"
          then have "CHR ''/'' \<in> set ''state''" by (metis in_set_conv_decomp)
          then show False by simp
        qed
        ultimately obtain name where "p @ CHR ''/'' # rest = ''1'' @ CHR ''/'' # name" "CHR ''/'' \<notin> set name"
          using path_fits_leaf [of "p @ CHR ''/'' # rest"] by (auto simp: name_fits_def)
        then have "p = [] \<or> p = ''1''" by (auto simp: append_eq_append_conv2 append_eq_Cons_conv Cons_eq_append_conv)
        with plain False show False by (auto simp: plain_path_def plain_elem_def)
      qed
      with res False find None cl(2) show ?thesis by (simp add: model_view_def)
    qed
  qed
qed

text \<open>Every step only adds commits, if anything.\<close>

lemma model_extends:
  assumes "git_fits g" "mg_commits g' = mg_commits g @ added" "git_fits g'"
  shows "repo_extends (model_view g) (model_view g')"
proof -
  have "commit_list g' c = Some fl" if "commit_list g c = Some fl" for c fl
    using that assms by (auto simp: commit_list_def nth_append split: option.splits if_splits)
  moreover have "model_object g' oid = Some x" if "model_object g oid = Some x" for oid x
    using that assms by (auto simp: model_object_def nth_append Let_def split: option.splits if_splits)
  ultimately show ?thesis by (auto simp: repo_extends_def model_view_def)
qed

lemma model_unfit: "\<not> git_fits g \<Longrightarrow> repo_extends (model_view g) R"
  by (auto simp: repo_extends_def model_view_def commit_list_def model_object_def split: option.splits)

lemma model_head_only: "repo_extends (model_view g) (model_view (g\<lparr>mg_head := n\<rparr>))"
  by (auto simp: repo_extends_def model_view_def commit_list_def model_object_def git_fits_def split: option.splits)

lemma model_send_cases:
  assumes "model_send request g = (Inr ans, g')"
  shows "(\<exists>ref mark who title parent changes mark' fl.
            read_stream request = Some [ImportCommit ref mark who title parent changes, ImportBlank, ImportGetMark mark'] \<and>
            (case parent of None \<Rightarrow> fl = [] | Some c \<Rightarrow> commit_list g c = Some fl) \<and>
            git_fits g \<and> length (mg_commits g) < 16 \<and> files_fit (fold model_change changes fl) \<and>
            ans = (commit_oid (length (mg_commits g)) @ [CHR 0x0A], IoEOF) \<and>
            g' = g\<lparr>mg_commits := mg_commits g @ [fold model_change changes fl]\<rparr>) \<or>
         (\<exists>name. read_stream request = Some [ImportCheckpoint, ImportProgress name] \<and> CHR 0x0A \<notin> set name \<and>
            ans = (''progress '' @ name @ [CHR 0x0A], IoEOF) \<and> g' = g\<lparr>mg_head := length (mg_commits g)\<rparr>)"
  using assms
  by (auto simp: model_send_def Let_def split: option.splits list.splits import_command.splits if_splits)

lemma model_send_error: "model_send request g = (Inl e, g') \<Longrightarrow> g' = g"
  by (auto simp: model_send_def Let_def split: option.splits list.splits import_command.splits if_splits)

lemma model_send_fits: "model_send request g = (Inr ans, g') \<Longrightarrow> git_fits g' = git_fits g"
  by (drule model_send_cases) (auto simp: git_fits_def)

lemma model_send_extends: "repo_extends (model_view g) (model_view (snd (model_send request g)))"
proof -
  obtain r g' where s: "model_send request g = (r, g')" by (meson surj_pair)
  show ?thesis
  proof (cases r)
    case (Inl e)
    with s model_send_error show ?thesis by fastforce
  next
    case (Inr ans)
    show ?thesis
    proof (cases "git_fits g")
      case False
      then show ?thesis by (rule model_unfit)
    next
      case True
      have fit: "git_fits g'" using model_send_fits s Inr True by blast
      have "repo_extends (model_view g) (model_view g')"
        using model_send_cases [OF s [unfolded Inr]]
      proof (elim disjE exE conjE)
        fix name assume "g' = g\<lparr>mg_head := length (mg_commits g)\<rparr>"
        then show ?thesis by (simp only: model_head_only)
      next
        fix changes fl assume "g' = g\<lparr>mg_commits := mg_commits g @ [fold model_change changes fl]\<rparr>"
        then have "mg_commits g' = mg_commits g @ [fold model_change changes fl]" by simp
        then show ?thesis by (rule model_extends [OF True _ fit])
      qed
      with s show ?thesis by simp
    qed
  qed
qed

lemma model_changes: "map_of (fold model_change changes fl) = apply_changes changes (map_of fl)"
proof (induction changes arbitrary: fl)
  case (Cons c changes)
  have "map_of (model_change c fl) = apply_change c (map_of fl)"
    by (cases c) (simp_all add: update_conv' delete_conv')
  with Cons show ?case by (simp add: apply_changes_def)
qed (simp add: apply_changes_def)

lemma model_git_line:
  assumes "CHR 0x0A \<notin> set l"
  shows "git_line (l @ [CHR 0x0A], e) = (Inr l, ([], e))"
proof -
  have "index_byte (l @ [CHR 0x0A]) (CHR 0x0A) = Some (length l)" using assms by simp
  then show ?thesis by (simp add: git_line_def)
qed

lemma commit_oid_line: "n < 16 \<Longrightarrow> CHR 0x0A \<notin> set (commit_oid n)"
  using oid_valid [of n 0 "CHR ''c''"]
  by (fastforce simp: commit_oid_def validObjectID_def list_all_iff)

lemma model_imports: "git_imports model_git model_view"
  unfolding git_imports_def
proof (intro allI impI, elim conjE)
  fix g g1 g2 g3 request chk ans1 ans2 ref mark who title parent changes name rest out base
  assume send1: "gi_send model_git request g = (Inr ans1, g1)"
    and rd1: "read_stream request = Some [ImportCommit ref mark who title parent changes, ImportBlank, ImportGetMark mark]"
    and parent: "case parent of None \<Rightarrow> base = (\<lambda>_. None) | Some c \<Rightarrow> rp_commit (model_view g) c = Some base"
    and line: "git_line ans1 = (Inr name, rest)"
    and send2: "gi_send model_git chk g1 = (Inr ans2, g2)"
    and rd2: "read_stream chk = Some [ImportCheckpoint, ImportProgress name]"
    and hd: "gi_head model_git g2 = (Inr out, g3)"
  have s1: "model_send request g = (Inr ans1, g1)" and s2: "model_send chk g1 = (Inr ans2, g2)"
    using send1 send2 by (simp_all add: model_git_def)
  from model_send_cases [OF s1] rd1 obtain fl where
    fl: "case parent of None \<Rightarrow> fl = [] | Some c \<Rightarrow> commit_list g c = Some fl"
      "git_fits g" "length (mg_commits g) < 16" "ans1 = (commit_oid (length (mg_commits g)) @ [CHR 0x0A], IoEOF)"
      "g1 = g\<lparr>mg_commits := mg_commits g @ [fold model_change changes fl]\<rparr>" by auto
  have fit: "git_fits g1" using model_send_fits [OF s1] fl(2) by simp
  from model_send_cases [OF s2] rd2 have g2: "g2 = g1\<lparr>mg_head := length (mg_commits g1)\<rparr>" by auto
  have g3: "g3 = g2" using hd by (simp add: model_git_def split: if_splits)
  have name: "name = commit_oid (length (mg_commits g))"
    using line model_git_line [OF commit_oid_line [OF fl(3)]] by (simp add: fl(4))
  have base: "base = map_of fl" using parent fl(1) by (cases parent) (auto simp: model_view_def)
  have "commit_list g1 name = Some (fold model_change changes fl)"
    using commit_list_at [OF fit, of "length (mg_commits g)"] by (simp add: name fl(5))
  then have "rp_commit (model_view g1) name = Some (apply_changes changes base)"
    by (simp add: model_view_def model_changes base)
  then show "rp_commit (model_view g3) name = Some (apply_changes changes base)"
    using model_head_only [of g1] unfolding g3 g2 repo_extends_def by blast
qed

lemma model_lines: "git_lines model_git"
  unfolding git_lines_def
proof (intro allI impI, elim conjE)
  fix g g1 request ans line out ref mark who title parent changes name
  assume send: "gi_send model_git request g = (Inr ans, g1)" and line: "git_line ans = (Inr line, out)"
    and "read_stream request \<in> {Some [ImportCommit ref mark who title parent changes, ImportBlank, ImportGetMark mark],
      Some [ImportCheckpoint, ImportProgress name]}"
  have s: "model_send request g = (Inr ans, g1)" using send by (simp add: model_git_def)
  from model_send_cases [OF s] obtain l where "CHR 0x0A \<notin> set l" "ans = (l @ [CHR 0x0A], IoEOF)"
  proof (elim disjE exE conjE)
    fix fl changes assume "length (mg_commits g) < 16" "ans = (commit_oid (length (mg_commits g)) @ [CHR 0x0A], IoEOF)"
    with that commit_oid_line show thesis by blast
  next
    fix name :: string assume "CHR 0x0A \<notin> set name" "ans = (''progress '' @ name @ [CHR 0x0A], IoEOF)"
    with that [of "''progress '' @ name"] show thesis by simp
  qed
  with line model_git_line [of l IoEOF] show "fst out = []" by auto
qed

lemma model_answers: "answers_sound (model_view g) (model_ask g)"
proof -
  have "cat_answer (model_view g) command spec = fst (model_ask g (command @ '' '' @ spec @ [CHR 0x0A]))"
    if "command \<in> {''info'', ''contents''}" for command spec
    using that by (auto simp: model_ask_def)
  moreover have "os_error (snd (model_ask g request))" for request by (simp add: model_ask_def os_error_def)
  ultimately show ?thesis unfolding answers_sound_def by (metis append_Nil2)
qed

lemma model_git_sound: "git_sound model_git model_view"
  unfolding git_sound_def
proof (intro conjI allI)
  show "answers_sound (model_view g) (gi_ask model_git g)" for g using model_answers by (simp add: model_git_def)
  show "git_keeps model_git model_view"
    using model_send_extends by (auto simp: git_keeps_def model_git_def)
qed (simp_all add: model_repo_ok model_imports model_lines, simp add: model_git_def)

end
