(* ===== verification/Sample_Store.thy ===== *)
theory Sample_Store
  imports Mailbox_Delete Model_Git
begin

text \<open>
  A store with one message, in a repository of \<open>Model_Git\<close>, and with a staged message that waits
  to be published: the input at which the properties of the mailbox are applied.
\<close>

definition sample_mail :: mailbox where "sample_mail = Map.empty(1 \<mapsto> ''hi'')"

definition sample_state :: mailboxState where
  "sample_state =
     \<lparr>mb_Version = mailboxStateVersion, mb_LastID = 1, mb_TotalOctets = 2,
      mb_Directories = fold (count_plus 1) (dirs_of 1) [], mb_DailyReceipt = None,
      mb_index = Some \<lparr>di_leaves = [\<lparr>dc_path = ''1'', dc_count = 1, dc_accumulated = 1\<rparr>], di_total = 1\<rparr>\<rparr>"

definition sample_files :: "(string \<times> string) list" where
  "sample_files = [(''state'', state_text sample_state), (MsgPath (message_of 1 ''hi''), ''hi'')]"

definition sample_git :: model_git where
  "sample_git = \<lparr>mg_commits = [sample_files], mg_head = 1\<rparr>"

definition sample_store :: "model_git store" where
  "sample_store =
     \<lparr>st_maxDailyBytes = DefaultMaxDailyBytes, st_receipt = None, st_receiptFile = None, st_reservedBytes = 4096,
      st_failure = None, st_staged = [\<lparr>sm_path = ''s'', sm_size = 2, sm_reserved = 4096, sm_done = False\<rparr>],
      st_files = Map.empty(''s'' \<mapsto> ''yo''), st_state = sample_state, st_headID = commit_oid 0,
      st_refName = ''refs/heads/main'', st_git = sample_git, st_importer = None, st_importError = None,
      st_closed = False, st_idleGeneration = 0, st_idleTimer = None,
      st_reader = \<lparr>rs_process = None, rs_closed = False, rs_generation = 0, rs_timer = None\<rparr>,
      st_cache = newDirectoryCache directoryCacheCapacity, st_maintenanceRequested = False,
      st_commitsSinceMaintenance = 0, st_lastMaintenanceHead = []\<rparr>"

definition sample_commit :: commit_env where
  "sample_commit = \<lparr>ce_clock = 0, ce_order = (\<lambda>xs. xs), ce_legacy = (\<lambda>_. Inl OsErrClosed)\<rparr>"

definition sample_publish :: publish_env where
  "sample_publish =
     \<lparr>pe_day = ''2024-01-01'', pe_chargeDay = ''2024-01-01'', pe_read = None,
      pe_receipt = \<lparr>ri_create = None, ri_encode = None, ri_sync = None, ri_close = None, ri_rename = None, ri_dirsync = None\<rparr>,
      pe_commit = sample_commit\<rparr>"

lemma sample_ids: "leaf_of 1 = ''1''" "sample_mail 1 = Some ''hi''" "dom sample_mail = {1}"
  by (simp_all add: leaf_of_def leaf_path_0 sample_mail_def)

lemma sample_index: "index_of_set {1} = \<lparr>di_leaves = [\<lparr>dc_path = ''1'', dc_count = 1, dc_accumulated = 1\<rparr>], di_total = 1\<rparr>"
proof -
  have "{i \<in> {1 :: u64}. unat i div 1024 = 0} = {1}" by auto
  then have "leaf_card {1} 0 = 1" by (simp add: leaf_card_def)
  moreover have "set_leaves {1} = {0}" by (simp add: set_leaves_def)
  ultimately show ?thesis by (simp add: index_of_set_def entries_of_def leaf_path_0)
qed

lemma sample_path: "path_fits (MsgPath (message_of 1 ''hi''))" "MsgPath (message_of 1 ''hi'') \<noteq> ''state''"
  using message_name_plain [of 1 2]
  by (auto simp: message_of_name sample_ids path_fits_def name_fits_def plain_elem_def)

lemma sample_fits: "files_fit sample_files" "git_fits sample_git"
  using sample_path by (auto simp: files_fit_def sample_files_def git_fits_def sample_git_def path_fits_def)

lemma sample_counts: "counts_represent (mb_Directories sample_state) {1}"
  using counts_add_represent [of "[]" "{}" 1] by (simp add: counts_add_def sample_state_def)

lemma sample_octets: "mailbox_octets sample_mail = 2"
  by (simp add: mailbox_octets_def sample_mail_def)

lemma sample_tree: "mailbox_ok sample_mail" "archive_tree (map_of sample_files) sample_mail"
proof -
  have "messageFromPath p = Inr m \<Longrightarrow> message_file Map.empty p = None" for p m by (simp add: message_file_def)
  then have "archive_tree (\<lambda>_. None) Map.empty" by (auto simp: archive_tree_def message_file_def split: sum.split)
  moreover have "mailbox_ok Map.empty" by (simp add: mailbox_ok_def)
  ultimately have "mailbox_ok sample_mail"
    "archive_tree ((\<lambda>_. None)(MsgPath (message_of 1 ''hi'') := Some ''hi'', ''state'' := Some (state_text sample_state))) sample_mail"
    using archive_tree_insert [of "\<lambda>_. None" Map.empty 1 "''hi''"] by (simp_all add: sample_mail_def)
  moreover have "map_of sample_files = (\<lambda>_. None)(MsgPath (message_of 1 ''hi'') := Some ''hi'', ''state'' := Some (state_text sample_state))"
    using sample_path(2) by (auto simp: sample_files_def)
  ultimately show "mailbox_ok sample_mail" "archive_tree (map_of sample_files) sample_mail" by simp_all
qed

lemma sample_commit_files: "rp_commit (model_view sample_git) (commit_oid 0) = Some (map_of sample_files)"
  using commit_list_at [OF sample_fits(2), of 0] by (simp add: model_view_def sample_git_def)

lemma sample_holds: "store_holds model_view sample_store sample_mail"
proof -
  have "validObjectID (commit_oid 0)" using oid_valid [of 0 0] by (simp add: commit_oid_def)
  then have "committed model_view (map_of sample_files) sample_store"
    using sample_commit_files by (simp add: committed_def sample_store_def)
  moreover have "state_ok sample_state sample_mail"
    using sample_counts sample_octets by (simp add: state_ok_def sample_ids sample_index) (simp add: sample_state_def)
  ultimately show ?thesis
    using sample_tree unfolding store_holds_def by (auto simp: sample_store_def sample_files_def mailboxStateName_def)
qed

lemma sample_base: "store_base model_view sample_store"
  by (simp add: store_base_def importer_idle_def sample_store_def)

lemma sample_ready: "read_ready model_view sample_store"
proof -
  have "cache_ok (newDirectoryCache directoryCacheCapacity)" by (simp add: cache_ok_new directoryCacheCapacity_def)
  moreover have "lru_of (newDirectoryCache directoryCacheCapacity) = []" by (simp add: lru_of_def newDirectoryCache_def)
  ultimately show ?thesis by (simp add: read_ready_def reader_idle_def cache_sound_def sample_store_def)
qed

lemma sample_failure: "st_failure sample_store = None"
  by (simp add: sample_store_def)

lemma sample_serving: "serving model_view sample_store sample_mail"
  using sample_holds sample_base sample_ready sample_failure by (simp add: serving_def)

lemma sample_order: "order_ok sample_commit" "order_ok (pe_commit sample_publish)"
  by (simp_all add: order_ok_def sample_commit_def sample_publish_def)

lemma sample_staged: "staged_ready 0 ''yo'' sample_store"
  by (simp add: staged_ready_def sample_store_def)

lemma sample_shows: "snapshot_shows model_view sample_store (Snapshot sample_store) sample_mail"
  by (rule Snapshot_shows [OF sample_holds sample_failure])

end
