(* ===== verification/Smtp_Mail.thy ===== *)
theory Smtp_Mail
  imports Smtp_Session Smtp_Stage Sample_Store
begin

text \<open>
  The archive behind the SMTP server: its operations as the delivery interface, and the
  interpretation of the delivery contract on them. The operating system's answers and the clock
  are families indexed by the turns of a session.
\<close>

section \<open>Staging leaves the mailbox alone\<close>

lemma spool_frame_refl [simp]: "spool_frame s s"
  by (simp add: spool_frame_def)

lemma spool_frame_updates:
  "spool_frame s (s\<lparr>st_staged := x\<rparr>)" "spool_frame s (s\<lparr>st_files := f\<rparr>)" "spool_frame s (s\<lparr>st_reservedBytes := r\<rparr>)"
  "spool_frame s (s\<lparr>st_reservedBytes := r, st_staged := x\<rparr>)" "spool_frame s (s\<lparr>st_staged := x, st_files := f\<rparr>)"
  by (simp_all add: spool_frame_def)

definition spool_step :: "'g store \<Rightarrow> 'g store \<Rightarrow> bool" where
  "spool_step s s' \<longleftrightarrow> spool_frame s s' \<and> st_failure s' = st_failure s"

lemma spool_step_refl [simp]: "spool_step s s"
  by (simp add: spool_step_def)

lemma spool_step_trans: "spool_step s t \<Longrightarrow> spool_step t u \<Longrightarrow> spool_step s u"
  using spool_frame_trans by (auto simp: spool_step_def)

lemma spool_step_updates:
  "spool_step s (s\<lparr>st_staged := x\<rparr>)" "spool_step s (s\<lparr>st_files := f\<rparr>)" "spool_step s (s\<lparr>st_staged := x, st_files := f\<rparr>)"
  "spool_step s (s\<lparr>st_reservedBytes := r, st_staged := x\<rparr>)"
  by (simp_all add: spool_step_def spool_frame_updates)

lemma spool_step_discard: "spool_step s (Discard i s)"
  using discardLocked_frame [of s i] by (simp add: spool_step_def Discard_def discardLocked_def removeFile_def Let_def)

lemma quota_charge_step: "quota_charge day i consumed n s = Some s' \<Longrightarrow> spool_step s s'"
  by (auto simp: quota_charge_def Let_def spool_step_updates split: if_splits)

lemma stage_copy_step: "stage_copy fuel io rd i k path consumed src s = (res, src', s') \<Longrightarrow> spool_step s s'"
proof (induction fuel arbitrary: k consumed src s res src' s')
  case (Suc fuel)
  obtain bytes err src1 where r: "rd src 32768 = (bytes, err, src1)" by (metis prod_cases3)
  note def = Suc.prems [unfolded stage_copy.simps r prod.case Let_def]
  show ?case
  proof (cases "bytes = []")
    case True
    with def Suc.IH show ?thesis by (auto split: option.splits if_splits)
  next
    case False
    show ?thesis
    proof (cases "quota_charge (io_day io (Suc k)) i consumed (length bytes) s")
      case None
      with def False show ?thesis by simp
    next
      case (Some t)
      let ?t = "t\<lparr>st_files := (st_files t)(path := map_option (\<lambda>d. d @ bytes) (st_files t path))\<rparr>"
      have t: "spool_step s t" "spool_step s ?t"
        using quota_charge_step [OF Some] spool_step_trans [OF _ spool_step_updates(2)] by blast+
      obtain res2 src2 s2 where rec: "stage_copy fuel io rd i (Suc k) path (consumed + of_nat (length bytes)) src1 ?t = (res2, src2, s2)"
        by (metis prod_cases3)
      have "spool_step s s2" using Suc.IH [OF rec] t(2) spool_step_trans by blast
      with def False Some t rec show ?thesis by (auto split: option.splits if_splits)
    qed
  qed
qed simp

lemma Stage_step: "Stage fuel io rd src s = (res, src', s') \<Longrightarrow> spool_step s s'"
proof -
  assume a: "Stage fuel io rd src s = (res, src', s')"
  let ?b = "stage_begin s" and ?i = "length (st_staged s)"
  have b: "spool_step s ?b" by (simp add: stage_begin_def spool_step_def spool_frame_def)
  have d: "spool_step s t \<Longrightarrow> spool_step s (Discard ?i t)" for t using spool_step_discard spool_step_trans by blast
  show ?thesis
  proof (cases "st_failure s = None \<and> canReserveLocked (io_day io 0) s minimumReceiptCharge")
    case False
    with a show ?thesis by (auto simp: Stage_def split: option.splits if_splits)
  next
    case True
    then have f: "stage_file fuel io rd ?i src ?b = (res, src', s')" using a by (simp add: Stage_def)
    show ?thesis
    proof (cases "io_mkdir io = None \<and> (\<exists>path. io_create io = Inr path)")
      case False
      with f have "s' = Discard ?i ?b" by (auto simp: stage_file_def split: option.splits sum.splits)
      with d [OF b] show ?thesis by simp
    next
      case mk: True
      then obtain path where path: "io_create io = Inr path" by blast
      let ?s = "?b\<lparr>st_staged := (st_staged ?b)[?i := (st_staged ?b ! ?i)\<lparr>sm_path := path\<rparr>], st_files := (st_files ?b)(path := Some [])\<rparr>"
      obtain r2 src2 s2 where cp: "stage_copy fuel io rd ?i 0 path 0 src ?s = (r2, src2, s2)" by (metis prod_cases3)
      have "spool_step s ?s" using b spool_step_updates(3) spool_step_trans by blast
      then have s2: "spool_step s s2" using stage_copy_step [OF cp] spool_step_trans by blast
      have "s' = Discard ?i (s2\<lparr>st_files := (st_files s2)(path := None)\<rparr>) \<or> (\<exists>x. s' = s2\<lparr>st_staged := x\<rparr>)"
        using f mk path cp by (auto simp: stage_file_def Let_def split: option.splits sum.splits)
      with s2 d spool_step_updates spool_step_trans show ?thesis by metis
    qed
  qed
qed

context byte_source
begin

lemma Stage_ok:
  assumes "Stage fuel io rd src s = (res, src', s')" "ok src" "spool_ok s" "length (fst (content src)) < fuel"
    and "\<And>path. io_create io = Inr path \<Longrightarrow> path \<noteq> []"
  shows "ok src' \<and> other src' = other src \<and> spool_ok s'"
proof (cases res)
  case (Inr i)
  with assms(1) have "\<exists>path. io_create io = Inr path"
    by (auto simp: Stage_def stage_file_def split: option.splits if_splits sum.splits)
  with Stage_Inr [OF assms(1) [unfolded Inr] assms(2-4)] assms(5) show ?thesis by blast
next
  case (Inl e)
  let ?i = "length (st_staged s)" and ?b = "stage_begin s"
  show ?thesis
  proof (cases "st_failure s = None \<and> canReserveLocked (io_day io 0) s minimumReceiptCharge")
    case False
    with assms(1-3) show ?thesis by (auto simp: Stage_def split: option.splits if_splits)
  next
    case True
    note b = stage_begin_ok [OF assms(3) conjunct2 [OF True]]
    have i: "?i < length (st_staged ?b)" by (simp add: stage_begin_def)
    show ?thesis
    proof (cases "io_mkdir io = None \<and> (\<exists>path. io_create io = Inr path)")
      case False
      with assms(1) True have "s' = Discard ?i ?b \<and> src' = src"
        by (auto simp: Stage_def stage_file_def split: option.splits sum.splits)
      with discardLocked_ok [OF b i] assms(2) show ?thesis by (simp add: Discard_def)
    next
      case mk: True
      then obtain path where path: "io_create io = Inr path" by blast
      let ?s = "?b\<lparr>st_staged := (st_staged ?b)[?i := (st_staged ?b ! ?i)\<lparr>sm_path := path\<rparr>],
               st_files := (st_files ?b)(path := Some [])\<rparr>"
      obtain r2 src2 s2 where cp: "stage_copy fuel io rd ?i 0 path 0 src ?s = (r2, src2, s2)" by (metis prod_cases3)
      have "spool_ok ?s"
        using spool_ok_meta [OF b, where i = ?i and p = path and z = 0] by (simp add: stage_begin_def spool_ok_def reserved_sum_def)
      then have start: "copying ?i path 0 [] ?s"
        by (simp add: copying_def stage_begin_def minimumReceiptCharge_def nth_append)
      from stage_copy_spec [OF cp assms(2) start assms(4)]
      have st: "ok src2 \<and> other src2 = other src" "copied ?i path ?s s2" "spool_ok s2" by simp_all
      have i2: "?i < length (st_staged (s2\<lparr>st_files := (st_files s2)(path := None)\<rparr>))"
        using st(2) i by (auto simp: copied_def)
      have "s' = Discard ?i (s2\<lparr>st_files := (st_files s2)(path := None)\<rparr>)" "src' = src2"
        using assms(1) True mk path cp Inl
        by (auto simp: Stage_def stage_file_def Let_def split: option.splits sum.splits)
      then show ?thesis using discardLocked_ok [OF _ i2] st by (simp add: Discard_def)
    qed
  qed
qed

end

section \<open>The delivery interface\<close>

definition store_delivery :: "'g git \<Rightarrow> string \<Rightarrow> stage_io \<Rightarrow> publish_env \<Rightarrow> 'g store delivery" where
  "store_delivery G today io env =
     \<lparr>dl_CheckReceive = CheckReceive today, dl_Stage = (\<lambda>src. Stage (source_fuel src) io source_Read src),
      dl_Size = staged_Size, dl_Open = staged_Open, dl_Discard = Discard, dl_Publish = Publish G env\<rparr>"

text \<open>What a store must be to serve deliveries in any turn.\<close>

definition delivery_ready :: "'g git \<Rightarrow> ('g \<Rightarrow> repo) \<Rightarrow> ('e \<Rightarrow> stage_io) \<Rightarrow> ('e \<Rightarrow> publish_env) \<Rightarrow> 'g store \<Rightarrow> bool" where
  "delivery_ready G view ios envs s \<longleftrightarrow>
     git_sound G view \<and> (\<forall>e. order_ok (pe_commit (envs e))) \<and> (\<forall>e path. io_create (ios e) = Inr path \<longrightarrow> path \<noteq> []) \<and>
     store_base view s \<and> spool_ok s \<and> (\<exists>M. store_holds view s M)"

definition staged_handle :: "nat \<Rightarrow> 'g store \<Rightarrow> bool" where
  "staged_handle i s \<longleftrightarrow> i < length (st_staged s)"

definition staged_content :: "nat \<Rightarrow> 'g store \<Rightarrow> string option" where
  "staged_content i s = (case staged_Open i s of Inr c \<Rightarrow> if staged_ready i c s then Some c else None | Inl e \<Rightarrow> None)"

lemma staged_content_iff: "staged_content i s = Some c \<longleftrightarrow> staged_ready i c s"
  by (auto simp: staged_content_def staged_ready_def staged_Open_def split: sum.splits if_splits option.splits)

lemma spool_step_keeps:
  assumes "spool_step s s'"
  shows "store_base view s' = store_base view s" "store_holds view s M \<Longrightarrow> store_holds view s' M"
proof -
  from assms have f: "spool_frame s s'" "st_failure s' = st_failure s" by (simp_all add: spool_step_def)
  show "store_base view s' = store_base view s" by (rule store_base_frames(1) [OF f(1)])
  show "store_holds view s M \<Longrightarrow> store_holds view s' M" by (rule store_holds_spool [OF f(1)]) (simp_all add: f(2))
qed

lemma spool_step_ready:
  assumes "delivery_ready G view ios envs s" "spool_step s s'" "spool_ok s'"
  shows "delivery_ready G view ios envs s'"
proof -
  from assms(1) obtain M where "store_holds view s M" by (auto simp: delivery_ready_def)
  with spool_step_keeps [OF assms(2), of view] assms(1,3) show ?thesis by (auto simp: delivery_ready_def)
qed

text \<open>Staging, as the contract has it.\<close>

lemma store_stage:
  assumes "delivery_ready G view ios envs s" "ds_ok src" "Stage (source_fuel src) (ios e) source_Read src s = (res, src', s')"
  shows "delivery_ready G view ios envs s' \<and> ds_ok src' \<and> same_writer (source_conn src) (source_conn src') \<and>
    (\<forall>M. store_holds view s M \<longrightarrow> store_holds view s' M) \<and>
    (\<forall>h. res = Inr h \<longrightarrow> staged_handle h s' \<and>
       (\<exists>c. ds_view src = (c, IoEOF, cn_stream (source_conn src')) \<and> staged_content h s' = Some c))"
proof -
  have ok: "spool_ok s" and path: "\<And>path. io_create (ios e) = Inr path \<Longrightarrow> path \<noteq> []"
    using assms(1) by (simp_all add: delivery_ready_def)
  note st = smtp_source.Stage_ok [OF assms(3,2) ok source_fuel_enough path]
  note step = Stage_step [OF assms(3)]
  have writer: "same_writer (source_conn src) (source_conn src')"
    using st by (simp add: source_other_def same_writer_def Let_def)
  have staged: "staged_handle h s' \<and> (\<exists>c. ds_view src = (c, IoEOF, cn_stream (source_conn src')) \<and> staged_content h s' = Some c)"
    if h: "res = Inr h" for h
  proof -
    from assms(3) h obtain path where p: "io_create (ios e) = Inr path"
      by (auto simp: Stage_def stage_file_def split: option.splits if_splits sum.splits)
    let ?c = "fst (ds_view src)"
    from smtp_source.Stage_Inr [OF assms(3) [unfolded h] assms(2) ok source_fuel_enough p path [OF p]] obtain r q where
      f: "h = length (st_staged s)" "snd (ds_view src) = (IoEOF, cn_stream (source_conn src'))" "unat q = max 4096 (length ?c)"
        "s' = s\<lparr>st_reservedBytes := r,
           st_staged := st_staged s @ [\<lparr>sm_path = path, sm_size = of_nat (length ?c), sm_reserved = q, sm_done = False\<rparr>],
           st_files := (st_files s)(path := Some ?c)\<rparr>" by blast
    have "length ?c < 18446744073709551616" using f(3) unat_less_64 [of q] by linarith
    then have "staged_ready h ?c s'" using path [OF p] by (simp add: f(1,4) staged_ready_def nth_append)
    then have "staged_content h s' = Some ?c" by (simp add: staged_content_iff)
    moreover have "ds_view src = (?c, IoEOF, cn_stream (source_conn src'))" using f(2) by (metis prod.collapse)
    moreover have "staged_handle h s'" by (simp add: f(1,4) staged_handle_def)
    ultimately show ?thesis by blast
  qed
  have "delivery_ready G view ios envs s'" by (rule spool_step_ready [OF assms(1) step]) (use st in simp)
  with st writer staged spool_step_keeps(2) [OF step, of view] show ?thesis by blast
qed

lemma store_publish:
  assumes "delivery_ready G view ios envs s" "staged_content h s = Some c" "store_holds view s M"
    and "Publish G (envs e) h s = (res, s')"
  shows "delivery_ready G view ios envs s' \<and> length (st_staged s') = length (st_staged s) \<and>
    (case res of
       Inr (mid, path) \<Rightarrow> M mid = None \<and> store_holds view s' (M(mid \<mapsto> c)) \<and> st_failure s' = None
     | Inl er \<Rightarrow> store_holds view s' M \<or>
         ((\<exists>mid. M mid = None \<and> store_holds view s' (M(mid \<mapsto> c))) \<and> st_failure s' \<noteq> None))"
proof -
  have r: "git_sound G view" "store_base view s" "order_ok (pe_commit (envs e))" "spool_ok s"
    using assms(1) by (simp_all add: delivery_ready_def)
  have staged: "staged_ready h c s" using assms(2) by (simp add: staged_content_iff)
  note sp = Publish_spec [OF r(1,2) assms(3) r(3) staged assms(4)]
  have outcome: "case res of
       Inr (mid, path) \<Rightarrow> M mid = None \<and> store_holds view s' (M(mid \<mapsto> c)) \<and> st_failure s' = None
     | Inl er \<Rightarrow> store_holds view s' M \<or>
         ((\<exists>mid. M mid = None \<and> store_holds view s' (M(mid \<mapsto> c))) \<and> st_failure s' \<noteq> None)"
  proof (cases res)
    case (Inr x)
    with sp show ?thesis by (auto simp: outcome_ok_def)
  next
    case (Inl er)
    let ?n = "mb_LastID (st_state s) + 1"
    show ?thesis
    proof (cases "store_holds view s' M")
      case False
      with sp Inl have n: "store_holds view s' (M(?n \<mapsto> c))" "st_failure s' \<noteq> None" by (simp_all add: outcome_ok_def)
      have "M ?n = None"
      proof (cases "st_failure s")
        case None
        then have ok: "state_ok (st_state s) M" using assms(3) by (auto simp: store_holds_def)
        have "mb_LastID (st_state s) \<noteq> - 1"
        proof
          assume "mb_LastID (st_state s) = - 1"
          then have "publish_next z (st_state s) = Inl (ErrMsg ''message ID space exhausted'')" for z by (simp add: publish_next_def)
          then have "s' = s" using assms(4) None by (auto simp: Publish_def split: if_splits)
          with False assms(3) show False by simp
        qed
        from next_id_fresh(2) [OF ok this] show ?thesis .
      next
        case (Some x)
        then have "s' = s" using assms(4) by (auto simp: Publish_def split: if_splits)
        with False assms(3) show ?thesis by simp
      qed
      with Inl n show ?thesis by auto
    qed (simp add: Inl)
  qed
  then have "\<exists>M. store_holds view s' M" by (auto split: sum.splits)
  with assms(1) sp r have "delivery_ready G view ios envs s'" by (simp add: delivery_ready_def)
  with outcome sp show ?thesis by blast
qed

interpretation mail: mail_delivery "store_delivery G today (ios e) (envs e)" "delivery_ready G view ios envs"
    "store_holds view" staged_content staged_handle "\<lambda>s. st_failure s \<noteq> None"
  for G :: "'g git" and today :: string and ios :: "'e \<Rightarrow> stage_io" and envs :: "'e \<Rightarrow> publish_env" and e :: 'e
    and view :: "'g \<Rightarrow> repo"
proof unfold_locales
  fix s s' :: "'g store" and src src' res
  assume "delivery_ready G view ios envs s" "ds_ok src"
    "dl_Stage (store_delivery G today (ios e) (envs e)) src s = (res, src', s')"
  then show "delivery_ready G view ios envs s' \<and> ds_ok src' \<and> same_writer (source_conn src) (source_conn src') \<and>
      (\<forall>M. store_holds view s M \<longrightarrow> store_holds view s' M) \<and>
      (\<forall>h. res = Inr h \<longrightarrow> staged_handle h s' \<and>
         (\<exists>c. ds_view src = (c, IoEOF, cn_stream (source_conn src')) \<and> staged_content h s' = Some c))"
    by (intro store_stage) (simp_all add: store_delivery_def)
next
  fix s s' :: "'g store" and h c M out
  assume a: "delivery_ready G view ios envs s" "staged_handle h s" "staged_content h s = Some c" "store_holds view s M"
    "dl_Publish (store_delivery G today (ios e) (envs e)) h s = (out, s')"
  have "Publish G (envs e) h s = (out, s')" using a(5) by (simp add: store_delivery_def)
  from store_publish [OF a(1,3,4) this] a(2)
  show "delivery_ready G view ios envs s' \<and> staged_handle h s' \<and>
      (case out of
         Inr (mid, path) \<Rightarrow> M mid = None \<and> store_holds view s' (M(mid \<mapsto> c)) \<and> \<not> st_failure s' \<noteq> None
       | Inl er \<Rightarrow> store_holds view s' M \<or>
           (\<exists>mid. M mid = None \<and> store_holds view s' (M(mid \<mapsto> c))) \<and> st_failure s' \<noteq> None)"
    unfolding staged_handle_def by (cases out) (simp_all add: split_def)
next
  fix s :: "'g store" and h
  assume a: "delivery_ready G view ios envs s" "staged_handle h s"
  let ?t = "Discard h s"
  have ok: "spool_ok ?t" using discardLocked_ok [of s h] a by (simp add: delivery_ready_def staged_handle_def Discard_def)
  note step = spool_step_discard [of s h]
  have "delivery_ready G view ios envs ?t" by (rule spool_step_ready [OF a(1) step ok])
  moreover have "st_failure ?t = st_failure s" using step by (simp add: spool_step_def)
  moreover have "dl_Discard (store_delivery G today (ios e) (envs e)) h s = ?t" by (simp add: store_delivery_def)
  ultimately show "delivery_ready G view ios envs (dl_Discard (store_delivery G today (ios e) (envs e)) h s) \<and>
      (\<forall>M. store_holds view s M \<longrightarrow> store_holds view (dl_Discard (store_delivery G today (ios e) (envs e)) h s) M) \<and>
      (st_failure s \<noteq> None \<longrightarrow> st_failure (dl_Discard (store_delivery G today (ios e) (envs e)) h s) \<noteq> None)"
    using spool_step_keeps(2) [OF step, of view] by simp
next
  fix s :: "'g store"
  assume "st_failure s \<noteq> None"
  then show "dl_CheckReceive (store_delivery G today (ios e) (envs e)) s \<noteq> None"
    by (auto simp: store_delivery_def CheckReceive_def)
qed

end
