(* ===== verification/Publish_Live.thy ===== *)
theory Publish_Live
  imports Mailbox_Store
begin

text \<open>
  That commits succeed: when Git answers as documented, \<open>commitChanges\<close> of \<open>internal/archive/import.go\<close>
  comes to its end without an error, and so does \<open>Publish\<close> of \<open>store.go\<close>.
\<close>

section \<open>A Git that answers\<close>

text \<open>
  Git carries out one commit with the changes of \<open>meant\<close> on the present HEAD: every request is
  answered by its line, the checkpoint moves HEAD, and nothing interrupts the exchange.
  \<open>running\<close> is whether there is an import process already.
\<close>

definition git_commits :: "'g git \<Rightarrow> bool \<Rightarrow> (file_change list \<Rightarrow> bool) \<Rightarrow> string \<Rightarrow> 'g \<Rightarrow> bool" where
  "git_commits G running meant head g \<longleftrightarrow>
     (\<exists>g0 g1. gi_head G g = (Inr (head @ [CHR 0x0A]), g0) \<and> (if running then g1 = g0 else gi_start G g0 = (None, g1)) \<and>
       (\<forall>request ref mark who title changes.
          read_stream request = Some [ImportCommit ref mark who title (Some head) changes, ImportBlank, ImportGetMark mark] \<longrightarrow>
          meant changes \<longrightarrow>
          (\<exists>oid g2. gi_send G request g1 = (Inr (oid @ [CHR 0x0A], IoEOF), g2) \<and> validObjectID oid \<and>
             (\<forall>chk. read_stream chk = Some [ImportCheckpoint, ImportProgress oid] \<longrightarrow>
                (\<exists>g3 g4 g5. gi_send G chk g2 = (Inr (''progress '' @ oid @ [CHR 0x0A], IoEOF), g3) \<and>
                   gi_head G g3 = (Inr (oid @ [CHR 0x0A]), g4) \<and> gi_watch G g4 = (None, g5))))))"

lemma git_commits_mono:
  assumes "git_commits G running meant head g" "\<And>cs. meant' cs \<Longrightarrow> meant cs"
  shows "git_commits G running meant' head g"
proof -
  from assms(1) obtain g0 g1 where "gi_head G g = (Inr (head @ [CHR 0x0A]), g0)"
      "if running then g1 = g0 else gi_start G g0 = (None, g1)"
      "\<forall>request ref mark who title changes.
         read_stream request = Some [ImportCommit ref mark who title (Some head) changes, ImportBlank, ImportGetMark mark] \<longrightarrow>
         meant changes \<longrightarrow>
         (\<exists>oid g2. gi_send G request g1 = (Inr (oid @ [CHR 0x0A], IoEOF), g2) \<and> validObjectID oid \<and>
            (\<forall>chk. read_stream chk = Some [ImportCheckpoint, ImportProgress oid] \<longrightarrow>
               (\<exists>g3 g4 g5. gi_send G chk g2 = (Inr (''progress '' @ oid @ [CHR 0x0A], IoEOF), g3) \<and>
                  gi_head G g3 = (Inr (oid @ [CHR 0x0A]), g4) \<and> gi_watch G g4 = (None, g5))))"
    unfolding git_commits_def by (elim exE conjE) (rule that)
  with assms(2) show ?thesis
    unfolding git_commits_def by - (rule exI [of _ g0], rule exI [of _ g1], simp)
qed

lemma git_line_ends:
  assumes "CHR 0x0A \<notin> set l"
  shows "git_line (l @ [CHR 0x0A], e) = (Inr l, ([], e))"
proof -
  have "index_byte (l @ [CHR 0x0A]) (CHR 0x0A) = Some (length l)" using assms by simp
  then show ?thesis by (simp add: git_line_def)
qed

lemma trim_space_head:
  assumes "validObjectID h"
  shows "trim_space (h @ [CHR 0x0A]) = h"
proof -
  have graphic: "\<not> space_edge c" if "c \<in> set h" for c
    using assms that by (auto simp: validObjectID_def list_all_iff space_edge_def less_eq_char_def)
  have "h \<noteq> []" using assms by (auto simp: validObjectID_def)
  then have ne: "h = hd h # tl h" "rev h = last h # tl (rev h)"
    by simp (metis \<open>h \<noteq> []\<close> hd_Cons_tl hd_rev rev_is_Nil_conv)
  have "find (has_prefix (hd h # tl h @ [CHR 0x0A])) space_seqs = None"
    using graphic [of "hd h"] \<open>h \<noteq> []\<close> by (simp add: find_space_None)
  then have l: "trim_seqs space_seqs (h @ [CHR 0x0A]) = h @ [CHR 0x0A]"
    by (subst (1 2) ne(1)) simp
  have "find (has_prefix (CHR 0x0A # rev h)) (map rev space_seqs) = Some [CHR 0x0A]"
    by (simp add: space_seqs_def has_prefix_iff)
  moreover have "find (has_prefix (last h # tl (rev h))) (map rev space_seqs) = None"
    using graphic [of "last h"] \<open>h \<noteq> []\<close> by (simp add: find_rspace_None)
  then have "trim_seqs (map rev space_seqs) (rev h) = rev h" by (subst (1 2) ne(2)) simp
  ultimately have "trim_seqs (map rev space_seqs) (rev (h @ [CHR 0x0A])) = rev h" by simp
  with l show ?thesis by (simp add: trim_space_def)
qed

text \<open>The changes that a commit of \<open>xs\<close> without the files \<open>gone\<close> asks for, in some order.\<close>

definition commit_meant :: "(string \<times> string option) list \<Rightarrow> string list \<Rightarrow> file_change list \<Rightarrow> bool" where
  "commit_meant xs gone cs \<longleftrightarrow> distinct (map change_path cs) \<and>
     set cs = (\<lambda>(p, c). FileModify p (the c)) ` set xs \<union> FileDelete ` set gone"

lemma import_changes_total:
  assumes "\<forall>x \<in> set xs. validArchivePath (fst x) \<and> snd x \<noteq> None"
  shows "\<exists>ws. map_res (import_change legacy) xs = Inr ws"
  using assms by (induction xs) (auto simp: import_change_def)

lemma import_removals_total: "\<forall>p \<in> set ps. validArchivePath p \<Longrightarrow> \<exists>rs. map_res import_removal ps = Inr rs"
  by (induction ps) (auto simp: import_removal_def)

lemma commit_request_total:
  assumes "order_ok env" "distinct (map fst xs)" "\<forall>x \<in> set xs. validArchivePath (fst x) \<and> snd x \<noteq> None"
    and "CHR 0x0A \<notin> set ref" "validObjectID head"
    and "distinct gone" "\<forall>p \<in> set gone. validArchivePath p" "fst ` set xs \<inter> set gone = {}"
  obtains request cs who where "commit_request ref k clock title head (ce_legacy env) (ce_order env xs) gone = Inr request"
    "read_stream request = Some [ImportCommit ref (fmt_nat 10 k) who title (Some head) cs, ImportBlank, ImportGetMark (fmt_nat 10 k)]"
    "commit_meant xs gone cs"
proof -
  let ?ys = "ce_order env xs"
  have ys: "distinct (map fst ?ys)" "set ?ys = set xs" using assms(1,2) by (simp_all add: order_ok_def)
  then have "\<exists>ws. map_res (import_change (ce_legacy env)) ?ys = Inr ws" using assms(3) by (intro import_changes_total) simp
  with import_removals_total [OF assms(7)]
  obtain request where req: "commit_request ref k clock title head (ce_legacy env) ?ys gone = Inr request"
    by (auto simp: commit_request_def)
  have "CHR 0x0A \<notin> set head" "head \<noteq> []" using assms(5) validObjectID_no_LF by (auto simp: validObjectID_def)
  with read_commit_request [OF req assms(4)] obtain cs where
    cs: "list_all2 (resolved (ce_legacy env)) ?ys cs" and
    rd: "read_stream request = Some [ImportCommit ref (fmt_nat 10 k) (committer_line clock) title (Some head) (cs @ map FileDelete gone),
      ImportBlank, ImportGetMark (fmt_nat 10 k)]" by auto
  have eq: "cs = map (\<lambda>(p, c). FileModify p (the c)) ?ys"
    using resolved_contents [OF cs] ys(2) assms(3) by auto
  have "change_path \<circ> (\<lambda>(p, c). FileModify p (the c)) = fst" by (simp add: fun_eq_iff)
  then have paths: "map change_path (cs @ map FileDelete gone) = map fst ?ys @ gone" by (simp add: eq comp_def)
  have "distinct (map fst ?ys @ gone)" using ys assms(6,8) by simp
  then have "commit_meant xs gone (cs @ map FileDelete gone)" unfolding commit_meant_def paths using ys(2) by (simp add: eq)
  with req rd show thesis by (rule that)
qed

section \<open>Commits\<close>

lemma commitChanges_live:
  assumes "git_commits G (st_importer s \<noteq> None) (commit_meant (AList.update mailboxStateName (Some (state_text st)) changes) gone) (st_headID s) (st_git s)"
    and "importer_idle s" "order_ok env" "CHR 0x0A \<notin> set (st_refName s)" "validObjectID (st_headID s)"
    and "distinct (map fst changes)" "\<forall>x \<in> set changes. validArchivePath (fst x) \<and> snd x \<noteq> None"
    and "st_failure s = None" "\<not> st_closed s" "st_importError s = None"
    and "buildDirectoryIndex (mb_Directories st) (mb_LastID st) = Inr index"
    and "distinct gone" "\<forall>p \<in> set gone. validArchivePath p" "insert mailboxStateName (fst ` set changes) \<inter> set gone = {}"
  shows "\<exists>s'. commitChanges G env title st changes gone s = (None, s')"
proof -
  let ?xs = "AList.update mailboxStateName (Some (state_text st)) changes"
  have xs: "distinct (map fst ?xs)" "\<forall>x \<in> set ?xs. validArchivePath (fst x) \<and> snd x \<noteq> None"
  proof -
    show "distinct (map fst ?xs)" using assms(6) by (rule distinct_update)
    have "set (AList.update k v ys) \<subseteq> insert (k, v) (set ys)" for k :: string and v :: "string option" and ys
      by (induction ys) auto
    then have sub: "set ?xs \<subseteq> insert (mailboxStateName, Some (state_text st)) (set changes)" .
    have "validArchivePath mailboxStateName" by (simp add: validArchivePath_def)
    then have "\<forall>x \<in> insert (mailboxStateName, Some (state_text st)) (set changes). validArchivePath (fst x) \<and> snd x \<noteq> None"
      using assms(7) by simp
    with sub show "\<forall>x \<in> set ?xs. validArchivePath (fst x) \<and> snd x \<noteq> None" by blast
  qed
  have apart: "fst ` set ?xs \<inter> set gone = {}" using assms(14) by (simp add: dom_update)
  from assms(1) obtain g0 g1 where g: "gi_head G (st_git s) = (Inr (st_headID s @ [CHR 0x0A]), g0)"
      "if st_importer s \<noteq> None then g1 = g0 else gi_start G g0 = (None, g1)"
    and answer: "\<And>request ref mark who title changes.
      read_stream request = Some [ImportCommit ref mark who title (Some (st_headID s)) changes, ImportBlank, ImportGetMark mark] \<Longrightarrow>
      commit_meant ?xs gone changes \<Longrightarrow>
      \<exists>oid g2. gi_send G request g1 = (Inr (oid @ [CHR 0x0A], IoEOF), g2) \<and> validObjectID oid \<and>
        (\<forall>chk. read_stream chk = Some [ImportCheckpoint, ImportProgress oid] \<longrightarrow>
           (\<exists>g3 g4 g5. gi_send G chk g2 = (Inr (''progress '' @ oid @ [CHR 0x0A], IoEOF), g3) \<and>
              gi_head G g3 = (Inr (oid @ [CHR 0x0A]), g4) \<and> gi_watch G g4 = (None, g5)))"
    unfolding git_commits_def by blast
  define s1 where "s1 = s\<lparr>st_git := g0\<rparr>"
  have h1: "git_head G s = (Inr (st_headID s), s1)"
    using g(1) trim_space_head [OF assms(5)] by (simp add: git_head_def s1_def)
  obtain p s2 where x2: "importerLocked G s1 = (Inr p, s2)" and p: "fst (im_out p) = []"
    and s2: "st_git s2 = g1" "st_refName s2 = st_refName s" "st_headID s2 = st_headID s"
  proof (cases "st_importer s")
    case None
    let ?p = "\<lparr>im_nextMark = 0, im_out = ([], IoEOF)\<rparr>"
    have "importerLocked G s1 = (Inr ?p, s\<lparr>st_idleGeneration := st_idleGeneration s + 1, st_idleTimer := None,
        st_git := g1, st_importer := Some ?p\<rparr>)"
      using g(2) assms(9,10) None by (simp add: importerLocked_def s1_def Let_def)
    then show thesis by (rule that) simp_all
  next
    case (Some p)
    have "importerLocked G s1 = (Inr p, s\<lparr>st_idleGeneration := st_idleGeneration s + 1, st_idleTimer := None, st_git := g1\<rparr>)"
      using g(2) assms(9,10) Some by (simp add: importerLocked_def s1_def Let_def)
    then show thesis by (rule that) (use Some assms(2) in \<open>simp_all add: importer_idle_def\<close>)
  qed
  let ?p = "p\<lparr>im_nextMark := im_nextMark p + 1\<rparr>"
  let ?k = "unat (im_nextMark p + 1)"
  obtain request cs who where req: "commit_request (st_refName s) ?k (ce_clock env) title (st_headID s) (ce_legacy env)
      (ce_order env ?xs) gone = Inr request"
    and rd: "read_stream request = Some [ImportCommit (st_refName s) (fmt_nat 10 ?k) who title (Some (st_headID s)) cs,
      ImportBlank, ImportGetMark (fmt_nat 10 ?k)]" "commit_meant ?xs gone cs"
    using commit_request_total [OF assms(3) xs assms(4,5,12,13) apart] by blast
  from answer [OF rd] obtain oid g2 where a1: "gi_send G request g1 = (Inr (oid @ [CHR 0x0A], IoEOF), g2)" "validObjectID oid"
    and chk: "\<And>chk. read_stream chk = Some [ImportCheckpoint, ImportProgress oid] \<Longrightarrow>
           \<exists>g3 g4 g5. gi_send G chk g2 = (Inr (''progress '' @ oid @ [CHR 0x0A], IoEOF), g3) \<and>
              gi_head G g3 = (Inr (oid @ [CHR 0x0A]), g4) \<and> gi_watch G g4 = (None, g5)" by blast
  from chk [OF read_checkpoint_request [OF a1(2)]] obtain g3 g4 g5 where
    a2: "gi_send G (checkpoint_request oid) g2 = (Inr ((''progress '' @ oid) @ [CHR 0x0A], IoEOF), g3)"
      "gi_head G g3 = (Inr (oid @ [CHR 0x0A]), g4)" "gi_watch G g4 = (None, g5)" by auto
  have lf: "CHR 0x0A \<notin> set oid" "CHR 0x0A \<notin> set (''progress '' @ oid)" using validObjectID_no_LF [OF a1(2)] by simp_all
  let ?t = "s2\<lparr>st_importer := Some ?p\<rparr>"
  let ?s3 = "?t\<lparr>st_git := g2, st_importer := Some (?p\<lparr>im_out := ([], IoEOF)\<rparr>)\<rparr>"
  let ?s4 = "?s3\<lparr>st_git := g3, st_importer := Some (?p\<lparr>im_out := ([], IoEOF)\<rparr>)\<rparr>"
  have e1: "import_exchange G request ?t = (Inr oid, ?s3)"
    using a1(1) p git_line_ends [OF lf(1), of IoEOF] by (simp add: import_exchange_def s2)
  have e2: "import_exchange G (checkpoint_request oid) ?s3 = (Inr (''progress '' @ oid), ?s4)"
    using a2(1) git_line_ends [OF lf(2), of IoEOF] by (simp add: import_exchange_def)
  have e3: "git_head G ?s4 = (Inr oid, ?s4\<lparr>st_git := g4\<rparr>)"
    using a2(2) trim_space_head [OF a1(2)] by (simp add: git_head_def)
  let ?s5 = "?s4\<lparr>st_git := g4, st_headID := oid\<rparr>"
  have imp: "importCommitLocked G env title st changes gone p s2 = (None, ?s5)"
    unfolding importCommitLocked_def Let_def state_text_def [symmetric]
    using req e1 e2 e3 a1(2) by (simp add: s2)
  have wat: "watched G (None, ?s5) = (None, ?s5\<lparr>st_git := g5\<rparr>)"
    using a2(3) by (simp add: watched_def)
  have "commitChanges G env title st changes gone s = (None, armIdleLocked (countCommit (?s5\<lparr>st_git := g5\<rparr>)))"
    unfolding commitChanges_def using assms(8,11) h1 x2 imp wat by (simp add: s1_def)
  then show ?thesis ..
qed

section \<open>Publishing\<close>

lemma publish_next_total:
  fixes c :: string
  assumes "state_ok st M" "mailbox_ok M" "mb_LastID st \<noteq> - 1" "mailbox_octets M + length c < 18446744073709551616"
  shows "\<exists>nid path st'. publish_next (of_nat (length c)) st = Inr (nid, path, st') \<and>
    (\<exists>index. buildDirectoryIndex (mb_Directories st') (mb_LastID st') = Inr index)"
proof -
  let ?n = "mb_LastID st + 1" and ?sz = "of_nat (length c) :: u64"
  note fresh = next_id_fresh [OF assms(1,3)]
  have p: "messagePath ?n ?sz = Inr (MsgPath (message_of ?n c))" by (rule message_of_path [OF fresh(1)])
  then have d: "path_dir (MsgPath (message_of ?n c)) = leaf_of ?n" by (rule path_dir_message)
  have z: "0 \<notin> dom M" using assms(2) by (auto simp: mailbox_ok_def)
  have rep: "counts_represent (mb_Directories st) (dom M)" using assms(1) by (simp add: state_ok_def)
  from counts_add_represent [OF rep z _ fresh(1)] fresh(2) obtain counts where
    counts: "counts_add (mb_Directories st) (leaf_of ?n) = Inr counts" "counts_represent counts (insert ?n (dom M))" by auto
  have "\<forall>i \<in> insert ?n (dom M). i \<noteq> 0 \<and> i \<le> ?n"
    using fresh assms(1) z by (auto simp: state_ok_def u64_le) (metis domI le_SucI z)
  then have "card (insert ?n (dom M)) \<le> unat ?n" by (rule card_ids)
  from buildDirectoryIndex_represent [OF counts(2) _ this] fresh(1) z have
    idx: "buildDirectoryIndex counts ?n = Inr (index_of_set (insert ?n (dom M)))" by simp
  have sz: "unat ?sz = length c" using assms(4) by (intro unat_of_nat_u64) linarith
  have octets: "unat (mb_TotalOctets st) = mailbox_octets M" using assms(1) by (simp add: state_ok_def)
  have "unat (- 1 - mb_TotalOctets st) = 18446744073709551615 - unat (mb_TotalOctets st)"
    by (subst unat_sub_u64) (simp_all add: u64_le)
  then have "\<not> - 1 - mb_TotalOctets st < ?sz"
    unfolding u64_less sz octets using assms(4) by linarith
  then show ?thesis using assms(3) p d counts(1) idx by (simp add: publish_next_def Let_def)
qed

definition receipt_io_ok :: "receipt_io \<Rightarrow> bool" where
  "receipt_io_ok io \<longleftrightarrow> ri_create io = None \<and> ri_encode io = None \<and> ri_sync io = None \<and> ri_close io = None \<and>
     ri_rename io = None \<and> ri_dirsync io = None"

text \<open>What \<open>Publish\<close> of \<open>c\<close> as staged message \<open>i\<close> needs of the store and of its surroundings.\<close>

definition publishable :: "publish_env \<Rightarrow> nat \<Rightarrow> string \<Rightarrow> mailbox \<Rightarrow> 'g store \<Rightarrow> bool" where
  "publishable env i c M s \<longleftrightarrow>
     st_failure s = None \<and> \<not> st_closed s \<and> st_importError s = None \<and> staged_ready i c s \<and> \<not> sm_done (st_staged s ! i) \<and>
     pe_read env = None \<and> canReserveLocked (pe_day env) s 0 \<and> receipt_io_ok (pe_receipt env) \<and> order_ok (pe_commit env) \<and>
     mb_LastID (st_state s) \<noteq> - 1 \<and> mailbox_octets M + length c < 18446744073709551616"

text \<open>The two files that such a commit writes.\<close>

definition publish_meant :: "u64 \<Rightarrow> string \<Rightarrow> file_change list \<Rightarrow> bool" where
  "publish_meant i c cs \<longleftrightarrow>
     (\<exists>text. commit_meant [(MsgPath (message_of i c), Some c), (mailboxStateName, Some text)] [] cs)"

lemma Publish_live:
  assumes "store_base view s" "store_holds view s M" "publishable env i c M s"
    and "git_commits G (st_importer s \<noteq> None) (publish_meant (mb_LastID (st_state s) + 1) c) (st_headID s) (st_git s)"
  shows "\<exists>s'. Publish G env i s =
    (Inr (mb_LastID (st_state s) + 1, MsgPath (message_of (mb_LastID (st_state s) + 1) c)), s')"
proof -
  let ?n = "mb_LastID (st_state s) + 1" and ?m = "st_staged s ! i"
  let ?path = "MsgPath (message_of ?n c)"
  from assms(3) have p: "st_failure s = None" "\<not> st_closed s" "st_importError s = None" "staged_ready i c s" "\<not> sm_done ?m"
      "pe_read env = None" "canReserveLocked (pe_day env) s 0" "receipt_io_ok (pe_receipt env)" "order_ok (pe_commit env)"
      "mb_LastID (st_state s) \<noteq> - 1" "mailbox_octets M + length c < 18446744073709551616"
    by (simp_all add: publishable_def)
  from p(4) have ready: "i < length (st_staged s)" "sm_path ?m \<noteq> []" "st_files s (sm_path ?m) = Some c"
      "sm_size ?m = of_nat (length c)" "length c < 18446744073709551616"
    by (simp_all add: staged_ready_def)
  have head: "validObjectID (st_headID s)" and stok: "state_ok (st_state s) M" "mailbox_ok M"
    using assms(2) p(1) by (auto simp: store_holds_def committed_def)
  from publish_next_total [OF stok p(10,11)] obtain nid path st index where
    pn: "publish_next (of_nat (length c)) (st_state s) = Inr (nid, path, st)"
    and idx: "buildDirectoryIndex (mb_Directories st) (mb_LastID st) = Inr index" by blast
  from publish_next_ok [OF pn stok ready(5)] have nn: "nid = ?n" "path = ?path" "?n \<noteq> 0" by auto
  obtain s1 where x1: "publish_charge (pe_chargeDay env) (pe_receipt env) i s = (Inr (), s1)"
    using p(8) by (simp add: publish_charge_def writeReceipt_def receipt_io_ok_def case_prod_beta Let_def)
  then have fr: "spool_frame s s1" "st_failure s1 = None" using publish_charge_frame [OF x1] p(1) by auto
  note sp = spool_frameD [OF fr(1)]
  have "st_importError s1 = None" using fr(1) p(3) by (cases s; cases s1; simp add: spool_frame_def)
  have special: "?path \<notin> special_files" using messageFromPath_message_of [OF nn(3)] message_path_not_special by blast
  then have ne: "?path \<noteq> mailboxStateName" by (auto simp: special_files_def mailboxStateName_def)
  have valid: "validArchivePath ?path" using messageFromPath_message_of [OF nn(3), of c] by (simp add: validArchivePath_def)
  let ?changes = "[(?path, Some c)]"
  have imp: "commit_meant (AList.update mailboxStateName (Some (state_text st)) ?changes) [] cs \<Longrightarrow> publish_meant ?n c cs" for cs
    using ne by (auto simp: publish_meant_def)
  have commits: "git_commits G (st_importer s1 \<noteq> None)
      (commit_meant (AList.update mailboxStateName (Some (state_text st)) ?changes) []) (st_headID s1) (st_git s1)"
    using git_commits_mono [OF assms(4) imp] by (simp add: sp)
  have "\<exists>s'. commitChanges G (pe_commit env) (publish_title ?n) st ?changes [] s1 = (None, s')"
    by (rule commitChanges_live [OF commits]) (use assms(1) sp p fr \<open>st_importError s1 = None\<close> head valid idx in
      \<open>simp_all add: store_base_def importer_idle_def\<close>)
  then obtain s2 where x2: "commitChanges G (pe_commit env) (publish_title ?n) st ?changes [] s1 = (None, s2)" by blast
  have op: "staged_Open i s = Inr c" using ready p(5) by (simp add: staged_Open_def)
  have "Publish G env i s = (Inr (nid, path), s2\<lparr>st_state := st\<rparr>)"
    using p ready pn x1 op x2 by (simp add: Publish_def nn)
  with nn show ?thesis by auto
qed

end
