(* ===== verification/Smtp_Live.thy ===== *)
theory Smtp_Live
  imports Smtp_Mail Publish_Live
begin

text \<open>
  That mail is accepted: when the disk and Git work, the budget has room and the policy accepts,
  the data of a well-behaved client is answered with 250, in one turn of the session.
\<close>

section \<open>Staging and publishing in a row\<close>

text \<open>The budget has room for \<open>n\<close> more bytes on any day.\<close>

definition budget_free :: "nat \<Rightarrow> 'g store \<Rightarrow> bool" where
  "budget_free n s \<longleftrightarrow>
     (\<forall>day. unat (snd (receiptUsageLocked day s)) + unat (st_reservedBytes s) + n \<le> unat (st_maxDailyBytes s))"

text \<open>Everything around the store works while a message \<open>c\<close> is received.\<close>

definition surroundings_ok :: "'g git \<Rightarrow> stage_io \<Rightarrow> publish_env \<Rightarrow> string \<Rightarrow> mailbox \<Rightarrow> 'g store \<Rightarrow> bool" where
  "surroundings_ok G io env c M s \<longleftrightarrow>
     st_failure s = None \<and> \<not> st_closed s \<and> st_importError s = None \<and>
     stage_io_ok io \<and> (\<exists>path. io_create io = Inr path) \<and> pe_read env = None \<and> receipt_io_ok (pe_receipt env) \<and>
     mb_LastID (st_state s) \<noteq> - 1 \<and> mailbox_octets M + length c < 18446744073709551616 \<and>
     budget_free (max 4096 (length c)) s \<and>
     git_commits G (st_importer s \<noteq> None) (publish_meant (mb_LastID (st_state s) + 1) c) (st_headID s) (st_git s)"

lemma CheckReceive_free: "st_failure s = None \<Longrightarrow> budget_free (max 4096 n) s \<Longrightarrow> CheckReceive today s = None"
proof -
  assume a: "st_failure s = None" "budget_free (max 4096 n) s"
  have "unat minimumReceiptCharge = 4096" by (simp add: minimumReceiptCharge_def)
  moreover have "unat (snd (receiptUsageLocked today s)) + unat (st_reservedBytes s) + max 4096 n \<le> unat (st_maxDailyBytes s)"
    using a(2) by (simp add: budget_free_def)
  ultimately have "canReserveLocked today s minimumReceiptCharge" unfolding canReserveLocked_nat by linarith
  with a(1) show ?thesis by (simp add: CheckReceive_def)
qed

lemma store_receives:
  assumes "delivery_ready G view ios envs s" "store_holds view s M" "surroundings_ok G (ios e) (envs e) c M s"
    and "ds_ok src" "ds_view src = (c, IoEOF, t)"
  obtains h src' s1 s2 path where "Stage (source_fuel src) (ios e) source_Read src s = (Inr h, src', s1)"
    "cn_stream (source_conn src') = t" "same_writer (source_conn src) (source_conn src')" "conn_ok (source_conn src')"
    "Publish G (envs e) h s1 = (Inr (mb_LastID (st_state s) + 1, path), s2)"
    "delivery_ready G view ios envs s2" "store_holds view s2 (M(mb_LastID (st_state s) + 1 \<mapsto> c))" "st_failure s2 = None"
    "st_reader s2 = st_reader s" "st_cache s2 = st_cache s"
    "repo_extends (view (st_git s)) (view (st_git s2))"
proof -
  from assms(3) obtain spoolfile where e: "st_failure s = None" "\<not> st_closed s" "st_importError s = None" "stage_io_ok (ios e)"
      "io_create (ios e) = Inr spoolfile" "pe_read (envs e) = None" "receipt_io_ok (pe_receipt (envs e))"
      "mb_LastID (st_state s) \<noteq> - 1" "mailbox_octets M + length c < 18446744073709551616"
      "budget_free (max 4096 (length c)) s"
      "git_commits G (st_importer s \<noteq> None) (publish_meant (mb_LastID (st_state s) + 1) c) (st_headID s) (st_git s)"
    unfolding surroundings_ok_def by blast
  from assms(1) have r: "git_sound G view" "store_base view s" "order_ok (pe_commit (envs e))" "spool_ok s" "spoolfile \<noteq> []"
    using e(5) by (auto simp: delivery_ready_def)
  have "\<exists>h. fst (Stage (source_fuel src) (ios e) source_Read src s) = Inr h"
    by (rule smtp_source.Stage_succeeds [OF assms(4) r(4) source_fuel_enough _ e(4,5,1)])
      (use e(10) assms(5) in \<open>simp_all add: budget_free_def\<close>)
  then obtain h src' s1 where st: "Stage (source_fuel src) (ios e) source_Read src s = (Inr h, src', s1)"
    by (metis prod_cases3 fst_conv)
  note law = store_stage [OF assms(1,4) st]
  have view: "cn_stream (source_conn src') = t" "staged_content h s1 = Some c" using law assms(5) by auto
  from smtp_source.Stage_Inr [OF st assms(4) r(4) source_fuel_enough e(5) r(5)] assms(5) obtain rb q where
    f: "h = length (st_staged s)" "unat q = max 4096 (length c)" "spool_ok s1"
      "s1 = s\<lparr>st_reservedBytes := rb,
         st_staged := st_staged s @ [\<lparr>sm_path = spoolfile, sm_size = of_nat (length c), sm_reserved = q, sm_done = False\<rparr>],
         st_files := (st_files s)(spoolfile := Some c)\<rparr>" by auto
  have "unat rb = unat (st_reservedBytes s) + max 4096 (length c)"
    using f(2,3) r(4) by (simp add: f(4) spool_ok_def reserved_sum_def)
  then have "canReserveLocked (pe_day (envs e)) s1 0"
    using e(10) unfolding canReserveLocked_nat budget_free_def by (simp add: f(4) receiptUsageLocked_def add.assoc)
  moreover have "staged_ready h c s1" using view(2) by (simp add: staged_content_iff)
  ultimately have pub: "publishable (envs e) h c M s1"
    using e r(3) by (simp add: publishable_def f(1,4))
  have same: "st_state s1 = st_state s" "st_importer s1 = st_importer s" "st_headID s1 = st_headID s" "st_git s1 = st_git s"
      "st_reader s1 = st_reader s" "st_cache s1 = st_cache s" "st_refName s1 = st_refName s"
    by (simp_all add: f(4))
  have base: "store_base view s1" using r(2) by (simp add: store_base_def importer_idle_def same)
  have holds: "store_holds view s1 M" using law assms(2) by blast
  have commits: "git_commits G (st_importer s1 \<noteq> None) (publish_meant (mb_LastID (st_state s1) + 1) c) (st_headID s1) (st_git s1)"
    using e(11) by (simp add: same)
  from Publish_live [OF base holds pub commits] obtain path s2 where
    p: "Publish G (envs e) h s1 = (Inr (mb_LastID (st_state s) + 1, path), s2)" by (auto simp: same)
  have ready1: "delivery_ready G view ios envs s1" using law by blast
  note sp = Publish_spec [OF r(1) base holds r(3) \<open>staged_ready h c s1\<close> p]
  have out: "delivery_ready G view ios envs s2" "store_holds view s2 (M(mb_LastID (st_state s) + 1 \<mapsto> c))" "st_failure s2 = None"
    using store_publish [OF ready1 view(2) holds p] sp by (simp_all add: outcome_ok_def)
  have frame: "st_reader s2 = st_reader s" "st_cache s2 = st_cache s" "repo_extends (view (st_git s)) (view (st_git s2))"
    using sp by (simp_all add: same)
  have conn: "same_writer (source_conn src) (source_conn src')" "conn_ok (source_conn src')"
    using law by (simp_all add: ds_ok_def)
  show thesis by (rule that [OF st view(1) conn p out frame])
qed

section \<open>The turn that accepts a message\<close>

lemma split_data: "splitCommand ''DATA'' = (''DATA'', [])"
  by code_simp

text \<open>A client that sends the lines \<open>ls\<close>, and a server that takes them.\<close>

definition data_fits :: "smtp_server \<Rightarrow> string list \<Rightarrow> bool" where
  "data_fits sv ls \<longleftrightarrow>
     (\<forall>l \<in> set ls. LF \<notin> set l \<and> length (dot_stuff l) + 2 \<le> 1000) \<and>
     int (length (crlf_lines ls)) \<le> sv_maxMessageSize sv \<and> sv_maxMessageSize sv < 2 ^ 63 \<and>
     (\<forall>r. md_Action (evaluateMessage (sv_policy sv) r) = MessageAccept)"

definition message_text :: "smtp_server \<Rightarrow> string \<Rightarrow> smtp_session \<Rightarrow> string list \<Rightarrow> string" where
  "message_text sv date ss ls =
     deliveryHeaders (sv_hostname sv) (ss_remote ss) (ss_helo ss) (ss_encrypted ss) (ss_tx ss) date @ crlf_lines ls"

lemma smtp_data_live:
  assumes "delivery_ready G view ios envs s" "session_ok sv ss" "store_holds view s M"
    and "cn_room (ss_conn ss) = None" "tx_recipients (ss_tx ss) \<noteq> []"
    and "cn_stream (ss_conn ss) = ''DATA'' @ CRLF @ client_data ls @ t" "data_fits sv ls"
    and "surroundings_ok G (ios e) (envs e) (message_text sv date ss ls) M s"
  obtains ss' s' where "smtp_step sv (store_delivery G today (ios e) (envs e)) date ss s = (Continue ss', s')"
    "ss_out ss' = ss_out ss @ accept_dialogue" "cn_stream (ss_conn ss') = t" "ss_tx ss' = no_transaction"
    "delivery_ready G view ios envs s'" "st_failure s' = None"
    "store_holds view s' (M(mb_LastID (st_state s) + 1 \<mapsto> message_text sv date ss ls))"
    "st_reader s' = st_reader s" "st_cache s' = st_cache s" "repo_extends (view (st_git s)) (view (st_git s'))"
proof -
  let ?dl = "store_delivery G today (ios e) (envs e)" and ?c = "message_text sv date ss ls"
  obtain lr c where rl: "readLimitedLineRaw (ss_conn ss) maxCommandLineBytes = (lr, c)" by fastforce
  have ok: "conn_ok (ss_conn ss)" using assms(2) by (simp add: session_ok_def)
  have "limited_line maxCommandLineBytes (cn_end (ss_conn ss)) ((''DATA'' @ [CR]) @ LF # client_data ls @ t) =
      (Inr ((''DATA'' @ [CR]) @ [LF]), client_data ls @ t)"
    by (rule limited_line_cons) (simp_all add: maxCommandLineBytes_def)
  with readLimitedLineRaw_stream [OF ok rl] assms(6)
  have st: "lr = Inr (''DATA'' @ CRLF)" "cn_stream c = client_data ls @ t" "conn_ok c" "same_writer (ss_conn ss) c" by simp_all
  let ?ss = "ss\<lparr>ss_conn := c\<rparr>"
  let ?r = "smtp_reply ?ss 354 ''end with <CRLF>.<CRLF>''"
  have room: "cn_room (ss_conn ?ss) = None" using st(4) assms(4) by (simp add: same_writer_def)
  have out: "ss_out ?ss = ss_out ss" using st(4) by (simp add: ss_out_def same_writer_def)
  obtain rs where r: "?r = (rs, True)"
    using smtp_reply_out(3) [OF room, of 354 "''end with <CRLF>.<CRLF>''"] by (cases ?r) simp
  then have rs: "rs = fst ?r" by simp
  have line: "readLimitedLine (ss_conn ss) maxCommandLineBytes = (Inr ''DATA'', c)"
    using rl st(1) by (simp add: readLimitedLine_def trim_suffix_def has_suffix_def)
  have step: "smtp_step sv ?dl date ss s = cmd_data sv ?dl date [] ?ss s"
    by (simp add: smtp_step_def line split_data smtp_command_def)
  have failure: "st_failure s = None" and free: "budget_free (max 4096 (length ?c)) s"
    using assms(8) by (simp_all add: surroundings_ok_def)
  have check: "dl_CheckReceive ?dl s = None"
    using CheckReceive_free [OF failure free] by (simp add: store_delivery_def)
  let ?src = "data_source_of sv date rs"
  have same: "ss_tx rs = ss_tx ss" "ss_helo rs = ss_helo ss" "ss_remote rs = ss_remote ss" "ss_encrypted rs = ss_encrypted ss"
      "cn_stream (ss_conn rs) = client_data ls @ t" "cn_end (ss_conn rs) = cn_end (ss_conn ss)" "conn_ok (ss_conn rs)"
    using st by (simp_all add: rs same_writer_def)
  have body: "data_body (sv_maxMessageSize sv) 0 (cn_end (ss_conn ss)) (client_data ls @ t) = (crlf_lines ls, IoEOF, t)"
    using assms(7) by (intro data_body_client) (simp_all add: data_fits_def)
  have view: "ds_view ?src = (?c, IoEOF, t)"
    using same body by (simp add: ds_view_def dr_view_def data_source_of_def message_text_def)
  have dok: "ds_ok ?src" using same(7) by (simp add: ds_ok_def data_source_of_def)
  obtain h src' s1 s2 path where x: "Stage (source_fuel ?src) (ios e) source_Read ?src s = (Inr h, src', s1)"
    "cn_stream (source_conn src') = t" "same_writer (source_conn ?src) (source_conn src')" "conn_ok (source_conn src')"
    "Publish G (envs e) h s1 = (Inr (mb_LastID (st_state s) + 1, path), s2)"
    and y: "delivery_ready G view ios envs s2" "store_holds view s2 (M(mb_LastID (st_state s) + 1 \<mapsto> ?c))" "st_failure s2 = None"
      "st_reader s2 = st_reader s" "st_cache s2 = st_cache s" "repo_extends (view (st_git s)) (view (st_git s2))"
    by (rule store_receives [OF assms(1,3,8) dok view])
  let ?ss2 = "rs\<lparr>ss_conn := source_conn src', ss_tx := no_transaction\<rparr>"
  let ?f = "fst (smtp_reply ?ss2 250 ''2.0.0 message accepted'')"
  have r2: "cn_room (ss_conn ?ss2) = None" "ss_out ?ss2 = ss_out rs"
    using x(3) smtp_reply_out(4) [OF room] by (simp_all add: rs same_writer_def data_source_of_def ss_out_def)
  have run: "smtp_step sv ?dl date ss s = (Continue ?f, s2)"
  proof -
    have accept: "md_Action (evaluateMessage (sv_policy sv) r) = MessageAccept" for r
      using assms(7) by (simp add: data_fits_def)
    have stage: "dl_Stage ?dl ?src s = (Inr h, src', s1)" and publish: "dl_Publish ?dl h s1 = (Inr (mb_LastID (st_state s) + 1, path), s2)"
      using x(1,5) by (simp_all add: store_delivery_def)
    have "cmd_data sv ?dl date [] ?ss s = data_publish sv ?dl date h (rs\<lparr>ss_conn := source_conn src'\<rparr>) s1"
      using assms(5) r stage unfolding cmd_data_def check option.case by (simp add: Let_def)
    also have "\<dots> = (answer ?ss2 250 ''2.0.0 message accepted'', s2)"
      by (simp add: data_publish_def accept publish)
    also have "\<dots> = (Continue ?f, s2)" using smtp_reply_out(3) [OF r2(1)] by (simp add: answer_def)
    finally show ?thesis by (simp add: step)
  qed
  have "ss_out ?f = ss_out rs @ fmt_nat 10 250 @ '' 2.0.0 message accepted'' @ CRLF"
    using smtp_reply_out(1) [OF r2(1), of 250 "''2.0.0 message accepted''"] by (simp only: r2(2)) simp
  moreover have "ss_out rs = ss_out ss @ fmt_nat 10 354 @ '' end with <CRLF>.<CRLF>'' @ CRLF"
    using smtp_reply_out(1) [OF room, of 354 "''end with <CRLF>.<CRLF>''"] by (simp only: rs out) simp
  ultimately have "ss_out ?f = ss_out ss @ accept_dialogue"
    by (simp add: accept_dialogue_def fmt_codes)
  moreover have "cn_stream (ss_conn ?f) = t" "ss_tx ?f = no_transaction" using x(2) by simp_all
  ultimately show thesis using that [OF run _ _ _ y(1,3,2,4-6)] by blast
qed

end
