(* ===== verification/Read_Live.thy ===== *)
theory Read_Live
  imports Mailbox_Snapshot
begin

text \<open>
  That reading succeeds: when Git answers in full, every message of a snapshot is found, listed and
  read to its end. In particular the limits of \<open>tree.go\<close> on the size of a directory never refuse a
  directory that the archive wrote.
\<close>

section \<open>Reading an object to its end\<close>

lemma read_all_framed:
  assumes "framed bytes rest e x" "length bytes < fuel"
  shows "\<exists>y. read_all fuel x = (bytes, None, y) \<and> framed [] rest e y"
  using assms
proof (induction fuel arbitrary: bytes x)
  case (Suc fuel)
  obtain b err y where r: "blob_Read x 512 = (b, err, y)" by (metis prod_cases3)
  from blob_Read_framed [OF Suc.prems(1) r] obtain d where
    d: "bytes = b @ d" "framed d rest e y" "err = None \<or> err = Some IoEOF \<and> bytes = []" by blast
  from d(3) show ?case
  proof
    assume "err = None"
    then have "b \<noteq> []" using r Suc.prems(1)
      by (cases x) (auto simp: blob_Read_def framed_def Let_def min_def split: if_splits)
    then have "length d < fuel" using Suc.prems(2) d(1) by (cases b) auto
    from Suc.IH [OF d(2) this] \<open>err = None\<close> r d(1) show ?thesis by auto
  next
    assume "err = Some IoEOF \<and> bytes = []"
    with d r show ?thesis by auto
  qed
qed simp

lemma blob_Close_framed:
  assumes "framed d [] e (br, out)" "rs_process r = Some out" "\<not> rs_closed r"
  obtains br' r' where "blob_Close br r = (None, br', r')" "\<not> rs_closed r'"
  using assms by (auto simp: framed_def blob_Close_def drain_def armReadIdleLocked_def)

lemma read_all_header: "read_all fuel (br, out) = (bytes, err, br', out') \<Longrightarrow> br_header br' = br_header br"
proof (induction fuel arbitrary: br out bytes err br' out')
  case (Suc fuel)
  obtain b e br1 out1 where r: "blob_Read (br, out) 512 = (b, e, br1, out1)" by (metis surj_pair)
  then have h: "br_header br1 = br_header br" by (auto simp: blob_Read_def Let_def split: if_splits)
  obtain m f br2 out2 where a: "read_all fuel (br1, out1) = (m, f, br2, out2)" by (metis surj_pair)
  from Suc.IH [OF a] Suc.prems r a h show ?case by (cases e) auto
qed simp

text \<open>Git answers a request in full.\<close>

definition answered :: "'g git \<Rightarrow> ('g \<Rightarrow> repo) \<Rightarrow> string \<Rightarrow> string \<Rightarrow> 'g \<Rightarrow> bool" where
  "answered G view command spec g \<longleftrightarrow> gi_catStart G g = None \<and>
     fst (gi_ask G g (command @ '' '' @ spec @ [CHR 0x0A])) = cat_answer (view g) command spec"

definition reads_open :: "'g store \<Rightarrow> bool" where
  "reads_open s \<longleftrightarrow> \<not> rs_closed (st_reader s)"

lemma queryObjectInner_live:
  assumes "repo_ok R" "rp_resolve R spec = Some oid" "rp_object R oid = Some (kind, d)" "length d < 2 ^ 63"
    and "\<not> contains_any spec [CHR 0x0D, CHR 0x0A]" "fst (ask (command @ '' '' @ spec @ [CHR 0x0A])) = cat_answer R command spec"
    and "fst out = []"
  shows "\<exists>e. queryObjectInner ask command spec kind out =
    (Inr \<lparr>oh_oid = oid, oh_kind = kind, oh_size = int (length d)\<rparr>, (answer_data command d, e))"
proof -
  obtain e where e: "ask (command @ '' '' @ spec @ [CHR 0x0A]) = (cat_answer R command spec, e)"
    using assms(6) by (metis prod.collapse)
  have v: "validObjectID oid" "word_ok kind" using assms(1,3) unfolding repo_ok_def by blast+
  have "cat_answer R command spec = header_line oid kind (length d) @ CHR 0x0A # answer_data command d"
    using assms(2,3) by (simp add: cat_answer_def answer_data_def)
  with queryObjectInner_header [OF assms(5) v assms(4), of ask command _ e] e assms(7) show ?thesis
    by (cases out) auto
qed

lemma readerLocked_live:
  assumes "reader_idle r" "\<not> rs_closed r"
  obtains out r' where "readerLocked None r = (Inr out, r')" "fst out = []" "\<not> rs_closed r'"
  using assms by (cases "rs_process r") (auto simp: readerLocked_def reader_idle_def)

lemma store_objectInfo_live:
  assumes "repo_ok (view (st_git s))" "rp_resolve (view (st_git s)) spec = Some oid"
    and "rp_object (view (st_git s)) oid = Some (kind, d)" "length d < 2 ^ 63" "\<not> contains_any spec [CHR 0x0D, CHR 0x0A]"
    and "answered G view ''info'' spec (st_git s)" "reader_idle (st_reader s)" "reads_open s"
  obtains h s' where "store_objectInfo G spec kind s = (Inr h, s')" "oh_oid h = oid" "reads_open s'" "st_git s' = gi_tick G (st_git s)"
proof -
  obtain out r where l: "readerLocked None (st_reader s) = (Inr out, r)" "fst out = []" "\<not> rs_closed r"
    using readerLocked_live [OF assms(7)] assms(8) by (auto simp: reads_open_def)
  obtain e where q: "queryObjectInner (gi_ask G (st_git s)) ''info'' spec kind out =
      (Inr \<lparr>oh_oid = oid, oh_kind = kind, oh_size = int (length d)\<rparr>, (answer_data ''info'' d, e))"
    using queryObjectInner_live [OF assms(1-5) _ l(2)] assms(6) unfolding answered_def by blast
  show thesis
    by (rule that) (use assms(6) l q in \<open>auto simp: store_objectInfo_def objectInfo_def answered_def reads_open_def armReadIdleLocked_def Let_def\<close>)
qed

lemma store_fetch_live:
  assumes "repo_ok (view (st_git s))" "rp_resolve (view (st_git s)) spec = Some oid"
    and "rp_object (view (st_git s)) oid = Some (kind, d)" "length d < 2 ^ 63" "\<not> contains_any spec [CHR 0x0D, CHR 0x0A]"
    and "answered G view ''contents'' spec (st_git s)" "reader_idle (st_reader s)" "reads_open s"
  obtains br s1 br2 s2 s3 where "store_readObject G spec kind s = (Inr br, s1)" "br_remaining br = int (length d)"
    "oh_oid (br_header br) = oid" "store_ReadAll br s1 = (d, None, br2, s2)" "oh_oid (br_header br2) = oid"
    "store_CloseBlob br2 s2 = (None, s3)" "reads_open s3" "st_git s3 = gi_tick G (st_git s)"
proof -
  obtain out r where l: "readerLocked None (st_reader s) = (Inr out, r)" "fst out = []" "\<not> rs_closed r"
    using readerLocked_live [OF assms(7)] assms(8) by (auto simp: reads_open_def)
  obtain e where q: "queryObjectInner (gi_ask G (st_git s)) ''contents'' spec kind out =
      (Inr \<lparr>oh_oid = oid, oh_kind = kind, oh_size = int (length d)\<rparr>, (answer_data ''contents'' d, e))"
    using queryObjectInner_live [OF assms(1-5) _ l(2)] assms(6) unfolding answered_def by blast
  define br where "br = \<lparr>br_header = \<lparr>oh_oid = oid, oh_kind = kind, oh_size = int (length d)\<rparr>,
    br_remaining = int (length d), br_closed = False, br_closeError = None\<rparr>"
  let ?out = "(d @ [CHR 0x0A], e)" and ?g = "gi_tick G (st_git s)"
  let ?s1 = "s\<lparr>st_reader := r\<lparr>rs_process := Some ?out\<rparr>, st_git := ?g\<rparr>"
  have x: "store_readObject G spec kind s = (Inr br, ?s1)"
    using assms(6) l(1) q by (simp add: store_readObject_def readObject_def answered_def answer_data_def br_def Let_def)
  have fr: "framed d [] e (br, ?out)" by (simp add: framed_def br_def)
  obtain br2 out2 where y: "read_all (Suc (Suc (nat (br_remaining br)))) (br, ?out) = (d, None, br2, out2)" "framed [] [] e (br2, out2)"
    using read_all_framed [OF fr, of "Suc (Suc (nat (br_remaining br)))"] by (auto simp: br_def)
  let ?s2 = "s\<lparr>st_reader := r\<lparr>rs_process := Some out2\<rparr>, st_git := ?g\<rparr>"
  have ra: "store_ReadAll br ?s1 = (d, None, br2, ?s2)" using y(1) by (simp add: store_ReadAll_def leased_pipe_def)
  have "\<not> rs_closed (r\<lparr>rs_process := Some out2\<rparr>)" "rs_process (r\<lparr>rs_process := Some out2\<rparr>) = Some out2"
    using l(3) by simp_all
  from blob_Close_framed [OF y(2) this(2,1)] obtain br3 r3 where
    c: "blob_Close br2 (r\<lparr>rs_process := Some out2\<rparr>) = (None, br3, r3)" "\<not> rs_closed r3" .
  let ?s3 = "s\<lparr>st_reader := r3, st_git := ?g\<rparr>"
  have cl: "store_CloseBlob br2 ?s2 = (None, ?s3)" using c(1) by (simp add: store_CloseBlob_def)
  have "br_header br2 = br_header br" by (rule read_all_header [OF y(1)])
  then show thesis using c(2) by (intro that [OF x _ _ ra _ cl]) (simp_all add: br_def reads_open_def)
qed

section \<open>Directories\<close>

lemma set_raws_leaf:
  assumes "archive_tree fs M" "mailbox_ok M" "tree_of_dir fs (leaf_of j) raws" "x \<in> set raws"
  obtains i c where "M i = Some c" "unat i div 1024 = unat j div 1024" "fst x = ''100644''"
    "raw_name x = message_name i (of_nat (length c))"
proof -
  from messages_of_leaf(1) [OF assms(1-3)] assms(4) obtain i c where
    "fst x = ''100644''" "M i = Some c" "leaf_of i = leaf_of j" "leaf_of j @ CHR ''/'' # raw_name x = MsgPath (message_of i c)"
    by blast
  then have "raw_name x = message_name i (of_nat (length c))" by (simp add: message_of_name)
  with \<open>leaf_of i = leaf_of j\<close> \<open>fst x = ''100644''\<close> \<open>M i = Some c\<close> show thesis by (intro that [of i c]) (simp_all add: leaf_of_eq)
qed

lemma length_format_uint: "length (format_uint n 10) \<le> 20"
proof -
  have "length (fmt_nat 10 m) \<le> Suc k" if "m < 10 ^ Suc k" for m k
    using that
  proof (induction k arbitrary: m)
    case 0
    then show ?case by (simp add: fmt_nat.simps)
  next
    case (Suc k)
    then have "m div 10 < 10 ^ Suc k" by (simp add: less_mult_imp_div_less mult.commute)
    from Suc.IH [OF this] show ?case by (subst fmt_nat.simps) auto
  qed
  moreover have "unat n < 10 ^ Suc 19" by (rule less_trans [OF unat_less_64]) simp
  ultimately have "length (fmt_nat 10 (unat n)) \<le> Suc 19" by blast
  then show ?thesis by (simp add: format_uint_def)
qed

text \<open>A leaf has at most 1024 entries of at most 70 bytes, so it is never refused for its size.\<close>

lemma leaf_tree_bounds:
  assumes "archive_tree fs M" "mailbox_ok M" "tree_of_dir fs (leaf_of j) raws"
    and "\<forall>x \<in> set raws. length (snd (snd x)) \<le> 32"
  shows "length raws \<le> 1024" "length (concat (map encode_entry raws)) \<le> 71680"
proof -
  let ?f = "\<lambda>i. message_name i (of_nat (length (the (M i))))" and ?I = "leaf_ids (dom M) (leaf_of j)"
  have "set (map raw_name raws) \<subseteq> ?f ` ?I"
  proof
    fix y assume "y \<in> set (map raw_name raws)"
    then obtain x where x: "x \<in> set raws" "y = raw_name x" by auto
    obtain i c where i: "M i = Some c" "unat i div 1024 = unat j div 1024" "raw_name x = message_name i (of_nat (length c))"
      by (rule set_raws_leaf [OF assms(1-3) x(1)])
    then have "i \<in> ?I" "y = ?f i" using x(2) by (auto simp: leaf_ids_number)
    then show "y \<in> ?f ` ?I" by blast
  qed
  then have "card (set (map raw_name raws)) \<le> card ?I" by (meson card_image_le card_mono finite finite_imageI le_trans)
  moreover have "card ?I \<le> 1024"
  proof -
    have "0 \<notin> dom M" using assms(2) by (auto simp: mailbox_ok_def)
    from leaf_card_bound(1) [OF this, of "unat j div 1024"] show ?thesis unfolding leaf_ids_number leaf_card_def .
  qed
  moreover have "length raws = card (set (map raw_name raws))"
    using messages_of_leaf(3) [OF assms(1-3)] by (metis distinct_card length_map)
  ultimately show len: "length raws \<le> 1024" by linarith
  have one: "length (encode_entry x) \<le> 70" if x: "x \<in> set raws" for x
  proof -
    obtain i c where "M i = Some c" "unat i div 1024 = unat j div 1024"
      and i: "fst x = ''100644''" "raw_name x = message_name i (of_nat (length c))"
      by (rule set_raws_leaf [OF assms(1-3) x])
    obtain mode name raw where n: "x = (mode, name, raw)" by (cases x)
    have "length raw \<le> 32" using assms(4) x n by auto
    moreover have "length (hex3 (unat i mod 1024)) = 3" by (rule length_hex3) (simp add: order_less_trans [OF mod_less_divisor])
    ultimately show ?thesis
      using i n length_format_uint [of "of_nat (length c)"] by (simp add: encode_entry_def raw_name_def message_name_def)
  qed
  have "length (concat (map encode_entry raws)) \<le> length raws * 70"
    using one by (induction raws) (simp, fastforce)
  with len show "length (concat (map encode_entry raws)) \<le> 71680" by linarith
qed

text \<open>Git answers every request in full, from here on.\<close>

definition reads_fully :: "'g git \<Rightarrow> ('g \<Rightarrow> repo) \<Rightarrow> 'g store \<Rightarrow> bool" where
  "reads_fully G view s \<longleftrightarrow> reads_open s \<and>
     (\<forall>k command spec. command \<in> {''info'', ''contents''} \<and> \<not> contains_any spec [CHR 0x0D, CHR 0x0A] \<longrightarrow>
        answered G view command spec ((gi_tick G ^^ k) (st_git s)))"

lemma reads_fullyD:
  assumes "reads_fully G view s" "\<not> contains_any spec [CHR 0x0D, CHR 0x0A]"
  shows "reads_open s" "answered G view ''info'' spec (st_git s)" "answered G view ''contents'' spec (st_git s)"
proof -
  have a: "answered G view command spec ((gi_tick G ^^ 0) (st_git s))" if "command \<in> {''info'', ''contents''}" for command
    using assms that unfolding reads_fully_def by blast
  show "answered G view ''info'' spec (st_git s)" "answered G view ''contents'' spec (st_git s)"
    using a [of "''info''"] a [of "''contents''"] by simp_all
  show "reads_open s" using assms(1) by (simp add: reads_fully_def)
qed

lemma reads_fully_tick:
  assumes "reads_fully G view s" "reads_open s'" "st_git s' = gi_tick G (st_git s)"
  shows "reads_fully G view s'"
proof -
  have "(gi_tick G ^^ k) (st_git s') = (gi_tick G ^^ Suc k) (st_git s)" for k by (simp add: assms(3) funpow_swap1)
  with assms(1,2) show ?thesis unfolding reads_fully_def by metis
qed

lemma reads_fully_same: "reads_fully G view s \<Longrightarrow> st_reader s' = st_reader s \<Longrightarrow> st_git s' = st_git s \<Longrightarrow> reads_fully G view s'"
  by (simp add: reads_fully_def reads_open_def)

lemma tree_live:
  assumes "git_sound G view" "read_ready view s" "reads_fully G view s" "\<not> contains_any spec [CHR 0x0D, CHR 0x0A]"
    and "rp_resolve (view (st_git s)) spec = Some oid" "rp_object (view (st_git s)) oid = Some (''tree'', d)"
    and "length d \<le> 262144" "parseTree d (length oid div 2) = Inr es" "length es \<le> 1024"
  obtains s' where "tree G spec s = (Inr (es, oid), s')" "reads_fully G view s'"
proof -
  have d: "length d < 2 ^ 63" using assms(7) by simp
  have ri: "reader_idle (st_reader s)" using assms(2) by (simp add: read_ready_def)
  note full = reads_fullyD [OF assms(3,4)]
  obtain br s1 br2 s2 s3 where x: "store_readObject G spec ''tree'' s = (Inr br, s1)" "br_remaining br = int (length d)"
      "oh_oid (br_header br) = oid" "store_ReadAll br s1 = (d, None, br2, s2)" "oh_oid (br_header br2) = oid"
      "store_CloseBlob br2 s2 = (None, s3)" "reads_open s3" "st_git s3 = gi_tick G (st_git s)"
    by (rule store_fetch_live [OF git_soundD(1) [OF assms(1)] assms(5,6) d assms(4) full(3) ri full(1)])
  have "reads_fully G view s3" by (rule reads_fully_tick [OF assms(3) x(7,8)])
  moreover have "tree G spec s = (Inr (es, oid), s3)"
    using x assms(7-9) by (simp add: tree_def join_errors_def idRadix_def)
  ultimately show thesis using that by blast
qed

lemma plain_spec:
  assumes "validObjectID c" "CHR 0x0A \<notin> set p" "CHR 0x0D \<notin> set p"
  shows "\<not> contains_any (c @ '':'' @ p) [CHR 0x0D, CHR 0x0A]"
  using assms validObjectID_word [OF assms(1)] by (auto simp: contains_any_iff word_ok_def)

lemma leaf_of_plain: "CHR 0x0A \<notin> set (leaf_of i)" "CHR 0x0D \<notin> set (leaf_of i)"
  using leaf_path_chars [of "unat i div 1024"] by (auto simp: leaf_of_def path_chars_def)

lemma directory_resolves:
  assumes "repo_ok R" "rp_commit R c = Some fs" "plain_path p" "fs p = None" "files_below fs p"
  obtains oid d where "rp_resolve R (c @ CHR '':'' # p) = Some oid" "rp_object R oid = Some (''tree'', d)"
proof -
  note conjunct2 [OF conjunct2 [OF assms(1) [unfolded repo_ok_def]], rule_format, OF assms(2,3)]
  with assms(4,5) that show thesis by (auto split: option.splits)
qed

lemma file_resolves:
  assumes "repo_ok R" "rp_commit R c = Some fs" "plain_path p" "fs p = Some t"
  obtains oid where "rp_resolve R (c @ '':'' @ p) = Some oid" "rp_object R oid = Some (''blob'', t)"
proof -
  note conjunct2 [OF conjunct2 [OF assms(1) [unfolded repo_ok_def]], rule_format, OF assms(2,3)]
  with assms(4) that show thesis by auto
qed

text \<open>What a commit has for the leaf of a message.\<close>

lemma leaf_resolves:
  assumes "repo_ok R" "rp_commit R c = Some fs" "archive_tree fs M" "mailbox_ok M" "M i = Some t"
  obtains oid d es where "rp_resolve R (c @ '':'' @ leaf_of i) = Some oid" "rp_object R oid = Some (''tree'', d)"
    "rp_resolve R oid = Some oid" "validObjectID oid" "length d \<le> 262144" "parseTree d (length oid div 2) = Inr es"
    "length es \<le> 1024" "directory_messages (leaf_of i) es = Inr (leaf_messages M (leaf_of i))"
proof -
  have "fs (leaf_of i @ CHR ''/'' # message_name i (of_nat (length t))) = Some t"
    using leaf_file [OF assms(3,4), of "message_name i (of_nat (length t))" i t] message_name_plain(1) assms(5)
    by (auto simp: plain_elem_def)
  then have below: "files_below fs (leaf_of i)" unfolding files_below_def by (metis option.distinct(1))
  with archive_tree_like [OF assms(3,4)] have none: "fs (leaf_of i) = None" by (auto simp: tree_like_def)
  obtain oid d where oid: "rp_resolve R (c @ CHR '':'' # leaf_of i) = Some oid" "rp_object R oid = Some (''tree'', d)"
    by (rule directory_resolves [OF assms(1,2) leaf_of_plain_path(1) none below])
  have v: "validObjectID oid" "rp_resolve R oid = Some oid" using assms(1) oid(2) unfolding repo_ok_def by blast+
  then have half: "length oid div 2 \<le> 32" by (auto simp: validObjectID_def)
  obtain raws where r: "d = concat (map encode_entry raws)" "\<forall>x \<in> set raws. length (snd (snd x)) = length oid div 2"
      "tree_of_dir fs (leaf_of i) raws" "parseTree d (length oid div 2) = Inr (map entry_of_raw raws)"
    by (rule leaf_tree [OF assms(1-4) oid])
  have "\<forall>x \<in> set raws. length (snd (snd x)) \<le> 32" using r(2) half by simp
  note bounds = leaf_tree_bounds [OF assms(3,4) r(3) this]
  show thesis
    by (rule that [of oid d "map entry_of_raw raws"])
      (use oid v r(1,4) bounds directory_messages_leaf [OF assms(3,4) r(3)] in simp_all)
qed

lemma directory_live:
  assumes "git_sound G view" "read_ready view s" "reads_fully G view s"
    and "rp_commit (view (st_git s)) c = Some fs" "validObjectID c" "archive_tree fs M" "mailbox_ok M" "M i = Some t"
  obtains s' where "directory G c (leaf_of i) s = (Inr (leaf_messages M (leaf_of i)), s')" "reads_fully G view s'"
proof -
  let ?R = "view (st_git s)" and ?spec = "c @ '':'' @ leaf_of i"
  have R: "repo_ok ?R" by (rule git_soundD(1) [OF assms(1)])
  obtain oid d es where o: "rp_resolve ?R ?spec = Some oid" "rp_object ?R oid = Some (''tree'', d)"
    "rp_resolve ?R oid = Some oid" "validObjectID oid" "length d \<le> 262144" "parseTree d (length oid div 2) = Inr es"
    "length es \<le> 1024" "directory_messages (leaf_of i) es = Inr (leaf_messages M (leaf_of i))"
    by (rule leaf_resolves [OF R assms(4,6-8)])
  have spec: "\<not> contains_any ?spec [CHR 0x0D, CHR 0x0A]" by (rule plain_spec [OF assms(5) leaf_of_plain])
  have d: "length d < 2 ^ 63" using o(5) by simp
  have ri: "reader_idle (st_reader s)" using assms(2) by (simp add: read_ready_def)
  note full = reads_fullyD [OF assms(3) spec]
  obtain h s1 where x: "store_objectInfo G ?spec ''tree'' s = (Inr h, s1)" "oh_oid h = oid" "reads_open s1"
      "st_git s1 = gi_tick G (st_git s)"
    by (rule store_objectInfo_live [OF R o(1,2) d spec full(2) ri full(1)])
  have f1: "reads_fully G view s1" by (rule reads_fully_tick [OF assms(3) x(3,4)])
  have r1: "read_step view s s1" "read_ready view s1" using store_objectInfo_sound [OF assms(1,2) x(1)] by simp_all
  let ?key = "\<lparr>ky_path = leaf_of i, ky_tree = oid\<rparr>"
  obtain hit ca where g: "cache_get (st_cache s1) ?key = (hit, ca)" by (meson surj_pair)
  let ?s1 = "s1\<lparr>st_cache := ca\<rparr>"
  have f2: "reads_fully G view ?s1" by (rule reads_fully_same [OF f1]) simp_all
  obtain res s' where y: "directory G c (leaf_of i) s = (res, s')" by (meson surj_pair)
  note sound = directory_sound [OF assms(1,2,4,6,7) y]
  note def = y [unfolded directory_def x(1,2) prod.case sum.case Let_def g]
  show thesis
  proof (cases hit)
    case (Some ms)
    with def have "res = Inr ms" "s' = ?s1" by simp_all
    with sound f2 y that show thesis by simp
  next
    case None
    from cache_sound_get [OF _ g] r1(2) have ready: "read_ready view ?s1" by (simp add: read_ready_def)
    have R1: "rp_object (view (st_git ?s1)) oid = Some (''tree'', d)"
      using read_stepD(1) [OF r1(1)] o(2) by (simp add: repo_extends_def)
    moreover have "repo_ok (view (st_git ?s1))" by (rule git_soundD(1) [OF assms(1)])
    ultimately have R2: "rp_resolve (view (st_git ?s1)) oid = Some oid" unfolding repo_ok_def by blast
    have "\<not> contains_any oid [CHR 0x0D, CHR 0x0A]"
      using validObjectID_word [OF o(4)] by (auto simp: contains_any_iff word_ok_def)
    then obtain s2 where t: "tree G oid ?s1 = (Inr (es, oid), s2)" "reads_fully G view s2"
      by (rule tree_live [OF assms(1) ready f2 _ R2 R1 o(5-7)])
    with def None o(8) have "res = Inr (leaf_messages M (leaf_of i))"
        "s' = s2\<lparr>st_cache := cache_put (st_cache s2) ?key (leaf_messages M (leaf_of i))\<rparr>" by simp_all
    moreover have "reads_fully G view (s2\<lparr>st_cache := cache_put (st_cache s2) ?key (leaf_messages M (leaf_of i))\<rparr>)"
      by (rule reads_fully_same [OF t(2)]) simp_all
    ultimately show thesis using y that by simp
  qed
qed

section \<open>The operations on a snapshot\<close>

lemma snapshot_directory_live:
  assumes "git_sound G view" "read_ready view s" "reads_fully G view s" "snapshot_shows view s snap M" "i \<in> dom M"
  obtains s' where "directory G (sn_commit snap) (leaf_of i) s = (Inr (leaf_messages M (leaf_of i)), s')" "reads_fully G view s'"
proof -
  from assms(4) obtain fs where fs: "rp_commit (view (st_git s)) (sn_commit snap) = Some fs" "validObjectID (sn_commit snap)"
      "archive_tree fs M" "mailbox_ok M" by (auto simp: snapshot_shows_def)
  from assms(5) obtain t where "M i = Some t" by blast
  from directory_live [OF assms(1-3) fs this] that show thesis by blast
qed

lemma Lookup_live:
  assumes "git_sound G view" "read_ready view s" "reads_fully G view s" "snapshot_shows view s snap M"
    and "number \<noteq> 0" "unat number \<le> card (dom M)"
  obtains m s' where "Lookup G snap number s = (Inr m, s')" "reads_fully G view s'"
proof -
  note sh = snapshot_showsD [OF assms(4)]
  obtain i c acc where i: "M i = Some c" "mail_list M ! (unat number - 1) = message_of i c"
    and sel: "selectLeaf (Some (index_of_set (dom M))) number =
      Some (\<lparr>dc_path = leaf_of i, dc_count = of_nat (leaf_card (dom M) (unat i div 1024)), dc_accumulated = acc\<rparr>,
        of_nat (card {x \<in> dom M. unat x div 1024 = unat i div 1024 \<and> x < i}))"
    by (rule selected_leaf [OF sh(3) assms(5,6)])
  have "i \<in> dom M" using i(1) by blast
  then obtain s' where x: "directory G (sn_commit snap) (leaf_of i) s = (Inr (leaf_messages M (leaf_of i)), s')" "reads_fully G view s'"
    by (rule snapshot_directory_live [OF assms(1-4)])
  have "\<exists>m. Lookup G snap number s = (Inr m, s')"
    using sel x(1) by (simp add: Lookup_def sh(2) length_leaf_messages)
  with x(2) that show thesis by blast
qed

lemma messageByID_live:
  assumes "git_sound G view" "read_ready view s" "reads_fully G view s" "snapshot_shows view s snap M"
    and "messageByID G snap i s = (res, s')"
  shows "reads_fully G view s' \<and> (\<forall>e. res = Inl e \<longrightarrow> e = ErrNoSuchMessage)"
proof -
  note sh = snapshot_showsD [OF assms(4)]
  let ?S = "dom M" and ?leaves = "di_leaves (index_of_set (dom M))"
  note def = assms(5) [unfolded messageByID_def sh(2) option.case]
  show ?thesis
  proof (cases "i = 0 \<or> sn_LastID snap < i")
    case True
    with def assms(3) show ?thesis by auto
  next
    case False
    then have path: "(case messageRelativePath i of Inl _ \<Rightarrow> path_dir [] | Inr legacy \<Rightarrow> path_dir legacy) = leaf_of i"
      using messageRelativePath_leaf [of i] path_dir_relative [of i] by (auto split: sum.split)
    define p where "p = sort_search (length ?leaves) (\<lambda>k. leaf_of i \<le> dc_path (?leaves ! k))"
    note srch = sort_search_key [OF leaves_sorted [of ?S], of "leaf_of i", folded p_def, unfolded leaves_paths]
    note def = def [unfolded path Let_def if_not_P [OF False], folded p_def]
    show ?thesis
    proof (cases "p = length ?leaves \<or> dc_path (?leaves ! p) \<noteq> leaf_of i")
      case True
      with def assms(3) show ?thesis by auto
    next
      case c2: False
      then obtain j where j: "j \<in> dom M" "leaf_of i = leaf_of j" using srch(1) by auto
      obtain s1 where x: "directory G (sn_commit snap) (leaf_of i) s = (Inr (leaf_messages M (leaf_of i)), s1)" "reads_fully G view s1"
        unfolding j(2) by (rule snapshot_directory_live [OF assms(1-4) j(1)])
      have cnt: "of_nat (length (leaf_messages M (leaf_of i))) = dc_count (?leaves ! p)"
        using leaf_at [where S = ?S and k = p and i = i] c2 srch(2) by (simp add: length_leaf_messages)
      from def [unfolded if_not_P [OF c2] x(1) prod.case sum.case cnt] x(2) show ?thesis by (auto split: if_splits)
    qed
  qed
qed

lemma list_leaves_live:
  assumes "git_sound G view" "read_ready view s" "reads_fully G view s" "snapshot_shows view s snap M"
    and "set qs \<subseteq> set_leaves (dom M)"
    and "list_leaves G snap visit n (with_sums t (map (\<lambda>q. (q, leaf_card (dom M) q)) qs)) c s = (err, c', s')"
  shows "(err, c') = visit_all visit n (concat (map (\<lambda>q. leaf_messages M (leaf_path q)) qs)) c \<and> reads_fully G view s'"
  using assms(2-6)
proof (induction qs arbitrary: t n c s)
  case (Cons q qs)
  from Cons.prems(4) obtain i where i: "i \<in> dom M" "q = unat i div 1024" by (auto simp: set_leaves_def)
  then have lp: "leaf_path q = leaf_of i" by (simp add: leaf_of_def)
  let ?ms = "leaf_messages M (leaf_of i)"
  obtain s1 where x: "directory G (sn_commit snap) (leaf_of i) s = (Inr ?ms, s1)" "reads_fully G view s1"
    by (rule snapshot_directory_live [OF assms(1) Cons.prems(1-3) i(1)])
  from snapshot_directory [OF assms(1) Cons.prems(1,3) x(1)] have s1: "read_ready view s1" "snapshot_shows view s1 snap M" by simp_all
  have "\<forall>m \<in> set ?ms. \<not> sn_LastID snap < MsgID m"
    using snapshot_showsD(4) [OF Cons.prems(3)] by (force simp: set_leaf_messages not_less)
  note lm = list_messages_visit [OF this, of visit n c]
  obtain v c1 where v: "visit_all visit n ?ms c = (v, c1)" by (meson surj_pair)
  have len: "of_nat (length ?ms) = (of_nat (leaf_card (dom M) q) :: u64)" by (simp add: length_leaf_messages i(2))
  note def = Cons.prems(5) [simplified, unfolded lp x(1) prod.case sum.case]
  show ?case
  proof (cases v)
    case (Some e)
    then have "err = Some e" "c' = c1" "s' = s1" using def lm v len by simp_all
    with x(2) Some v lp show ?thesis by (simp add: visit_all_append)
  next
    case None
    then have "list_leaves G snap visit (n + of_nat (length ?ms))
        (with_sums (t + leaf_card (dom M) q) (map (\<lambda>q. (q, leaf_card (dom M) q)) qs)) c1 s1 = (err, c', s')"
      using def lm v len by simp
    from Cons.IH [OF s1(1) x(2) s1(2) _ this] Cons.prems(4) show ?thesis by (simp add: visit_all_append lp v None)
  qed
qed simp

lemma ListAt_live:
  assumes "git_sound G view" "read_ready view s" "reads_fully G view s" "snapshot_shows view s snap M"
    and "ListAt G snap visit c s = (err, c', s')"
  shows "(err, c') = visit_all visit 0 (mail_list M) c \<and> reads_fully G view s'"
proof -
  note sh = snapshot_showsD [OF assms(4)]
  have "list_leaves G snap visit 0
      (with_sums 0 (map (\<lambda>q. (q, leaf_card (dom M) q)) (sorted_list_of_set (set_leaves (dom M))))) c s = (err, c', s')"
    using assms(5) by (simp add: ListAt_def sh(2) index_of_set_def entries_of_def)
  from list_leaves_live [OF assms(1-4) _ this] show ?thesis by (simp add: leaves_in_order)
qed

lemma OpenMessage_live:
  assumes "git_sound G view" "read_ready view s" "reads_fully G view s" "snapshot_shows view s snap M" "M i = Some c"
    and "length c < 2 ^ 63"
  obtains br s1 br2 s2 s3 where "OpenMessage G snap (message_of i c) s = (Inr br, s1)"
    "store_ReadAll br s1 = (c, None, br2, s2)" "store_CloseBlob br2 s2 = (None, s3)" "reads_fully G view s3"
proof -
  note sh = snapshot_showsD [OF assms(4)]
  have i: "i \<noteq> 0" "\<not> sn_LastID snap < i" using sh(3) sh(4) [of i] assms(5) by (auto simp: not_less)
  let ?m = "message_of i c"
  have known: "\<not> (messageFromPath (MsgPath ?m) \<noteq> Inr ?m \<or> sn_LastID snap < MsgID ?m)"
    using messageFromPath_message_of [OF i(1)] i(2) by simp
  from assms(4) obtain fs where fs: "rp_commit (view (st_git s)) (sn_commit snap) = Some fs" "archive_tree fs M" "mailbox_ok M"
      "validObjectID (sn_commit snap)"
    by (auto simp: snapshot_shows_def)
  have blob: "fs (MsgPath ?m) = Some c"
    using leaf_file [OF fs(2,3), of "message_name i (of_nat (length c))" i c] message_name_plain(1) assms(5)
    by (auto simp: message_of_name plain_elem_def)
  have R: "repo_ok (view (st_git s))" by (rule git_soundD(1) [OF assms(1)])
  obtain oid where oid: "rp_resolve (view (st_git s)) (sn_commit snap @ '':'' @ MsgPath ?m) = Some oid"
      "rp_object (view (st_git s)) oid = Some (''blob'', c)"
    by (rule file_resolves [OF R fs(1) leaf_of_plain_path(2) blob])
  have "\<not> contains_any (sn_commit snap @ '':'' @ MsgPath ?m) [CHR 0x0D, CHR 0x0A]"
    using plain_spec [OF fs(4), of "MsgPath ?m"] leaf_of_plain [of i] message_name_plain(2,3) by (simp add: message_of_name)
  note spec = this
  have ri: "reader_idle (st_reader s)" using assms(2) by (simp add: read_ready_def)
  note full = reads_fullyD [OF assms(3) spec]
  obtain br s1 br2 s2 s3 where x: "store_readObject G (sn_commit snap @ '':'' @ MsgPath ?m) ''blob'' s = (Inr br, s1)"
      "br_remaining br = int (length c)" "oh_oid (br_header br) = oid" "store_ReadAll br s1 = (c, None, br2, s2)"
      "oh_oid (br_header br2) = oid" "store_CloseBlob br2 s2 = (None, s3)" "reads_open s3" "st_git s3 = gi_tick G (st_git s)"
    by (rule store_fetch_live [OF R oid assms(6) spec full(3) ri full(1)])
  have "uint (of_nat (length c) :: u64) = int (length c)"
    using assms(6) by (simp add: uint_nat unat_of_nat_u64)
  then have "int64 (uint (MsgSize ?m)) = int (length c)" using int64_id [of "int (length c)"] assms(6) by simp
  then have "OpenMessage G snap ?m s = (Inr br, s1)"
    using x(1,2) known by (simp add: OpenMessage_def store_readBlob_def)
  moreover have "reads_fully G view s3" by (rule reads_fully_tick [OF assms(3) x(7,8)])
  ultimately show thesis using x(4,6) that by blast
qed

end
