(* ===== verification/Delete_Live.thy ===== *)
theory Delete_Live
  imports Read_Live Mailbox_Delete Publish_Live
begin

text \<open>
  That deletion succeeds: when Git answers the reads in full and carries out the commit, and no other
  session commits in between, \<open>DeleteAs\<close> of \<open>mailbox.go\<close> comes to its end without an error.
\<close>

section \<open>Reading leaves Git alone\<close>

text \<open>All that reading does to Git is to let it answer differently later.\<close>

definition ticked :: "'g git \<Rightarrow> 'g store \<Rightarrow> 'g store \<Rightarrow> bool" where
  "ticked G s s' \<longleftrightarrow> (\<exists>n. st_git s' = (gi_tick G ^^ n) (st_git s))"

lemma ticked_same: "st_git s' = st_git s \<Longrightarrow> ticked G s s'"
  unfolding ticked_def by (rule exI [of _ 0]) simp

lemma ticked_trans: "ticked G s t \<Longrightarrow> ticked G t u \<Longrightarrow> ticked G s u"
  unfolding ticked_def by (metis comp_apply funpow_add)

lemma ticked_requests:
  "store_objectInfo G spec kind s = (r, s') \<Longrightarrow> ticked G s s'"
  "store_readObject G spec kind s = (r', s') \<Longrightarrow> ticked G s s'"
  "store_ReadAll br s = (bytes, err, br', s') \<Longrightarrow> ticked G s s'"
  "store_CloseBlob br s = (err, s') \<Longrightarrow> ticked G s s'"
proof -
  have one: "ticked G s t" if "st_git t = gi_tick G (st_git s)" for t unfolding ticked_def by (rule exI [of _ 1]) (simp add: that)
  show "store_objectInfo G spec kind s = (r, s') \<Longrightarrow> ticked G s s'"
    "store_readObject G spec kind s = (r', s') \<Longrightarrow> ticked G s s'"
    by (auto simp: store_objectInfo_def store_readObject_def Let_def intro!: one split: prod.splits)
  show "store_ReadAll br s = (bytes, err, br', s') \<Longrightarrow> ticked G s s'" "store_CloseBlob br s = (err, s') \<Longrightarrow> ticked G s s'"
    by (auto simp: store_ReadAll_def store_CloseBlob_def intro!: ticked_same split: prod.splits)
qed

lemma tree_ticked:
  assumes "tree G spec s = (res, s')"
  shows "ticked G s s'"
proof -
  obtain ro s1 where x: "store_readObject G spec ''tree'' s = (ro, s1)" by (meson surj_pair)
  note t1 = ticked_requests(2) [OF x]
  show ?thesis
  proof (cases ro)
    case (Inl e)
    with assms x t1 show ?thesis by (simp add: tree_def)
  next
    case (Inr br)
    obtain ce s2 where c: "store_CloseBlob br s1 = (ce, s2)" by (meson surj_pair)
    obtain bytes err br2 s3 where r: "store_ReadAll br s1 = (bytes, err, br2, s3)" by (metis surj_pair)
    obtain ce2 s4 where c2: "store_CloseBlob br2 s3 = (ce2, s4)" by (meson surj_pair)
    have "s' = s2 \<or> s' = s4" using assms x Inr c r c2 by (auto simp: tree_def split: if_splits option.splits sum.splits)
    with t1 ticked_requests(4) [OF c] ticked_requests(3) [OF r] ticked_requests(4) [OF c2] ticked_trans show ?thesis by blast
  qed
qed

lemma directory_ticked:
  assumes "directory G c path s = (res, s')"
  shows "ticked G s s'"
proof -
  obtain ho s1 where x: "store_objectInfo G (c @ '':'' @ path) ''tree'' s = (ho, s1)" by (meson surj_pair)
  note t1 = ticked_requests(1) [OF x]
  show ?thesis
  proof (cases ho)
    case (Inl e)
    with assms x t1 show ?thesis by (simp add: directory_def)
  next
    case (Inr h)
    obtain hit ca where g: "cache_get (st_cache s1) \<lparr>ky_path = path, ky_tree = oh_oid h\<rparr> = (hit, ca)" by (meson surj_pair)
    let ?s1 = "s1\<lparr>st_cache := ca\<rparr>"
    obtain tr s2 where t: "tree G (oh_oid h) ?s1 = (tr, s2)" by (meson surj_pair)
    have s1: "ticked G s ?s1" using t1 by (simp add: ticked_def)
    have "st_git s' = st_git ?s1 \<or> st_git s' = st_git s2"
      using assms x Inr g t by (auto simp: directory_def Let_def split: option.splits sum.splits)
    with ticked_trans [OF s1 tree_ticked [OF t]] s1 show ?thesis by (auto simp: ticked_def)
  qed
qed

lemma messageByID_ticked: "messageByID G snap i s = (res, s') \<Longrightarrow> ticked G s s'"
  by (auto simp: messageByID_def Let_def ticked_same dest: directory_ticked split: option.splits if_splits prod.splits sum.splits)

lemma resolve_ids_ticked: "resolve_ids G snap previous ids s = (res, s') \<Longrightarrow> ticked G s s'"
proof (induction ids arbitrary: previous s res s')
  case (Cons i ids)
  obtain r s1 where x: "messageByID G snap i s = (r, s1)" by (meson surj_pair)
  obtain rs s2 where y: "resolve_ids G snap i ids s1 = (rs, s2)" by (meson surj_pair)
  note t = ticked_trans [OF messageByID_ticked [OF x]]
  show ?case
    using Cons.prems Cons.IH [of previous s] Cons.IH [OF y] x y t messageByID_ticked [OF x]
    by (auto simp: ticked_same split: if_splits sum.splits)
qed (simp add: ticked_same)

section \<open>Resolving the IDs\<close>

lemma resolve_ids_live:
  assumes "git_sound G view" "read_ready view s" "reads_fully G view s" "snapshot_shows view s snap M"
    and "\<forall>i \<in> set ids. i \<noteq> 0 \<and> i \<le> sn_LastID snap" "resolve_ids G snap previous ids s = (res, s')"
  shows "reads_fully G view s' \<and> (\<exists>ms. res = Inr ms)"
  using assms(2-6)
proof (induction ids arbitrary: previous s res s')
  case (Cons i ids)
  from Cons.prems(4) have i: "\<not> (i = 0 \<or> sn_LastID snap < i)" "\<forall>i \<in> set ids. i \<noteq> 0 \<and> i \<le> sn_LastID snap"
    by (auto simp: not_less)
  show ?case
  proof (cases "i = previous")
    case True
    with Cons.prems(5) i(1) have "resolve_ids G snap previous ids s = (res, s')" by auto
    with Cons.IH [OF Cons.prems(1-3) i(2)] show ?thesis by blast
  next
    case False
    obtain r s1 where x: "messageByID G snap i s = (r, s1)" by (meson surj_pair)
    from messageByID_live [OF assms(1) Cons.prems(1-3) x] have r: "reads_fully G view s1" "\<forall>e. r = Inl e \<longrightarrow> e = ErrNoSuchMessage"
      by simp_all
    from messageByID_sound [OF assms(1) Cons.prems(1,3) x] have s1: "read_ready view s1" "snapshot_shows view s1 snap M" by simp_all
    obtain rs s2 where y: "resolve_ids G snap i ids s1 = (rs, s2)" by (meson surj_pair)
    from Cons.IH [OF s1(1) r(1) s1(2) i(2) y] obtain ms where "reads_fully G view s2" "rs = Inr ms" by blast
    moreover have "s' = s2 \<and> (\<forall>ms. rs = Inr ms \<longrightarrow> (\<exists>ms'. res = Inr ms'))"
      using Cons.prems(5) False i(1) x y r(2) by (cases r) (auto split: sum.splits)
    ultimately show ?thesis by blast
  qed
qed auto

section \<open>The commit\<close>

text \<open>The commit that removes the messages with the given IDs and writes the state.\<close>

definition delete_meant :: "mailbox \<Rightarrow> u64 set \<Rightarrow> file_change list \<Rightarrow> bool" where
  "delete_meant M I cs \<longleftrightarrow>
     (\<exists>text gone. set gone = (\<lambda>i. MsgPath (message_of i (the (M i)))) ` (I \<inter> dom M) \<and>
        commit_meant [(mailboxStateName, Some text)] gone cs)"

lemma delete_next_total:
  assumes "state_ok st M" "mailbox_ok M" "mails_of M ms"
  obtains st' index where "delete_next ms st = Inr (st', map MsgPath ms)"
    "buildDirectoryIndex (mb_Directories st') (mb_LastID st') = Inr index"
proof -
  let ?N = "M |` (- MsgID ` set ms)"
  have pre: "counts_represent (mb_Directories st) (dom M)" "unat (mb_TotalOctets st) = mailbox_octets M"
    using assms(1) by (simp_all add: state_ok_def)
  from delete_next_ok [OF assms(2,3) pre] obtain octets counts where
    nx: "delete_next ms st = Inr (st\<lparr>mb_TotalOctets := octets, mb_Directories := counts\<rparr>, map MsgPath ms)"
      "counts_represent counts (dom ?N)" by blast
  have z: "0 \<notin> dom ?N" using assms(2) by (auto simp: mailbox_ok_def restrict_map_def split: if_splits)
  then have "\<forall>i \<in> dom ?N. i \<noteq> 0 \<and> i \<le> mb_LastID st"
    using assms(1) by (auto simp: state_ok_def restrict_map_def split: if_splits)
  from buildDirectoryIndex_represent [OF nx(2) z card_ids [OF this]] nx(1) show thesis
    by (intro that [of "st\<lparr>mb_TotalOctets := octets, mb_Directories := counts\<rparr>" "index_of_set (dom ?N)"]) simp_all
qed

lemma mails_removable:
  assumes "mailbox_ok M" "mails_of M ms"
  shows "distinct (map MsgPath ms)" "\<forall>p \<in> set (map MsgPath ms). validArchivePath p \<and> p \<noteq> mailboxStateName"
proof -
  have m: "\<exists>i c. M i = Some c \<and> m = message_of i c \<and> i \<noteq> 0" if "m \<in> set ms" for m
    using that assms by (fastforce simp: mails_of_def mailbox_ok_def)
  have "distinct ms" "inj_on MsgID (set ms)" using assms(2) by (simp_all add: mails_of_def distinct_map)
  moreover have "inj_on MsgPath (set ms)"
  proof (rule inj_onI)
    fix x y assume xy: "x \<in> set ms" "y \<in> set ms" "MsgPath x = MsgPath y"
    from m [OF xy(1)] obtain i c where i: "M i = Some c" "x = message_of i c" "i \<noteq> 0" by blast
    from m [OF xy(2)] obtain j d where j: "M j = Some d" "y = message_of j d" "j \<noteq> 0" by blast
    from message_of_path_inj [OF i(3) j(3)] xy(3) i j have "i = j" by simp
    with i j show "x = y" by simp
  qed
  ultimately show "distinct (map MsgPath ms)" by (simp add: distinct_map)
  show "\<forall>p \<in> set (map MsgPath ms). validArchivePath p \<and> p \<noteq> mailboxStateName"
  proof
    fix p assume "p \<in> set (map MsgPath ms)"
    then obtain x where x: "x \<in> set ms" "p = MsgPath x" by auto
    from m [OF x(1)] obtain i c where i: "x = message_of i c" "i \<noteq> 0" by blast
    note path = messageFromPath_message_of [OF i(2), of c]
    have "p \<notin> special_files" using message_path_not_special [OF path] x(2) i(1) by simp
    with path x(2) i(1) show "validArchivePath p \<and> p \<noteq> mailboxStateName"
      by (auto simp: validArchivePath_def special_files_def mailboxStateName_def)
  qed
qed

lemma deleteLocked_live:
  assumes "store_base view s" "store_holds view s M" "order_ok env" "mails_of M ms" "MsgID ` set ms = I \<inter> dom M"
    and "st_failure s = None" "\<not> st_closed s" "st_importError s = None"
    and "git_commits G (st_importer s \<noteq> None) (delete_meant M I) (st_headID s) (st_git s)"
  shows "\<exists>s'. deleteLocked G graphic env ms username s = (None, s')"
proof (cases "ms = []")
  case True
  with assms(6) show ?thesis by (simp add: deleteLocked_def)
next
  case False
  have head: "validObjectID (st_headID s)" and st: "state_ok (st_state s) M" "mailbox_ok M"
    using assms(2,6) by (auto simp: store_holds_def committed_def)
  obtain st index where nx: "delete_next ms (st_state s) = Inr (st, map MsgPath ms)"
    "buildDirectoryIndex (mb_Directories st) (mb_LastID st) = Inr index"
    by (rule delete_next_total [OF st assms(4)])
  let ?st = "st\<lparr>mb_index := Some index\<rparr>" and ?gone = "map MsgPath ms"
  note gone = mails_removable [OF st(2) assms(4)]
  have set_gone: "set ?gone = (\<lambda>i. MsgPath (message_of i (the (M i)))) ` (I \<inter> dom M)"
    using mails_paths [OF st(2) assms(4)] unfolding assms(5) .
  have "delete_meant M I cs" if "commit_meant (AList.update mailboxStateName (Some (state_text ?st)) []) ?gone cs" for cs
    unfolding delete_meant_def using that set_gone by (intro exI [of _ "state_text ?st"] exI [of _ ?gone]) simp
  note commits = git_commits_mono [OF assms(9) this]
  have "\<exists>s'. commitChanges G env (delete_title graphic (length ?gone) username) ?st [] ?gone s = (None, s')"
    by (rule commitChanges_live [OF commits]) (use assms(1,3,6-8) head gone nx(2) in \<open>auto simp: store_base_def importer_idle_def\<close>)
  with assms(6) False nx show ?thesis by (auto simp: deleteLocked_def)
qed

section \<open>Deleting\<close>

text \<open>
  What \<open>DeleteAs\<close> of \<open>ids\<close> needs of the store and its surroundings: one turn is enough when no other
  session is at work.
\<close>

definition deletable ::
  "'g git \<Rightarrow> ('g \<Rightarrow> repo) \<Rightarrow> nat \<Rightarrow> (nat \<Rightarrow> 'g store \<Rightarrow> 'g store) \<Rightarrow> u64 list \<Rightarrow> mailbox \<Rightarrow> 'g store \<Rightarrow> bool" where
  "deletable G view fuel others ids M s \<longleftrightarrow> reads_fully G view s \<and> \<not> st_closed s \<and> st_importError s = None \<and>
     0 < fuel \<and> (\<forall>k t. others k t = t) \<and> (\<forall>i \<in> set ids. i \<noteq> 0 \<and> i \<le> mb_LastID (st_state s)) \<and>
     (\<forall>n. git_commits G (st_importer s \<noteq> None) (delete_meant M (set ids)) (st_headID s) ((gi_tick G ^^ n) (st_git s)))"

lemma read_step_rest:
  assumes "read_step view s s'"
  shows "st_closed s' = st_closed s" "st_importError s' = st_importError s"
  using assms by (cases s; cases s'; auto simp: read_step_def)+

lemma DeleteAs_live:
  assumes "git_sound G view" "order_ok env" "serving view s M" "deletable G view fuel others ids M s"
  shows "\<exists>s'. DeleteAs fuel G graphic env others ids username s = (None, s')"
proof -
  from assms(3) have s: "store_base view s" "read_ready view s" "store_holds view s M" "st_failure s = None"
    by (simp_all add: serving_def)
  from assms(4) have d: "reads_fully G view s" "\<not> st_closed s" "st_importError s = None" "\<And>k t. others k t = t"
      "\<And>n. git_commits G (st_importer s \<noteq> None) (delete_meant M (set ids)) (st_headID s) ((gi_tick G ^^ n) (st_git s))"
    by (simp_all add: deletable_def)
  obtain k where k: "fuel = Suc k" using assms(4) by (cases fuel) (simp_all add: deletable_def)
  let ?snap = "Snapshot s"
  note shown = Snapshot_shows [OF s(3,4)]
  have ids: "\<forall>i \<in> set (sort ids). i \<noteq> 0 \<and> i \<le> sn_LastID ?snap"
    using assms(4) by (simp add: deletable_def Snapshot_def snapshotLocked_def)
  obtain rr s1 where x: "resolve_ids G ?snap 0 (sort ids) s = (rr, s1)" by (meson surj_pair)
  from resolve_ids_live [OF assms(1) s(2) d(1) shown ids x] obtain ms where ms: "rr = Inr ms" by blast
  have "\<forall>i \<in> set (sort ids). 0 \<le> i" by simp
  from resolve_ids_sound [OF assms(1) s(2) shown sorted_sort this x] ms
  have r: "read_step view s s1" "mails_of M ms" "MsgID ` set ms = (set ids - {0}) \<inter> dom M" by simp_all
  have "0 \<notin> dom M" using snapshot_showsD(3) [OF shown] .
  then have I: "MsgID ` set ms = set ids \<inter> dom M" using r(3) by auto
  note h = store_holds_read [OF r(1)] and f = read_stepD [OF r(1)] read_step_rest [OF r(1)]
  from resolve_ids_ticked [OF x] obtain n where n: "st_git s1 = (gi_tick G ^^ n) (st_git s)" by (auto simp: ticked_def)
  have commits: "git_commits G (st_importer s1 \<noteq> None) (delete_meant M (set ids)) (st_headID s1) (st_git s1)"
    using d(5) [of n] f by (simp add: n)
  have "\<exists>s'. deleteLocked G graphic env ms username s1 = (None, s')"
    by (rule deleteLocked_live [OF _ _ assms(2) r(2) I _ _ _ commits, where view = view]) (use h s d(2,3) f in simp_all)
  moreover have "st_headID s1 = sn_commit ?snap" using f by (simp add: Snapshot_def snapshotLocked_def)
  ultimately show ?thesis using x ms d(4) by (simp add: DeleteAs_def k Let_def)
qed

end
