(* ===== verification/Sample_Live.thy ===== *)
theory Sample_Live
  imports Delete_Live Sample_Store
begin

text \<open>
  The repositories of \<open>Model_Git\<close> answer every read in full and carry out commits: \<open>git_commits\<close>
  holds of them, as long as the new files fit.
\<close>

lemma model_reads_fully: "reads_fully model_git model_view s \<longleftrightarrow> reads_open s"
  by (auto simp: reads_fully_def answered_def model_git_def model_ask_def butlast_append)

lemma fold_model_change_length: "length (fold model_change cs fl) \<le> length fl + length cs"
proof (induction cs arbitrary: fl)
  case (Cons c cs)
  have "length (AList.update p d fl) \<le> Suc (length fl)" for p d by (induction fl) auto
  moreover have "length (AList.delete p fl) \<le> length fl" for p by (simp add: AList.length_delete_le)
  ultimately have "length (model_change c fl) \<le> Suc (length fl)" by (cases c) (auto intro: le_SucI)
  with Cons [of "model_change c fl"] show ?case by simp
qed simp

lemma fold_model_change_fst:
  "distinct (map fst fl) \<Longrightarrow> distinct (map fst (fold model_change cs fl)) \<and>
     fst ` set (fold model_change cs fl) \<subseteq> fst ` set fl \<union> change_path ` set cs"
proof (induction cs arbitrary: fl)
  case (Cons c cs)
  have "fst ` set (model_change c fl) \<subseteq> insert (change_path c) (fst ` set fl)"
  proof (cases c)
    case (FileModify p d)
    then show ?thesis using dom_update [of p d fl] by (simp add: insert_commute)
  next
    case (FileDelete p)
    have "set (AList.delete p fl) \<subseteq> set fl" by (simp add: AList.delete_eq)
    with FileDelete show ?thesis by auto
  qed
  moreover have "distinct (map fst (model_change c fl))"
    using Cons.prems by (cases c) (simp_all add: distinct_update distinct_delete)
  ultimately show ?case
    using Cons.IH [of "model_change c fl"] unfolding fold_simps(2) list.set(2) image_insert by blast
qed simp

lemma commit_meant_length: "commit_meant xs gone cs \<Longrightarrow> length cs \<le> length xs + length gone"
proof -
  assume a: "commit_meant xs gone cs"
  then have "distinct cs" using distinct_map by (auto simp: commit_meant_def)
  then have "length cs = card (set cs)" by (simp add: distinct_card)
  also have "\<dots> \<le> card ((\<lambda>(p, c). FileModify p (the c)) ` set xs) + card (FileDelete ` set gone)"
    using a by (simp add: commit_meant_def card_Un_le)
  also have "\<dots> \<le> card (set xs) + card (set gone)" by (intro add_mono card_image_le) simp_all
  also have "\<dots> \<le> length xs + length gone" by (intro add_mono card_length)
  finally show ?thesis .
qed

lemma model_git_commits:
  assumes "git_fits g" "mg_head g = Suc n" "n < length (mg_commits g)" "length (mg_commits g) < 16"
    and "\<And>cs. meant cs \<Longrightarrow> files_fit (fold model_change cs (mg_commits g ! n))"
  shows "git_commits model_git False meant (commit_oid n) g"
proof -
  have n: "n < 16" using assms(3,4) by simp
  have list: "commit_list g (commit_oid n) = Some (mg_commits g ! n)" by (rule commit_list_at [OF assms(1,3)])
  have send: "model_send request g = (Inr (commit_oid (length (mg_commits g)) @ [CHR 0x0A], IoEOF),
        g\<lparr>mg_commits := mg_commits g @ [fold model_change changes (mg_commits g ! n)]\<rparr>)"
    if "read_stream request = Some [ImportCommit ref mark who title (Some (commit_oid n)) changes, ImportBlank, ImportGetMark mark]"
      "meant changes" for request ref mark who title changes
    using that assms(1,4,5) list by (simp add: model_send_def Let_def)
  have valid: "validObjectID (commit_oid (length (mg_commits g)))"
    using oid_valid [of "length (mg_commits g)" 0] assms(4) by (simp add: commit_oid_def)
  have check: "model_send chk h = (Inr (''progress '' @ oid @ [CHR 0x0A], IoEOF), h\<lparr>mg_head := length (mg_commits h)\<rparr>)"
    if "read_stream chk = Some [ImportCheckpoint, ImportProgress oid]" "CHR 0x0A \<notin> set oid" for chk oid h
    using that by (simp add: model_send_def)
  let ?oid = "commit_oid (length (mg_commits g))"
  have line: "CHR 0x0A \<notin> set ?oid" by (rule commit_oid_line [OF assms(4)])
  let ?h = "\<lambda>changes. g\<lparr>mg_commits := mg_commits g @ [fold model_change changes (mg_commits g ! n)]\<rparr>"
  have rest: "\<exists>g3 g4 g5. gi_send model_git chk (?h changes) = (Inr (''progress '' @ ?oid @ [CHR 0x0A], IoEOF), g3) \<and>
      gi_head model_git g3 = (Inr (?oid @ [CHR 0x0A]), g4) \<and> gi_watch model_git g4 = (None, g5)"
    if "read_stream chk = Some [ImportCheckpoint, ImportProgress ?oid]" for chk changes
    using check [OF that line, of "?h changes"] by (simp add: model_git_def)
  show ?thesis
    unfolding git_commits_def
    by (rule exI [of _ g], rule exI [of _ g], intro conjI allI impI exI [of _ ?oid])
       (use assms(2) send valid rest in \<open>auto simp: model_git_def\<close>)
qed

section \<open>The sample store\<close>

lemma sample_files_fit:
  assumes "length cs \<le> 14" "\<forall>p \<in> change_path ` set cs. path_fits p"
  shows "files_fit (fold model_change cs (mg_commits sample_git ! 0))"
proof -
  have "length (fold model_change cs sample_files) \<le> 16"
    using fold_model_change_length [of cs sample_files] assms(1) by (simp add: sample_files_def)
  moreover have "distinct (map fst sample_files)" "\<forall>p \<in> fst ` set sample_files. path_fits p"
    using sample_fits(1) unfolding files_fit_def by blast+
  ultimately have "files_fit (fold model_change cs sample_files)"
    using fold_model_change_fst [of sample_files cs] assms(2) unfolding files_fit_def by blast
  then show ?thesis by (simp add: sample_git_def)
qed

lemma sample_commits:
  fixes c :: string
  shows "git_commits model_git False (publish_meant 2 c) (commit_oid 0) sample_git"
proof (rule model_git_commits [where n = 0])
  fix cs assume m: "publish_meant 2 c cs"
  let ?p = "MsgPath (message_of 2 c)"
  from m obtain body where t: "commit_meant [(?p, Some c), (mailboxStateName, Some body)] [] cs" by (auto simp: publish_meant_def)
  have "path_fits ?p"
  proof -
    have "leaf_of 2 = ''1''" by (simp add: leaf_of_def leaf_path_0)
    then show ?thesis using message_name_plain [of 2 "of_nat (length c)"]
      by (auto simp: message_of_name path_fits_def name_fits_def plain_elem_def)
  qed
  moreover have "change_path ` set cs \<subseteq> {?p, ''state''}" using t by (auto simp: commit_meant_def mailboxStateName_def)
  ultimately have "\<forall>p \<in> change_path ` set cs. path_fits p" by (auto simp: path_fits_def)
  moreover have "length cs \<le> 14" using commit_meant_length [OF t] by simp
  ultimately show "files_fit (fold model_change cs (mg_commits sample_git ! 0))" by (intro sample_files_fit)
qed (use sample_fits in \<open>simp_all add: sample_git_def\<close>)

lemma sample_deletes: "git_commits model_git False (delete_meant sample_mail {1}) (commit_oid 0) sample_git"
proof (rule model_git_commits [where n = 0])
  fix cs assume m: "delete_meant sample_mail {1} cs"
  let ?p = "MsgPath (message_of 1 ''hi'')"
  have "(\<lambda>i. MsgPath (message_of i (the (sample_mail i)))) ` ({1} \<inter> dom sample_mail) = {?p}" by (simp add: sample_ids)
  with m obtain body gone where t: "set gone = {?p}" "commit_meant [(mailboxStateName, Some body)] gone cs"
    unfolding delete_meant_def by auto
  then have cs: "set cs = {FileModify mailboxStateName body, FileDelete ?p}" "distinct (map change_path cs)"
    by (auto simp: commit_meant_def)
  have "length cs = card (set cs)" using cs(2) by (simp add: distinct_map distinct_card)
  also have "\<dots> \<le> 2" unfolding cs(1) by (simp add: card_insert_if)
  finally have "length cs \<le> 14" by simp
  moreover have "\<forall>p \<in> change_path ` set cs. path_fits p" using sample_path(1) by (auto simp: cs(1) path_fits_def mailboxStateName_def)
  ultimately show "files_fit (fold model_change cs (mg_commits sample_git ! 0))" by (intro sample_files_fit)
qed (use sample_fits in \<open>simp_all add: sample_git_def\<close>)

lemma sample_deletable: "deletable model_git model_view 1 (\<lambda>k s. s) [1] sample_mail sample_store"
proof -
  have tick: "gi_tick model_git g = g" for g by (simp add: model_git_def)
  then have "(gi_tick model_git ^^ n) g = g" for n g by (induction n) simp_all
  with sample_deletes show ?thesis
    by (simp add: deletable_def model_reads_fully reads_open_def sample_store_def sample_state_def)
qed

lemma sample_publishable: "publishable sample_publish 0 ''yo'' sample_mail sample_store"
  using sample_staged sample_order(2) sample_octets
  by (simp add: publishable_def receipt_io_ok_def)
    (simp add: sample_publish_def sample_store_def sample_state_def canReserveLocked_def receiptUsageLocked_def DefaultMaxDailyBytes_def)

end
