(* ===== verification/Smtp.thy ===== *)
theory Smtp
  imports Smtp_Live Sample_Live
begin

text \<open>
  The properties of the SMTP server on the archive, each applied at a session with one accepted
  recipient on the store of \<open>Sample_Store\<close>.
\<close>

section \<open>A session to apply them at\<close>

definition sample_smtp :: smtp_server where
  "sample_smtp =
     \<lparr>sv_hostname = ''mx'', sv_domains = [''b''], sv_tlsConfig = Some (\<lambda>pieces e. Inr ([''EHLO c'' @ CRLF], IoEOF)),
      sv_maxMessageSize = 1000, sv_maxRecipients = 20, sv_maxConnections = 64, sv_policy = defaultSMTPPolicy\<rparr>"

definition sample_peer :: conn where
  "sample_peer =
     \<lparr>cn_buf = [], cn_reads = [''DATA'' @ CRLF @ ''yo'' @ CRLF @ ''.'' @ CRLF], cn_end = IoEOF, cn_out = [], cn_room = None\<rparr>"

definition sample_tx :: smtp_session where
  "sample_tx =
     \<lparr>ss_conn = sample_peer, ss_remote = ''192.0.2.1'', ss_greeted = True, ss_helo = ''c'', ss_encrypted = False,
      ss_tx = \<lparr>tx_started = True, tx_from = [], tx_recipients = [''a@b'']\<rparr>\<rparr>"

definition sample_ios :: "unit \<Rightarrow> stage_io" where
  "sample_ios e =
     \<lparr>io_mkdir = None, io_create = Inr ''t'', io_write = (\<lambda>_. None), io_sync = None, io_close = None, io_day = (\<lambda>_. ''2024-01-01'')\<rparr>"

definition sample_envs :: "unit \<Rightarrow> publish_env" where
  "sample_envs e = sample_publish"

definition sample_delivery :: "model_git store delivery" where
  "sample_delivery = store_delivery model_git ''2024-01-01'' (sample_ios ()) (sample_envs ())"

lemma sample_delivery_ready: "delivery_ready model_git model_view sample_ios sample_envs sample_store"
proof -
  have "spool_ok sample_store" by (simp add: sample_store_def spool_ok_def reserved_sum_def DefaultMaxDailyBytes_def u64_le)
  then show ?thesis
    using model_git_sound sample_order(2) sample_base sample_holds
    by (auto simp: delivery_ready_def sample_ios_def sample_envs_def)
qed

lemma sample_recipient: "recipient_ok sample_smtp ''a@b''"
proof -
  have "validAddress ''a@b''" by code_simp
  moreover have "normalizeDomain ''b'' = ''b''" by code_simp
  then have "served_domain sample_smtp ''a@b''" by (simp add: served_domain_def cut_def sample_smtp_def)
  ultimately show ?thesis by (simp add: recipient_ok_def)
qed

lemma sample_tx_ok: "session_ok sample_smtp sample_tx" "0 \<le> sv_maxRecipients sample_smtp"
proof -
  show "0 \<le> sv_maxRecipients sample_smtp" by (simp add: sample_smtp_def)
  have "int (length (tx_recipients (ss_tx sample_tx))) \<le> sv_maxRecipients sample_smtp"
    by (simp add: sample_smtp_def sample_tx_def)
  then show "session_ok sample_smtp sample_tx"
    using sample_recipient by (simp add: session_ok_def sample_tx_def conn_ok_def sample_peer_def graphic_def)
qed

text \<open>Everything works around the sample store.\<close>

lemma sample_message_length: "length (message_text sample_smtp ''now'' sample_tx [''yo'']) \<le> 4096"
  by code_simp

lemma sample_surroundings:
  "surroundings_ok model_git (sample_ios ()) (sample_envs ()) (message_text sample_smtp ''now'' sample_tx [''yo'']) sample_mail sample_store"
proof -
  let ?c = "message_text sample_smtp ''now'' sample_tx [''yo'']"
  have "git_commits model_git False (publish_meant 2 ?c) (commit_oid 0) sample_git" by (rule sample_commits)
  moreover have "max 4096 (length ?c) = 4096" using sample_message_length by simp
  then have "budget_free (max 4096 (length ?c)) sample_store"
    by (simp add: budget_free_def receiptUsageLocked_def sample_store_def DefaultMaxDailyBytes_def)
  moreover have "mailbox_octets sample_mail + length ?c < 18446744073709551616"
    using sample_message_length by (simp add: sample_octets)
  ultimately show ?thesis
    by (simp add: surroundings_ok_def sample_ios_def sample_envs_def sample_publish_def stage_io_ok_def receipt_io_ok_def)
       (simp add: sample_store_def sample_state_def)
qed

lemma sample_turn:
  "cn_room (ss_conn sample_tx) = None" "tx_recipients (ss_tx sample_tx) \<noteq> []"
  "cn_stream (ss_conn sample_tx) = ''DATA'' @ CRLF @ client_data [''yo''] @ []" "data_fits sample_smtp [''yo'']"
  by (simp_all add: sample_tx_def sample_peer_def cn_stream_def client_data_def crlf_lines_def dot_stuff_def has_prefix_def
      data_fits_def sample_smtp_def evaluateMessage_def defaultSMTPPolicy_def)

section \<open>Delivery\<close>



text \<open>C13: mail is accepted: when the disk and Git work, the budget has room for the message and the
  policy accepts, a client that sends \<open>DATA\<close> and its lines, each of at most 998 bytes, is told in
  the same turn that its message is accepted, it is stored under the next ID, and the session goes
  on with the command after the terminator.\<close>

theorem data_is_accepted:
  assumes "delivery_ready G view ios envs s" "session_ok sv ss" "store_holds view s M"
    and "cn_room (ss_conn ss) = None" "tx_recipients (ss_tx ss) \<noteq> []"
    and "cn_stream (ss_conn ss) = ''DATA'' @ CRLF @ client_data ls @ t" "data_fits sv ls"
    and "surroundings_ok G (ios e) (envs e) (message_text sv date ss ls) M s"
  shows "\<exists>ss' s'. smtp_step sv (store_delivery G today (ios e) (envs e)) date ss s = (Continue ss', s') \<and>
    ss_out ss' = ss_out ss @ accept_dialogue \<and> cn_stream (ss_conn ss') = t \<and> ss_tx ss' = no_transaction \<and>
    store_holds view s' (M(mb_LastID (st_state s) + 1 \<mapsto> message_text sv date ss ls))"
  by (rule smtp_data_live [OF assms, where today = today]) blast

lemma data_is_accepted_witness:
  "\<exists>ss' s'. smtp_step sample_smtp sample_delivery ''now'' sample_tx sample_store = (Continue ss', s') \<and>
     ss_out ss' = ss_out sample_tx @ accept_dialogue \<and>
     store_holds model_view s' (sample_mail(2 \<mapsto> message_text sample_smtp ''now'' sample_tx [''yo'']))"
proof -
  have "mb_LastID (st_state sample_store) + 1 = 2" by (simp add: sample_store_def sample_state_def)
  with data_is_accepted [OF sample_delivery_ready sample_tx_ok(1) sample_holds sample_turn sample_surroundings,
      where today = "''2024-01-01''", folded sample_delivery_def]
  show ?thesis by metis
qed

text \<open>C12: no relay: in every reachable state of a session, whatever other sessions do to the store, every
  recipient is a valid address of a served domain, there are no more of them than allowed, and a
  transaction has recipients only after \<open>MAIL\<close>, and \<open>MAIL\<close> only after a greeting.\<close>

theorem no_relay:
  assumes "smtp_reach sv (\<lambda>e. store_delivery G (today e) (ios e) (envs e)) (delivery_ready G view ios envs) ss s"
    and "0 \<le> sv_maxRecipients sv"
  shows "session_ok sv ss \<and> delivery_ready G view ios envs s"
proof (rule smtp_reach_ok [OF _ _ assms, where holds = "store_holds view"])
  show "\<exists>pending handle broken. mail_delivery (store_delivery G (today e) (ios e) (envs e)) (delivery_ready G view ios envs)
      (store_holds view) pending handle broken" for e
    by (intro exI, rule mail.mail_delivery_axioms)
  show "\<exists>M. store_holds view s M" if "delivery_ready G view ios envs s" for s
    using that by (simp add: delivery_ready_def)
qed

lemma no_relay_witness:
  "\<exists>ss. smtp_start sample_smtp ''192.0.2.1'' sample_peer = Continue ss \<and> session_ok sample_smtp ss"
proof -
  have "snd (smtp_reply ss n m)" if "cn_room (ss_conn ss) = None" for ss n m using smtp_reply_out(3) [OF that] .
  then obtain ss where ss: "smtp_start sample_smtp ''192.0.2.1'' sample_peer = Continue ss"
    by (simp add: smtp_start_def case_prod_beta sample_peer_def)
  have "smtp_reach sample_smtp (\<lambda>e. store_delivery model_git ''2024-01-01'' (sample_ios e) (sample_envs e))
      (delivery_ready model_git model_view sample_ios sample_envs) ss sample_store"
    by (rule smtp_reach.Start [OF ss], rule sample_delivery_ready)
  from no_relay [OF this sample_tx_ok(2)] ss show ?thesis by blast
qed

section \<open>What is stored\<close>

text \<open>The content of an accepted message is its trace headers and lines of the peer's data: each
  line ends with CR LF, has no other line feed and at most 1000 bytes, and all of them are within
  the size the server allows.\<close>

lemma accepted_canonical:
  assumes "accepts sv date ss t content rest" "0 \<le> sv_maxMessageSize sv" "sv_maxMessageSize sv < 2 ^ 63 - 1000"
  shows "\<exists>ls. content = deliveryHeaders (sv_hostname sv) (ss_remote ss) (ss_helo ss) (ss_encrypted ss) (ss_tx ss) date @ crlf_lines ls \<and>
    (\<forall>l \<in> set ls. LF \<notin> set l \<and> length l + 2 \<le> 1000) \<and> int (length (crlf_lines ls)) \<le> sv_maxMessageSize sv"
proof -
  from assms(1) obtain body where b: "data_body (sv_maxMessageSize sv) 0 (cn_end (ss_conn ss)) t = (body, IoEOF, rest)"
    "content = deliveryHeaders (sv_hostname sv) (ss_remote ss) (ss_helo ss) (ss_encrypted ss) (ss_tx ss) date @ body"
    by (auto simp: accepts_def)
  from data_body_canonical [OF b(1)] obtain ls where "body = crlf_lines ls" "\<forall>l \<in> set ls. LF \<notin> set l \<and> length l + 2 \<le> 1000"
    by blast
  with data_body_bound [OF b(1) _ assms(2,3)] b(2) show ?thesis by auto
qed


definition sample_options :: smtp_options where
  "sample_options =
     \<lparr>op_Hostname = ''mx'', op_Domains = [''b''], op_HasDelivery = True, op_TLSConfig = None, op_MaxMessageSize = 1000,
      op_MaxRecipients = 0, op_MaxConnections = 0, op_Policy = Some defaultSMTPPolicy\<rparr>"


lemma address_keeps_cr: "validAddress (''a@b'' @ [CR]) \<and> served_domain sample_smtp (''a@b'' @ [CR])"
proof
  show "validAddress (''a@b'' @ [CR])" by code_simp
  have "normalizeDomain (''b'' @ [CR]) = ''b''" by code_simp
  then show "served_domain sample_smtp (''a@b'' @ [CR])" by (simp add: served_domain_def cut_def sample_smtp_def)
qed

text \<open>The Kelvin sign is folded to k, so it too gets past the check and into the header.\<close>

lemma address_keeps_kelvin:
  "let b = [CHR 0xE2, CHR 0x84, CHR 0xAA] in normalizeDomain b = ''k'' \<and> validAddress (''a@'' @ b)"
  by code_simp

text \<open>The dotless i folds to I in a command word.\<close>

lemma command_folds_dotless: "fst (splitCommand (''qu'' @ [CHR 0xC4, CHR 0xB1] @ ''t'')) = ''QUIT''"
  by code_simp

text \<open>
  What is read from a client that does not stuff its dots, or ends its lines with a bare line feed:
  a single leading dot stays, and a lone dot ends the message with either line ending.
\<close>

lemma single_dot_kept: "canonicalDataLine (unstuff (''.a'' @ CRLF)) = ''.a'' @ CRLF \<and> is_terminator [CHR ''.'', LF]"
  by code_simp

section \<open>STARTTLS\<close>

text \<open>C25: after \<open>STARTTLS\<close> nothing of the plaintext session is left: no greeting, no transaction, and no
  byte that was read before the handshake; what the client slipped into the plaintext buffer behind
  the command makes no difference.\<close>

theorem starttls_discards_plaintext:
  assumes "cmd_starttls sv argument ss = Continue ss'" "ss_encrypted ss'" "\<not> ss_encrypted ss"
  shows "\<not> ss_greeted ss' \<and> ss_helo ss' = [] \<and> ss_tx ss' = no_transaction \<and> cn_buf (ss_conn ss') = [] \<and>
    (\<forall>b. cmd_starttls sv argument (ss\<lparr>ss_conn := (ss_conn ss)\<lparr>cn_buf := b\<rparr>\<rparr>) = Continue ss')"
proof -
  obtain hs where hs: "sv_tlsConfig sv = Some hs" "argument = []"
    using assms by (auto simp: cmd_starttls_def answer_def split: option.splits if_splits)
  let ?l = "fmt_nat 10 220 @ '' '' @ ''2.0.0 ready to start TLS'' @ CRLF"
  obtain c ok where w: "conn_write (ss_conn ss) ?l = (c, ok)" by (meson surj_pair)
  have wb: "conn_write ((ss_conn ss)\<lparr>cn_buf := b\<rparr>) ?l = (c\<lparr>cn_buf := b\<rparr>, ok)" for b
    using w by (auto simp: conn_write_def split: option.splits if_splits)
  have ok: ok using assms(1) hs w by (auto simp: cmd_starttls_def smtp_reply_def assms(3) split: if_splits)
  obtain pieces e where r: "hs (cn_reads c) (cn_end c) = Inr (pieces, e)"
    using assms(1) hs w ok by (auto simp: cmd_starttls_def smtp_reply_def assms(3) split: sum.splits)
  have ss': "ss' = ss\<lparr>ss_conn := c\<lparr>cn_buf := [], cn_reads := pieces, cn_end := e\<rparr>, ss_greeted := False, ss_helo := [],
      ss_encrypted := True, ss_tx := no_transaction\<rparr>"
    using assms(1) hs w ok r by (simp add: cmd_starttls_def smtp_reply_def assms(3))
  have "cmd_starttls sv argument (ss\<lparr>ss_conn := (ss_conn ss)\<lparr>cn_buf := b\<rparr>\<rparr>) = Continue ss'" for b
    using wb [of b] hs ok r by (simp add: ss' cmd_starttls_def smtp_reply_def assms(3))
  then show ?thesis by (simp add: ss')
qed

lemma starttls_discards_plaintext_witness:
  "\<exists>ss'. cmd_starttls sample_smtp [] sample_tx = Continue ss' \<and> ss_tx ss' = no_transaction \<and> cn_stream (ss_conn ss') = ''EHLO c'' @ CRLF"
proof -
  obtain ss' where x: "cmd_starttls sample_smtp [] sample_tx = Continue ss'" "ss_encrypted ss'" "cn_reads (ss_conn ss') = [''EHLO c'' @ CRLF]"
    by (simp add: cmd_starttls_def sample_smtp_def sample_tx_def smtp_reply_def conn_write_def sample_peer_def)
  have "\<not> ss_encrypted sample_tx" by (simp add: sample_tx_def)
  from starttls_discards_plaintext [OF x(1,2) this] x(1,3) show ?thesis by (simp add: cn_stream_def)
qed

end
