(* ===== verification/Pop3_Stream.thy ===== *)
theory Pop3_Stream
  imports Conn
begin

text \<open>
  How \<open>internal/pop3/server.go\<close> writes: the buffered writer, \<open>streamMessage\<close> with its dot
  stuffing and the limit of \<open>TOP\<close>, and what a client reads back from the reply.
\<close>

section \<open>The buffered writer\<close>

text \<open>
  \<open>bufio.Writer\<close> with its buffer of 4096 bytes: the bytes buffered, and the connection. A write
  that does not fit fills the buffer and flushes it; one that would fill an empty buffer goes
  straight through.
\<close>

type_synonym bufw = "string \<times> conn"

definition bw_write :: "string \<Rightarrow> bufw \<Rightarrow> bool \<times> bufw" where
  "bw_write p w =
     (let (buf, c) = w in
      if length buf + length p \<le> 4096 then (True, (buf @ p, c))
      else if buf = [] then (let (c, ok) = conn_write c p in (ok, ([], c)))
      else let n = 4096 - length buf; (c, ok) = conn_write c (buf @ take n p); p = drop n p in
           if \<not> ok then (False, ([], c))
           else if length p \<le> 4096 then (True, (p, c))
           else (let (c, ok) = conn_write c p in (ok, ([], c))))"

definition bw_flush :: "bufw \<Rightarrow> bool \<times> bufw" where
  "bw_flush w = (let (buf, c) = w; (c, ok) = conn_write c buf in (ok, ([], c)))"

section \<open>Streaming a message\<close>

text \<open>The lines that \<open>ReadBytes('\n')\<close> gives, the last one perhaps without a line feed.\<close>

fun lf_lines :: "string \<Rightarrow> string list" where
  "lf_lines [] = []"
| "lf_lines (c # s) =
     (if c = LF then [LF] # lf_lines s
      else case lf_lines s of [] \<Rightarrow> [[c]] | l # ls \<Rightarrow> (c # l) # ls)"

datatype stream_end = Broken | Stopped bool | Drained bool

text \<open>
  The loop of \<open>streamMessage\<close> over the lines: it ends when a write fails, when the limit of
  \<open>TOP\<close> is reached, or with the source. The flag is \<open>lastEndedWithLF\<close>.
\<close>

fun stream_lines :: "u64 option \<Rightarrow> bool \<Rightarrow> u64 \<Rightarrow> bool \<Rightarrow> string list \<Rightarrow> bufw \<Rightarrow> stream_end \<times> bufw" where
  "stream_lines limit inBody bodyLines lastLF [] w = (Drained lastLF, w)"
| "stream_lines limit inBody bodyLines lastLF (line # ls) w =
     (if (\<exists>n. limit = Some n \<and> inBody \<and> n \<le> bodyLines) then (Stopped lastLF, w)
      else let (ok, w) = (if hd line = CHR ''.'' then bw_write ''.'' w else (True, w)) in
           if \<not> ok then (Broken, w)
           else let (ok, w) = bw_write line w in
                if \<not> ok then (Broken, w)
                else stream_lines limit (inBody \<or> line = CRLF) (if inBody then bodyLines + 1 else bodyLines)
                       (last line = LF) ls w)"

text \<open>
  \<open>streamMessage\<close>; \<open>bytes\<close> is what reading the source gives and \<open>err\<close> the error after it,
  \<open>None\<close> standing for the end of the file.
\<close>

definition streamMessage :: "string \<Rightarrow> u64 option \<Rightarrow> string \<Rightarrow> goerr option \<Rightarrow> conn \<Rightarrow> bool \<times> conn" where
  "streamMessage greeting limit bytes err c =
     (let (ok, w) = bw_write (greeting @ CRLF) ([], c) in
      if \<not> ok then (False, snd w)
      else let (ended, w) = stream_lines limit False 0 True (lf_lines bytes) w in
           case (case ended of
                   Broken \<Rightarrow> None
                 | Stopped lf \<Rightarrow> Some lf
                 | Drained lf \<Rightarrow> if err = None then Some lf else None) of
             None \<Rightarrow> (False, snd w)
           | Some lf \<Rightarrow>
               (let (ok, w) = (if lf then (True, w) else bw_write CRLF w) in
                if \<not> ok then (False, snd w)
                else let (ok, w) = bw_write (''.'' @ CRLF) w in
                     if \<not> ok then (False, snd w)
                     else let (ok, w) = bw_flush w in (ok, snd w)))"

section \<open>What is written\<close>

text \<open>To a peer that takes every byte, no write fails and nothing is lost.\<close>

definition bw_bytes :: "bufw \<Rightarrow> string" where
  "bw_bytes w = cn_out (snd w) @ fst w"

definition bw_open :: "bufw \<Rightarrow> bool" where
  "bw_open w \<longleftrightarrow> cn_room (snd w) = None"

text \<open>Writing leaves the reading side alone.\<close>

definition same_reader :: "conn \<Rightarrow> conn \<Rightarrow> bool" where
  "same_reader c d \<longleftrightarrow> d = c\<lparr>cn_out := cn_out d, cn_room := cn_room d\<rparr>"

lemma same_reader_refl [simp]: "same_reader c c"
  by (simp add: same_reader_def)

lemma same_reader_trans: "same_reader c d \<Longrightarrow> same_reader d e \<Longrightarrow> same_reader c e"
  by (cases c; cases d; cases e) (simp add: same_reader_def)

lemma same_readerD:
  "same_reader c d \<Longrightarrow> cn_buf d = cn_buf c \<and> cn_reads d = cn_reads c \<and> cn_end d = cn_end c \<and> cn_stream d = cn_stream c"
  by (cases c; cases d) (simp add: same_reader_def cn_stream_def)

lemma conn_write_same_reader [simp]: "same_reader c (fst (conn_write c s))"
  by (simp add: conn_write_def same_reader_def split: option.split)

lemma bw_write_reader:
  assumes "bw_write p w = (ok, w')"
  shows "same_reader (snd w) (snd w')"
proof -
  obtain buf c where w: "w = (buf, c)" by (cases w)
  have r: "conn_write c s = (c', b) \<Longrightarrow> same_reader c c'" for c s c' b
    using conn_write_same_reader [of c s] by simp
  show ?thesis
    using assms r same_reader_trans
    by (auto simp: w bw_write_def Let_def split: prod.splits if_splits) (blast intro: r same_reader_trans)+
qed

lemma bw_write_open:
  assumes "bw_open w" "bw_write p w = (ok, w')"
  shows "ok \<and> bw_open w' \<and> bw_bytes w' = bw_bytes w @ p"
proof -
  obtain buf c where w: "w = (buf, c)" by (cases w)
  have "cn_room c = None" using assms(1) by (simp add: w bw_open_def)
  then show ?thesis
    using assms(2) by (auto simp: w bw_write_def bw_open_def bw_bytes_def Let_def split: if_splits)
qed

lemma bw_flush_open:
  assumes "bw_open w" "bw_flush w = (ok, w')"
  shows "ok \<and> bw_open w' \<and> cn_out (snd w') = bw_bytes w \<and> same_reader (snd w) (snd w')"
proof -
  obtain buf c where w: "w = (buf, c)" by (cases w)
  have "cn_room c = None" using assms(1) by (simp add: w bw_open_def)
  then show ?thesis
    using assms(2) by (auto simp: w bw_flush_def bw_open_def bw_bytes_def same_reader_def)
qed

section \<open>Lines\<close>

lemma concat_lf_lines [simp]: "concat (lf_lines s) = s"
  by (induction s) (auto split: list.split)

lemma lf_lines_not_Nil: "l \<in> set (lf_lines s) \<Longrightarrow> l \<noteq> []"
  by (induction s arbitrary: l) (auto split: if_splits list.splits)

lemma lf_lines_line: "LF \<notin> set l \<Longrightarrow> lf_lines (l @ LF # s) = (l @ [LF]) # lf_lines s"
  by (induction l) auto

lemma lf_lines_last: "LF \<notin> set l \<Longrightarrow> l \<noteq> [] \<Longrightarrow> lf_lines l = [l]"
proof (induction l)
  case (Cons a l)
  then show ?case by (cases l) (auto split: list.split)
qed simp

definition full_line :: "string \<Rightarrow> bool" where
  "full_line l \<longleftrightarrow> (\<exists>m. l = m @ [LF] \<and> LF \<notin> set m)"

lemma lf_lines_concat: "\<forall>l \<in> set ls. full_line l \<Longrightarrow> lf_lines (concat ls @ t) = ls @ lf_lines t"
proof (induction ls)
  case (Cons l ls)
  then obtain m where "l = m @ [LF]" "LF \<notin> set m" by (auto simp: full_line_def)
  with Cons lf_lines_line [of m "concat ls @ t"] show ?case by simp
qed simp

text \<open>Every line but the last is full, and the last one is when it ends in a line feed.\<close>

lemma lf_lines_full:
  "lf_lines s = ls @ [l] \<Longrightarrow> (\<forall>x \<in> set ls. full_line x) \<and> (full_line l \<or> (LF \<notin> set l \<and> l \<noteq> []))"
proof (induction "length s" arbitrary: s ls rule: less_induct)
  case less
  show ?case
  proof (cases "LF \<in> set s")
    case False
    then have "s \<noteq> []" using less.prems by auto
    with False lf_lines_last [of s] less.prems show ?thesis by (cases ls) auto
  next
    case True
    then obtain a b where s: "s = a @ LF # b" "LF \<notin> set a" by (meson split_list_first)
    have ls: "lf_lines s = (a @ [LF]) # lf_lines b" using lf_lines_line [OF s(2)] s(1) by simp
    have f: "full_line (a @ [LF])" using s(2) by (auto simp: full_line_def)
    show ?thesis
    proof (cases ls)
      case Nil
      with less.prems ls f show ?thesis by simp
    next
      case (Cons x xs)
      with less.prems ls have "lf_lines b = xs @ [l]" "x = a @ [LF]" by simp_all
      with less.hyps [of b xs] s(1) f Cons show ?thesis by auto
    qed
  qed
qed

section \<open>What a client reads\<close>

text \<open>
  A client reads lines until the line that is a single dot, and takes away the first dot of a
  line that starts with one.
\<close>

fun unstuffed :: "string list \<Rightarrow> (string list \<times> string list) option" where
  "unstuffed [] = None"
| "unstuffed (l # ls) =
     (if l = ''.'' @ CRLF then Some ([], ls)
      else map_option (\<lambda>(a, rest). ((if hd l = CHR ''.'' then tl l else l) # a, rest)) (unstuffed ls))"

definition client_text :: "string \<Rightarrow> (string \<times> string) option" where
  "client_text s = map_option (\<lambda>(a, rest). (concat a, concat rest)) (unstuffed (lf_lines s))"

definition stuff_line :: "string \<Rightarrow> string" where
  "stuff_line l = (if hd l = CHR ''.'' then CHR ''.'' # l else l)"

text \<open>The lines that the limit lets through: the header, the empty line, and as many more.\<close>

definition shown_lines :: "u64 option \<Rightarrow> string list \<Rightarrow> string list" where
  "shown_lines limit ls =
     (case limit of
        None \<Rightarrow> ls
      | Some n \<Rightarrow>
          takeWhile (\<lambda>l. l \<noteq> CRLF) ls @
          (case dropWhile (\<lambda>l. l \<noteq> CRLF) ls of [] \<Rightarrow> [] | blank # body \<Rightarrow> blank # take (unat n) body))"

lemma unstuffed_stuffed:
  assumes "\<forall>l \<in> set ls. l \<noteq> []"
  shows "unstuffed (map stuff_line ls @ (''.'' @ CRLF) # rest) = Some (ls, rest)"
  using assms
proof (induction ls)
  case (Cons l ls)
  have "stuff_line l \<noteq> ''.'' @ CRLF" using Cons.prems by (cases l) (auto simp: stuff_line_def)
  moreover have "(if hd (stuff_line l) = CHR ''.'' then tl (stuff_line l) else stuff_line l) = l"
    by (auto simp: stuff_line_def)
  ultimately show ?case using Cons by simp
qed simp

lemma full_stuff_line: "full_line l \<Longrightarrow> full_line (stuff_line l)"
  unfolding full_line_def stuff_line_def by (auto intro: exI [of _ "CHR ''.'' # _"])

text \<open>The text that a reply carries: what the lines hold, completed to a whole last line.\<close>

definition whole_text :: "string \<Rightarrow> string" where
  "whole_text s = (if s = [] \<or> last s = LF then s else s @ CRLF)"

lemma client_reads:
  assumes "ls = [] \<or> (\<forall>x \<in> set (butlast ls). full_line x) \<and> (full_line (last ls) \<or> LF \<notin> set (last ls) \<and> last ls \<noteq> [])"
  shows "client_text (concat (map stuff_line ls) @
      (if ls = [] \<or> last (last ls) = LF then [] else CRLF) @ ''.'' @ CRLF @ rest) = Some (whole_text (concat ls), rest)"
proof -
  have dot: "full_line (''.'' @ CRLF)" by (auto simp: full_line_def)
  have nonempty: "full_line l \<Longrightarrow> l \<noteq> []" for l by (auto simp: full_line_def)
  have go: "client_text (concat (map stuff_line ks) @ ''.'' @ CRLF @ rest) = Some (concat ks, rest)"
    if ks: "\<forall>l \<in> set ks. full_line l" for ks
  proof -
    have "\<forall>l \<in> set (map stuff_line ks @ [''.'' @ CRLF]). full_line l" using ks full_stuff_line dot by auto
    from lf_lines_concat [OF this, of rest]
    have "lf_lines (concat (map stuff_line ks) @ ''.'' @ CRLF @ rest) = map stuff_line ks @ (''.'' @ CRLF) # lf_lines rest"
      by simp
    moreover have "\<forall>l \<in> set ks. l \<noteq> []" using ks nonempty by blast
    ultimately show ?thesis using unstuffed_stuffed [of ks "lf_lines rest"] by (simp add: client_text_def)
  qed
  show ?thesis
  proof (cases "ls = [] \<or> last (last ls) = LF")
    case True
    have full: "\<forall>l \<in> set ls. full_line l"
    proof (cases "ls = []")
      case False
      then have "full_line (last ls)" using assms True last_in_set [of "last ls"] by fastforce
      moreover have "set ls = insert (last ls) (set (butlast ls))"
        using False by (metis append_butlast_last_id list.set(2) list.simps(15) rotate1.simps(2) set_rotate1)
      ultimately show ?thesis using assms False by auto
    qed simp
    have "whole_text (concat ls) = concat ls"
    proof (cases "ls = []")
      case False
      then have "concat ls = concat (butlast ls) @ last ls" by (metis append_butlast_last_id concat_append concat.simps(1,2) append_Nil2)
      moreover have "last ls \<noteq> []" using full False nonempty by auto
      ultimately show ?thesis using True False by (simp add: whole_text_def)
    qed (simp add: whole_text_def)
    with go [OF full] True show ?thesis by simp
  next
    case False
    then have ne: "ls \<noteq> []" "last (last ls) \<noteq> LF" by simp_all
    let ?b = "butlast ls" and ?l = "last ls"
    have split: "ls = ?b @ [?l]" using ne(1) by simp
    have l: "LF \<notin> set ?l" "?l \<noteq> []" using assms ne by (auto simp: full_line_def)
    let ?ks = "?b @ [?l @ CRLF]"
    have "full_line (?l @ CRLF)" using l(1) by (auto simp: full_line_def)
    then have full: "\<forall>l \<in> set ?ks. full_line l" using assms ne(1) by auto
    have "stuff_line (?l @ CRLF) = stuff_line ?l @ CRLF" using l(2) by (simp add: stuff_line_def)
    moreover have "map stuff_line ls = map stuff_line ?b @ [stuff_line ?l]"
      by (subst split) simp
    ultimately have "concat (map stuff_line ?ks) = concat (map stuff_line ls) @ CRLF" by simp
    moreover have cl: "concat ls = concat ?b @ ?l" by (subst split) simp
    moreover have "whole_text (concat ls) = concat ?ks"
      using l(2) ne(2) by (simp add: whole_text_def cl)
    ultimately show ?thesis using go [OF full] ne by simp
  qed
qed

section \<open>The whole reply\<close>

lemma stream_lines_open:
  assumes "bw_open w" "\<forall>l \<in> set ls. l \<noteq> []" "\<not> inBody \<longrightarrow> k = 0"
    and "stream_lines limit inBody k lastLF ls w = (ended, w')"
  defines "shown \<equiv> (if inBody then (case limit of None \<Rightarrow> ls | Some n \<Rightarrow> take (unat n - unat k) ls) else shown_lines limit ls)"
  shows "bw_open w' \<and> same_reader (snd w) (snd w') \<and> bw_bytes w' = bw_bytes w @ concat (map stuff_line shown) \<and>
    (\<exists>lf. (ended = Drained lf \<or> ended = Stopped lf \<and> length shown < length ls) \<and>
       lf = (if shown = [] then lastLF else last (last shown) = LF))"
  using assms(1-4) unfolding shown_def
proof (induction ls arbitrary: inBody k lastLF w)
  case Nil
  then show ?case by (auto simp: shown_lines_def split: option.splits)
next
  case (Cons l ls)
  show ?case
  proof (cases "\<exists>n. limit = Some n \<and> inBody \<and> n \<le> k")
    case True
    then have "unat n - unat k = 0" if "limit = Some n" for n using that by (auto simp: u64_le)
    with Cons.prems True show ?thesis by auto
  next
    case False
    obtain ok1 w1 where x1: "(if hd l = CHR ''.'' then bw_write ''.'' w else (True, w)) = (ok1, w1)" by (meson surj_pair)
    have "ok1 \<and> bw_open w1 \<and> same_reader (snd w) (snd w1) \<and>
        bw_bytes w1 = bw_bytes w @ (if hd l = CHR ''.'' then ''.'' else [])"
    proof (cases "hd l = CHR ''.''")
      case True
      with x1 have "bw_write ''.'' w = (ok1, w1)" by (simp only: if_True simp_thms)
      with bw_write_open [OF Cons.prems(1) this] bw_write_reader [OF this] True show ?thesis by (simp only: if_True simp_thms)
    next
      case False
      with x1 Cons.prems(1) show ?thesis by auto
    qed
    then have r1: "ok1" "bw_open w1" "same_reader (snd w) (snd w1)"
        "bw_bytes w1 = bw_bytes w @ (if hd l = CHR ''.'' then ''.'' else [])" by blast+
    obtain ok2 w2 where x2: "bw_write l w1 = (ok2, w2)" by (meson surj_pair)
    note r2 = bw_write_open [OF r1(2) x2] bw_write_reader [OF x2]
    let ?in = "inBody \<or> l = CRLF" and ?k = "if inBody then k + 1 else k"
    have "stream_lines limit ?in ?k (last l = LF) ls w2 = (ended, w')"
      using Cons.prems(4) False x1 x2 r1(1) r2(1) by (simp add: Let_def)
    note run = this
    define more where "more = (if ?in then (case limit of None \<Rightarrow> ls | Some n \<Rightarrow> take (unat n - unat ?k) ls) else shown_lines limit ls)"
    have "bw_open w2" "\<forall>l \<in> set ls. l \<noteq> []" "\<not> ?in \<longrightarrow> ?k = 0" using r2 Cons.prems(2,3) by auto
    note IH = Cons.IH [OF this run, folded more_def]
    have shown: "(if inBody then (case limit of None \<Rightarrow> l # ls | Some n \<Rightarrow> take (unat n - unat k) (l # ls)) else shown_lines limit (l # ls)) =
        l # more"
    proof (cases limit)
      case (Some n)
      show ?thesis
      proof (cases inBody)
        case True
        then have lt: "unat k < unat n" using False Some by (auto simp: u64_le)
        have "k \<noteq> - 1"
        proof
          assume "k = - 1"
          then have "unat k = 18446744073709551615" by simp
          with lt unat_le_64 [of n] show False by linarith
        qed
        then have "unat (k + 1) = Suc (unat k)" by (rule unat_suc_u64)
        moreover have "unat n - unat k = Suc (unat n - Suc (unat k))" using lt by simp
        ultimately show ?thesis using True Some by (simp add: more_def)
      next
        case outside: False
        then have k0: "k = 0" using Cons.prems(3) by simp
        show ?thesis
        proof (cases "l = CRLF")
          case True
          with outside Some k0 show ?thesis by (simp add: shown_lines_def more_def)
        next
          case False
          with outside Some show ?thesis by (simp add: shown_lines_def more_def)
        qed
      qed
    qed (simp add: shown_lines_def more_def)
    have bytes: "bw_bytes w2 = bw_bytes w @ stuff_line l"
      using r1(4) r2(1) by (simp add: stuff_line_def)
    show ?thesis
      unfolding shown
    proof (intro conjI)
      show "bw_open w'" using IH by blast
      show "same_reader (snd w) (snd w')" using IH r1(3) r2 same_reader_trans by blast
      show "bw_bytes w' = bw_bytes w @ concat (map stuff_line (l # more))" using IH bytes by simp
      show "\<exists>lf. (ended = Drained lf \<or> ended = Stopped lf \<and> length (l # more) < length (l # ls)) \<and>
          lf = (if l # more = [] then lastLF else last (last (l # more)) = LF)" using IH by auto
    qed
  qed
qed

lemma shown_lines_prefix: "\<exists>rest. ls = shown_lines limit ls @ rest"
proof (cases limit)
  case (Some n)
  show ?thesis
  proof (cases "dropWhile (\<lambda>l. l \<noteq> CRLF) ls")
    case Nil
    then have "takeWhile (\<lambda>l. l \<noteq> CRLF) ls = ls"
      using takeWhile_dropWhile_id [of "\<lambda>l. l \<noteq> CRLF" ls] by simp
    with Nil Some have "ls = shown_lines limit ls @ []" by (simp only: shown_lines_def option.case list.case append_Nil2)
    then show ?thesis ..
  next
    case (Cons blank body)
    with takeWhile_dropWhile_id [of "\<lambda>l. l \<noteq> CRLF" ls]
    have "ls = shown_lines limit ls @ drop (unat n) body" by (simp add: Some shown_lines_def)
    then show ?thesis ..
  qed
qed (simp add: shown_lines_def)

text \<open>What \<open>TOP\<close> and \<open>RETR\<close> show of a text.\<close>

definition shown_text :: "u64 option \<Rightarrow> string \<Rightarrow> string" where
  "shown_text limit s = concat (shown_lines limit (lf_lines s))"

lemma shown_text_all [simp]: "shown_text None s = s"
  by (simp add: shown_text_def shown_lines_def)

lemma streamMessage_open:
  assumes "cn_room c = None" "streamMessage greeting limit bytes err c = (ok, c')"
  shows "same_reader c c' \<and> cn_room c' = None \<and>
    (err = None \<longrightarrow> ok) \<and>
    (ok \<and> err \<noteq> None \<longrightarrow> length (shown_lines limit (lf_lines bytes)) < length (lf_lines bytes)) \<and>
    (ok \<longrightarrow> (\<exists>reply. cn_out c' = cn_out c @ greeting @ CRLF @ reply \<and>
        (\<forall>rest. client_text (reply @ rest) = Some (whole_text (shown_text limit bytes), rest))))"
proof -
  obtain ok1 w1 where x1: "bw_write (greeting @ CRLF) ([], c) = (ok1, w1)" by (meson surj_pair)
  have "bw_open ([], c)" using assms(1) by (simp add: bw_open_def)
  note r1 = bw_write_open [OF this x1] bw_write_reader [OF x1]
  obtain ended w2 where x2: "stream_lines limit False 0 True (lf_lines bytes) w1 = (ended, w2)" by (meson surj_pair)
  let ?ls = "shown_lines limit (lf_lines bytes)"
  have "bw_open w1" "\<forall>l \<in> set (lf_lines bytes). l \<noteq> []" using r1 lf_lines_not_Nil by blast+
  from stream_lines_open [OF this _ x2] obtain lf where r2: "bw_open w2" "same_reader (snd w1) (snd w2)"
      "bw_bytes w2 = bw_bytes w1 @ concat (map stuff_line ?ls)" "ended = Drained lf \<or> ended = Stopped lf \<and> length ?ls < length (lf_lines bytes)"
      "lf = (?ls = [] \<or> last (last ?ls) = LF)" by auto
  note def = assms(2) [unfolded streamMessage_def x1 prod.case Let_def x2]
  show ?thesis
  proof (cases "ended = Drained lf \<and> err \<noteq> None")
    case True
    then have "ok = False" "c' = snd w2" using def r1 by auto
    with True r1 r2 same_reader_trans [of c "snd w1" "snd w2"] show ?thesis by (auto simp: bw_open_def)
  next
    case False
    obtain ok3 w3 where x3: "(if lf then (True, w2) else bw_write CRLF w2) = (ok3, w3)" by (meson surj_pair)
    have r3: "ok3 \<and> bw_open w3 \<and> same_reader (snd w2) (snd w3) \<and> bw_bytes w3 = bw_bytes w2 @ (if lf then [] else CRLF)"
    proof (cases lf)
      case True
      with x3 r2(1) show ?thesis by auto
    next
      case False
      with x3 have "bw_write CRLF w2 = (ok3, w3)" by simp
      from bw_write_open [OF r2(1) this] bw_write_reader [OF this] False show ?thesis by simp
    qed
    obtain ok4 w4 where x4: "bw_write (''.'' @ CRLF) w3 = (ok4, w4)" by (meson surj_pair)
    from r3 have "bw_open w3" by blast
    note r4 = bw_write_open [OF this x4] bw_write_reader [OF x4]
    obtain ok5 w5 where x5: "bw_flush w4 = (ok5, w5)" by (meson surj_pair)
    from r4 have "bw_open w4" by blast
    note r5 = bw_flush_open [OF this x5]
    have oks: "ok1" "ok3" "ok4" "ok5" using r1 r3 r4 r5 by blast+
    have sel: "(case ended of Broken \<Rightarrow> None | Stopped lf \<Rightarrow> Some lf | Drained lf \<Rightarrow> if err = None then Some lf else None) = Some lf"
      using r2(4) False by auto
    have out: "ok" "c' = snd w5"
      using def oks unfolding sel option.case x3 x4 x5 prod.case by simp_all
    let ?reply = "concat (map stuff_line ?ls) @ (if lf then [] else CRLF) @ ''.'' @ CRLF"
    have "cn_out c' = cn_out c @ greeting @ CRLF @ ?reply"
      using r1 r2(3) r3 r4 r5 by (auto simp: out(2) bw_bytes_def)
    moreover have "client_text (?reply @ rest) = Some (whole_text (shown_text limit bytes), rest)" for rest
    proof -
      from shown_lines_prefix obtain more where p: "lf_lines bytes = ?ls @ more" by blast
      have "?ls = [] \<or> (\<forall>x \<in> set (butlast ?ls). full_line x) \<and> (full_line (last ?ls) \<or> LF \<notin> set (last ?ls) \<and> last ?ls \<noteq> [])"
      proof (cases "?ls = []")
        case False
        then have q: "lf_lines bytes = (butlast ?ls @ [last ?ls]) @ more" using p by simp
        show ?thesis
        proof (cases "more = []")
          case True
          with q lf_lines_full [of bytes "butlast ?ls" "last ?ls"] show ?thesis by simp
        next
          case False
          then have "lf_lines bytes = (butlast ?ls @ last ?ls # butlast more) @ [last more]" using q by simp
          from lf_lines_full [OF this] show ?thesis by simp
        qed
      qed simp
      from client_reads [OF this, of rest] r2(5) show ?thesis by (auto simp: shown_text_def)
    qed
    moreover have "same_reader c c'"
    proof -
      have "same_reader c (snd w2)" using r1 r2(2) same_reader_trans [of c "snd w1"] by simp
      then have "same_reader c (snd w3)" using r3 same_reader_trans by blast
      then have "same_reader c (snd w4)" using r4 same_reader_trans by blast
      then show ?thesis using r5 same_reader_trans unfolding out(2) by blast
    qed
    moreover have "cn_room c' = None" using r5 by (simp add: out(2) bw_open_def)
    moreover have "err \<noteq> None \<longrightarrow> length ?ls < length (lf_lines bytes)" using False r2(4) by auto
    ultimately show ?thesis using out(1) by blast
  qed
qed

text \<open>A limit that is reached in a part of a text is reached at the same place in the whole.\<close>

lemma lf_lines_append:
  assumes "s \<noteq> []"
  shows "lf_lines (s @ t) = butlast (lf_lines s) @ lf_lines (last (lf_lines s) @ t)"
proof -
  have ne: "lf_lines s \<noteq> []" using assms concat_lf_lines [of s] by (metis concat.simps(1))
  then have ls: "lf_lines s = butlast (lf_lines s) @ [last (lf_lines s)]" by simp
  have "s = concat (butlast (lf_lines s)) @ last (lf_lines s)"
    using arg_cong [OF ls, of concat] by simp
  then have "lf_lines (s @ t) = lf_lines (concat (butlast (lf_lines s)) @ last (lf_lines s) @ t)" by (metis append.assoc)
  also have "\<dots> = butlast (lf_lines s) @ lf_lines (last (lf_lines s) @ t)"
    by (rule lf_lines_concat) (use lf_lines_full [OF ls] in blast)
  finally show ?thesis .
qed

lemma shown_lines_more:
  assumes "length (shown_lines limit ls) < length ls" "xs = butlast ls @ ys"
  shows "shown_lines limit xs = shown_lines limit ls"
proof -
  obtain n where n: "limit = Some n" using assms(1) by (cases limit) (simp_all add: shown_lines_def)
  let ?P = "\<lambda>l. l \<noteq> CRLF"
  have split: "takeWhile ?P ls @ dropWhile ?P ls = ls" by (rule takeWhile_dropWhile_id)
  obtain blank body where d: "dropWhile ?P ls = blank # body"
  proof (cases "dropWhile ?P ls")
    case Nil
    with split have "takeWhile ?P ls = ls" by (simp only: append_Nil2)
    then have "shown_lines limit ls = ls" unfolding shown_lines_def n option.case Nil list.case append_Nil2 .
    with assms(1) show thesis by simp
  qed
  then have b: "blank = CRLF" using hd_dropWhile [of ?P ls] by simp
  have "length (takeWhile ?P ls @ blank # take (unat n) body) < length (takeWhile ?P ls @ blank # body)"
    using assms(1) split by (simp add: shown_lines_def n d)
  then have k: "unat n < length body" by auto
  then have "butlast ls = takeWhile ?P ls @ blank # butlast body"
    using arg_cong [OF split, of butlast] by (cases "body = []") (auto simp: d butlast_append)
  then have xs: "xs = takeWhile ?P ls @ blank # butlast body @ ys" using assms(2) by simp
  have all: "x \<in> set (takeWhile ?P ls) \<Longrightarrow> ?P x" for x by (rule conjunct2 [OF set_takeWhileD])
  have t: "takeWhile ?P xs = takeWhile ?P ls" "dropWhile ?P xs = blank # butlast body @ ys"
    unfolding xs using takeWhile_append2 [of "takeWhile ?P ls" ?P] dropWhile_append2 [of "takeWhile ?P ls" ?P] all b
    by simp_all
  have "take (unat n) (butlast body @ ys) = take (unat n) body" using k by (simp add: take_butlast)
  then show ?thesis by (simp add: shown_lines_def n t d)
qed

lemma shown_text_append:
  assumes "length (shown_lines limit (lf_lines s)) < length (lf_lines s)"
  shows "shown_text limit (s @ t) = shown_text limit s"
proof -
  have "s \<noteq> []" using assms by auto
  from shown_lines_more [OF assms lf_lines_append [OF this, of t]] show ?thesis by (simp add: shown_text_def)
qed

end
