(* ===== verification/Pop3_Session.thy ===== *)
theory Pop3_Session
  imports Pop3_Stream Mailbox_Ops
begin

text \<open>
  The POP3 server of \<open>internal/pop3\<close>: credentials, one session's state, a handler for every
  command of \<open>serveConn\<close>, the loop step, and what is logged. The mailbox is an interface: a
  record of operations on a store state, with the contract of the locale \<open>maildrop_laws\<close>.
\<close>

section \<open>Credentials\<close>

record credentials =
  cr_configured :: bool
  cr_usernameHash :: string
  cr_passwordHash :: string

definition no_credentials :: credentials where
  "no_credentials = \<lparr>cr_configured = False, cr_usernameHash = replicate 32 CHR 0x00, cr_passwordHash = replicate 32 CHR 0x00\<rparr>"

text \<open>\<open>hex.DecodeString\<close>.\<close>

definition hex_val :: "char \<Rightarrow> nat option" where
  "hex_val c = Option.bind (digit_val c) (\<lambda>d. if d < 16 then Some d else None)"

fun hex_decode :: "string \<Rightarrow> string option" where
  "hex_decode [] = Some []"
| "hex_decode [c] = None"
| "hex_decode (c # d # s) =
     (case (hex_val c, hex_val d, hex_decode s) of
        (Some h, Some l, Some r) \<Rightarrow> Some (char_of (16 * h + l) # r)
      | _ \<Rightarrow> None)"

text \<open>\<open>sum256\<close> is \<open>sha256.Sum256\<close>; nothing below depends on more than that it is a function.\<close>

definition NewCredentials :: "(string \<Rightarrow> string) \<Rightarrow> string \<Rightarrow> string \<Rightarrow> credentials res" where
  "NewCredentials sum256 username passwordSHA256 =
     (let username = trim_space username; passwordSHA256 = trim_space passwordSHA256 in
      if username = [] \<or> passwordSHA256 = [] then Inr no_credentials
      else case hex_decode passwordSHA256 of
             Some digest \<Rightarrow>
               if length digest = 32
               then Inr \<lparr>cr_configured = True, cr_usernameHash = sum256 username, cr_passwordHash = digest\<rparr>
               else Inl (ErrMsg ''POP3 password SHA-256 must be 64 hexadecimal characters'')
           | None \<Rightarrow> Inl (ErrMsg ''POP3 password SHA-256 must be 64 hexadecimal characters''))"

definition authenticate :: "(string \<Rightarrow> string) \<Rightarrow> credentials \<Rightarrow> string \<Rightarrow> string \<Rightarrow> bool" where
  "authenticate sum256 c username password \<longleftrightarrow>
     sum256 username = cr_usernameHash c \<and> sum256 password = cr_passwordHash c \<and> cr_configured c"

section \<open>The server\<close>

record pop3_server =
  ps_hostname :: string
  ps_credentials :: credentials
  ps_maxAuthFailures :: int
  ps_maxConnections :: int
  ps_idleTimeout :: int

record pop3_options =
  po_Hostname :: string
  po_HasMailbox :: bool
  po_Credentials :: credentials
  po_IdleTimeout :: int
  po_MaxAuthFailures :: int
  po_MaxConnections :: int

definition minimumIdleTimeout :: int where "minimumIdleTimeout = 10 * 60 * 1000000000"
definition maxCommandBytes :: nat where "maxCommandBytes = 255"

definition NewServer :: "pop3_options \<Rightarrow> pop3_server res" where
  "NewServer options =
     (let idle = (if po_IdleTimeout options = 0 then minimumIdleTimeout else po_IdleTimeout options) in
      if trim_space (po_Hostname options) = [] then Inl (ErrMsg ''POP3 hostname is required'')
      else if \<not> po_HasMailbox options then Inl (ErrMsg ''POP3 mailbox is required'')
      else if idle < minimumIdleTimeout then Inl (ErrMsg ''POP3 idle timeout is too short'')
      else Inr \<lparr>ps_hostname = trim_space (po_Hostname options), ps_credentials = po_Credentials options,
             ps_maxAuthFailures = (if po_MaxAuthFailures options \<le> 0 then 3 else po_MaxAuthFailures options),
             ps_maxConnections = (if po_MaxConnections options \<le> 0 then 16 else po_MaxConnections options),
             ps_idleTimeout = idle\<rparr>)"

section \<open>The mailbox interface\<close>

text \<open>
  A reader that \<open>OpenMessage\<close> returns is what reading it to its end gives, the bytes and the
  error after them, if any; the session closes it before it touches the mailbox again, so that
  the store after the operation is the one after \<open>Close\<close>. The callback of \<open>ListAt\<close> works on the
  buffered writer.
\<close>

record 's maildrop =
  md_Snapshot :: "'s \<Rightarrow> snapshot"
  md_ListAt :: "snapshot \<Rightarrow> (u64 \<Rightarrow> u64 \<Rightarrow> u64 \<Rightarrow> bufw \<Rightarrow> goerr option \<times> bufw) \<Rightarrow> bufw \<Rightarrow> 's \<Rightarrow> goerr option \<times> bufw \<times> 's"
  md_Lookup :: "snapshot \<Rightarrow> u64 \<Rightarrow> 's \<Rightarrow> message res \<times> 's"
  md_OpenMessage :: "snapshot \<Rightarrow> message \<Rightarrow> 's \<Rightarrow> (string \<times> goerr option) res \<times> 's"
  md_DeleteAs :: "u64 list \<Rightarrow> string \<Rightarrow> 's \<Rightarrow> goerr option \<times> 's"

section \<open>A session\<close>

datatype pop3_log =
    LogCommand string "string option"
  | LogAuthFailed
  | LogAuthSucceeded string
  | LogDeletionFailed goerr

record pop3_session =
  pn_conn :: conn
  pn_username :: string
  pn_authenticated :: bool
  pn_snapshot :: snapshot
  pn_deleted :: "(u64 \<times> u64) list"
  pn_deletedOctets :: u64
  pn_authFailures :: nat
  pn_log :: "pop3_log list"

datatype pop3_outcome = Open pop3_session | Ended pop3_session

definition empty_snapshot :: snapshot where
  "empty_snapshot = \<lparr>sn_LastID = 0, sn_TotalOctets = 0, sn_MessageCount = 0, sn_index = None, sn_commit = []\<rparr>"

definition pop3_reply :: "pop3_session \<Rightarrow> string \<Rightarrow> pop3_session \<times> bool" where
  "pop3_reply ss line = (let (c, ok) = conn_write (pn_conn ss) (line @ CRLF) in (ss\<lparr>pn_conn := c\<rparr>, ok))"

definition pop3_replyMulti :: "pop3_session \<Rightarrow> string list \<Rightarrow> pop3_session \<times> bool" where
  "pop3_replyMulti ss ls =
     (let (c, ok) = conn_write (pn_conn ss) (concat (map (\<lambda>l. l @ CRLF) ls) @ ''.'' @ CRLF) in (ss\<lparr>pn_conn := c\<rparr>, ok))"

text \<open>A reply whose failure the loop ignores, before the next command.\<close>

definition says :: "pop3_session \<Rightarrow> string \<Rightarrow> pop3_outcome" where
  "says ss line = Open (fst (pop3_reply ss line))"

definition add_log :: "pop3_log \<Rightarrow> pop3_session \<Rightarrow> pop3_session" where
  "add_log l ss = ss\<lparr>pn_log := pn_log ss @ [l]\<rparr>"

text \<open>\<open>deleted[number]\<close>: zero when the number is not marked.\<close>

definition marked :: "pop3_session \<Rightarrow> u64 \<Rightarrow> u64" where
  "marked ss number = (case map_of (pn_deleted ss) number of Some i \<Rightarrow> i | None \<Rightarrow> 0)"

definition readCommand :: "conn \<Rightarrow> string res \<times> conn" where
  "readCommand reader =
     (let (line, err, reader') = read_slice (maxCommandBytes + 1) reader in
      if (\<exists>e. err = Some e \<and> errors_is e ErrBufferFull) \<or> maxCommandBytes < length line
      then (Inl ErrCommandTooLong, reader')
      else case err of
             Some e \<Rightarrow> (Inl e, reader')
           | None \<Rightarrow> (Inr (trim_suffix (trim_suffix line [CHR 0x0A]) [CHR 0x0D]), reader'))"

definition loggedCommand :: "string \<Rightarrow> string" where
  "loggedCommand command =
     (if command \<in> {''CAPA'', ''USER'', ''PASS'', ''STAT'', ''LIST'', ''UIDL'', ''RETR'', ''TOP'', ''DELE'', ''RSET'',
        ''NOOP'', ''QUIT''}
      then command else ''UNKNOWN'')"

definition splitCommand :: "string \<Rightarrow> string \<times> string" where
  "splitCommand line =
     (let (command, argument, found) = cut line CHR '' '' in
      if \<not> found then (to_upper command, []) else (to_upper command, argument))"

definition messageID :: "string \<Rightarrow> u64 \<Rightarrow> u64 option" where
  "messageID argument lastID =
     (case parse_uint (trim_space argument) 10 64 of
        Some i \<Rightarrow> if 0 < i \<and> i \<le> lastID then Some i else None
      | None \<Rightarrow> None)"

definition uniqueID :: "u64 \<Rightarrow> string" where
  "uniqueID i = ''picomx-'' @ format_uint i 36"

definition topArguments :: "string \<Rightarrow> u64 \<Rightarrow> (u64 \<times> u64) option" where
  "topArguments argument lastID =
     (case Go_Strings.fields argument of
        [number, count] \<Rightarrow>
          (case messageID number lastID of
             None \<Rightarrow> None
           | Some i \<Rightarrow> map_option (Pair i) (parse_uint count 10 64))
      | _ \<Rightarrow> None)"

section \<open>Commands\<close>

definition pop3_capa :: "string \<Rightarrow> pop3_session \<Rightarrow> pop3_outcome" where
  "pop3_capa argument ss =
     (if argument \<noteq> [] then says ss ''-ERR invalid arguments''
      else Open (fst (pop3_replyMulti ss
             [''+OK Capability list follows'', ''USER'', ''UIDL'', ''TOP'', ''IMPLEMENTATION picomx''])))"

definition pop3_user :: "string \<Rightarrow> pop3_session \<Rightarrow> pop3_outcome" where
  "pop3_user argument ss =
     (if pn_authenticated ss \<or> trim_space argument = [] then says ss ''-ERR command not valid now''
      else says (ss\<lparr>pn_username := trim_space argument\<rparr>) ''+OK send PASS'')"

definition pop3_pass ::
  "(string \<Rightarrow> string) \<Rightarrow> pop3_server \<Rightarrow> 's maildrop \<Rightarrow> string \<Rightarrow> pop3_session \<Rightarrow> 's \<Rightarrow> pop3_outcome" where
  "pop3_pass sum256 sv md argument ss s =
     (if pn_authenticated ss \<or> pn_username ss = [] \<or> argument = [] then says ss ''-ERR command not valid now''
      else if \<not> authenticate sum256 (ps_credentials sv) (pn_username ss) argument then
        (let ss = add_log LogAuthFailed (ss\<lparr>pn_authFailures := Suc (pn_authFailures ss)\<rparr>);
             ss = fst (pop3_reply (ss\<lparr>pn_username := []\<rparr>) ''-ERR authentication failed'')
         in if ps_maxAuthFailures sv \<le> int (pn_authFailures ss) then Ended ss else Open ss)
      else let snap = md_Snapshot md s;
               ss = add_log (LogAuthSucceeded (pn_username ss)) (ss\<lparr>pn_authenticated := True, pn_snapshot := snap\<rparr>)
           in says ss (''+OK maildrop ready with '' @ format_uint (snapshot_Count snap) 10 @ '' messages''))"

definition pop3_stat :: "string \<Rightarrow> pop3_session \<Rightarrow> pop3_outcome" where
  "pop3_stat argument ss =
     (if \<not> pn_authenticated ss \<or> argument \<noteq> [] then says ss ''-ERR command not valid now''
      else says ss (''+OK '' @ format_uint (snapshot_Count (pn_snapshot ss) - of_nat (length (pn_deleted ss))) 10 @ '' '' @
             format_uint (sn_TotalOctets (pn_snapshot ss) - pn_deletedOctets ss) 10))"

text \<open>\<open>writeListing\<close> over \<open>ListAt\<close>: a row for every message that is not marked.\<close>

definition listing_row ::
  "pop3_session \<Rightarrow> (u64 \<Rightarrow> u64 \<Rightarrow> u64 \<Rightarrow> string) \<Rightarrow> u64 \<Rightarrow> u64 \<Rightarrow> u64 \<Rightarrow> bufw \<Rightarrow> goerr option \<times> bufw" where
  "listing_row ss row number i sz w =
     (if marked ss number \<noteq> 0 then (None, w)
      else let (ok, w) = bw_write (row number i sz @ CRLF) w in (if ok then None else Some OsErrClosed, w))"

definition writeListing ::
  "'s maildrop \<Rightarrow> (u64 \<Rightarrow> u64 \<Rightarrow> u64 \<Rightarrow> string) \<Rightarrow> pop3_session \<Rightarrow> 's \<Rightarrow> bool \<times> pop3_session \<times> 's" where
  "writeListing md row ss s =
     (let (ok, w) = bw_write (''+OK listing follows'' @ CRLF) ([], pn_conn ss) in
      if \<not> ok then (False, ss\<lparr>pn_conn := snd w\<rparr>, s)
      else let (err, w, s) = md_ListAt md (pn_snapshot ss) (listing_row ss row) w s in
           if err \<noteq> None then (False, ss\<lparr>pn_conn := snd w\<rparr>, s)
           else let (ok, w) = bw_write (''.'' @ CRLF) w in
                if \<not> ok then (False, ss\<lparr>pn_conn := snd w\<rparr>, s)
                else let (ok, w) = bw_flush w in (ok, ss\<lparr>pn_conn := snd w\<rparr>, s))"

text \<open>\<open>LIST\<close> and \<open>UIDL\<close>, which differ in what a row says of a message.\<close>

definition pop3_rows ::
  "'s maildrop \<Rightarrow> (u64 \<Rightarrow> u64 \<Rightarrow> u64 \<Rightarrow> string) \<Rightarrow> string \<Rightarrow> pop3_session \<Rightarrow> 's \<Rightarrow> pop3_outcome \<times> 's" where
  "pop3_rows md row argument ss s =
     (if \<not> pn_authenticated ss then (says ss ''-ERR authenticate first'', s)
      else if argument \<noteq> [] then
        (case messageID argument (snapshot_Count (pn_snapshot ss)) of
           None \<Rightarrow> (says ss ''-ERR no such message'', s)
         | Some i \<Rightarrow>
             if marked ss i \<noteq> 0 then (says ss ''-ERR no such message'', s)
             else case md_Lookup md (pn_snapshot ss) i s of
                    (Inl e, s) \<Rightarrow> (says ss ''-ERR unable to inspect message'', s)
                  | (Inr m, s) \<Rightarrow> (says ss (''+OK '' @ row i (MsgID m) (MsgSize m)), s))
      else let (ok, ss, s) = writeListing md row ss s in ((if ok then Open ss else Ended ss), s))"

definition list_row :: "u64 \<Rightarrow> u64 \<Rightarrow> u64 \<Rightarrow> string" where
  "list_row number i sz = format_uint number 10 @ '' '' @ format_uint sz 10"

definition uidl_row :: "u64 \<Rightarrow> u64 \<Rightarrow> u64 \<Rightarrow> string" where
  "uidl_row number i sz = format_uint number 10 @ '' '' @ uniqueID i"

text \<open>\<open>RETR\<close> and \<open>TOP\<close>.\<close>

definition stream_reply ::
  "string \<Rightarrow> u64 option \<Rightarrow> string \<times> goerr option \<Rightarrow> pop3_session \<Rightarrow> pop3_outcome" where
  "stream_reply greeting limit source ss =
     (let (ok, c) = streamMessage greeting limit (fst source) (snd source) (pn_conn ss); ss = ss\<lparr>pn_conn := c\<rparr>
      in if ok then Open ss else Ended ss)"

definition pop3_retr :: "'s maildrop \<Rightarrow> string \<Rightarrow> pop3_session \<Rightarrow> 's \<Rightarrow> pop3_outcome \<times> 's" where
  "pop3_retr md argument ss s =
     (if \<not> pn_authenticated ss then (says ss ''-ERR authenticate first'', s)
      else case messageID argument (snapshot_Count (pn_snapshot ss)) of
             None \<Rightarrow> (says ss ''-ERR no such message'', s)
           | Some i \<Rightarrow>
               if marked ss i \<noteq> 0 then (says ss ''-ERR no such message'', s)
               else case md_Lookup md (pn_snapshot ss) i s of
                      (Inl e, s) \<Rightarrow> (says ss ''-ERR unable to inspect message'', s)
                    | (Inr m, s) \<Rightarrow>
                        (case md_OpenMessage md (pn_snapshot ss) m s of
                           (Inl e, s) \<Rightarrow> (says ss ''-ERR unable to open message'', s)
                         | (Inr source, s) \<Rightarrow>
                             (stream_reply (''+OK '' @ format_uint (MsgSize m) 10 @ '' octets'') None source ss, s)))"

definition pop3_top :: "'s maildrop \<Rightarrow> string \<Rightarrow> pop3_session \<Rightarrow> 's \<Rightarrow> pop3_outcome \<times> 's" where
  "pop3_top md argument ss s =
     (if \<not> pn_authenticated ss then (says ss ''-ERR authenticate first'', s)
      else case topArguments argument (snapshot_Count (pn_snapshot ss)) of
             None \<Rightarrow> (says ss ''-ERR invalid arguments'', s)
           | Some (i, bodyLines) \<Rightarrow>
               if marked ss i \<noteq> 0 then (says ss ''-ERR invalid arguments'', s)
               else case md_Lookup md (pn_snapshot ss) i s of
                      (Inl e, s) \<Rightarrow> (says ss ''-ERR unable to open message'', s)
                    | (Inr m, s) \<Rightarrow>
                        (case md_OpenMessage md (pn_snapshot ss) m s of
                           (Inl e, s) \<Rightarrow> (says ss ''-ERR unable to open message'', s)
                         | (Inr source, s) \<Rightarrow>
                             (stream_reply ''+OK top of message follows'' (Some bodyLines) source ss, s)))"

definition pop3_dele :: "'s maildrop \<Rightarrow> string \<Rightarrow> pop3_session \<Rightarrow> 's \<Rightarrow> pop3_outcome \<times> 's" where
  "pop3_dele md argument ss s =
     (if \<not> pn_authenticated ss then (says ss ''-ERR authenticate first'', s)
      else case messageID argument (snapshot_Count (pn_snapshot ss)) of
             None \<Rightarrow> (says ss ''-ERR no such message'', s)
           | Some i \<Rightarrow>
               if marked ss i \<noteq> 0 then (says ss ''-ERR no such message'', s)
               else case md_Lookup md (pn_snapshot ss) i s of
                      (Inl e, s) \<Rightarrow> (says ss ''-ERR unable to inspect message'', s)
                    | (Inr m, s) \<Rightarrow>
                        (says (ss\<lparr>pn_deleted := AList.update i (MsgID m) (pn_deleted ss),
                                 pn_deletedOctets := pn_deletedOctets ss + MsgSize m\<rparr>)
                           ''+OK message marked for deletion'', s))"

definition pop3_rset :: "string \<Rightarrow> pop3_session \<Rightarrow> pop3_outcome" where
  "pop3_rset argument ss =
     (if \<not> pn_authenticated ss \<or> argument \<noteq> [] then says ss ''-ERR command not valid now''
      else says (ss\<lparr>pn_deleted := [], pn_deletedOctets := 0\<rparr>) ''+OK no messages deleted'')"

definition pop3_noop :: "string \<Rightarrow> pop3_session \<Rightarrow> pop3_outcome" where
  "pop3_noop argument ss =
     (if \<not> pn_authenticated ss \<or> argument \<noteq> [] then says ss ''-ERR command not valid now'' else says ss ''+OK'')"

text \<open>\<open>order\<close> is the order in which Go visits the map of marked messages.\<close>

definition pop3_quit ::
  "'s maildrop \<Rightarrow> (u64 list \<Rightarrow> u64 list) \<Rightarrow> string \<Rightarrow> pop3_session \<Rightarrow> 's \<Rightarrow> pop3_outcome \<times> 's" where
  "pop3_quit md order argument ss s =
     (if argument \<noteq> [] then (says ss ''-ERR invalid arguments'', s)
      else if pn_authenticated ss \<and> pn_deleted ss \<noteq> [] then
        (case md_DeleteAs md (order (map snd (pn_deleted ss))) (pn_username ss) s of
           (Some e, s) \<Rightarrow>
             (Ended (fst (pop3_reply (add_log (LogDeletionFailed e) ss) ''-ERR unable to commit deletions'')), s)
         | (None, s) \<Rightarrow> (Ended (fst (pop3_reply ss ''+OK bye'')), s))
      else (Ended (fst (pop3_reply ss ''+OK bye'')), s))"

definition pop3_command ::
  "(string \<Rightarrow> string) \<Rightarrow> pop3_server \<Rightarrow> 's maildrop \<Rightarrow> (u64 list \<Rightarrow> u64 list) \<Rightarrow> string \<Rightarrow> string
    \<Rightarrow> pop3_session \<Rightarrow> 's \<Rightarrow> pop3_outcome \<times> 's" where
  "pop3_command sum256 sv md order command argument ss s =
     (if command = ''CAPA'' then (pop3_capa argument ss, s)
      else if command = ''USER'' then (pop3_user argument ss, s)
      else if command = ''PASS'' then (pop3_pass sum256 sv md argument ss s, s)
      else if command = ''STAT'' then (pop3_stat argument ss, s)
      else if command = ''LIST'' then pop3_rows md list_row argument ss s
      else if command = ''UIDL'' then pop3_rows md uidl_row argument ss s
      else if command = ''RETR'' then pop3_retr md argument ss s
      else if command = ''TOP'' then pop3_top md argument ss s
      else if command = ''DELE'' then pop3_dele md argument ss s
      else if command = ''RSET'' then (pop3_rset argument ss, s)
      else if command = ''NOOP'' then (pop3_noop argument ss, s)
      else if command = ''QUIT'' then pop3_quit md order argument ss s
      else (says ss ''-ERR command not implemented'', s))"

definition log_command :: "string \<Rightarrow> string \<Rightarrow> pop3_log" where
  "log_command command argument =
     LogCommand (loggedCommand command)
       (if command \<noteq> ''PASS'' \<and> loggedCommand command \<noteq> ''UNKNOWN'' \<and> argument \<noteq> [] then Some argument else None)"

text \<open>One turn of the loop: read a command line, log it, run its handler.\<close>

definition pop3_step ::
  "(string \<Rightarrow> string) \<Rightarrow> pop3_server \<Rightarrow> 's maildrop \<Rightarrow> (u64 list \<Rightarrow> u64 list) \<Rightarrow> pop3_session \<Rightarrow> 's
    \<Rightarrow> pop3_outcome \<times> 's" where
  "pop3_step sum256 sv md order ss s =
     (let (res, c) = readCommand (pn_conn ss); ss = ss\<lparr>pn_conn := c\<rparr> in
      case res of
        Inl e \<Rightarrow>
          ((if errors_is e ErrCommandTooLong then Ended (fst (pop3_reply ss ''-ERR command too long'')) else Ended ss), s)
      | Inr line \<Rightarrow>
          (let (command, argument) = splitCommand line
           in pop3_command sum256 sv md order command argument (add_log (log_command command argument) ss) s))"

definition pop3_start :: "pop3_server \<Rightarrow> conn \<Rightarrow> pop3_outcome" where
  "pop3_start sv c =
     (let (ss, ok) = pop3_reply \<lparr>pn_conn = c\<lparr>cn_buf := []\<rparr>, pn_username = [], pn_authenticated = False,
                       pn_snapshot = empty_snapshot, pn_deleted = [], pn_deletedOctets = 0, pn_authFailures = 0, pn_log = []\<rparr>
                     (''+OK '' @ ps_hostname sv @ '' picomx ready'')
      in if ok then Open ss else Ended ss)"

text \<open>
  A whole session: turns until the connection is closed. \<open>elsewhere k\<close> is what other sessions do to
  the store before a turn; the fuel bounds the turns.
\<close>

fun pop3_serve ::
  "(string \<Rightarrow> string) \<Rightarrow> pop3_server \<Rightarrow> 's maildrop \<Rightarrow> (u64 list \<Rightarrow> u64 list) \<Rightarrow> (nat \<Rightarrow> 's \<Rightarrow> 's) \<Rightarrow> nat
    \<Rightarrow> pop3_outcome \<Rightarrow> 's \<Rightarrow> pop3_outcome \<times> 's" where
  "pop3_serve sum256 sv md order elsewhere 0 out s = (out, s)"
| "pop3_serve sum256 sv md order elsewhere (Suc k) (Ended ss) s = (Ended ss, s)"
| "pop3_serve sum256 sv md order elsewhere (Suc k) (Open ss) s =
     (let (out, s) = pop3_step sum256 sv md order ss (elsewhere k s)
      in pop3_serve sum256 sv md order elsewhere k out s)"

end
