(* ===== verification/Pop3_Protocol.thy ===== *)
theory Pop3_Protocol
  imports Pop3_Session
begin

text \<open>
  What holds of a POP3 session whatever the mailbox does: who may authenticate and how often it is
  tried, that nothing of the mailbox is seen before, what is logged, and how commands are read.
\<close>

section \<open>Frames\<close>

fun session_of :: "pop3_outcome \<Rightarrow> pop3_session" where
  "session_of (Open ss) = ss"
| "session_of (Ended ss) = ss"

lemma pop3_reply_fields [simp]:
  "pn_username (fst (pop3_reply ss l)) = pn_username ss"
  "pn_authenticated (fst (pop3_reply ss l)) = pn_authenticated ss"
  "pn_snapshot (fst (pop3_reply ss l)) = pn_snapshot ss"
  "pn_deleted (fst (pop3_reply ss l)) = pn_deleted ss"
  "pn_deletedOctets (fst (pop3_reply ss l)) = pn_deletedOctets ss"
  "pn_authFailures (fst (pop3_reply ss l)) = pn_authFailures ss"
  "pn_log (fst (pop3_reply ss l)) = pn_log ss"
  by (simp_all add: pop3_reply_def split: prod.split)

lemma pop3_replyMulti_fields [simp]:
  "pn_username (fst (pop3_replyMulti ss ls)) = pn_username ss"
  "pn_authenticated (fst (pop3_replyMulti ss ls)) = pn_authenticated ss"
  "pn_snapshot (fst (pop3_replyMulti ss ls)) = pn_snapshot ss"
  "pn_deleted (fst (pop3_replyMulti ss ls)) = pn_deleted ss"
  "pn_deletedOctets (fst (pop3_replyMulti ss ls)) = pn_deletedOctets ss"
  "pn_authFailures (fst (pop3_replyMulti ss ls)) = pn_authFailures ss"
  "pn_log (fst (pop3_replyMulti ss ls)) = pn_log ss"
  by (simp_all add: pop3_replyMulti_def split: prod.split)

text \<open>A handler that changes nothing of the session but its connection.\<close>

definition same_session :: "pop3_session \<Rightarrow> pop3_session \<Rightarrow> bool" where
  "same_session ss ss' \<longleftrightarrow> ss' = ss\<lparr>pn_conn := pn_conn ss'\<rparr>"

lemma same_session_refl [simp]: "same_session ss ss"
  by (simp add: same_session_def)

lemma same_sessionD:
  assumes "same_session ss ss'"
  shows "pn_username ss' = pn_username ss" "pn_authenticated ss' = pn_authenticated ss" "pn_snapshot ss' = pn_snapshot ss"
    "pn_deleted ss' = pn_deleted ss" "pn_deletedOctets ss' = pn_deletedOctets ss"
    "pn_authFailures ss' = pn_authFailures ss" "pn_log ss' = pn_log ss"
  using assms by (cases ss; cases ss'; simp add: same_session_def)+

lemma same_session_conn [simp]: "same_session ss (ss\<lparr>pn_conn := c\<rparr>)"
  by (simp add: same_session_def)

lemma same_session_reply [simp]:
  "same_session ss (fst (pop3_reply ss l))" "same_session ss (fst (pop3_replyMulti ss ls))"
  by (simp_all add: pop3_reply_def pop3_replyMulti_def split: prod.split)

lemma session_of_says [simp]: "session_of (says ss l) = fst (pop3_reply ss l)"
  by (simp add: says_def)

lemma says_open [simp]: "\<exists>ss'. says ss l = Open ss'"
  by (simp add: says_def)

lemma writeListing_same: "writeListing md row ss s = (ok, ss', s') \<Longrightarrow> same_session ss ss'"
  by (auto simp: writeListing_def Let_def split: prod.splits if_splits)

lemma stream_reply_same: "same_session ss (session_of (stream_reply greeting limit source ss))"
  by (auto simp: stream_reply_def Let_def split: prod.split)

lemma pop3_rows_same: "pop3_rows md row argument ss s = (out, s') \<Longrightarrow> same_session ss (session_of out)"
  using writeListing_same [of md row ss s]
  by (auto simp: pop3_rows_def Let_def split: if_splits option.splits prod.splits sum.splits)

lemma pop3_retr_same: "pop3_retr md argument ss s = (out, s') \<Longrightarrow> same_session ss (session_of out)"
  by (auto simp: pop3_retr_def Let_def stream_reply_same split: if_splits option.splits prod.splits sum.splits)

lemma pop3_top_same: "pop3_top md argument ss s = (out, s') \<Longrightarrow> same_session ss (session_of out)"
  by (auto simp: pop3_top_def Let_def stream_reply_same split: if_splits option.splits prod.splits sum.splits)

lemma pop3_stat_same: "same_session ss (session_of (pop3_stat argument ss))"
  and pop3_noop_same: "same_session ss (session_of (pop3_noop argument ss))"
  and pop3_capa_same: "same_session ss (session_of (pop3_capa argument ss))"
  by (simp_all add: pop3_stat_def pop3_noop_def pop3_capa_def)

section \<open>Credentials\<close>

lemma hex_decode_length: "hex_decode s = Some d \<Longrightarrow> length s = 2 * length d"
  by (induction s arbitrary: d rule: hex_decode.induct) (auto split: option.splits)

lemma NewCredentials_cases:
  assumes "NewCredentials sum256 username digest = Inr c"
  shows "(c = no_credentials \<and> (trim_space username = [] \<or> trim_space digest = [])) \<or>
    (\<exists>d. hex_decode (trim_space digest) = Some d \<and> length d = 32 \<and> trim_space username \<noteq> [] \<and>
       c = \<lparr>cr_configured = True, cr_usernameHash = sum256 (trim_space username), cr_passwordHash = d\<rparr>)"
  using assms by (auto simp: NewCredentials_def Let_def split: if_splits option.splits)

section \<open>The log\<close>

definition pop3_commands :: "string set" where
  "pop3_commands = {''CAPA'', ''USER'', ''PASS'', ''STAT'', ''LIST'', ''UIDL'', ''RETR'', ''TOP'', ''DELE'', ''RSET'', ''NOOP'', ''QUIT''}"

lemma loggedCommand_known: "loggedCommand command = (if command \<in> pop3_commands then command else ''UNKNOWN'')"
  by (simp add: loggedCommand_def pop3_commands_def)

lemma log_command_cases:
  "(\<exists>a. log_command command a0 = LogCommand command (Some a) \<and> a = a0 \<and> command \<in> pop3_commands - {''PASS''}) \<or>
   (\<exists>v. log_command command a0 = LogCommand v None \<and> v \<in> insert ''UNKNOWN'' pop3_commands)"
  by (auto simp: log_command_def loggedCommand_known)

text \<open>What a handler adds to the log.\<close>

lemma pop3_user_log: "pn_log (session_of (pop3_user argument ss)) = pn_log ss"
  and pop3_rset_log: "pn_log (session_of (pop3_rset argument ss)) = pn_log ss"
  by (simp_all add: pop3_user_def pop3_rset_def)

lemma pop3_pass_log:
  "\<exists>new. pn_log (session_of (pop3_pass sum256 sv md argument ss s)) = pn_log ss @ new \<and>
     set new \<subseteq> {LogAuthFailed, LogAuthSucceeded (pn_username ss)}"
  by (auto simp: pop3_pass_def Let_def add_log_def)

lemma pop3_dele_log: "pop3_dele md argument ss s = (out, s') \<Longrightarrow> pn_log (session_of out) = pn_log ss"
  by (auto simp: pop3_dele_def split: if_splits option.splits prod.splits sum.splits)

lemma pop3_quit_log:
  "pop3_quit md order argument ss s = (out, s') \<Longrightarrow>
     \<exists>new. pn_log (session_of out) = pn_log ss @ new \<and> (\<forall>l \<in> set new. \<exists>e. l = LogDeletionFailed e)"
  by (auto simp: pop3_quit_def add_log_def split: if_splits option.splits prod.splits)

lemma pop3_command_cases:
  assumes "pop3_command sum256 sv md order command argument ss s = (out, s')"
  obtains (same) "same_session ss (session_of out)" "s' = s"
    | (rows) row where "pop3_rows md row argument ss s = (out, s')"
    | (retr) "pop3_retr md argument ss s = (out, s')"
    | (top) "pop3_top md argument ss s = (out, s')"
    | (user) "out = pop3_user argument ss" "s' = s"
    | (pass) "command = ''PASS''" "out = pop3_pass sum256 sv md argument ss s" "s' = s"
    | (dele) "pop3_dele md argument ss s = (out, s')"
    | (rset) "out = pop3_rset argument ss" "s' = s"
    | (quit) "command = ''QUIT''" "pop3_quit md order argument ss s = (out, s')"
proof -
  have says: thesis if "(says ss l, s) = (out, s')" for l by (rule same) (use that in auto)
  have capa: thesis if "(pop3_capa argument ss, s) = (out, s')" by (rule same) (use that pop3_capa_same in auto)
  have stat: thesis if "(pop3_stat argument ss, s) = (out, s')" by (rule same) (use that pop3_stat_same in auto)
  have noop: thesis if "(pop3_noop argument ss, s) = (out, s')" by (rule same) (use that pop3_noop_same in auto)
  have user': thesis if "(pop3_user argument ss, s) = (out, s')" by (rule user) (use that in auto)
  have rset': thesis if "(pop3_rset argument ss, s) = (out, s')" by (rule rset) (use that in auto)
  have pass': thesis if "command = ''PASS''" "(pop3_pass sum256 sv md argument ss s, s) = (out, s')"
    by (rule pass [OF that(1)]) (use that(2) in auto)
  from assms [unfolded pop3_command_def] show thesis
    by - (split if_split_asm, erule capa, split if_split_asm, erule user', split if_split_asm, erule (1) pass',
        split if_split_asm, erule stat, split if_split_asm, erule rows, split if_split_asm, erule rows,
        split if_split_asm, erule retr, split if_split_asm, erule top, split if_split_asm, erule dele,
        split if_split_asm, erule rset', split if_split_asm, erule noop, split if_split_asm, erule (1) quit, erule says)
qed

lemma pop3_command_log:
  assumes "pop3_command sum256 sv md order command argument ss s = (out, s')"
  shows "\<exists>new. pn_log (session_of out) = pn_log ss @ new \<and>
    (\<forall>l \<in> set new. l = LogAuthFailed \<or> l = LogAuthSucceeded (pn_username ss) \<or> (\<exists>e. l = LogDeletionFailed e))"
  using assms
proof (cases rule: pop3_command_cases)
  case same
  then show ?thesis using same_sessionD(7) by simp
next
  case rows
  from same_sessionD(7) [OF pop3_rows_same [OF rows]] show ?thesis by simp
next
  case retr
  from same_sessionD(7) [OF pop3_retr_same [OF retr]] show ?thesis by simp
next
  case top
  from same_sessionD(7) [OF pop3_top_same [OF top]] show ?thesis by simp
next
  case pass
  then show ?thesis using pop3_pass_log [of sum256 sv md argument ss s] by blast
next
  case quit
  from pop3_quit_log [OF quit(2)] show ?thesis by blast
qed (simp_all add: pop3_user_log pop3_rset_log pop3_dele_log)

section \<open>Authentication\<close>

lemma authenticated_only_by_pass:
  assumes "pop3_command sum256 sv md order command argument ss s = (out, s')" "\<not> pn_authenticated ss"
  shows "s' = s" "pn_authenticated (session_of out) \<Longrightarrow>
      command = ''PASS'' \<and> authenticate sum256 (ps_credentials sv) (pn_username ss) argument"
    "\<not> pn_authenticated (session_of out) \<Longrightarrow> pop3_command sum256 sv md' order' command argument ss t = (out, t)"
  using assms
  by (auto simp: pop3_command_def pop3_capa_def pop3_user_def pop3_pass_def pop3_stat_def pop3_rows_def pop3_retr_def
        pop3_top_def pop3_dele_def pop3_rset_def pop3_noop_def pop3_quit_def Let_def add_log_def split: if_splits)

text \<open>The attempts that failed are counted, and the session ends at the limit.\<close>

definition attempts_ok :: "int \<Rightarrow> pop3_outcome \<Rightarrow> bool" where
  "attempts_ok limit out \<longleftrightarrow>
     pn_authFailures (session_of out) = length (filter ((=) LogAuthFailed) (pn_log (session_of out))) \<and>
     (case out of Open ss \<Rightarrow> int (pn_authFailures ss) < limit | Ended ss \<Rightarrow> int (pn_authFailures ss) \<le> limit)"

lemma attempts_ok_same:
  assumes "attempts_ok limit (Open ss)" "same_session ss (session_of out)"
  shows "attempts_ok limit out"
  using assms(1) same_sessionD [OF assms(2)] by (cases out) (auto simp: attempts_ok_def)

lemma attempts_ok_pass:
  assumes "attempts_ok limit (Open ss)" "limit = ps_maxAuthFailures sv"
  shows "attempts_ok limit (pop3_pass sum256 sv md argument ss s)"
  using assms by (auto simp: attempts_ok_def pop3_pass_def says_def Let_def add_log_def)

lemma attempts_ok_quit:
  assumes "attempts_ok limit (Open ss)" "pop3_quit md order argument ss s = (out, s')"
  shows "attempts_ok limit out"
  using assms by (auto simp: attempts_ok_def pop3_quit_def says_def add_log_def split: if_splits option.splits prod.splits)

lemma attempts_ok_dele:
  assumes "attempts_ok limit (Open ss)" "pop3_dele md argument ss s = (out, s')"
  shows "attempts_ok limit out"
  using assms by (auto simp: attempts_ok_def pop3_dele_def says_def split: if_splits option.splits prod.splits sum.splits)

lemma attempts_ok_command:
  assumes "attempts_ok (ps_maxAuthFailures sv) (Open ss)" "pop3_command sum256 sv md order command argument ss s = (out, s')"
  shows "attempts_ok (ps_maxAuthFailures sv) out"
  using assms(2)
proof (cases rule: pop3_command_cases)
  case same
  then show ?thesis by (intro attempts_ok_same [OF assms(1)])
next
  case rows
  show ?thesis by (rule attempts_ok_same [OF assms(1) pop3_rows_same [OF rows]])
next
  case retr
  show ?thesis by (rule attempts_ok_same [OF assms(1) pop3_retr_same [OF retr]])
next
  case top
  show ?thesis by (rule attempts_ok_same [OF assms(1) pop3_top_same [OF top]])
next
  case user
  with assms(1) show ?thesis by (simp add: attempts_ok_def pop3_user_def says_def)
next
  case pass
  with attempts_ok_pass [OF assms(1) refl] show ?thesis by simp
next
  case dele
  then show ?thesis by (rule attempts_ok_dele [OF assms(1)])
next
  case rset
  with assms(1) show ?thesis by (simp add: attempts_ok_def pop3_rset_def says_def)
next
  case quit
  then show ?thesis by (intro attempts_ok_quit [OF assms(1)])
qed

section \<open>Reading commands\<close>

lemma trim_suffix_length: "length (trim_suffix s t) \<le> length s"
  by (simp add: trim_suffix_def)

lemma readCommand_sound:
  assumes "length (cn_buf c) \<le> 256" "readCommand c = (res, c')"
  shows "same_writer c c' \<and> length (cn_buf c') \<le> 256 \<and>
    (case res of
       Inr line \<Rightarrow> length line \<le> 254 \<and> LF \<notin> set line \<and> length (cn_stream c') < length (cn_stream c)
     | Inl e \<Rightarrow> True)"
proof -
  obtain l e d where x: "read_slice (maxCommandBytes + 1) c = (l, e, d)" by (metis surj_pair)
  from read_slice_stream [OF _ x] assms(1) have r: "slice_of 256 (cn_end c) (cn_stream c) = (l, e, cn_stream d)"
      "length (cn_buf d) \<le> 256" "same_writer c d"
    by (simp_all add: maxCommandBytes_def)
  have c': "c' = d" using assms(2) x by (auto simp: readCommand_def split: if_splits option.splits)
  show ?thesis
  proof (cases res)
    case (Inr line)
    with assms(2) x have e: "e = None" "length l \<le> 255" "line = trim_suffix (trim_suffix l [LF]) [CR]"
      by (auto simp: readCommand_def maxCommandBytes_def split: if_splits option.splits)
    from slice_of_None [OF r(1) [unfolded e(1)]] obtain m where m: "cn_stream c = l @ cn_stream d" "l = m @ [LF]" "LF \<notin> set m"
      by blast
    have "trim_suffix l [LF] = m" by (simp add: m(2) trim_suffix_def)
    then have "length line \<le> length m" "set line \<subseteq> set m"
      using trim_suffix_length [of m "[CR]"] by (auto simp: e(3) trim_suffix_def dest: in_set_takeD)
    with m e(2) r(2,3) Inr c' show ?thesis by auto
  qed (use r c' in simp)
qed

section \<open>The writing side\<close>

lemma same_reader_length: "same_reader c d \<Longrightarrow> cn_stream d = cn_stream c \<and> cn_buf d = cn_buf c"
  using same_readerD by blast

lemma conn_write_reader: "conn_write c p = (c', ok) \<Longrightarrow> same_reader c c'"
  using conn_write_same_reader [of c p] by (metis fst_conv)

lemma bw_flush_reader: "bw_flush w = (ok, w') \<Longrightarrow> same_reader (snd w) (snd w')"
  by (cases w) (auto simp: bw_flush_def Let_def conn_write_reader split: prod.splits)

end
