(* ===== verification/Pop3_Maildrop.thy ===== *)
theory Pop3_Maildrop
  imports Pop3_Protocol Mailbox_Delete
begin

text \<open>
  The contract between the POP3 server and the mailbox, as a locale, and what a session makes of
  it: the marks of a session, the answers of every command, and the mailbox after \<open>QUIT\<close>.
\<close>

section \<open>Marks\<close>

text \<open>
  The messages that a session has marked: numbers of the maildrop with the IDs behind them, and
  the octets they hold.
\<close>

definition marks_ok :: "mailbox \<Rightarrow> (u64 \<times> u64) list \<Rightarrow> bool" where
  "marks_ok M d \<longleftrightarrow> distinct (map fst d) \<and>
     (\<forall>(n, i) \<in> set d. n \<noteq> 0 \<and> unat n \<le> card (dom M) \<and> i = MsgID (mail_list M ! (unat n - 1)))"

definition session_mail :: "mailbox \<Rightarrow> pop3_session \<Rightarrow> bool" where
  "session_mail M ss \<longleftrightarrow> marks_ok M (pn_deleted ss) \<and>
     unat (pn_deletedOctets ss) = mailbox_octets (M |` (snd ` set (pn_deleted ss)))"

text \<open>What the session leaves of its maildrop.\<close>

definition unmarked :: "mailbox \<Rightarrow> pop3_session \<Rightarrow> mailbox" where
  "unmarked M ss = M |` (- snd ` set (pn_deleted ss))"

lemma finite_mailbox [simp]: "finite (dom (M :: mailbox))"
  by simp

lemma mail_at:
  assumes "k < card (dom M)"
  obtains i c where "mail_list M ! k = message_of i c" "M i = Some c" "i = sorted_list_of_set (dom M) ! k"
proof -
  let ?i = "sorted_list_of_set (dom M) ! k"
  have "?i \<in> set (sorted_list_of_set (dom M))" using assms by (intro nth_mem) simp
  then obtain c where "M ?i = Some c" by auto
  moreover from this assms have "mail_list M ! k = message_of ?i c" by (simp add: mail_list_def)
  ultimately show thesis using that by blast
qed

lemma MsgID_mail_list: "k < card (dom M) \<Longrightarrow> MsgID (mail_list M ! k) = sorted_list_of_set (dom M) ! k"
  by (erule mail_at) simp

lemma mail_id_inj:
  assumes "k < card (dom M)" "l < card (dom M)" "MsgID (mail_list M ! k) = MsgID (mail_list M ! l)"
  shows "k = l"
  using assms nth_eq_iff_index_eq [OF distinct_sorted_list_of_set [of "dom M"], of k l] by (simp add: MsgID_mail_list)

lemma number_index: "n \<noteq> 0 \<Longrightarrow> unat n \<le> card A \<Longrightarrow> unat (n :: u64) - 1 < card A"
  by (metis diff_less less_le_trans less_one not_gr_zero unat_eq_zero)

lemma number_index_inj: "n \<noteq> 0 \<Longrightarrow> m \<noteq> 0 \<Longrightarrow> unat (n :: u64) - 1 = unat m - 1 \<Longrightarrow> n = m"
  by (metis One_nat_def Suc_pred not_gr_zero unat_eq_zero word_unat_eq_iff)

lemma marks_ok_ids:
  assumes "marks_ok M d"
  shows "distinct (map snd d)" "snd ` set d \<subseteq> dom M" "length d \<le> card (dom M)"
proof -
  have at: "n \<noteq> 0 \<and> unat n - 1 < card (dom M) \<and> i = MsgID (mail_list M ! (unat n - 1))" if "(n, i) \<in> set d" for n i
    using assms that number_index [of n "dom M"] by (auto simp: marks_ok_def)
  show dom: "snd ` set d \<subseteq> dom M"
  proof
    fix i assume "i \<in> snd ` set d"
    then obtain n where "(n, i) \<in> set d" by auto
    from at [OF this] show "i \<in> dom M" by (auto elim: mail_at)
  qed
  have "inj_on snd (set d)"
  proof (rule inj_onI)
    fix x y assume "x \<in> set d" "y \<in> set d" "snd x = snd y"
    moreover obtain n i m j where "x = (n, i)" "y = (m, j)" by (meson surj_pair)
    ultimately have "(n, i) \<in> set d" "(m, i) \<in> set d" "x = (n, i)" "y = (m, i)" by auto
    with at [of n i] at [of m i] mail_id_inj [of "unat n - 1" M "unat m - 1"] number_index_inj [of n m] show "x = y" by simp
  qed
  moreover have "distinct d" using assms by (simp add: marks_ok_def distinct_map)
  ultimately show dist: "distinct (map snd d)" by (simp add: distinct_map)
  have "length d = card (snd ` set d)" using distinct_card [OF dist] by simp
  with dom show "length d \<le> card (dom M)" by (simp add: card_mono)
qed

lemma mailbox_octets_mono: "mailbox_octets (M |` A) \<le> mailbox_octets M"
proof -
  have "(\<Sum>j \<in> dom (M |` A). length (the ((M |` A) j))) = (\<Sum>j \<in> dom (M |` A). length (the (M j)))"
    by (intro sum.cong) (auto simp: restrict_map_def)
  also have "\<dots> \<le> (\<Sum>j \<in> dom M. length (the (M j)))" by (rule sum_mono2) auto
  finally show ?thesis by (simp add: mailbox_octets_def)
qed

lemma mailbox_octets_split: "mailbox_octets (M |` A) + mailbox_octets (M |` (- A)) = mailbox_octets M"
proof -
  have eq: "mailbox_octets (M |` B) = (\<Sum>j \<in> dom M \<inter> B. length (the (M j)))" for B
    unfolding mailbox_octets_def by (intro sum.cong) (auto simp: restrict_map_def split: if_splits)
  have "dom M = (dom M \<inter> A) \<union> (dom M \<inter> - A)" by auto
  then have "mailbox_octets M = (\<Sum>j \<in> (dom M \<inter> A) \<union> (dom M \<inter> - A). length (the (M j)))"
    by (simp add: mailbox_octets_def)
  also have "\<dots> = (\<Sum>j \<in> dom M \<inter> A. length (the (M j))) + (\<Sum>j \<in> dom M \<inter> - A. length (the (M j)))"
    by (intro sum.union_disjoint) auto
  finally show ?thesis by (simp add: eq)
qed

lemma mailbox_octets_insert:
  assumes "M i = Some c" "i \<notin> A"
  shows "mailbox_octets (M |` insert i A) = length c + mailbox_octets (M |` A)"
proof -
  have "(M |` insert i A) |` (- {i}) = M |` A" using assms(2) by (auto simp: restrict_map_def fun_eq_iff)
  with mailbox_octets_remove [of "M |` insert i A" i c] assms(1) show ?thesis by simp
qed

lemma marked_iff:
  assumes "marks_ok M (pn_deleted ss)" "0 \<notin> dom M"
  shows "marked ss n \<noteq> 0 \<longleftrightarrow> n \<in> fst ` set (pn_deleted ss)"
proof (cases "map_of (pn_deleted ss) n")
  case (Some i)
  then have "(n, i) \<in> set (pn_deleted ss)" by (rule map_of_SomeD)
  moreover from this have "i \<in> dom M" using marks_ok_ids(2) [OF assms(1)] by force
  ultimately show ?thesis using Some assms(2) by (force simp: marked_def)
next
  case None
  then show ?thesis by (simp add: marked_def) (simp add: map_of_eq_None_iff)
qed

text \<open>Marking another message.\<close>

lemma update_fresh: "n \<notin> fst ` set d \<Longrightarrow> AList.update n i d = d @ [(n, i)]"
  by (induction d) auto

lemma session_mail_mark:
  assumes "session_mail M ss" "marked ss n = 0" "n \<noteq> 0" "unat n \<le> card (dom M)" "mailbox_ok M"
    and "m = mail_list M ! (unat n - 1)" "mailbox_octets M < 18446744073709551616"
  shows "session_mail M (ss\<lparr>pn_deleted := AList.update n (MsgID m) (pn_deleted ss), pn_deletedOctets := pn_deletedOctets ss + MsgSize m\<rparr>)"
    (is "session_mail M ?ss")
proof -
  let ?d = "pn_deleted ss"
  have marks: "marks_ok M ?d" "unat (pn_deletedOctets ss) = mailbox_octets (M |` (snd ` set ?d))"
    using assms(1) by (simp_all add: session_mail_def)
  have z: "0 \<notin> dom M" using assms(5) by (auto simp: mailbox_ok_def)
  have fresh: "n \<notin> fst ` set ?d" using marked_iff [OF marks(1) z] assms(2) by auto
  have up: "AList.update n i ?d = ?d @ [(n, i)]" for i by (rule update_fresh [OF fresh])
  obtain i c where m: "m = message_of i c" "M i = Some c"
    using mail_at [OF number_index [OF assms(3,4)]] assms(6) by metis
  have new: "marks_ok M (?d @ [(n, MsgID m)])"
    using marks(1) fresh assms(3,4,6) by (auto simp: marks_ok_def)
  have "i \<notin> snd ` set ?d" using marks_ok_ids(1) [OF new] by (simp add: m(1))
  note oct = mailbox_octets_insert [where M = M, OF m(2) this]
  have "length c < 18446744073709551616" using assms(5) m(2) by (auto simp: mailbox_ok_def)
  then have sz: "unat (MsgSize m) = length c" by (simp add: m(1) unat_of_nat_u64)
  have "mailbox_octets (M |` insert i (snd ` set ?d)) < 18446744073709551616"
    using mailbox_octets_mono [of M "insert i (snd ` set ?d)"] assms(7) by linarith
  then have "unat (pn_deletedOctets ss + MsgSize m) = mailbox_octets (M |` insert i (snd ` set ?d))"
    using marks(2) sz oct by (simp add: unat_add_u64)
  then show ?thesis using new by (simp add: session_mail_def up m(1))
qed

lemma session_mail_bounds:
  assumes "session_mail M ss" "mailbox_octets M < 18446744073709551616" "card (dom M) < 18446744073709551616"
  shows "unat (of_nat (card (dom M)) - of_nat (length (pn_deleted ss)) :: u64) = card (dom (unmarked M ss))"
    "unat (t :: u64) = mailbox_octets M \<Longrightarrow> unat (t - pn_deletedOctets ss) = mailbox_octets (unmarked M ss)"
proof -
  let ?d = "pn_deleted ss"
  have marks: "marks_ok M ?d" "unat (pn_deletedOctets ss) = mailbox_octets (M |` (snd ` set ?d))"
    using assms(1) by (simp_all add: session_mail_def)
  note ids = marks_ok_ids [OF marks(1)]
  have "dom (unmarked M ss) = dom M - snd ` set ?d" by (auto simp: unmarked_def)
  moreover have "card (snd ` set ?d) = length ?d" using distinct_card [OF ids(1)] by simp
  ultimately have c: "card (dom (unmarked M ss)) = card (dom M) - length ?d" using ids(2) by (simp add: card_Diff_subset)
  have "unat (of_nat (length ?d) :: u64) = length ?d" "unat (of_nat (card (dom M)) :: u64) = card (dom M)"
    using assms(3) ids(3) by (simp_all add: unat_of_nat_u64)
  with ids(3) c show "unat (of_nat (card (dom M)) - of_nat (length (pn_deleted ss)) :: u64) = card (dom (unmarked M ss))"
    by (simp add: unat_sub_u64 u64_le)
  assume t: "unat t = mailbox_octets M"
  from mailbox_octets_split [of M "snd ` set ?d"] marks(2) t
  show "unat (t - pn_deletedOctets ss) = mailbox_octets (unmarked M ss)"
    by (simp add: unat_sub_u64 u64_le unmarked_def)
qed

section \<open>A listing\<close>

text \<open>The rows of \<open>LIST\<close> and \<open>UIDL\<close>: one for every message whose number is not marked.\<close>

definition listing_text :: "pop3_session \<Rightarrow> (u64 \<Rightarrow> u64 \<Rightarrow> u64 \<Rightarrow> string) \<Rightarrow> nat \<Rightarrow> message list \<Rightarrow> string" where
  "listing_text ss row n ms =
     concat (map (\<lambda>k. let number = of_nat (n + k + 1); m = ms ! k in
                       if marked ss number \<noteq> 0 then [] else row number (MsgID m) (MsgSize m) @ CRLF) [0..<length ms])"

lemma listing_text_Cons:
  "listing_text ss row n (m # ms) =
     (if marked ss (of_nat n + 1) \<noteq> 0 then [] else row (of_nat n + 1) (MsgID m) (MsgSize m) @ CRLF) @ listing_text ss row (Suc n) ms"
  unfolding listing_text_def Let_def
  by (simp add: upt_conv_Cons map_Suc_upt [symmetric] comp_def add_ac del: upt_Suc cong: if_cong)

lemma listing_visit_open:
  assumes "bw_open w" "visit_all (listing_row ss row) (of_nat n) ms w = (err, w')"
  shows "err = None \<and> bw_open w' \<and> bw_bytes w' = bw_bytes w @ listing_text ss row n ms"
  using assms
proof (induction ms arbitrary: n w)
  case Nil
  then show ?case by (simp add: listing_text_def)
next
  case (Cons m ms)
  obtain e w1 where x: "listing_row ss row (of_nat n + 1) (MsgID m) (MsgSize m) w = (e, w1)" by (meson surj_pair)
  have r: "e = None \<and> bw_open w1 \<and>
      bw_bytes w1 = bw_bytes w @ (if marked ss (of_nat n + 1) \<noteq> 0 then [] else row (of_nat n + 1) (MsgID m) (MsgSize m) @ CRLF)"
  proof (cases "marked ss (of_nat n + 1) \<noteq> 0")
    case True
    with x Cons.prems(1) show ?thesis by (simp add: listing_row_def)
  next
    case False
    obtain ok w2 where y: "bw_write (row (of_nat n + 1) (MsgID m) (MsgSize m) @ CRLF) w = (ok, w2)" by (meson surj_pair)
    from bw_write_open [OF Cons.prems(1) y] x y False show ?thesis by (simp add: listing_row_def)
  qed
  then have "visit_all (listing_row ss row) (of_nat (Suc n)) ms w1 = (err, w')" using Cons.prems(2) x by (simp add: add_ac)
  with Cons.IH [of w1 "Suc n"] r show ?case by (simp add: listing_text_Cons)
qed

lemma listing_visit_reader:
  "visit_all (listing_row ss row) n ms w = (err, w') \<Longrightarrow> same_reader (snd w) (snd w')"
proof (induction ms arbitrary: n w)
  case (Cons m ms)
  obtain e w1 where x: "listing_row ss row (n + 1) (MsgID m) (MsgSize m) w = (e, w1)" by (meson surj_pair)
  have "same_reader (snd w) (snd w1)"
    using x by (auto simp: listing_row_def Let_def bw_write_reader split: if_splits prod.splits)
  with Cons.prems Cons.IH [of "n + 1" w1] x same_reader_trans show ?case by (auto split: option.splits)
qed simp

section \<open>Streaming leaves the reading side alone\<close>

lemma stream_lines_reader:
  "stream_lines limit inBody k lastLF ls w = (ended, w') \<Longrightarrow> same_reader (snd w) (snd w')"
proof (induction ls arbitrary: inBody k lastLF w)
  case (Cons l ls)
  obtain ok1 w1 where x1: "(if hd l = CHR ''.'' then bw_write ''.'' w else (True, w)) = (ok1, w1)" by (meson surj_pair)
  have r1: "same_reader (snd w) (snd w1)" using x1 bw_write_reader [of "''.''" w ok1 w1] by (auto split: if_splits)
  obtain ok2 w2 where x2: "bw_write l w1 = (ok2, w2)" by (meson surj_pair)
  have r2: "same_reader (snd w) (snd w2)" using r1 bw_write_reader [OF x2] same_reader_trans by blast
  show ?case
    using Cons.prems [unfolded stream_lines.simps Let_def x1 prod.case x2] r1 r2 Cons.IH same_reader_trans [OF r2]
    by (auto split: if_splits)
qed simp

lemma streamMessage_reader:
  assumes "streamMessage greeting limit bytes err c = (ok, c')"
  shows "same_reader c c'"
proof -
  obtain ok1 w1 where x1: "bw_write (greeting @ CRLF) ([], c) = (ok1, w1)" by (meson surj_pair)
  have r1: "same_reader c (snd w1)" using bw_write_reader [OF x1] by simp
  obtain ended w2 where x2: "stream_lines limit False 0 True (lf_lines bytes) w1 = (ended, w2)" by (meson surj_pair)
  have r2: "same_reader c (snd w2)" using r1 stream_lines_reader [OF x2] same_reader_trans by blast
  have r3: "same_reader c (snd w3)" if "(if lf then (True, w2) else bw_write CRLF w2) = (b, w3)" for lf b w3
    using that r2 bw_write_reader [of CRLF w2 b w3] same_reader_trans [OF r2] by (auto split: if_splits)
  have r4: "same_reader c (snd w')" if "same_reader c (snd w)" "bw_write p w = (b, w')" for p w b w'
    using that bw_write_reader same_reader_trans by blast
  have r5: "same_reader c (snd w')" if "same_reader c (snd w)" "bw_flush w = (b, w')" for w b w'
    using that bw_flush_reader same_reader_trans by blast
  have tail: "same_reader c c'"
    if t: "(let (ok, w) = (if lf then (True, w2) else bw_write CRLF w2) in
        if \<not> ok then (False, snd w)
        else let (ok, w) = bw_write (''.'' @ CRLF) w in
             if \<not> ok then (False, snd w) else let (ok, w) = bw_flush w in (ok, snd w)) = (ok, c')" for lf
  proof -
    obtain ok3 w3 where x3: "(if lf then (True, w2) else bw_write CRLF w2) = (ok3, w3)" by (meson surj_pair)
    obtain ok4 w4 where x4: "bw_write (''.'' @ CRLF) w3 = (ok4, w4)" by (meson surj_pair)
    obtain ok5 w5 where x5: "bw_flush w4 = (ok5, w5)" by (meson surj_pair)
    have "c' \<in> {snd w3, snd w4, snd w5}"
      using t unfolding Let_def x3 prod.case x4 x5 by (auto split: if_splits)
    with r3 [OF x3] r4 [OF r3 [OF x3] x4] r5 [OF r4 [OF r3 [OF x3] x4] x5] show ?thesis by auto
  qed
  show ?thesis
    using assms [unfolded streamMessage_def x1 prod.case Let_def x2] r1 r2 tail [unfolded Let_def]
    by (auto split: if_splits stream_end.splits)
qed

end
