(* ===== verification/Pop3_Contract.thy ===== *)
theory Pop3_Contract
  imports Pop3_Maildrop
begin

text \<open>
  What the POP3 server relies on of a mailbox, the locale \<open>maildrop_laws\<close>, and what its handlers
  do under that contract.
\<close>

definition keeps_mail ::
  "('s \<Rightarrow> snapshot \<Rightarrow> mailbox \<Rightarrow> bool) \<Rightarrow> ('s \<Rightarrow> mailbox \<Rightarrow> bool) \<Rightarrow> 's \<Rightarrow> 's \<Rightarrow> bool" where
  "keeps_mail shown holds s s' \<longleftrightarrow>
     (\<forall>snap M. shown s snap M \<longrightarrow> shown s' snap M) \<and> (\<forall>M. holds s M \<longrightarrow> holds s' M)"

lemma keeps_mail_refl [simp]: "keeps_mail shown holds s s"
  by (simp add: keeps_mail_def)

lemma keeps_mail_trans: "keeps_mail shown holds s t \<Longrightarrow> keeps_mail shown holds t u \<Longrightarrow> keeps_mail shown holds s u"
  by (simp add: keeps_mail_def)

lemma keeps_mailD:
  "keeps_mail shown holds s s' \<Longrightarrow> shown s snap M \<Longrightarrow> shown s' snap M"
  "keeps_mail shown holds s s' \<Longrightarrow> holds s M \<Longrightarrow> holds s' M"
  by (simp_all add: keeps_mail_def)

text \<open>The least of it: a listing does nothing to the connection but visit messages.\<close>

locale visiting_maildrop =
  fixes md :: "'s maildrop"
  assumes visits_law: "md_ListAt md snap visit w s = (err, w', s') \<Longrightarrow> \<exists>n ms err'. visit_all visit n ms w = (err', w')"

text \<open>
  A store that is \<open>ready\<close> answers; a snapshot shows a mailbox for as long as the store lives;
  \<open>holds\<close> is the mailbox now, and \<open>R\<close> what other sessions do to it while messages are deleted.
\<close>

locale maildrop_laws = visiting_maildrop md
  for md :: "'s maildrop" +
  fixes ready :: "'s \<Rightarrow> bool"
    and shown :: "'s \<Rightarrow> snapshot \<Rightarrow> mailbox \<Rightarrow> bool"
    and holds :: "'s \<Rightarrow> mailbox \<Rightarrow> bool"
    and healthy :: "'s \<Rightarrow> bool"
    and R :: "mailbox \<Rightarrow> mailbox \<Rightarrow> bool"
  assumes shown_mail: "shown s snap M \<Longrightarrow> mailbox_ok M \<and> sn_MessageCount snap = of_nat (card (dom M)) \<and>
      card (dom M) < 18446744073709551616 \<and> unat (sn_TotalOctets snap) = mailbox_octets M"
    and snapshot_law: "ready s \<Longrightarrow> healthy s \<Longrightarrow> holds s M \<Longrightarrow> shown s (md_Snapshot md s) M"
    and lookup_law: "ready s \<Longrightarrow> shown s snap M \<Longrightarrow> md_Lookup md snap n s = (res, s') \<Longrightarrow>
      ready s' \<and> keeps_mail shown holds s s' \<and> (healthy s \<longrightarrow> healthy s') \<and>
      (case res of Inr m \<Rightarrow> n \<noteq> 0 \<and> unat n \<le> card (dom M) \<and> m = mail_list M ! (unat n - 1) | Inl e \<Rightarrow> True)"
    and open_law: "ready s \<Longrightarrow> shown s snap M \<Longrightarrow> M i = Some c \<Longrightarrow>
      md_OpenMessage md snap (message_of i c) s = (opened, s') \<Longrightarrow>
      ready s' \<and> keeps_mail shown holds s s' \<and> (healthy s \<longrightarrow> healthy s') \<and>
      (case opened of Inr source \<Rightarrow> \<exists>rest. c = fst source @ rest \<and> (snd source = None \<longrightarrow> rest = []) | Inl e \<Rightarrow> True)"
    and list_law: "ready s \<Longrightarrow> shown s snap M \<Longrightarrow> md_ListAt md snap visit w s = (err, w', s') \<Longrightarrow>
      ready s' \<and> keeps_mail shown holds s s' \<and> (healthy s \<longrightarrow> healthy s') \<and>
      (\<exists>xs ys err'. mail_list M = xs @ ys \<and> visit_all visit 0 xs w = (err', w') \<and> (err = None \<longrightarrow> ys = [] \<and> err' = None))"
    and delete_law: "ready s \<Longrightarrow> healthy s \<Longrightarrow> holds s M \<Longrightarrow> md_DeleteAs md ids username s = (err, s') \<Longrightarrow>
      ready s' \<and> (\<exists>M'. R\<^sup>*\<^sup>* M M' \<and>
        (case err of
           None \<Rightarrow> healthy s' \<and> holds s' (M' |` (- set ids))
         | Some e \<Rightarrow> holds s' M' \<or> holds s' (M' |` (- set ids)) \<and> \<not> healthy s'))"

text \<open>What a session relies on: once authenticated, its snapshot and its marks are of one mailbox.\<close>

definition pop3_ok :: "('s \<Rightarrow> snapshot \<Rightarrow> mailbox \<Rightarrow> bool) \<Rightarrow> 's \<Rightarrow> mailbox \<Rightarrow> pop3_session \<Rightarrow> bool" where
  "pop3_ok shown s M ss \<longleftrightarrow>
     (if pn_authenticated ss then shown s (pn_snapshot ss) M \<and> session_mail M ss
      else pn_deleted ss = [] \<and> pn_deletedOctets ss = 0)"

lemma session_mail_same:
  assumes "same_session ss ss'"
  shows "session_mail M ss' = session_mail M ss" "unmarked M ss' = unmarked M ss"
  using same_sessionD [OF assms] by (simp_all add: session_mail_def unmarked_def)

lemma pop3_ok_same:
  assumes "pop3_ok shown s M ss" "same_session ss ss'" "keeps_mail shown holds s s'"
  shows "pop3_ok shown s' M ss'"
  using assms same_sessionD [OF assms(2)] session_mail_same [OF assms(2)] keeps_mailD(1) [OF assms(3)]
  by (auto simp: pop3_ok_def split: if_splits)

text \<open>The text of the message with a number.\<close>

definition mail_text :: "mailbox \<Rightarrow> u64 \<Rightarrow> string" where
  "mail_text M n = the (M (MsgID (mail_list M ! (unat n - 1))))"

definition mail_id :: "mailbox \<Rightarrow> u64 \<Rightarrow> u64" where
  "mail_id M n = MsgID (mail_list M ! (unat n - 1))"

lemma mail_number:
  assumes "n \<noteq> 0" "unat n \<le> card (dom M)"
  shows "mail_list M ! (unat n - 1) = message_of (mail_id M n) (mail_text M n) \<and> M (mail_id M n) = Some (mail_text M n)"
proof -
  obtain i c where i: "mail_list M ! (unat n - 1) = message_of i c" "M i = Some c"
    using mail_at [OF number_index [OF assms]] by metis
  then show ?thesis by (simp add: mail_text_def mail_id_def)
qed

text \<open>A connection to which every byte can be written.\<close>

definition pn_open :: "pop3_session \<Rightarrow> bool" where
  "pn_open ss \<longleftrightarrow> cn_room (pn_conn ss) = None"

definition pn_out :: "pop3_session \<Rightarrow> string" where
  "pn_out ss = cn_out (pn_conn ss)"

lemma pop3_reply_open:
  assumes "pn_open ss"
  shows "pop3_reply ss l = (ss\<lparr>pn_conn := (pn_conn ss)\<lparr>cn_out := pn_out ss @ l @ CRLF\<rparr>\<rparr>, True)"
  using assms by (simp add: pop3_reply_def pn_open_def pn_out_def)

lemma says_out: "pn_open ss \<Longrightarrow> says ss l = Open ss' \<Longrightarrow> pn_out ss' = pn_out ss @ l @ CRLF"
  by (auto simp: says_def pop3_reply_open pn_out_def)

text \<open>\<open>RETR\<close> and \<open>TOP\<close> answer with the message: a greeting, and what the client reads after it.\<close>

definition serves :: "string \<Rightarrow> u64 option \<Rightarrow> string \<Rightarrow> pop3_session \<Rightarrow> pop3_session \<Rightarrow> bool" where
  "serves greeting limit c ss ss' \<longleftrightarrow>
     (\<exists>reply. pn_out ss' = pn_out ss @ greeting @ CRLF @ reply \<and>
        (\<forall>rest. client_text (reply @ rest) = Some (whole_text (shown_text limit c), rest)))"

lemma stream_reply_serves:
  assumes "pn_open ss" "c = fst source @ rest" "snd source = None \<longrightarrow> rest = []"
    and "stream_reply greeting limit source ss = Open ss'"
  shows "serves greeting limit c ss ss'"
proof -
  obtain ok d where x: "streamMessage greeting limit (fst source) (snd source) (pn_conn ss) = (ok, d)" by (meson surj_pair)
  with assms(4) have ok: "ok" "ss' = ss\<lparr>pn_conn := d\<rparr>" by (auto simp: stream_reply_def Let_def split: if_splits)
  have "cn_room (pn_conn ss) = None" using assms(1) by (simp add: pn_open_def)
  note st = streamMessage_open [OF this x]
  have "shown_text limit c = shown_text limit (fst source)"
  proof (cases "snd source")
    case None
    with assms(2,3) show ?thesis by simp
  next
    case (Some e)
    with st ok(1) have "length (shown_lines limit (lf_lines (fst source))) < length (lf_lines (fst source))" by simp
    from shown_text_append [OF this] assms(2) show ?thesis by simp
  qed
  with st ok show ?thesis by (auto simp: serves_def pn_out_def)
qed

lemma stream_reply_reader: "same_reader (pn_conn ss) (pn_conn (session_of (stream_reply greeting limit source ss)))"
  using streamMessage_reader by (auto simp: stream_reply_def Let_def split: prod.split)

lemma pop3_reply_reader [simp]:
  "same_reader (pn_conn ss) (pn_conn (fst (pop3_reply ss l)))" "same_reader (pn_conn ss) (pn_conn (fst (pop3_replyMulti ss ls)))"
  using conn_write_reader by (auto simp: pop3_reply_def pop3_replyMulti_def split: prod.split)

section \<open>No handler reads ahead\<close>

context visiting_maildrop
begin

lemma writeListing_reader:
  assumes "writeListing md row ss s = (ok, ss', t)"
  shows "same_reader (pn_conn ss) (pn_conn ss')"
proof -
  obtain ok1 w1 where x1: "bw_write (''+OK listing follows'' @ CRLF) ([], pn_conn ss) = (ok1, w1)" by (meson surj_pair)
  have r1: "same_reader (pn_conn ss) (snd w1)" using bw_write_reader [OF x1] by simp
  obtain err w2 s2 where x2: "md_ListAt md (pn_snapshot ss) (listing_row ss row) w1 s = (err, w2, s2)" by (metis surj_pair)
  have r2: "same_reader (pn_conn ss) (snd w2)"
    using visits_law [OF x2] listing_visit_reader same_reader_trans [OF r1] by blast
  obtain ok3 w3 where x3: "bw_write (''.'' @ CRLF) w2 = (ok3, w3)" by (meson surj_pair)
  have r3: "same_reader (pn_conn ss) (snd w3)" using same_reader_trans [OF r2 bw_write_reader [OF x3]] .
  obtain ok4 w4 where x4: "bw_flush w3 = (ok4, w4)" by (meson surj_pair)
  have r4: "same_reader (pn_conn ss) (snd w4)" using same_reader_trans [OF r3 bw_flush_reader [OF x4]] .
  show ?thesis
    using assms [unfolded writeListing_def x1 Let_def prod.case x2 x3 x4] r1 r2 r3 r4 by (auto split: if_splits)
qed

lemma reply_reader_of:
  "pn_conn ss' = pn_conn ss \<Longrightarrow> same_reader (pn_conn ss) (pn_conn (fst (pop3_reply ss' l)))"
  using pop3_reply_reader(1) [of ss' l] by simp

lemma command_reader:
  assumes "pop3_command sum256 sv md order command argument ss s = (out, s')"
  shows "same_reader (pn_conn ss) (pn_conn (session_of out))"
proof -
  have rows: "same_reader (pn_conn ss) (pn_conn (session_of (fst (pop3_rows md row argument ss s))))" for row
    by (auto simp: pop3_rows_def Let_def dest: writeListing_reader split: option.split sum.split prod.split)
  have retr: "same_reader (pn_conn ss) (pn_conn (session_of (fst (pop3_retr md argument ss s))))"
    by (auto simp: pop3_retr_def stream_reply_reader split: option.split sum.split prod.split)
  have top: "same_reader (pn_conn ss) (pn_conn (session_of (fst (pop3_top md argument ss s))))"
    by (auto simp: pop3_top_def stream_reply_reader split: option.split sum.split prod.split)
  have dele: "same_reader (pn_conn ss) (pn_conn (session_of (fst (pop3_dele md argument ss s))))"
    by (auto simp: pop3_dele_def reply_reader_of split: option.split sum.split prod.split)
  have quit: "same_reader (pn_conn ss) (pn_conn (session_of (fst (pop3_quit md order argument ss s))))"
    by (auto simp: pop3_quit_def add_log_def reply_reader_of split: option.split prod.split)
  have pass: "same_reader (pn_conn ss) (pn_conn (session_of (pop3_pass sum256 sv md argument ss s)))"
    by (simp add: pop3_pass_def Let_def add_log_def reply_reader_of)
  have rest: "same_reader (pn_conn ss) (pn_conn (session_of (pop3_user argument ss)))"
    "same_reader (pn_conn ss) (pn_conn (session_of (pop3_rset argument ss)))"
    "same_reader (pn_conn ss) (pn_conn (session_of (pop3_capa argument ss)))"
    "same_reader (pn_conn ss) (pn_conn (session_of (pop3_stat argument ss)))"
    "same_reader (pn_conn ss) (pn_conn (session_of (pop3_noop argument ss)))"
    by (simp_all add: pop3_user_def pop3_rset_def pop3_capa_def pop3_stat_def pop3_noop_def reply_reader_of)
  have "same_reader (pn_conn ss) (pn_conn (session_of (fst (pop3_command sum256 sv md order command argument ss s))))"
    unfolding pop3_command_def using rows retr top dele quit pass rest by simp
  with assms show ?thesis by simp
qed

end

section \<open>Handlers that read the mailbox\<close>

context maildrop_laws
begin

lemma shown_keeps: "keeps_mail shown holds s s' \<Longrightarrow> shown s snap M \<Longrightarrow> shown s' snap M"
  and holds_keeps: "keeps_mail shown holds s s' \<Longrightarrow> holds s M \<Longrightarrow> holds s' M"
  and keeps_keeps: "keeps_mail shown holds s t \<Longrightarrow> keeps_mail shown holds t u \<Longrightarrow> keeps_mail shown holds s u"
  by (simp_all add: keeps_mail_def)

lemma shown_octets: "shown s snap M \<Longrightarrow> mailbox_octets M < 18446744073709551616"
  using shown_mail unat_le_64 [of "sn_TotalOctets snap"] by fastforce

lemma shown_number:
  assumes "shown s snap M"
  shows "messageID argument (snapshot_Count snap) = Some n \<Longrightarrow> n \<noteq> 0 \<and> unat n \<le> card (dom M)"
proof -
  assume "messageID argument (snapshot_Count snap) = Some n"
  then have "0 < n" "n \<le> of_nat (card (dom M))"
    using shown_mail [OF assms] by (auto simp: messageID_def snapshot_Count_def split: option.splits if_splits)
  moreover have "unat (of_nat (card (dom M)) :: u64) = card (dom M)" using shown_mail [OF assms] by (simp add: unat_of_nat_u64)
  ultimately show ?thesis by (auto simp: u64_le)
qed

text \<open>Looking a message up and opening it.\<close>

lemma fetch:
  assumes "ready s" "shown s snap M" "md_Lookup md snap n s = (Inr m, s1)" "md_OpenMessage md snap m s1 = (Inr source, s2)"
  shows "m = message_of (mail_id M n) (mail_text M n) \<and>
    (\<exists>rest. mail_text M n = fst source @ rest \<and> (snd source = None \<longrightarrow> rest = []))"
proof -
  note law = lookup_law [OF assms(1-3), simplified]
  have l: "ready s1" "shown s1 snap M" "n \<noteq> 0" "unat n \<le> card (dom M)" "m = mail_list M ! (unat n - 1)"
    using law shown_keeps [OF _ assms(2)] by simp_all
  from mail_number [OF l(3,4)] l(5) have m: "m = message_of (mail_id M n) (mail_text M n)" "M (mail_id M n) = Some (mail_text M n)"
    by simp_all
  from open_law [OF l(1,2) m(2)] assms(4) m(1) have "\<exists>rest. mail_text M n = fst source @ rest \<and> (snd source = None \<longrightarrow> rest = [])"
    by fastforce
  with m(1) show ?thesis by blast
qed

lemma fetch_ready:
  assumes "ready s" "shown s snap M" "md_Lookup md snap n s = (res, s1)"
  shows "ready s1 \<and> keeps_mail shown holds s s1 \<and> (healthy s \<longrightarrow> healthy s1)"
    "res = Inr m \<Longrightarrow> md_OpenMessage md snap m s1 = (opened, s2) \<Longrightarrow>
       ready s2 \<and> keeps_mail shown holds s s2 \<and> (healthy s \<longrightarrow> healthy s2)"
proof -
  note l = lookup_law [OF assms]
  show r1: "ready s1 \<and> keeps_mail shown holds s s1 \<and> (healthy s \<longrightarrow> healthy s1)" using l by blast
  assume m: "res = Inr m" and o: "md_OpenMessage md snap m s1 = (opened, s2)"
  with l have n: "n \<noteq> 0" "unat n \<le> card (dom M)" "m = mail_list M ! (unat n - 1)" by auto
  from mail_number [OF n(1,2)] n(3) o
  have "M (mail_id M n) = Some (mail_text M n)" "md_OpenMessage md snap (message_of (mail_id M n) (mail_text M n)) s1 = (opened, s2)"
    by simp_all
  note o = this
  have "shown s1 snap M" using r1 shown_keeps [OF _ assms(2)] by simp
  from open_law [OF conjunct1 [OF r1] this o] have "ready s2 \<and> keeps_mail shown holds s1 s2 \<and> (healthy s1 \<longrightarrow> healthy s2)"
    by simp
  with r1 keeps_keeps show "ready s2 \<and> keeps_mail shown holds s s2 \<and> (healthy s \<longrightarrow> healthy s2)" by blast
qed

text \<open>A store that was only read, and the session whose marks have not changed.\<close>

definition only_read :: "'s \<Rightarrow> 's \<Rightarrow> bool" where
  "only_read s s' \<longleftrightarrow> ready s' \<and> keeps_mail shown holds s s' \<and> (healthy s \<longrightarrow> healthy s')"

lemma rows_only_read:
  assumes "ready s" "shown s (pn_snapshot ss) M" "pop3_rows md row argument ss s = (out, s')"
  shows "only_read s s'"
proof -
  have none: "only_read s s" using assms(1) by (simp add: only_read_def)
  have list: "only_read s t" if "md_ListAt md (pn_snapshot ss) visit w s = (err, w', t)" for visit w err w' t
    using list_law [OF assms(1,2) that] by (auto simp: only_read_def)
  have listing: "only_read s t" if x: "writeListing md row ss s = (ok, ss', t)" for ok ss' t
    using x none list by (auto simp: writeListing_def Let_def split: prod.splits if_splits)
  have look: "only_read s t" if "md_Lookup md (pn_snapshot ss) n s = (res, t)" for n res t
    using fetch_ready(1) [OF assms(1,2) that] by (simp add: only_read_def)
  show ?thesis
    using assms(3) [unfolded pop3_rows_def] listing none look
    by (auto split: if_splits option.splits sum.splits prod.splits)
qed

lemma stream_only_read:
  assumes "ready s" "shown s (pn_snapshot ss) M" "md_Lookup md (pn_snapshot ss) n s = (res, s1)"
  shows "only_read s s1" "res = Inr m \<Longrightarrow> md_OpenMessage md (pn_snapshot ss) m s1 = (opened, s2) \<Longrightarrow> only_read s s2"
  using fetch_ready [OF assms] by (simp_all add: only_read_def)

lemma retr_only_read:
  assumes "ready s" "shown s (pn_snapshot ss) M" "pop3_retr md argument ss s = (out, s')"
  shows "only_read s s'"
proof -
  have "only_read s s" using assms(1) by (simp add: only_read_def)
  with assms(3) [unfolded pop3_retr_def] stream_only_read [OF assms(1,2)] show ?thesis
    by (auto split: if_splits option.splits sum.splits prod.splits)
qed

lemma top_only_read:
  assumes "ready s" "shown s (pn_snapshot ss) M" "pop3_top md argument ss s = (out, s')"
  shows "only_read s s'"
proof -
  have "only_read s s" using assms(1) by (simp add: only_read_def)
  with assms(3) [unfolded pop3_top_def] stream_only_read [OF assms(1,2)] show ?thesis
    by (auto split: if_splits option.splits sum.splits prod.splits)
qed

lemma dele_only_read:
  assumes "ready s" "shown s (pn_snapshot ss) M" "session_mail M ss" "pop3_dele md argument ss s = (out, s')"
  shows "only_read s s' \<and> session_mail M (session_of out) \<and>
    pn_authenticated (session_of out) = pn_authenticated ss \<and> pn_snapshot (session_of out) = pn_snapshot ss"
proof -
  have none: "only_read s s" using assms(1) by (simp add: only_read_def)
  have says: "session_mail M (fst (pop3_reply ss' l)) = session_mail M ss'" for ss' l
    by (rule session_mail_same) simp
  have mark: "only_read s t \<and>
      session_mail M (ss\<lparr>pn_deleted := AList.update n (MsgID m) (pn_deleted ss), pn_deletedOctets := pn_deletedOctets ss + MsgSize m\<rparr>)"
    if x: "messageID argument (snapshot_Count (pn_snapshot ss)) = Some n" "marked ss n = 0"
      "md_Lookup md (pn_snapshot ss) n s = (Inr m, t)" for n m t
  proof -
    note n = shown_number [OF assms(2) x(1)]
    have "m = mail_list M ! (unat n - 1)" using lookup_law [OF assms(1,2) x(3)] by simp
    with session_mail_mark [OF assms(3) x(2)] n shown_mail [OF assms(2)] shown_octets [OF assms(2)] fetch_ready(1) [OF assms(1,2) x(3)]
    show ?thesis by (simp add: only_read_def)
  qed
  have look: "only_read s t" if "md_Lookup md (pn_snapshot ss) n s = (res, t)" for n res t
    using fetch_ready(1) [OF assms(1,2) that] by (simp add: only_read_def)
  show ?thesis
    using assms(4) [unfolded pop3_dele_def] assms(3) none look mark
    by (simp split: if_splits option.splits sum.splits prod.splits) (auto simp: says)
qed

end

end
