(* ===== verification/Pop3_Serve.thy ===== *)
theory Pop3_Serve
  imports Pop3_Contract
begin

text \<open>
  The answers of the POP3 commands under the mailbox contract, one turn of the session loop, and
  whole sessions, with other sessions at work between the turns.
\<close>

section \<open>Answers\<close>

text \<open>\<open>RETR\<close> and \<open>TOP\<close> of a number: refused, failed, or served.\<close>

definition number_of :: "string \<Rightarrow> pop3_session \<Rightarrow> u64 option" where
  "number_of argument ss =
     (case messageID argument (snapshot_Count (pn_snapshot ss)) of
        Some n \<Rightarrow> if n \<in> fst ` set (pn_deleted ss) then None else Some n
      | None \<Rightarrow> None)"

definition served :: "pop3_session \<Rightarrow> string \<Rightarrow> u64 option \<Rightarrow> string \<Rightarrow> pop3_outcome \<Rightarrow> bool" where
  "served ss greeting limit c out \<longleftrightarrow>
     out \<in> {says ss ''-ERR unable to inspect message'', says ss ''-ERR unable to open message''} \<or>
     (case out of Open ss' \<Rightarrow> serves greeting limit c ss ss' | Ended _ \<Rightarrow> True)"

lemma served_stream:
  assumes "pn_open ss" "c = fst source @ rest" "snd source = None \<longrightarrow> rest = []"
  shows "served ss greeting limit c (stream_reply greeting limit source ss)"
proof (cases "stream_reply greeting limit source ss")
  case (Open ss')
  with stream_reply_serves [OF assms Open] show ?thesis by (simp add: served_def)
qed (simp add: served_def)

text \<open>The command that deletes.\<close>

definition quits :: "string \<Rightarrow> string \<Rightarrow> pop3_session \<Rightarrow> bool" where
  "quits command argument ss \<longleftrightarrow> command = ''QUIT'' \<and> argument = [] \<and> pn_authenticated ss \<and> pn_deleted ss \<noteq> []"

context maildrop_laws
begin

lemma session_number:
  assumes "shown s (pn_snapshot ss) M" "session_mail M ss"
  shows "number_of argument ss =
    (case messageID argument (snapshot_Count (pn_snapshot ss)) of
       None \<Rightarrow> None | Some n \<Rightarrow> if marked ss n \<noteq> 0 then None else Some n)"
proof -
  have "0 \<notin> dom M" "marks_ok M (pn_deleted ss)"
    using shown_mail [OF assms(1)] assms(2) by (auto simp: mailbox_ok_def session_mail_def)
  from marked_iff [OF this(2,1)] show ?thesis by (simp add: number_of_def split: option.split)
qed

lemma fetched:
  assumes "ready s" "shown s (pn_snapshot ss) M" "pn_open ss"
    and "md_Lookup md (pn_snapshot ss) n s = (Inr m, s1)" "md_OpenMessage md (pn_snapshot ss) m s1 = (Inr source, s2)"
  shows "served ss greeting limit (mail_text M n) (stream_reply greeting limit source ss) \<and>
    unat (MsgSize m) = length (mail_text M n)"
proof -
  note f = fetch [OF assms(1,2,4,5)]
  from conjunct2 [OF f] obtain rest where r: "mail_text M n = fst source @ rest \<and> (snd source = None \<longrightarrow> rest = [])" ..
  have n: "n \<noteq> 0" "unat n \<le> card (dom M)" using lookup_law [OF assms(1,2,4)] by simp_all
  have "length (mail_text M n) < 18446744073709551616"
    using mail_number [OF n] shown_mail [OF assms(2)] by (auto simp: mailbox_ok_def)
  then show ?thesis using served_stream [OF assms(3) conjunct1 [OF r] conjunct2 [OF r]] by (simp add: conjunct1 [OF f] unat_of_nat_u64)
qed

lemma retr_reply:
  assumes "ready s" "shown s (pn_snapshot ss) M" "session_mail M ss" "pn_authenticated ss" "pn_open ss"
    and "pop3_retr md argument ss s = (out, s')"
  shows "case number_of argument ss of
      None \<Rightarrow> out = says ss ''-ERR no such message'' \<and> s' = s
    | Some n \<Rightarrow> served ss (''+OK '' @ fmt_nat 10 (length (mail_text M n)) @ '' octets'') None (mail_text M n) out"
proof (cases "number_of argument ss")
  case None
  with assms(4,6) show ?thesis
    unfolding session_number [OF assms(2,3)] by (auto simp: pop3_retr_def split: option.splits if_splits)
next
  case (Some n)
  then have n: "messageID argument (snapshot_Count (pn_snapshot ss)) = Some n" "marked ss n = 0"
    unfolding session_number [OF assms(2,3)] by (auto split: option.splits if_splits)
  obtain res s1 where x: "md_Lookup md (pn_snapshot ss) n s = (res, s1)" by (meson surj_pair)
  note def = assms(6) [unfolded pop3_retr_def n(1) option.case x prod.case]
  show ?thesis
  proof (cases res)
    case (Inl e)
    with def n(2) assms(4) have "out = says ss ''-ERR unable to inspect message''" by simp
    with Some show ?thesis by (simp add: served_def)
  next
    case (Inr m)
    obtain opened s2 where y: "md_OpenMessage md (pn_snapshot ss) m s1 = (opened, s2)" by (meson surj_pair)
    show ?thesis
    proof (cases opened)
      case (Inl e)
      with def n(2) assms(4) Inr y have "out = says ss ''-ERR unable to open message''" by simp
      with Some show ?thesis by (simp add: served_def)
    next
      case o: (Inr source)
      with def n(2) assms(4) Inr y
      have out: "out = stream_reply (''+OK '' @ format_uint (MsgSize m) 10 @ '' octets'') None source ss" by simp
      from fetched [OF assms(1,2,5) x [unfolded Inr] y [unfolded o]] Some show ?thesis
        by (simp add: out format_uint_def)
    qed
  qed
qed

lemma top_reply:
  assumes "ready s" "shown s (pn_snapshot ss) M" "session_mail M ss" "pn_authenticated ss" "pn_open ss"
    and "pop3_top md argument ss s = (out, s')"
  shows "case topArguments argument (snapshot_Count (pn_snapshot ss)) of
      None \<Rightarrow> out = says ss ''-ERR invalid arguments'' \<and> s' = s
    | Some (n, limit) \<Rightarrow>
        if n \<in> fst ` set (pn_deleted ss) then out = says ss ''-ERR invalid arguments'' \<and> s' = s
        else served ss ''+OK top of message follows'' (Some limit) (mail_text M n) out"
proof (cases "topArguments argument (snapshot_Count (pn_snapshot ss))")
  case None
  with assms(4,6) show ?thesis by (simp add: pop3_top_def)
next
  case (Some a)
  obtain n limit where a: "a = (n, limit)" by (meson surj_pair)
  have z: "0 \<notin> dom M" "marks_ok M (pn_deleted ss)"
    using shown_mail [OF assms(2)] assms(3) by (auto simp: mailbox_ok_def session_mail_def)
  note mk = marked_iff [OF z(2,1), of n]
  obtain res s1 where x: "md_Lookup md (pn_snapshot ss) n s = (res, s1)" by (meson surj_pair)
  note def = assms(6) [unfolded pop3_top_def Some a option.case x prod.case mk]
  show ?thesis
  proof (cases "n \<in> fst ` set (pn_deleted ss)")
    case True
    with def assms(4) Some a show ?thesis by simp
  next
    case False
    have "served ss ''+OK top of message follows'' (Some limit) (mail_text M n) out"
    proof (cases res)
      case (Inl e)
      with def False assms(4) show ?thesis by (simp add: served_def)
    next
      case (Inr m)
      obtain opened s2 where y: "md_OpenMessage md (pn_snapshot ss) m s1 = (opened, s2)" by (meson surj_pair)
      show ?thesis
      proof (cases opened)
        case (Inl e)
        with def False assms(4) Inr y show ?thesis by (simp add: served_def)
      next
        case o: (Inr source)
        with def False assms(4) Inr y have "out = stream_reply ''+OK top of message follows'' (Some limit) source ss" by simp
        with fetched [OF assms(1,2,5) x [unfolded Inr] y [unfolded o]] show ?thesis by simp
      qed
    qed
    with Some a False show ?thesis by simp
  qed
qed

lemma stat_reply:
  assumes "shown s (pn_snapshot ss) M" "session_mail M ss" "pn_authenticated ss"
  shows "pop3_stat [] ss =
    says ss (''+OK '' @ fmt_nat 10 (card (dom (unmarked M ss))) @ '' '' @ fmt_nat 10 (mailbox_octets (unmarked M ss)))"
proof -
  note sh = shown_mail [OF assms(1)]
  have "card (dom M) < 18446744073709551616" using sh by blast
  note b = session_mail_bounds [OF assms(2) shown_octets [OF assms(1)] this]
  have "snapshot_Count (pn_snapshot ss) = of_nat (card (dom M))" using sh by (simp add: snapshot_Count_def)
  with assms(3) b(1) b(2) [of "sn_TotalOctets (pn_snapshot ss)"] sh show ?thesis
    by (simp add: pop3_stat_def format_uint_def)
qed

lemma row_reply:
  assumes "ready s" "shown s (pn_snapshot ss) M" "session_mail M ss" "pn_authenticated ss" "argument \<noteq> []"
    and "pop3_rows md row argument ss s = (out, s')"
  shows "case number_of argument ss of
      None \<Rightarrow> out = says ss ''-ERR no such message'' \<and> s' = s
    | Some n \<Rightarrow> out = says ss ''-ERR unable to inspect message'' \<or>
        out = says ss (''+OK '' @ row n (mail_id M n) (of_nat (length (mail_text M n))))"
proof (cases "number_of argument ss")
  case None
  with assms(4-6) show ?thesis
    unfolding session_number [OF assms(2,3)] by (auto simp: pop3_rows_def split: option.splits if_splits)
next
  case (Some n)
  then have n: "messageID argument (snapshot_Count (pn_snapshot ss)) = Some n" "marked ss n = 0"
    unfolding session_number [OF assms(2,3)] by (auto split: option.splits if_splits)
  obtain res s1 where x: "md_Lookup md (pn_snapshot ss) n s = (res, s1)" by (meson surj_pair)
  note def = assms(6) [unfolded pop3_rows_def n(1) option.case x prod.case]
  show ?thesis
  proof (cases res)
    case (Inl e)
    with def n(2) assms(4,5) Some show ?thesis by simp
  next
    case (Inr m)
    with lookup_law [OF assms(1,2) x] have "m = message_of (mail_id M n) (mail_text M n)" using mail_number [of n M] by simp
    with def n(2) assms(4,5) Some Inr show ?thesis by simp
  qed
qed

lemma listing_reply:
  assumes "ready s" "shown s (pn_snapshot ss) M" "pn_authenticated ss" "pn_open ss"
    and "pop3_rows md row [] ss s = (Open ss', s')"
  shows "pn_out ss' = pn_out ss @ ''+OK listing follows'' @ CRLF @ listing_text ss row 0 (mail_list M) @ ''.'' @ CRLF"
proof -
  obtain ok1 w1 where x1: "bw_write (''+OK listing follows'' @ CRLF) ([], pn_conn ss) = (ok1, w1)" by (meson surj_pair)
  have "bw_open ([], pn_conn ss)" using assms(4) by (simp add: bw_open_def pn_open_def)
  note r1 = bw_write_open [OF this x1]
  obtain err w2 s2 where x2: "md_ListAt md (pn_snapshot ss) (listing_row ss row) w1 s = (err, w2, s2)" by (metis surj_pair)
  obtain ok3 w3 where x3: "bw_write (''.'' @ CRLF) w2 = (ok3, w3)" by (meson surj_pair)
  obtain ok4 w4 where x4: "bw_flush w3 = (ok4, w4)" by (meson surj_pair)
  obtain ok t ss2 where w: "writeListing md row ss s = (ok, ss2, t)" by (metis surj_pair)
  then have o: "ok" "ss' = ss2" using assms(3,5) by (auto simp: pop3_rows_def split: if_splits)
  note def = w [unfolded writeListing_def x1 Let_def prod.case x2 x3 x4]
  have d: "err = None" "ss2 = ss\<lparr>pn_conn := snd w4\<rparr>"
    using def o(1) r1 by (auto split: if_splits)
  from list_law [OF assms(1,2) x2] d(1) obtain err' where v: "visit_all (listing_row ss row) 0 (mail_list M) w1 = (err', w2)" "err' = None"
    by auto
  from r1 have "bw_open w1" by blast
  with listing_visit_open [of w1 ss row 0] v have r2: "bw_open w2 \<and> bw_bytes w2 = bw_bytes w1 @ listing_text ss row 0 (mail_list M)"
    by simp
  then have "bw_open w2" by blast
  note r3 = bw_write_open [OF this x3]
  then have "bw_open w3" by blast
  note r4 = bw_flush_open [OF this x4]
  show ?thesis using r1 r2 r3 r4 d(2) o(2) by (simp add: pn_out_def bw_bytes_def)
qed

lemma quit_safe:
  assumes "ready s" "healthy s" "holds s N" "\<And>xs. set (order xs) = set xs" "pn_authenticated ss" "pn_deleted ss \<noteq> []"
    and "pop3_quit md order [] ss s = (out, s')"
  shows "ready s' \<and> (\<exists>M'. R\<^sup>*\<^sup>* N M' \<and>
       (out = Ended (fst (pop3_reply ss ''+OK bye'')) \<and> healthy s' \<and> holds s' (unmarked M' ss) \<or>
        (\<exists>e. out = Ended (fst (pop3_reply (add_log (LogDeletionFailed e) ss) ''-ERR unable to commit deletions''))) \<and>
        (holds s' M' \<or> holds s' (unmarked M' ss) \<and> \<not> healthy s')))"
proof -
  let ?ids = "order (map snd (pn_deleted ss))"
  obtain err t where x: "md_DeleteAs md ?ids (pn_username ss) s = (err, t)" by (meson surj_pair)
  have ids: "M' |` (- set ?ids) = unmarked M' ss" for M' by (simp add: unmarked_def assms(4))
  from delete_law [OF assms(1-3) x, unfolded ids] obtain M' where d: "ready t" "R\<^sup>*\<^sup>* N M'"
    "case err of None \<Rightarrow> healthy t \<and> holds t (unmarked M' ss)
      | Some e \<Rightarrow> holds t M' \<or> holds t (unmarked M' ss) \<and> \<not> healthy t" by blast
  show ?thesis
  proof (cases err)
    case None
    with assms(5-7) x have "out = Ended (fst (pop3_reply ss ''+OK bye''))" "s' = t" by (simp_all add: pop3_quit_def)
    with d None show ?thesis by auto
  next
    case (Some e)
    with assms(5-7) x have "out = Ended (fst (pop3_reply (add_log (LogDeletionFailed e) ss) ''-ERR unable to commit deletions''))" "s' = t"
      by (simp_all add: pop3_quit_def)
    with d Some show ?thesis by auto
  qed
qed

text \<open>Every other command only reads, and leaves the session fit for the next.\<close>

lemma command_safe:
  assumes "ready s" "healthy s" "holds s N" "pop3_ok shown s M ss" "\<not> quits command argument ss"
    and "pop3_command sum256 sv md order command argument ss s = (out, s')"
  shows "only_read s s' \<and> pop3_ok shown s' (if pn_authenticated ss then M else N) (session_of out)"
proof -
  let ?M = "if pn_authenticated ss then M else N"
  have none: "only_read s s" using assms(1) by (simp add: only_read_def)
  have ok: "pop3_ok shown s ?M ss" using assms(4) by (simp add: pop3_ok_def)
  have kept: "only_read s t \<and> pop3_ok shown t ?M ss'" if "only_read s t" "same_session ss ss'" for t ss'
  proof -
    from that(1) have "keeps_mail shown holds s t" by (simp add: only_read_def)
    from pop3_ok_same [OF ok that(2) this] that(1) show ?thesis by blast
  qed
  have shown: "shown s (pn_snapshot ss) M \<and> session_mail M ss" if "pn_authenticated ss"
    using that assms(4) by (simp add: pop3_ok_def)
  have plain: "only_read s s'" if "shown s (pn_snapshot ss) M \<Longrightarrow> only_read s s'"
    using that shown none authenticated_only_by_pass(1) [OF assms(6)] by (cases "pn_authenticated ss") simp_all
  from assms(6) show ?thesis
  proof (cases rule: pop3_command_cases)
    case same
    with kept none show ?thesis by simp
  next
    case (rows row)
    show ?thesis using kept [OF plain [OF rows_only_read [OF assms(1) _ rows]] pop3_rows_same [OF rows]] .
  next
    case retr
    show ?thesis using kept [OF plain [OF retr_only_read [OF assms(1) _ retr]] pop3_retr_same [OF retr]] .
  next
    case top
    show ?thesis using kept [OF plain [OF top_only_read [OF assms(1) _ top]] pop3_top_same [OF top]] .
  next
    case user
    have "pop3_ok shown s ?M (session_of out)"
      using ok unfolding user(1) by (cases "pn_authenticated ss") (simp_all add: pop3_user_def pop3_ok_def session_mail_def)
    with user(2) none show ?thesis by simp
  next
    case pass
    have "shown s (md_Snapshot md s) N" by (rule snapshot_law [OF assms(1-3)])
    then have "pop3_ok shown s ?M (session_of out)"
      using ok unfolding pass(2)
      by (cases "pn_authenticated ss") (auto simp: pop3_pass_def Let_def add_log_def pop3_ok_def session_mail_def marks_ok_def mailbox_octets_def split: if_splits)
    with pass(3) none show ?thesis by simp
  next
    case dele
    show ?thesis
    proof (cases "pn_authenticated ss")
      case False
      with dele kept [OF none, of "session_of out"] show ?thesis by (auto simp: pop3_dele_def)
    next
      case True
      from dele_only_read [OF assms(1) _ _ dele, of M] shown [OF True] True show ?thesis
        using shown_keeps [of s s' "pn_snapshot ss" M] by (simp add: pop3_ok_def only_read_def)
    qed
  next
    case rset
    have "pop3_ok shown s ?M (session_of out)"
      using ok unfolding rset(1)
      by (cases "pn_authenticated ss") (auto simp: pop3_rset_def pop3_ok_def session_mail_def marks_ok_def mailbox_octets_def split: if_splits)
    with rset(2) none show ?thesis by simp
  next
    case quit
    have nq: "argument \<noteq> [] \<or> \<not> (pn_authenticated ss \<and> pn_deleted ss \<noteq> [])" using assms(5) quit(1) by (auto simp: quits_def)
    then have "same_session ss (session_of out)" "s' = s" using quit(2) by (auto simp: pop3_quit_def split: if_splits)
    with kept none show ?thesis by simp
  qed
qed

end

end
