(* ===== verification/Pop3_Mail.thy ===== *)
theory Pop3_Mail
  imports Pop3_Serve Sample_Store
begin

text \<open>
  The archive as the mailbox of the POP3 server: its operations behind the interface, and the
  interpretation of the contract on them. A store is ready when its Git behaves as documented, the
  other sessions keep it serving, and its reader is between requests.
\<close>

definition store_open_all :: "'g git \<Rightarrow> snapshot \<Rightarrow> message \<Rightarrow> 'g store \<Rightarrow> (string \<times> goerr option) res \<times> 'g store" where
  "store_open_all G snap m s =
     (case OpenMessage G snap m s of
        (Inl e, s) \<Rightarrow> (Inl e, s)
      | (Inr br, s) \<Rightarrow>
          (let (bytes, err, br, s) = store_ReadAll br s; (_, s) = store_CloseBlob br s in (Inr (bytes, err), s)))"

definition store_maildrop ::
  "nat \<Rightarrow> 'g git \<Rightarrow> (string \<Rightarrow> bool) \<Rightarrow> commit_env \<Rightarrow> (nat \<Rightarrow> 'g store \<Rightarrow> 'g store) \<Rightarrow> 'g store maildrop" where
  "store_maildrop fuel G graphic env others =
     \<lparr>md_Snapshot = Snapshot, md_ListAt = ListAt G, md_Lookup = Lookup G, md_OpenMessage = store_open_all G,
      md_DeleteAs = DeleteAs fuel G graphic env others\<rparr>"

definition maildrop_ready ::
  "'g git \<Rightarrow> ('g \<Rightarrow> repo) \<Rightarrow> (mailbox \<Rightarrow> mailbox \<Rightarrow> bool) \<Rightarrow> commit_env \<Rightarrow> (nat \<Rightarrow> 'g store \<Rightarrow> 'g store)
    \<Rightarrow> 'g store \<Rightarrow> bool" where
  "maildrop_ready G view R env others s \<longleftrightarrow>
     git_sound G view \<and> order_ok env \<and> others_keep view R others \<and> store_base view s \<and> read_ready view s"

lemma snapshot_card:
  assumes "snapshot_shows view s snap M"
  shows "card (dom M) < 18446744073709551616"
proof -
  have "dom M \<subseteq> UNIV - {0}" using snapshot_showsD(3) [OF assms] by auto
  then have "card (dom M) \<le> card (UNIV - {0 :: u64})" by (intro card_mono) simp_all
  also have "\<dots> = card (UNIV :: u64 set) - 1" by (simp add: card_Diff_singleton)
  also have "\<dots> < 18446744073709551616" by (simp add: card_word)
  finally show ?thesis .
qed

text \<open>A listing visits messages whatever Git answers.\<close>

lemma list_messages_visits:
  "list_messages lastID visit n ms c = (res, c') \<Longrightarrow> \<exists>xs ys err. ms = xs @ ys \<and> visit_all visit n xs c = (err, c') \<and>
     (\<forall>k. res = Inr k \<longrightarrow> ys = [] \<and> err = None \<and> k = n + of_nat (length ms))"
proof (induction ms arbitrary: n c)
  case (Cons m ms)
  show ?case
  proof (cases "lastID < MsgID m")
    case True
    with Cons.prems have "visit_all visit n [] c = (None, c')" "res = Inl (ErrMsg ''directory contains unallocated message ID'')"
      by simp_all
    then show ?thesis by - (rule exI [of _ "[]"], rule exI [of _ "m # ms"], rule exI [of _ None], simp)
  next
    case False
    obtain e c1 where x: "visit (n + 1) (MsgID m) (MsgSize m) c = (e, c1)" by (meson surj_pair)
    show ?thesis
    proof (cases e)
      case (Some a)
      with Cons.prems False x have "visit_all visit n [m] c = (Some a, c')" "res = Inl a" by simp_all
      then show ?thesis by - (rule exI [of _ "[m]"], rule exI [of _ ms], rule exI [of _ "Some a"], simp)
    next
      case None
      with Cons.prems False x have "list_messages lastID visit (n + 1) ms c1 = (res, c')" by simp
      from Cons.IH [OF this] obtain xs ys err where IH: "ms = xs @ ys" "visit_all visit (n + 1) xs c1 = (err, c')"
          "\<forall>k. res = Inr k \<longrightarrow> ys = [] \<and> err = None \<and> k = n + 1 + of_nat (length ms)" by blast
      have "visit_all visit n (m # xs) c = (err, c')" using x None IH(2) by simp
      moreover have "\<forall>k. res = Inr k \<longrightarrow> ys = [] \<and> err = None \<and> k = n + of_nat (length (m # ms))"
        using IH(3) by (simp add: add_ac)
      moreover have "m # ms = (m # xs) @ ys" using IH(1) by simp
      ultimately show ?thesis by blast
    qed
  qed
qed auto

lemma list_leaves_visits:
  "list_leaves G snap visit n leaves c s = (err, c', s') \<Longrightarrow> \<exists>ms err'. visit_all visit n ms c = (err', c')"
proof (induction leaves arbitrary: n c s)
  case Nil
  then have "visit_all visit n [] c = (None, c')" by simp
  then show ?case by blast
next
  case (Cons leaf leaves)
  obtain dr s1 where x: "directory G (sn_commit snap) (dc_path leaf) s = (dr, s1)" by (meson surj_pair)
  have stop: ?case if "c' = c" using that by (intro exI [of _ "[]"] exI [of _ None]) simp
  show ?case
  proof (cases dr)
    case (Inl e)
    with Cons.prems x stop show ?thesis by simp
  next
    case (Inr ms)
    obtain lr c1 where y: "list_messages (sn_LastID snap) visit n ms c = (lr, c1)" by (meson surj_pair)
    from list_messages_visits [OF y] obtain xs ys e where v: "ms = xs @ ys" "visit_all visit n xs c = (e, c1)"
        "\<forall>k. lr = Inr k \<longrightarrow> ys = [] \<and> e = None \<and> k = n + of_nat (length ms)" by blast
    show ?thesis
    proof (cases lr)
      case (Inl a)
      then have "c' = c1 \<or> c' = c" using Cons.prems x y Inr by (auto split: if_splits)
      with stop v(2) show ?thesis by blast
    next
      case r: (Inr k)
      show ?thesis
      proof (cases "of_nat (length ms) \<noteq> dc_count leaf")
        case True
        with Cons.prems x Inr stop show ?thesis by simp
      next
        case False
        then have "list_leaves G snap visit k leaves c1 s1 = (err, c', s')" using Cons.prems x y Inr r by simp
        from Cons.IH [OF this] obtain ms' err' where "visit_all visit k ms' c1 = (err', c')" by blast
        moreover have "xs = ms" "e = None" "k = n + of_nat (length ms)" using v(1,3) r by simp_all
        ultimately have "visit_all visit n (ms @ ms') c = (err', c')" using v(2) by (simp add: visit_all_append)
        then show ?thesis by blast
      qed
    qed
  qed
qed

lemma ListAt_visits: "ListAt G snap visit c s = (err, c', s') \<Longrightarrow> \<exists>n ms err'. visit_all visit n ms c = (err', c')"
proof -
  assume a: "ListAt G snap visit c s = (err, c', s')"
  show ?thesis
  proof (cases "sn_index snap")
    case None
    with a have "visit_all visit 0 [] c = (None, c')" by (simp add: ListAt_def)
    then show ?thesis by blast
  next
    case (Some index)
    with a list_leaves_visits [of G snap visit 0 "di_leaves index" c s err c' s'] show ?thesis by (auto simp: ListAt_def)
  qed
qed

interpretation visiting: visiting_maildrop "store_maildrop fuel G graphic env others"
  for fuel :: nat and G :: "'g git" and graphic :: "string \<Rightarrow> bool" and env :: commit_env and others :: "nat \<Rightarrow> 'g store \<Rightarrow> 'g store"
  by unfold_locales (simp add: store_maildrop_def ListAt_visits)

section \<open>The laws\<close>

text \<open>A step that only reads, as the contract has it.\<close>

lemma read_step_only:
  assumes "maildrop_ready G view R env others s" "read_step view s s'" "read_ready view s'"
  shows "maildrop_ready G view R env others s' \<and> keeps_mail (snapshot_shows view) (store_holds view) s s' \<and>
    (st_failure s = None \<longrightarrow> st_failure s' = None)"
proof (intro conjI impI)
  note st = read_stepD [OF assms(2)]
  show "maildrop_ready G view R env others s'"
    using assms(1,3) store_holds_read(2) [OF assms(2)] by (simp add: maildrop_ready_def)
  show "keeps_mail (snapshot_shows view) (store_holds view) s s'"
    using store_holds_read(1) [OF assms(2)] snapshot_shows_extends [OF st(1)] by (simp add: keeps_mail_def)
  show "st_failure s = None \<Longrightarrow> st_failure s' = None" using st(4) by simp
qed

lemma store_open_all_sound:
  assumes "git_sound G view" "read_ready view s" "snapshot_shows view s snap M" "M i = Some c"
    and "store_open_all G snap (message_of i c) s = (opened, s')"
  shows "read_step view s s' \<and> read_ready view s' \<and>
    (case opened of Inr source \<Rightarrow> \<exists>rest. c = fst source @ rest \<and> (snd source = None \<longrightarrow> rest = []) | Inl e \<Rightarrow> True)"
proof -
  obtain r s1 where x: "OpenMessage G snap (message_of i c) s = (r, s1)" by (meson surj_pair)
  note o = OpenMessage_sound [OF assms(1-4) x]
  show ?thesis
  proof (cases r)
    case (Inl e)
    with assms(5) x o show ?thesis by (auto simp: store_open_all_def)
  next
    case (Inr br)
    obtain bytes err br2 s2 where y: "store_ReadAll br s1 = (bytes, err, br2, s2)" by (metis surj_pair)
    obtain ce s3 where z: "store_CloseBlob br2 s2 = (ce, s3)" by (meson surj_pair)
    have r: "opened = Inr (bytes, err)" "s' = s3" using assms(5) x Inr y z by (simp_all add: store_open_all_def)
    from o Inr have rd: "reading c br (leased_pipe (st_reader s1))" "read_step view s s1"
        "cache_sound (view (st_git s1)) (st_cache s1)" by simp_all
    note ra = store_ReadAll_sound [where view = view, OF rd(1) y]
    have c2: "cache_sound (view (st_git s2)) (st_cache s2)" using ra rd(3) by simp
    from ra store_CloseBlob_sound [where view = view, OF _ _ c2 z] have "read_step view s2 s3 \<and> read_ready view s3" by blast
    with ra rd(2) read_step_trans [of view s s1 s2] read_step_trans [of view s s2 s3] r show ?thesis by auto
  qed
qed

lemma maildrop_readyD:
  assumes "maildrop_ready G view R env others s"
  shows "git_sound G view" "order_ok env" "others_keep view R others" "store_base view s" "read_ready view s"
  using assms by (simp_all add: maildrop_ready_def)

interpretation pop: maildrop_laws "store_maildrop fuel G graphic env others" "maildrop_ready G view R env others"
    "snapshot_shows view" "store_holds view" "\<lambda>s. st_failure s = None" R
  for fuel :: nat and G :: "'g git" and view :: "'g \<Rightarrow> repo" and graphic :: "string \<Rightarrow> bool" and env :: commit_env
    and others :: "nat \<Rightarrow> 'g store \<Rightarrow> 'g store" and R :: "mailbox \<Rightarrow> mailbox \<Rightarrow> bool"
proof unfold_locales
  fix s :: "'g store" and snap M
  assume "snapshot_shows view s snap M"
  with snapshot_card [OF this] show "mailbox_ok M \<and> sn_MessageCount snap = of_nat (card (dom M)) \<and>
      card (dom M) < 18446744073709551616 \<and> unat (sn_TotalOctets snap) = mailbox_octets M"
    by (simp add: snapshot_shows_def)
next
  fix s :: "'g store" and M
  assume "store_holds view s M" "st_failure s = None"
  from Snapshot_shows [OF this] show "snapshot_shows view s (md_Snapshot (store_maildrop fuel G graphic env others) s) M"
    by (simp add: store_maildrop_def)
next
  fix s s' :: "'g store" and snap M n res
  assume a: "maildrop_ready G view R env others s" "snapshot_shows view s snap M"
    "md_Lookup (store_maildrop fuel G graphic env others) snap n s = (res, s')"
  note rd = maildrop_readyD [OF a(1)]
  from a(3) have x: "Lookup G snap n s = (res, s')" by (simp add: store_maildrop_def)
  note l = Lookup_sound [OF rd(1,5) a(2) x]
  then have "read_step view s s'" "read_ready view s'" by blast+
  from read_step_only [OF a(1) this] have keep: "maildrop_ready G view R env others s' \<and>
    keeps_mail (snapshot_shows view) (store_holds view) s s' \<and> (st_failure s = None \<longrightarrow> st_failure s' = None)" .
  have "case res of Inr m \<Rightarrow> n \<noteq> 0 \<and> unat n \<le> card (dom M) \<and> m = mail_list M ! (unat n - 1) | Inl e \<Rightarrow> True"
    using l by (auto split: sum.splits if_splits)
  with keep show "maildrop_ready G view R env others s' \<and> keeps_mail (snapshot_shows view) (store_holds view) s s' \<and>
      (st_failure s = None \<longrightarrow> st_failure s' = None) \<and>
      (case res of Inr m \<Rightarrow> n \<noteq> 0 \<and> unat n \<le> card (dom M) \<and> m = mail_list M ! (unat n - 1) | Inl e \<Rightarrow> True)" by blast
next
  fix s s' :: "'g store" and snap M i c opened
  assume a: "maildrop_ready G view R env others s" "snapshot_shows view s snap M" "M i = Some c"
    "md_OpenMessage (store_maildrop fuel G graphic env others) snap (message_of i c) s = (opened, s')"
  note rd = maildrop_readyD [OF a(1)]
  from a(4) have x: "store_open_all G snap (message_of i c) s = (opened, s')" by (simp add: store_maildrop_def)
  note o = store_open_all_sound [OF rd(1,5) a(2,3) x]
  then have "read_step view s s'" "read_ready view s'" by blast+
  from read_step_only [OF a(1) this] o show "maildrop_ready G view R env others s' \<and>
      keeps_mail (snapshot_shows view) (store_holds view) s s' \<and> (st_failure s = None \<longrightarrow> st_failure s' = None) \<and>
      (case opened of Inr source \<Rightarrow> \<exists>rest. c = fst source @ rest \<and> (snd source = None \<longrightarrow> rest = []) | Inl e \<Rightarrow> True)"
    by blast
next
  fix s s' :: "'g store" and snap M and visit :: "u64 \<Rightarrow> u64 \<Rightarrow> u64 \<Rightarrow> bufw \<Rightarrow> goerr option \<times> bufw" and w err w'
  assume a: "maildrop_ready G view R env others s" "snapshot_shows view s snap M"
    "md_ListAt (store_maildrop fuel G graphic env others) snap visit w s = (err, w', s')"
  note rd = maildrop_readyD [OF a(1)]
  from a(3) have x: "ListAt G snap visit w s = (err, w', s')" by (simp add: store_maildrop_def)
  note l = ListAt_sound [OF rd(1,5) a(2) x]
  then have "read_step view s s'" "read_ready view s'" by blast+
  note keep = read_step_only [OF a(1) this]
  have "\<exists>xs ys err'. mail_list M = xs @ ys \<and> visit_all visit 0 xs w = (err', w') \<and> (err = None \<longrightarrow> ys = [] \<and> err' = None)"
  proof (cases "(err, w') = visit_all visit 0 (mail_list M) w")
    case True
    then have "mail_list M = mail_list M @ [] \<and> visit_all visit 0 (mail_list M) w = (err, w')" by simp
    then show ?thesis by blast
  next
    case False
    with l obtain e xs ys where "err = Some e" "mail_list M = xs @ ys" "visit_all visit 0 xs w = (None, w')" by blast
    then show ?thesis by blast
  qed
  with keep show "maildrop_ready G view R env others s' \<and> keeps_mail (snapshot_shows view) (store_holds view) s s' \<and>
      (st_failure s = None \<longrightarrow> st_failure s' = None) \<and>
      (\<exists>xs ys err'. mail_list M = xs @ ys \<and> visit_all visit 0 xs w = (err', w') \<and> (err = None \<longrightarrow> ys = [] \<and> err' = None))"
    by blast
next
  fix s s' :: "'g store" and M ids username err
  assume a: "maildrop_ready G view R env others s" "st_failure s = None" "store_holds view s M"
    "md_DeleteAs (store_maildrop fuel G graphic env others) ids username s = (err, s')"
  note rd = maildrop_readyD [OF a(1)]
  from a(4) have x: "delete_loop fuel G graphic env others (sort ids) username s = (err, s')"
    by (simp add: store_maildrop_def DeleteAs_def)
  have sv: "serving view s M" using rd a(2,3) by (simp add: serving_def)
  from delete_loop_sound [OF rd(1-3) sorted_sort sv x, unfolded set_sort] obtain M' where d: "R\<^sup>*\<^sup>* M M'" "store_base view s'"
    "read_ready view s'"
    "case err of
       None \<Rightarrow> serving view s' (M' |` (- set ids))
     | Some e \<Rightarrow> outcome_ok view M' (M' |` (- set ids)) False s'" by blast
  have "maildrop_ready G view R env others s'" using rd d by (simp add: maildrop_ready_def)
  moreover have "case err of
       None \<Rightarrow> st_failure s' = None \<and> store_holds view s' (M' |` (- set ids))
     | Some e \<Rightarrow> store_holds view s' M' \<or> store_holds view s' (M' |` (- set ids)) \<and> st_failure s' \<noteq> None"
    using d(4) by (auto simp: serving_def outcome_ok_def split: option.splits)
  ultimately show "maildrop_ready G view R env others s' \<and> (\<exists>M'. R\<^sup>*\<^sup>* M M' \<and>
      (case err of
         None \<Rightarrow> st_failure s' = None \<and> store_holds view s' (M' |` (- set ids))
       | Some e \<Rightarrow> store_holds view s' M' \<or> store_holds view s' (M' |` (- set ids)) \<and> st_failure s' \<noteq> None))"
    using d(1) by blast
qed

end
