(* ===== verification/Pop3_Live.thy ===== *)
theory Pop3_Live
  imports Pop3_Mail Sample_Live
begin

text \<open>
  That mail is handed out and deleted: the contract of a mailbox that answers, which extends the one of
  \<open>Pop3_Contract\<close>, what the commands that read or delete do under it, and its interpretation on
  the archive with a Git that answers in full and carries out commits.
\<close>

section \<open>A mailbox that answers\<close>

text \<open>
  While \<open>answering\<close> holds of a mailbox, its messages are found, opened, read to the end and listed;
  where \<open>erasable\<close> holds of some IDs, they can be deleted.
\<close>

locale answering_maildrop = maildrop_laws md ready shown holds healthy R
  for md :: "'s maildrop"
    and ready :: "'s \<Rightarrow> bool"
    and shown :: "'s \<Rightarrow> snapshot \<Rightarrow> mailbox \<Rightarrow> bool"
    and holds :: "'s \<Rightarrow> mailbox \<Rightarrow> bool"
    and healthy :: "'s \<Rightarrow> bool"
    and R :: "mailbox \<Rightarrow> mailbox \<Rightarrow> bool" +
  fixes answering :: "mailbox \<Rightarrow> 's \<Rightarrow> bool"
    and erasable :: "u64 list \<Rightarrow> mailbox \<Rightarrow> 's \<Rightarrow> bool"
  assumes lookup_live: "ready s \<Longrightarrow> answering M s \<Longrightarrow> shown s snap M \<Longrightarrow> n \<noteq> 0 \<Longrightarrow> unat n \<le> card (dom M) \<Longrightarrow>
      \<exists>m s'. md_Lookup md snap n s = (Inr m, s') \<and> answering M s'"
    and open_live: "ready s \<Longrightarrow> answering M s \<Longrightarrow> shown s snap M \<Longrightarrow> M i = Some c \<Longrightarrow>
      \<exists>s'. md_OpenMessage md snap (message_of i c) s = (Inr (c, None), s') \<and> answering M s'"
    and list_live: "ready s \<Longrightarrow> answering M s \<Longrightarrow> shown s snap M \<Longrightarrow> md_ListAt md snap visit w s = (err, w', s') \<Longrightarrow>
      (err, w') = visit_all visit 0 (mail_list M) w \<and> answering M s'"
    and delete_live: "ready s \<Longrightarrow> healthy s \<Longrightarrow> holds s M \<Longrightarrow> erasable ids M s \<Longrightarrow>
      \<exists>s'. md_DeleteAs md ids username s = (None, s')"

lemma stream_reply_live:
  assumes "pn_open ss"
  shows "\<exists>ss'. stream_reply greeting limit (c, None) ss = Open ss' \<and> serves greeting limit c ss ss'"
proof -
  obtain ok d where x: "streamMessage greeting limit c None (pn_conn ss) = (ok, d)" by (meson surj_pair)
  have "cn_room (pn_conn ss) = None" using assms by (simp add: pn_open_def)
  from streamMessage_open [OF this x] x have out: "stream_reply greeting limit (c, None) ss = Open (ss\<lparr>pn_conn := d\<rparr>)"
    by (simp add: stream_reply_def)
  from stream_reply_serves [OF assms _ _ out, of c "[]"] out show ?thesis by simp
qed

context answering_maildrop
begin

lemma fetch_live:
  assumes "ready s" "answering M s" "shown s snap M" "n \<noteq> 0" "unat n \<le> card (dom M)"
  obtains m s1 s2 where "md_Lookup md snap n s = (Inr m, s1)" "md_OpenMessage md snap m s1 = (Inr (mail_text M n, None), s2)"
    "m = message_of (mail_id M n) (mail_text M n)" "answering M s2"
proof -
  obtain m s1 where x: "md_Lookup md snap n s = (Inr m, s1)" "answering M s1" using lookup_live [OF assms] by blast
  note law = lookup_law [OF assms(1,3) x(1), simplified]
  have l: "ready s1" "shown s1 snap M" "m = mail_list M ! (unat n - 1)" using law shown_keeps [OF _ assms(3)] by simp_all
  have m: "m = message_of (mail_id M n) (mail_text M n)" "M (mail_id M n) = Some (mail_text M n)"
    using mail_number [OF assms(4,5)] l(3) by simp_all
  from open_live [OF l(1) x(2) l(2) m(2)] m(1) x(1) that show thesis by metis
qed

lemma retr_live:
  assumes "ready s" "answering M s" "shown s (pn_snapshot ss) M" "session_mail M ss" "pn_authenticated ss" "pn_open ss"
    and "number_of argument ss = Some n" "pop3_retr md argument ss s = (out, s')"
  shows "\<exists>ss'. out = Open ss' \<and> serves (''+OK '' @ fmt_nat 10 (length (mail_text M n)) @ '' octets'') None (mail_text M n) ss ss'"
proof -
  from assms(7) have n: "messageID argument (snapshot_Count (pn_snapshot ss)) = Some n" "marked ss n = 0"
    unfolding session_number [OF assms(3,4)] by (auto split: option.splits if_splits)
  from shown_number [OF assms(3) n(1)] have r: "n \<noteq> 0" "unat n \<le> card (dom M)" by simp_all
  obtain m s1 s2 where f: "md_Lookup md (pn_snapshot ss) n s = (Inr m, s1)"
      "md_OpenMessage md (pn_snapshot ss) m s1 = (Inr (mail_text M n, None), s2)"
      "m = message_of (mail_id M n) (mail_text M n)" "answering M s2"
    by (rule fetch_live [OF assms(1-3) r])
  have "length (mail_text M n) < 18446744073709551616"
    using mail_number [OF r] shown_mail [OF assms(3)] by (auto simp: mailbox_ok_def)
  then have "format_uint (MsgSize m) 10 = fmt_nat 10 (length (mail_text M n))"
    by (simp add: f(3) format_uint_def unat_of_nat_u64)
  then have "out = stream_reply (''+OK '' @ fmt_nat 10 (length (mail_text M n)) @ '' octets'') None (mail_text M n, None) ss"
    using assms(5,8) n f(1,2) by (simp add: pop3_retr_def)
  with stream_reply_live [OF assms(6)] show ?thesis by simp
qed

lemma top_live:
  assumes "ready s" "answering M s" "shown s (pn_snapshot ss) M" "session_mail M ss" "pn_authenticated ss" "pn_open ss"
    and "topArguments argument (snapshot_Count (pn_snapshot ss)) = Some (n, limit)" "n \<notin> fst ` set (pn_deleted ss)"
    and "pop3_top md argument ss s = (out, s')"
  shows "\<exists>ss'. out = Open ss' \<and> serves ''+OK top of message follows'' (Some limit) (mail_text M n) ss ss'"
proof -
  have z: "0 \<notin> dom M" "marks_ok M (pn_deleted ss)"
    using shown_mail [OF assms(3)] assms(4) by (auto simp: mailbox_ok_def session_mail_def)
  from marked_iff [OF z(2,1), of n] assms(8) have mk: "marked ss n = 0" by simp
  from assms(7) obtain number where "messageID number (snapshot_Count (pn_snapshot ss)) = Some n"
    by (auto simp: topArguments_def split: list.splits option.splits if_splits)
  from shown_number [OF assms(3) this] have r: "n \<noteq> 0" "unat n \<le> card (dom M)" by simp_all
  obtain m s1 s2 where f: "md_Lookup md (pn_snapshot ss) n s = (Inr m, s1)"
      "md_OpenMessage md (pn_snapshot ss) m s1 = (Inr (mail_text M n, None), s2)"
      "m = message_of (mail_id M n) (mail_text M n)" "answering M s2"
    by (rule fetch_live [OF assms(1-3) r])
  have "out = stream_reply ''+OK top of message follows'' (Some limit) (mail_text M n, None) ss"
    using assms(5,7,9) mk f(1,2) by (simp add: pop3_top_def)
  with stream_reply_live [OF assms(6)] show ?thesis by simp
qed

lemma listing_live:
  assumes "ready s" "answering M s" "shown s (pn_snapshot ss) M" "pn_authenticated ss" "pn_open ss"
    and "pop3_rows md row [] ss s = (out, s')"
  shows "\<exists>ss'. out = Open ss'"
proof -
  obtain ok1 w1 where x1: "bw_write (''+OK listing follows'' @ CRLF) ([], pn_conn ss) = (ok1, w1)" by (meson surj_pair)
  have "bw_open ([], pn_conn ss)" using assms(5) by (simp add: bw_open_def pn_open_def)
  note r1 = bw_write_open [OF this x1]
  obtain err w2 s2 where x2: "md_ListAt md (pn_snapshot ss) (listing_row ss row) w1 s = (err, w2, s2)" by (metis surj_pair)
  from list_live [OF assms(1-3) x2] have v: "visit_all (listing_row ss row) (of_nat 0) (mail_list M) w1 = (err, w2)" by simp
  from r1 have "bw_open w1" by blast
  note r2 = listing_visit_open [OF this v]
  obtain ok3 w3 where x3: "bw_write (''.'' @ CRLF) w2 = (ok3, w3)" by (meson surj_pair)
  from r2 have "bw_open w2" by blast
  note r3 = bw_write_open [OF this x3]
  obtain ok4 w4 where x4: "bw_flush w3 = (ok4, w4)" by (meson surj_pair)
  from r3 have "bw_open w3" by blast
  note r4 = bw_flush_open [OF this x4]
  have "writeListing md row ss s = (True, ss\<lparr>pn_conn := snd w4\<rparr>, s2)"
    unfolding writeListing_def x1 Let_def prod.case x2 x3 x4 using r1 r2 r3 r4 by simp
  with assms(4,6) show ?thesis by (auto simp: pop3_rows_def)
qed

lemma quit_live:
  assumes "ready s" "healthy s" "holds s N" "\<And>xs. set (order xs) = set xs" "pn_authenticated ss" "pn_deleted ss \<noteq> []"
    and "erasable (order (map snd (pn_deleted ss))) N s" "pop3_quit md order [] ss s = (out, s')"
  shows "\<exists>M'. R\<^sup>*\<^sup>* N M' \<and> out = Ended (fst (pop3_reply ss ''+OK bye'')) \<and> healthy s' \<and> holds s' (unmarked M' ss)"
proof -
  let ?ids = "order (map snd (pn_deleted ss))"
  obtain t where x: "md_DeleteAs md ?ids (pn_username ss) s = (None, t)"
    using delete_live [OF assms(1-3,7)] by blast
  have ids: "M' |` (- set ?ids) = unmarked M' ss" for M' by (simp add: unmarked_def assms(4))
  from delete_law [OF assms(1-3) x, unfolded ids] x assms(5,6,8) show ?thesis by (auto simp: pop3_quit_def)
qed

end

section \<open>The archive answers\<close>

definition maildrop_answers :: "'g git \<Rightarrow> ('g \<Rightarrow> repo) \<Rightarrow> mailbox \<Rightarrow> 'g store \<Rightarrow> bool" where
  "maildrop_answers G view M s \<longleftrightarrow> reads_fully G view s \<and> (\<forall>i c. M i = Some c \<longrightarrow> length c < 2 ^ 63)"

interpretation answering: answering_maildrop "store_maildrop fuel G graphic env others" "maildrop_ready G view R env others"
    "snapshot_shows view" "store_holds view" "\<lambda>s. st_failure s = None" R "maildrop_answers G view"
    "deletable G view fuel others"
  for fuel :: nat and G :: "'g git" and view :: "'g \<Rightarrow> repo" and graphic :: "string \<Rightarrow> bool" and env :: commit_env
    and others :: "nat \<Rightarrow> 'g store \<Rightarrow> 'g store" and R :: "mailbox \<Rightarrow> mailbox \<Rightarrow> bool"
proof unfold_locales
  fix s :: "'g store" and M snap and n :: u64
  assume a: "maildrop_ready G view R env others s" "maildrop_answers G view M s" "snapshot_shows view s snap M" "n \<noteq> 0"
    "unat n \<le> card (dom M)"
  have f: "reads_fully G view s" "\<forall>i c. M i = Some c \<longrightarrow> length c < 2 ^ 63" using a(2) by (simp_all add: maildrop_answers_def)
  obtain m s' where "Lookup G snap n s = (Inr m, s')" "reads_fully G view s'"
    by (rule Lookup_live [OF maildrop_readyD(1,5) [OF a(1)] f(1) a(3-5)])
  with f(2) show "\<exists>m s'. md_Lookup (store_maildrop fuel G graphic env others) snap n s = (Inr m, s') \<and> maildrop_answers G view M s'"
    by (simp add: store_maildrop_def maildrop_answers_def)
next
  fix s :: "'g store" and M snap i c
  assume a: "maildrop_ready G view R env others s" "maildrop_answers G view M s" "snapshot_shows view s snap M" "M i = Some c"
  have f: "reads_fully G view s" "\<forall>i c. M i = Some c \<longrightarrow> length c < 2 ^ 63" using a(2) by (simp_all add: maildrop_answers_def)
  then have len: "length c < 2 ^ 63" using a(4) by blast
  obtain br s1 br2 s2 s3 where "OpenMessage G snap (message_of i c) s = (Inr br, s1)"
    "store_ReadAll br s1 = (c, None, br2, s2)" "store_CloseBlob br2 s2 = (None, s3)" "reads_fully G view s3"
    by (rule OpenMessage_live [OF maildrop_readyD(1,5) [OF a(1)] f(1) a(3,4) len])
  with f(2) show "\<exists>s'. md_OpenMessage (store_maildrop fuel G graphic env others) snap (message_of i c) s = (Inr (c, None), s') \<and>
      maildrop_answers G view M s'"
    by (simp add: store_maildrop_def store_open_all_def maildrop_answers_def)
next
  fix s s' :: "'g store" and M snap and visit :: "u64 \<Rightarrow> u64 \<Rightarrow> u64 \<Rightarrow> bufw \<Rightarrow> goerr option \<times> bufw" and w err w'
  assume a: "maildrop_ready G view R env others s" "maildrop_answers G view M s" "snapshot_shows view s snap M"
    "md_ListAt (store_maildrop fuel G graphic env others) snap visit w s = (err, w', s')"
  have f: "reads_fully G view s" "\<forall>i c. M i = Some c \<longrightarrow> length c < 2 ^ 63" using a(2) by (simp_all add: maildrop_answers_def)
  from a(4) have "ListAt G snap visit w s = (err, w', s')" by (simp add: store_maildrop_def)
  from ListAt_live [OF maildrop_readyD(1,5) [OF a(1)] f(1) a(3) this] f(2)
  show "(err, w') = visit_all visit 0 (mail_list M) w \<and> maildrop_answers G view M s'" by (simp add: maildrop_answers_def)
next
  fix s :: "'g store" and M ids username
  assume a: "maildrop_ready G view R env others s" "st_failure s = None" "store_holds view s M" "deletable G view fuel others ids M s"
  note rd = maildrop_readyD [OF a(1)]
  have "serving view s M" using rd a(2,3) by (simp add: serving_def)
  from DeleteAs_live [OF rd(1,2) this a(4)]
  show "\<exists>s'. md_DeleteAs (store_maildrop fuel G graphic env others) ids username s = (None, s')"
    by (simp add: store_maildrop_def)
qed

lemma sample_answers: "maildrop_answers model_git model_view sample_mail sample_store"
  by (simp add: maildrop_answers_def model_reads_fully reads_open_def sample_store_def sample_mail_def)

end
