(* ===== verification/Maintenance.thy ===== *)
theory Maintenance
  imports Sample_Store
begin

text \<open>
  \<open>internal/archive/maintenance.go\<close>: \<open>Maintain\<close>, which runs \<open>git gc\<close> when nobody uses Git, and
  the loop \<open>RunMaintenance\<close>, over the events that wake it. \<open>git gc --prune=never\<close> is a parameter;
  what the archive relies on is that it keeps every object and commit (\<open>gc_keeps\<close>).
\<close>

section \<open>One maintenance\<close>

text \<open>
  What one call of \<open>Maintain\<close> meets: the locks that others hold, in the order in which they are
  tried, whether the context has ended, and \<open>git gc\<close>.
\<close>

record 'g maintenance_env =
  me_readBusy :: bool
  me_busy :: bool
  me_gitBusy :: bool
  me_context :: "goerr option"
  me_gc :: "'g \<Rightarrow> goerr option \<times> 'g"

definition Maintain :: "'g git \<Rightarrow> 'g maintenance_env \<Rightarrow> 'g store \<Rightarrow> goerr option \<times> 'g store" where
  "Maintain G env s =
     (if me_readBusy env then (Some ErrMaintenanceBusy, s)
      else if me_busy env then (Some ErrMaintenanceBusy, s)
      else if me_gitBusy env then (Some ErrMaintenanceBusy, s)
      else if st_closed s \<or> rs_closed (st_reader s) then (Some (ErrMsg ''archive is closed''), s)
      else if st_failure s \<noteq> None then (st_failure s, s)
      else if st_lastMaintenanceHead s = st_headID s then (None, s)
      else if me_context env \<noteq> None then (me_context env, s)
      else let r = st_reader s;
               s = s\<lparr>st_idleGeneration := st_idleGeneration s + 1, st_idleTimer := None,
                     st_reader := r\<lparr>rs_generation := rs_generation r + 1, rs_timer := None\<rparr>\<rparr>
           in case closeImporterLocked G s of
                (Some e, s) \<Rightarrow> (Some e, s\<lparr>st_importError := Some e, st_failure := Some e\<rparr>)
              | (None, s) \<Rightarrow>
                  (case closeReaderLocked (gi_catClose G (st_git s)) (st_reader s) of
                     (Some e, r) \<Rightarrow> (Some e, s\<lparr>st_reader := r\<rparr>)
                   | (None, r) \<Rightarrow>
                       (case me_gc env (st_git s) of
                          (Some e, g) \<Rightarrow> (Some e, s\<lparr>st_reader := r, st_git := g\<rparr>)
                        | (None, g) \<Rightarrow>
                            (None, s\<lparr>st_reader := r, st_git := g, st_lastMaintenanceHead := st_headID s,
                                     st_commitsSinceMaintenance := 0\<rparr>))))"

section \<open>The loop\<close>

text \<open>Durations are in nanoseconds.\<close>

definition go_minute :: int where "go_minute = 60 * 1000000000"
definition go_hour :: int where "go_hour = 60 * go_minute"
definition DefaultMaintenanceInterval :: int where "DefaultMaintenanceInterval = 6 * go_hour"

datatype wake = Done | TimerFired | Requested

text \<open>Why the loop wakes up, what \<open>Maintain\<close> meets then, and whether the context has ended after it.\<close>

record 'g maintenance_event =
  ev_wake :: wake
  ev_env :: "'g maintenance_env"
  ev_cancelled :: bool

text \<open>What is logged about a maintenance, and when the next one is due.\<close>

definition maintenance_retry :: "int \<Rightarrow> goerr option \<Rightarrow> string option \<times> int" where
  "maintenance_retry interval err =
     (case err of
        Some e \<Rightarrow> if errors_is e ErrMaintenanceBusy then (None, go_minute)
                  else (Some ''Git maintenance failed'', go_hour)
      | None \<Rightarrow> (Some ''Git maintenance completed'', interval))"

text \<open>A request that was not made cannot be received.\<close>

fun maintenance_loop ::
  "'g git \<Rightarrow> int \<Rightarrow> 'g maintenance_event list \<Rightarrow> 'g store \<Rightarrow> (string option \<times> int) list \<times> 'g store" where
  "maintenance_loop G interval [] s = ([], s)"
| "maintenance_loop G interval (ev # evs) s =
     (if ev_wake ev = Done then ([], s)
      else if ev_wake ev = Requested \<and> \<not> st_maintenanceRequested s then maintenance_loop G interval evs s
      else let s = (if ev_wake ev = Requested then s\<lparr>st_maintenanceRequested := False\<rparr> else s);
               (err, s) = Maintain G (ev_env ev) s
           in if ev_cancelled ev then ([], s)
              else let (rest, s) = maintenance_loop G interval evs s in (maintenance_retry interval err # rest, s))"

definition RunMaintenance ::
  "'g git \<Rightarrow> int \<Rightarrow> 'g maintenance_event list \<Rightarrow> 'g store \<Rightarrow> (string option \<times> int) list \<times> 'g store" where
  "RunMaintenance G interval evs s =
     maintenance_loop G (if interval \<le> 0 then DefaultMaintenanceInterval else interval) evs s"

text \<open>The timer of an idle read process, and \<open>Close\<close>, on the store.\<close>

definition store_read_idle_fired :: "'g git \<Rightarrow> u64 \<Rightarrow> 'g store \<Rightarrow> 'g store" where
  "store_read_idle_fired G generation s =
     s\<lparr>st_reader := read_idle_fired (gi_catClose G (st_git s)) generation (st_reader s)\<rparr>"

section \<open>What it keeps\<close>

definition gc_keeps :: "('g \<Rightarrow> repo) \<Rightarrow> 'g maintenance_env \<Rightarrow> bool" where
  "gc_keeps view env \<longleftrightarrow> (\<forall>g. repo_extends (view g) (view (snd (me_gc env g))))"

text \<open>A step that changes processes, timers and Git's own files, and may fail the store.\<close>

definition upkeep :: "('g \<Rightarrow> repo) \<Rightarrow> 'g store \<Rightarrow> 'g store \<Rightarrow> bool" where
  "upkeep view s s' \<longleftrightarrow>
     repo_extends (view (st_git s)) (view (st_git s')) \<and> st_state s' = st_state s \<and> st_headID s' = st_headID s \<and>
     st_refName s' = st_refName s \<and> st_cache s' = st_cache s \<and>
     (st_importer s' = st_importer s \<or> st_importer s' = None) \<and>
     (rs_process (st_reader s') = rs_process (st_reader s) \<or> rs_process (st_reader s') = None) \<and>
     (st_failure s' = st_failure s \<or> st_failure s' \<noteq> None)"

lemma upkeep_refl [simp]: "upkeep view s s"
  by (simp add: upkeep_def)

lemma upkeep_trans: "upkeep view s t \<Longrightarrow> upkeep view t u \<Longrightarrow> upkeep view s u"
  unfolding upkeep_def using repo_extends_trans by metis

lemma upkeep_keeps:
  assumes "upkeep view s s'"
  shows "store_base view s \<Longrightarrow> store_base view s'" "read_ready view s \<Longrightarrow> read_ready view s'"
    "store_holds view s M \<Longrightarrow> store_holds view s' M"
  using assms cache_sound_extends [of "view (st_git s)" "view (st_git s')" "st_cache s"]
  by (auto simp: upkeep_def store_base_def importer_idle_def read_ready_def reader_idle_def store_holds_def committed_def
      repo_extends_def)

lemma closeImporterLocked_upkeep:
  assumes "git_sound G view" "closeImporterLocked G s = (e, s')"
  shows "upkeep view s s'" "st_importer s' = None" "st_reader s' = st_reader s" "st_failure s' = st_failure s"
    "st_lastMaintenanceHead s' = st_lastMaintenanceHead s" "st_maintenanceRequested s' = st_maintenanceRequested s"
proof -
  have "repo_extends (view g) (view (snd (gi_close G g)))" for g
    by (rule git_keepsD(4) [OF git_soundD(6) [OF assms(1)]])
  then have kc: "gi_close G (st_git s) = (e, g) \<Longrightarrow> repo_extends (view (st_git s)) (view g)" for e g by (metis snd_conv)
  show "upkeep view s s'" "st_importer s' = None" "st_reader s' = st_reader s" "st_failure s' = st_failure s"
    "st_lastMaintenanceHead s' = st_lastMaintenanceHead s" "st_maintenanceRequested s' = st_maintenanceRequested s"
    using assms(2) kc by (auto simp: closeImporterLocked_def upkeep_def split: option.splits prod.splits)
qed

lemma closeReaderLocked_process: "rs_process (snd (closeReaderLocked e r)) = None"
  by (simp add: closeReaderLocked_def split: option.split)

lemma read_idle_fired_process: "rs_process (read_idle_fired e k r) = rs_process r \<or> rs_process (read_idle_fired e k r) = None"
  by (simp add: read_idle_fired_def closeReaderLocked_process)

lemma read_idle_upkeep: "upkeep view s (store_read_idle_fired G k s)"
  using read_idle_fired_process by (simp add: store_read_idle_fired_def upkeep_def)

lemma store_Close_upkeep:
  assumes "git_sound G view" "store_Close G s = (e, s')"
  shows "upkeep view s s' \<and> st_failure s' = st_failure s"
proof -
  let ?s = "s\<lparr>st_closed := True, st_idleGeneration := st_idleGeneration s + 1, st_idleTimer := None\<rparr>"
  obtain we s1 where x: "closeImporterLocked G ?s = (we, s1)" by (meson surj_pair)
  note c = closeImporterLocked_upkeep [OF assms(1) x]
  let ?r = "(st_reader s1)\<lparr>rs_closed := True, rs_generation := rs_generation (st_reader s1) + 1, rs_timer := None\<rparr>"
  obtain re r where y: "closeReaderLocked (gi_catClose G (st_git s1)) ?r = (re, r)" by (meson surj_pair)
  have "s' = s1\<lparr>st_reader := r\<rparr>" using assms(2) x y by (simp add: store_Close_def Let_def)
  moreover have "rs_process r = None" using closeReaderLocked_process [of "gi_catClose G (st_git s1)" ?r] y by simp
  moreover have "upkeep view s ?s" by (simp add: upkeep_def)
  ultimately show ?thesis using c by (auto simp: upkeep_def intro: repo_extends_trans)
qed

text \<open>How far \<open>Maintain\<close> comes: it is skipped, or one of closing the import process, closing the
  reader and running \<open>git gc\<close> fails, or it is done.\<close>

lemma Maintain_cases:
  fixes s :: "'g store"
  defines "t \<equiv> s\<lparr>st_idleGeneration := st_idleGeneration s + 1, st_idleTimer := None,
      st_reader := (st_reader s)\<lparr>rs_generation := rs_generation (st_reader s) + 1, rs_timer := None\<rparr>\<rparr>"
  assumes x: "closeImporterLocked G t = (ce, s1)" and y: "closeReaderLocked (gi_catClose G (st_git s1)) (st_reader s1) = (re, r)"
    and z: "me_gc env (st_git s1) = (ge, g)" and run: "Maintain G env s = (e, s')"
  obtains "s' = s" "e \<noteq> None \<or> st_lastMaintenanceHead s = st_headID s"
    | x where "st_failure s = None" "s' = s1\<lparr>st_importError := Some x, st_failure := Some x\<rparr>" "e = Some x"
    | "st_failure s = None" "s' = s1\<lparr>st_reader := r\<rparr>" "e \<noteq> None"
    | "st_failure s = None" "s' = s1\<lparr>st_reader := r, st_git := g\<rparr>" "e \<noteq> None"
    | "st_failure s = None" "s' = s1\<lparr>st_reader := r, st_git := g, st_lastMaintenanceHead := st_headID s1, st_commitsSinceMaintenance := 0\<rparr>"
proof (cases "me_readBusy env \<or> me_busy env \<or> me_gitBusy env \<or> st_closed s \<or> rs_closed (st_reader s) \<or>
    st_failure s \<noteq> None \<or> st_lastMaintenanceHead s = st_headID s \<or> me_context env \<noteq> None")
  case True
  then have "s' = s" "e \<noteq> None \<or> st_lastMaintenanceHead s = st_headID s"
    using run by (auto simp: Maintain_def simp del: not_None_eq split: if_splits)
  then show thesis by (rule that(1))
next
  case False
  then have "Maintain G env s =
      (case ce of
         Some e \<Rightarrow> (Some e, s1\<lparr>st_importError := Some e, st_failure := Some e\<rparr>)
       | None \<Rightarrow>
           (case re of
              Some e \<Rightarrow> (Some e, s1\<lparr>st_reader := r\<rparr>)
            | None \<Rightarrow>
                (case ge of
                   Some e \<Rightarrow> (Some e, s1\<lparr>st_reader := r, st_git := g\<rparr>)
                 | None \<Rightarrow> (None, s1\<lparr>st_reader := r, st_git := g, st_lastMaintenanceHead := st_headID s1,
                     st_commitsSinceMaintenance := 0\<rparr>))))"
    using x y z by (simp add: Maintain_def t_def [symmetric] split: option.split)
  with run have es: "(e, s') = \<dots>" by simp
  have f: "st_failure s = None" using False by simp
  show thesis
  proof (cases ce)
    case (Some x)
    with es show thesis by (intro that(2) [OF f, of x]) simp_all
  next
    case ce: None
    show thesis
    proof (cases re)
      case (Some x)
      with es ce show thesis by (intro that(3) [OF f]) simp_all
    next
      case re: None
      show thesis
      proof (cases ge)
        case (Some x)
        with es ce re show thesis by (intro that(4) [OF f]) simp_all
      next
        case None
        with es ce re show thesis by (intro that(5) [OF f]) simp_all
      qed
    qed
  qed
qed

lemma Maintain_upkeep:
  assumes "git_sound G view" "gc_keeps view env" "Maintain G env s = (e, s')"
  shows "upkeep view s s'"
    and "st_failure s \<noteq> None \<Longrightarrow> s' = s"
    and "e = None \<Longrightarrow> st_lastMaintenanceHead s' = st_headID s'"
    and "st_failure s' \<noteq> st_failure s \<Longrightarrow> e = st_failure s' \<and> st_importError s' = e"
proof -
  let ?t = "s\<lparr>st_idleGeneration := st_idleGeneration s + 1, st_idleTimer := None,
      st_reader := (st_reader s)\<lparr>rs_generation := rs_generation (st_reader s) + 1, rs_timer := None\<rparr>\<rparr>"
  obtain ce s1 where x: "closeImporterLocked G ?t = (ce, s1)" by (meson surj_pair)
  note c = closeImporterLocked_upkeep [OF assms(1) x]
  obtain re r where y: "closeReaderLocked (gi_catClose G (st_git s1)) (st_reader s1) = (re, r)" by (meson surj_pair)
  obtain ge g where z: "me_gc env (st_git s1) = (ge, g)" by (meson surj_pair)
  have proc: "rs_process r = None"
    using closeReaderLocked_process [of "gi_catClose G (st_git s1)" "st_reader s1"] y by simp
  have ext: "repo_extends (view (st_git s1)) (view g)" using assms(2) z unfolding gc_keeps_def by (metis snd_conv)
  have up: "upkeep view s ?t" "st_failure ?t = st_failure s" by (simp_all add: upkeep_def)
  have up1: "upkeep view s s1" by (rule upkeep_trans [OF up(1) c(1)])
  from x y z assms(3)
  have "upkeep view s s' \<and> (st_failure s \<noteq> None \<longrightarrow> s' = s) \<and> (e = None \<longrightarrow> st_lastMaintenanceHead s' = st_headID s') \<and>
      (st_failure s' \<noteq> st_failure s \<longrightarrow> e = st_failure s' \<and> st_importError s' = e)"
  proof (cases rule: Maintain_cases)
    case 1
    then show ?thesis by auto
  next
    case 2
    then show ?thesis using up1 by (auto simp: upkeep_def)
  next
    case 3
    have "upkeep view s1 s'" using proc by (simp add: 3 upkeep_def)
    then show ?thesis using upkeep_trans [OF up1] 3 c(4) up(2) by auto
  next
    case 4
    have "upkeep view s1 s'" using proc ext by (simp add: 4 upkeep_def)
    then show ?thesis using upkeep_trans [OF up1] 4 c(4) up(2) by auto
  next
    case 5
    have "upkeep view s1 s'" using proc ext by (simp add: 5 upkeep_def)
    then show ?thesis using upkeep_trans [OF up1] 5 c(4) up(2) by auto
  qed
  then show "upkeep view s s'" "st_failure s \<noteq> None \<Longrightarrow> s' = s" "e = None \<Longrightarrow> st_lastMaintenanceHead s' = st_headID s'"
    "st_failure s' \<noteq> st_failure s \<Longrightarrow> e = st_failure s' \<and> st_importError s' = e" by blast+
qed

lemma maintenance_loop_upkeep:
  assumes "git_sound G view" "\<forall>ev \<in> set evs. gc_keeps view (ev_env ev)"
    and "maintenance_loop G interval evs s = (log, s')"
  shows "upkeep view s s'"
  using assms(2,3)
proof (induction evs arbitrary: s log)
  case (Cons ev evs)
  define t where "t = (if ev_wake ev = Requested then s\<lparr>st_maintenanceRequested := False\<rparr> else s)"
  have t: "upkeep view s t" by (simp add: t_def upkeep_def)
  obtain e s1 where m: "Maintain G (ev_env ev) t = (e, s1)" by (meson surj_pair)
  have s1: "upkeep view s s1" using upkeep_trans [OF t Maintain_upkeep(1) [OF assms(1) _ m]] Cons.prems(1) by simp
  show ?case
  proof (cases "ev_wake ev = Done \<or> ev_wake ev = Requested \<and> \<not> st_maintenanceRequested s")
    case True
    with Cons show ?thesis by (auto split: if_splits)
  next
    case False
    then have "s' = s1 \<or> (\<exists>rest. maintenance_loop G interval evs s1 = (rest, s'))"
      using Cons.prems(2) m by (auto simp: t_def [symmetric] split: if_splits prod.splits)
    with Cons.IH Cons.prems(1) s1 upkeep_trans [OF s1] show ?thesis by auto
  qed
qed simp

lemma maintenance_retry_positive: "0 < interval \<Longrightarrow> 0 < snd (maintenance_retry interval e)"
  by (simp add: maintenance_retry_def go_minute_def go_hour_def split: option.split)

lemma maintenance_loop_retry:
  "0 < interval \<Longrightarrow> maintenance_loop G interval evs s = (log, s') \<Longrightarrow> \<forall>x \<in> set log. 0 < snd x"
proof (induction evs arbitrary: s log)
  case (Cons ev evs)
  define t where "t = (if ev_wake ev = Requested then s\<lparr>st_maintenanceRequested := False\<rparr> else s)"
  obtain e s1 where "Maintain G (ev_env ev) t = (e, s1)" by (meson surj_pair)
  then have "log = [] \<or> maintenance_loop G interval evs s = (log, s') \<or>
      (\<exists>rest. maintenance_loop G interval evs s1 = (rest, s') \<and> log = maintenance_retry interval e # rest)"
    using Cons.prems(2) by (auto simp: t_def [symmetric] split: if_splits prod.splits)
  then show ?case
  proof (elim disjE exE conjE)
    fix rest assume r: "maintenance_loop G interval evs s1 = (rest, s')" "log = maintenance_retry interval e # rest"
    with Cons.IH [OF Cons.prems(1) r(1)] maintenance_retry_positive [OF Cons.prems(1), of e] show ?thesis by simp
  qed (use Cons.IH [OF Cons.prems(1)] in simp_all)
qed simp

section \<open>Property\<close>

text \<open>C24: Maintenance loses no mail and never gets in the way. Whatever wakes \<open>RunMaintenance\<close>
  up, the mailbox that the store holds stays, its state and HEAD too, and every commit a snapshot may show
  stays in the repository; and a call that finds one of the locks held, the store failed, or
  nothing new since the last collection does nothing at all.\<close>

theorem maintenance_keeps_mail:
  assumes "git_sound G view" "\<forall>ev \<in> set evs. gc_keeps view (ev_env ev)" "RunMaintenance G interval evs s = (log, s')"
  shows "(\<forall>M. store_base view s \<and> read_ready view s \<and> store_holds view s M \<longrightarrow>
      store_base view s' \<and> read_ready view s' \<and> store_holds view s' M) \<and>
    (\<forall>snap M. snapshot_shows view s snap M \<longrightarrow> snapshot_shows view s' snap M) \<and>
    st_state s' = st_state s \<and> st_headID s' = st_headID s \<and>
    (\<forall>env. me_readBusy env \<or> me_busy env \<or> me_gitBusy env \<or> st_failure s \<noteq> None \<or>
       st_lastMaintenanceHead s = st_headID s \<longrightarrow> snd (Maintain G env s) = s) \<and>
    (\<forall>(message, retry) \<in> set log. 0 < retry)"
proof -
  have u: "upkeep view s s'"
    using maintenance_loop_upkeep [OF assms(1,2)] assms(3) unfolding RunMaintenance_def by blast
  have "0 < (if interval \<le> 0 then DefaultMaintenanceInterval else interval)"
    by (simp add: DefaultMaintenanceInterval_def go_hour_def go_minute_def)
  then have "\<forall>x \<in> set log. 0 < snd x" using assms(3) maintenance_loop_retry unfolding RunMaintenance_def by blast
  then have "\<forall>(message, retry) \<in> set log. 0 < retry" by auto
  moreover have "repo_extends (view (st_git s)) (view (st_git s'))" using u by (simp add: upkeep_def)
  then have "\<forall>snap M. snapshot_shows view s snap M \<longrightarrow> snapshot_shows view s' snap M" using snapshot_shows_extends by blast
  moreover have "snd (Maintain G env s) = s"
    if "me_readBusy env \<or> me_busy env \<or> me_gitBusy env \<or> st_failure s \<noteq> None \<or> st_lastMaintenanceHead s = st_headID s" for env
    using that by (auto simp: Maintain_def)
  ultimately show ?thesis using u upkeep_keeps [OF u] by (auto simp: upkeep_def)
qed

definition sample_wakes :: "model_git maintenance_event list" where
  "sample_wakes =
     [\<lparr>ev_wake = TimerFired,
       ev_env = \<lparr>me_readBusy = b, me_busy = False, me_gitBusy = False, me_context = None, me_gc = (\<lambda>g. (None, g))\<rparr>,
       ev_cancelled = False\<rparr>.
      b \<leftarrow> [True, False, False]]"

theorem maintenance_keeps_mail_witness:
  "let (log, s') = RunMaintenance model_git 0 sample_wakes sample_store in
     log = [(None, go_minute), (Some ''Git maintenance completed'', DefaultMaintenanceInterval),
            (Some ''Git maintenance completed'', DefaultMaintenanceInterval)] \<and>
     store_holds model_view s' sample_mail"
proof -
  obtain log s' where r: "RunMaintenance model_git 0 sample_wakes sample_store = (log, s')" by (meson surj_pair)
  have gc: "\<forall>ev \<in> set sample_wakes. gc_keeps model_view (ev_env ev)" by (auto simp: sample_wakes_def gc_keeps_def)
  from maintenance_keeps_mail [OF model_git_sound gc r] have "store_holds model_view s' sample_mail"
    using sample_base sample_ready sample_holds by blast
  moreover have "log = [(None, go_minute), (Some ''Git maintenance completed'', DefaultMaintenanceInterval),
      (Some ''Git maintenance completed'', DefaultMaintenanceInterval)]"
    using r by (simp add: RunMaintenance_def sample_wakes_def Maintain_def maintenance_retry_def sample_store_def
      closeImporterLocked_def closeReaderLocked_def commit_oid_def oid_for_def Let_def split: prod.splits)
  ultimately show ?thesis using r by simp
qed

end
