(* ===== verification/Mailbox_History.thy ===== *)
theory Mailbox_History
  imports Maintenance
begin

text \<open>
  The life of one store: any sequence of operations, the idle timers, maintenance
  and \<open>Close\<close> included, as a step relation.
  Whatever happens, a message never changes, an ID is never given to another message, and a
  snapshot goes on showing what it showed.
\<close>

section \<open>Activity\<close>

inductive acts ::
  "'g git \<Rightarrow> (string \<Rightarrow> bool) \<Rightarrow> ('g \<Rightarrow> repo) \<Rightarrow> 'g store \<Rightarrow> 'g store \<Rightarrow> bool" for G graphic view where
  publishes: "order_ok (pe_commit env) \<Longrightarrow> staged_ready i c s \<Longrightarrow> Publish G env i s = (r, s') \<Longrightarrow> acts G graphic view s s'"
| deletes: "order_ok env \<Longrightarrow> DeleteAs fuel G graphic env (\<lambda>k s. s) ids username s = (err, s') \<Longrightarrow> acts G graphic view s s'"
| looks_up: "Lookup G snap n s = (r, s') \<Longrightarrow> acts G graphic view s s'"
| finds: "messageByID G snap i s = (r, s') \<Longrightarrow> acts G graphic view s s'"
| import_idles: "import_idle_fired G generation s = s' \<Longrightarrow> acts G graphic view s s'"
| read_idles: "store_read_idle_fired G generation s = s' \<Longrightarrow> acts G graphic view s s'"
| maintains: "gc_keeps view env \<Longrightarrow> Maintain G env s = (err, s') \<Longrightarrow> acts G graphic view s s'"
| closes: "store_Close G s = (err, s') \<Longrightarrow> acts G graphic view s s'"
| spools: "spool_frame s s' \<Longrightarrow> st_failure s' = st_failure s \<or> st_failure s' \<noteq> None \<Longrightarrow> acts G graphic view s s'"

inductive_cases actsE: "acts G graphic view s s'"

text \<open>A store that holds a mailbox, failed or not.\<close>

definition keeps :: "('g \<Rightarrow> repo) \<Rightarrow> 'g store \<Rightarrow> mailbox \<Rightarrow> bool" where
  "keeps view s M \<longleftrightarrow> store_base view s \<and> read_ready view s \<and> store_holds view s M"

text \<open>
  What may become of a mailbox: a message stays or goes, and among the IDs allocated so far none
  that is free is used again.
\<close>

definition evolves :: "u64 \<Rightarrow> mailbox \<Rightarrow> u64 \<Rightarrow> mailbox \<Rightarrow> bool" where
  "evolves L M L' M' \<longleftrightarrow> L \<le> L' \<and> (\<forall>i \<le> L. M' i = None \<or> M' i = M i)"

lemma evolves_refl [simp]: "evolves L M L M"
  by (simp add: evolves_def)

lemma evolves_trans: "evolves L M L' M' \<Longrightarrow> evolves L' M' L'' M'' \<Longrightarrow> evolves L M L'' M''"
  unfolding evolves_def by (metis order.trans)

definition moves :: "('g \<Rightarrow> repo) \<Rightarrow> 'g store \<Rightarrow> 'g store \<Rightarrow> bool" where
  "moves view s s' \<longleftrightarrow>
     (\<forall>M. keeps view s M \<longrightarrow> repo_extends (view (st_git s)) (view (st_git s')) \<and>
        (\<exists>M'. keeps view s' M' \<and> evolves (mb_LastID (st_state s)) M (mb_LastID (st_state s')) M'))"

lemma moves_refl [simp]: "moves view s s"
  unfolding moves_def using evolves_refl by (metis repo_extends_refl)

lemma moves_trans: "moves view s t \<Longrightarrow> moves view t u \<Longrightarrow> moves view s u"
  unfolding moves_def by (meson evolves_trans repo_extends_trans)

lemma read_step_moves:
  assumes "read_step view s s'" "read_ready view s'"
  shows "moves view s s'"
proof -
  have "keeps view s' M \<and> evolves (mb_LastID (st_state s)) M (mb_LastID (st_state s')) M" if "keeps view s M" for M
    using that assms store_holds_read [OF assms(1)] read_stepD(3) [OF assms(1)] by (simp add: keeps_def)
  then show ?thesis using read_stepD(1) [OF assms(1)] unfolding moves_def by blast
qed

section \<open>One step\<close>

lemma same_mailbox_moves:
  assumes "repo_extends (view (st_git s)) (view (st_git s'))" "store_base view s \<Longrightarrow> store_base view s'"
    and "st_reader s' = st_reader s" "st_cache s' = st_cache s" "mb_LastID (st_state s') = mb_LastID (st_state s)"
    and "\<And>M. store_holds view s M \<Longrightarrow> store_holds view s' M"
  shows "moves view s s'"
proof -
  have "read_ready view s \<Longrightarrow> read_ready view s'"
    using assms(1,3,4) cache_sound_extends by (auto simp: read_ready_def)
  then have "keeps view s' M" if "keeps view s M" for M using that assms(2,6) by (simp add: keeps_def)
  then show ?thesis using assms(1,5) unfolding moves_def by (metis evolves_refl)
qed

lemma import_idle_moves:
  assumes "git_sound G view"
  shows "moves view s (import_idle_fired G generation s)"
proof (rule same_mailbox_moves)
  let ?s = "import_idle_fired G generation s"
  have keep: "repo_extends (view g) (view (snd (gi_close G g)))" for g
    by (rule git_keepsD(4) [OF git_soundD(6) [OF assms]])
  then have kc: "gi_close G (st_git s) = (e, g) \<Longrightarrow> repo_extends (view (st_git s)) (view g)" for e g by (metis snd_conv)
  show ext: "repo_extends (view (st_git s)) (view (st_git ?s))"
    using kc by (auto simp: import_idle_fired_def closeImporterLocked_def split: option.split prod.split)
  have eq: "st_reader ?s = st_reader s" "st_cache ?s = st_cache s" "st_state ?s = st_state s" "st_headID ?s = st_headID s"
      "st_refName ?s = st_refName s" "st_failure ?s = st_failure s" "st_importer ?s = st_importer s \<or> st_importer ?s = None"
    by (auto simp: import_idle_fired_def closeImporterLocked_def split: option.split prod.split)
  then show "st_reader ?s = st_reader s" "st_cache ?s = st_cache s" "mb_LastID (st_state ?s) = mb_LastID (st_state s)"
    by simp_all
  show "store_base view s \<Longrightarrow> store_base view ?s" using eq by (auto simp: store_base_def importer_idle_def)
  fix M assume "store_holds view s M"
  then show "store_holds view ?s M"
    using eq ext unfolding store_holds_def committed_def repo_extends_def by metis
qed

lemma publish_moves:
  assumes "git_sound G view" "order_ok (pe_commit env)" "staged_ready i c s" "Publish G env i s = (r, s')"
  shows "moves view s s'"
  unfolding moves_def
proof (intro allI impI)
  fix M assume k: "keeps view s M"
  then have b: "store_base view s" "store_holds view s M" by (simp_all add: keeps_def)
  note sp = Publish_spec [OF assms(1) b assms(2-4)]
  have rr: "read_ready view s'" using k sp cache_sound_extends by (auto simp: keeps_def read_ready_def)
  let ?L = "mb_LastID (st_state s)"
  have fresh: "evolves ?L M L' (M(?L + 1 \<mapsto> c))" if "?L + 1 \<noteq> 0" "?L \<le> L'" for L'
  proof -
    have "?L \<noteq> - 1" using that(1) by auto
    then have "unat (?L + 1) = Suc (unat ?L)" by (rule unat_suc_u64)
    then have "i \<le> ?L \<Longrightarrow> i \<noteq> ?L + 1" for i by (auto simp: u64_le)
    with that(2) show ?thesis by (auto simp: evolves_def)
  qed
  have "\<exists>M'. keeps view s' M' \<and> evolves ?L M (mb_LastID (st_state s')) M'"
  proof (cases r)
    case (Inl e)
    then consider "store_holds view s' M" | "store_holds view s' (published s M c)" "st_state s' = st_state s"
      using sp by (auto simp: outcome_ok_def)
    then show ?thesis
    proof cases
      case 1
      with Inl sp rr show ?thesis by (intro exI [of _ M]) (simp add: keeps_def)
    next
      case 2
      then have "(published s M c) 0 = None" by (simp only: store_holds_def mailbox_ok_def)
      then have "?L + 1 \<noteq> 0" by (metis fun_upd_same option.distinct(1))
      with 2 sp rr fresh show ?thesis by (intro exI [of _ "published s M c"]) (simp add: keeps_def)
    qed
  next
    case (Inr x)
    obtain nid path where x: "x = (nid, path)" by (cases x)
    have o: "nid = ?L + 1" "nid \<noteq> 0" "mb_LastID (st_state s') = nid" "store_holds view s' (M(nid \<mapsto> c))"
      using sp unfolding Inr x sum.case prod.case outcome_ok_def if_True by blast+
    then have "?L \<noteq> - 1" by auto
    then have "?L \<le> nid" using unat_suc_u64 [of ?L] o(1) by (simp add: u64_le)
    then have "evolves ?L M nid (M(nid \<mapsto> c))" using fresh [of nid] o(1,2) by simp
    with o(3,4) sp rr show ?thesis by (intro exI [of _ "M(nid \<mapsto> c)"]) (simp only: keeps_def simp_thms)
  qed
  with sp show "repo_extends (view (st_git s)) (view (st_git s')) \<and>
      (\<exists>M'. keeps view s' M' \<and> evolves ?L M (mb_LastID (st_state s')) M')" by blast
qed

text \<open>When nobody else commits meanwhile, a deletion takes one turn.\<close>

lemma delete_one_turn:
  assumes "git_sound G view" "read_ready view s"
  shows "DeleteAs (Suc fuel) G graphic env (\<lambda>k s. s) ids username s =
    (case resolve_ids G (Snapshot s) 0 (sort ids) s of
       (Inl e, s) \<Rightarrow> (Some e, s)
     | (Inr ms, s) \<Rightarrow> deleteLocked G graphic env ms username s)"
proof -
  obtain r s1 where x: "resolve_ids G (Snapshot s) 0 (sort ids) s = (r, s1)" by (meson surj_pair)
  have "st_headID s1 = st_headID s" using resolve_ids_step [OF assms x] read_stepD(2) by blast
  moreover have "sn_commit (Snapshot s) = st_headID s" by (simp add: Snapshot_def snapshotLocked_def)
  ultimately show ?thesis by (simp add: DeleteAs_def x Let_def split: sum.split)
qed

lemma deleteLocked_failed: "st_failure s = Some e \<Longrightarrow> deleteLocked G graphic env ms username s = (Some e, s)"
  by (simp add: deleteLocked_def)

lemma delete_moves:
  assumes "git_sound G view" "order_ok env" "DeleteAs fuel G graphic env (\<lambda>k s. s) ids username s = (err, s')"
  shows "moves view s s'"
proof (cases fuel)
  case 0
  with assms(3) show ?thesis by (simp add: DeleteAs_def)
next
  case (Suc k)
  show ?thesis
    unfolding moves_def
  proof (intro allI impI)
    fix M assume kp: "keeps view s M"
    then have s: "store_base view s" "read_ready view s" "store_holds view s M" by (simp_all add: keeps_def)
    obtain r s1 where x: "resolve_ids G (Snapshot s) 0 (sort ids) s = (r, s1)" by (meson surj_pair)
    note r1 = resolve_ids_step [OF assms(1) s(2) x]
    then have m1: "moves view s s1" using read_step_moves by blast
    note def = assms(3) [unfolded Suc delete_one_turn [OF assms(1) s(2)] x prod.case]
    have "moves view s1 s' \<or> s' = s1"
    proof (cases r)
      case (Inl e)
      with def show ?thesis by simp
    next
      case (Inr ms)
      with def have d: "deleteLocked G graphic env ms username s1 = (err, s')" by simp
      show ?thesis
      proof (cases "st_failure s")
        case (Some e)
        then have "st_failure s1 = Some e" using read_stepD(4) r1 by metis
        with d deleteLocked_failed show ?thesis by fastforce
      next
        case None
        have "\<forall>i \<in> set (sort ids). 0 \<le> i" "sorted (sort ids)" by simp_all
        from resolve_ids_sound [OF assms(1) s(2) Snapshot_shows [OF s(3) None] this(2,1) x] Inr
        have ms: "mails_of M ms" by simp
        have s1: "store_base view s1" "store_holds view s1 M" using store_holds_read [OF conjunct1 [OF r1]] s by simp_all
        note del = deleteLocked_spec [OF assms(1) s1 assms(2) ms d]
        let ?N = "M |` (- MsgID ` set ms)"
        have rr: "read_ready view s'" using del r1 cache_sound_extends by (auto simp: read_ready_def)
        have ev: "evolves L M L ?N" for L by (auto simp: evolves_def restrict_map_def)
        have "store_holds view s' M \<or> store_holds view s' ?N" using del by (auto simp: outcome_ok_def split: option.splits)
        then obtain N where N: "store_holds view s' N" "\<And>L. evolves L M L N" using ev evolves_refl by metis
        have "moves view s1 s'"
          unfolding moves_def
        proof (intro allI impI)
          fix M1 assume "keeps view s1 M1"
          then have "M1 = M" using s1(2) mailbox_unique
            by (auto simp: keeps_def store_holds_def committed_def)
          with del rr N show "repo_extends (view (st_git s1)) (view (st_git s')) \<and>
              (\<exists>M'. keeps view s' M' \<and> evolves (mb_LastID (st_state s1)) M1 (mb_LastID (st_state s')) M')"
            by (auto simp: keeps_def)
        qed
        then show ?thesis ..
      qed
    qed
    with m1 moves_trans kp show "repo_extends (view (st_git s)) (view (st_git s')) \<and>
        (\<exists>M'. keeps view s' M' \<and> evolves (mb_LastID (st_state s)) M (mb_LastID (st_state s')) M')"
      unfolding moves_def by blast
  qed
qed

lemma spool_moves:
  assumes "spool_frame s s'" "st_failure s' = st_failure s \<or> st_failure s' \<noteq> None"
  shows "moves view s s'"
proof (rule same_mailbox_moves)
  note fr = spool_frameD [OF assms(1)]
  show "store_base view s \<Longrightarrow> store_base view s'" using fr by (simp add: store_base_def importer_idle_def)
  show "\<And>M. store_holds view s M \<Longrightarrow> store_holds view s' M" using store_holds_spool [OF assms(1) _ assms(2)] by blast
qed (use spool_frameD [OF assms(1)] in simp_all)

lemma Lookup_step:
  assumes "git_sound G view" "read_ready view s" "Lookup G snap n s = (r, s')"
  shows "read_step view s s' \<and> read_ready view s'"
proof (cases "selectLeaf (sn_index snap) n")
  case None
  with assms(2,3) show ?thesis by (simp add: Lookup_def)
next
  case (Some x)
  obtain leaf off where y: "x = (leaf, off)" by (cases x)
  obtain dr s1 where d: "directory G (sn_commit snap) (dc_path leaf) s = (dr, s1)" by (meson surj_pair)
  with assms(3) Some y have "s' = s1" by (auto simp: Lookup_def split: sum.splits if_splits)
  with directory_step [OF assms(1,2) d] show ?thesis by simp
qed

lemma upkeep_moves:
  assumes "upkeep view s s'"
  shows "moves view s s'"
proof -
  have "keeps view s M \<Longrightarrow> keeps view s' M" for M using upkeep_keeps [OF assms] by (simp add: keeps_def)
  with assms show ?thesis unfolding moves_def upkeep_def by (metis evolves_refl)
qed

lemma acts_moves:
  assumes "git_sound G view" "acts G graphic view s s'"
  shows "moves view s s'"
  using assms(2)
proof (cases rule: acts.cases)
  case looks_up
  then show ?thesis using Lookup_step [OF assms(1)] read_step_moves unfolding moves_def keeps_def by blast
next
  case (finds snap i r)
  then show ?thesis using messageByID_step [OF assms(1)] read_step_moves unfolding moves_def keeps_def by blast
next
  case publishes
  then show ?thesis using publish_moves [OF assms(1)] by blast
next
  case deletes
  then show ?thesis using delete_moves [OF assms(1)] by blast
next
  case import_idles
  then show ?thesis using import_idle_moves [OF assms(1)] by blast
next
  case (read_idles generation)
  then show ?thesis using upkeep_moves [OF read_idle_upkeep] by blast
next
  case (maintains env err)
  then show ?thesis using upkeep_moves Maintain_upkeep(1) [OF assms(1)] by blast
next
  case closes
  then show ?thesis using upkeep_moves store_Close_upkeep [OF assms(1)] by blast
next
  case spools
  then show ?thesis by (rule spool_moves)
qed

lemma history_moves:
  assumes "git_sound G view" "(acts G graphic view)\<^sup>*\<^sup>* s s'"
  shows "moves view s s'"
  using assms(2)
proof (induction rule: rtranclp_induct)
  case base
  show ?case by simp
next
  case (step y z)
  with acts_moves [OF assms(1)] moves_trans show ?case by blast
qed

lemma moves_same_head:
  assumes "moves view s s'" "keeps view s M" "st_headID s' = st_headID s"
  shows "keeps view s' M"
proof -
  from assms(1,2) obtain N where N: "repo_extends (view (st_git s)) (view (st_git s'))" "keeps view s' N"
    unfolding moves_def by blast
  from assms(2) obtain fs where fs: "mailbox_ok M" "committed view fs s" "archive_tree fs M"
    by (auto simp: keeps_def store_holds_def)
  then have "committed view fs s'" using N(1) assms(3) by (simp add: committed_def repo_extends_def)
  with N(2) fs have "N = M" using mailbox_unique by (auto simp: keeps_def store_holds_def committed_def)
  with N(2) show ?thesis by simp
qed

text \<open>A store that has failed only reads.\<close>

lemma acts_frozen:
  assumes "git_sound G view" "acts G graphic view s s'" "keeps view s M" "st_failure s \<noteq> None"
  shows "read_step view s s' \<and> read_ready view s' \<or> keeps view s' M \<and> st_failure s' \<noteq> None"
proof -
  from assms(4) obtain e where e: "st_failure s = Some e" by auto
  have rr: "read_ready view s" using assms(3) by (simp add: keeps_def)
  from assms(2) show ?thesis
  proof (cases rule: acts.cases)
    case (publishes env i c r)
    then have "s' = s" using e by (auto simp: Publish_def split: if_splits)
    with rr show ?thesis by simp
  next
    case (deletes env fuel ids username err)
    show ?thesis
    proof (cases fuel)
      case 0
      with deletes rr show ?thesis by (simp add: DeleteAs_def)
    next
      case (Suc k)
      obtain r s1 where x: "resolve_ids G (Snapshot s) 0 (sort ids) s = (r, s1)" by (meson surj_pair)
      note r1 = resolve_ids_step [OF assms(1) rr x]
      then have f: "st_failure s1 = Some e" using read_stepD(4) e by metis
      have "s' = s1"
        using deletes(2) unfolding Suc delete_one_turn [OF assms(1) rr] x by (auto simp: deleteLocked_failed [OF f] split: sum.splits)
      with r1 show ?thesis by simp
    qed
  next
    case looks_up
    with Lookup_step [OF assms(1) rr] show ?thesis by blast
  next
    case finds
    with messageByID_step [OF assms(1) rr] show ?thesis by blast
  next
    case (import_idles generation)
    then have "st_failure s' = st_failure s" "st_headID s' = st_headID s"
      by (auto simp: import_idle_fired_def closeImporterLocked_def split: option.split prod.split)
    moreover have "moves view s s'" using import_idle_moves [OF assms(1)] import_idles by blast
    ultimately show ?thesis using assms(3,4) moves_same_head by metis
  next
    case (read_idles generation)
    then have "st_failure s' = st_failure s" by (auto simp: store_read_idle_fired_def)
    moreover have "upkeep view s s'" using read_idle_upkeep [of view s G generation] read_idles by simp
    ultimately show ?thesis using upkeep_keeps assms(3,4) unfolding keeps_def by metis
  next
    case (maintains env err)
    with Maintain_upkeep(2) [OF assms(1)] assms(4) have "s' = s" by blast
    with rr show ?thesis by simp
  next
    case (closes err)
    with store_Close_upkeep [OF assms(1)] have "upkeep view s s'" "st_failure s' = st_failure s" by blast+
    with upkeep_keeps assms(3,4) show ?thesis unfolding keeps_def by metis
  next
    case spools
    then have "st_headID s' = st_headID s" "st_failure s' \<noteq> None" using spool_frameD(2) e by auto
    moreover have "moves view s s'" using spool_moves spools by blast
    ultimately show ?thesis using assms(3) moves_same_head by metis
  qed
qed

section \<open>Properties\<close>

lemma keeps_unique: "store_holds view s M \<Longrightarrow> store_holds view s N \<Longrightarrow> M = N"
  using mailbox_unique by (auto simp: store_holds_def committed_def)

text \<open>C10: whatever the store does, a message never changes and an ID that has been allocated is
  never given to another message: it keeps its message or becomes free for ever.\<close>

theorem messages_immutable:
  assumes "git_sound G view" "store_base view s" "read_ready view s" "store_holds view s M"
    and "(acts G graphic view)\<^sup>*\<^sup>* s s'" "store_holds view s' M'" "i \<le> mb_LastID (st_state s)"
  shows "(M' i = None \<or> M' i = M i) \<and> mb_LastID (st_state s) \<le> mb_LastID (st_state s')"
proof -
  have "keeps view s M" using assms(2-4) by (simp add: keeps_def)
  with history_moves [OF assms(1,5)] obtain N where "keeps view s' N"
      "evolves (mb_LastID (st_state s)) M (mb_LastID (st_state s')) N" unfolding moves_def by blast
  moreover from this have "N = M'" using keeps_unique assms(6) by (auto simp: keeps_def)
  ultimately show ?thesis using assms(7) by (auto simp: evolves_def)
qed

text \<open>C11: a snapshot goes on showing the mailbox that it was taken of, whatever the store does
  afterwards: messages received or deleted later do not show.\<close>

theorem snapshot_stable:
  assumes "git_sound G view" "store_base view s" "read_ready view s" "store_holds view s M" "st_failure s = None"
    and "(acts G graphic view)\<^sup>*\<^sup>* s s'"
  shows "snapshot_shows view s' (Snapshot s) M \<and> read_ready view s'"
proof -
  have "keeps view s M" using assms(2-4) by (simp add: keeps_def)
  with history_moves [OF assms(1,6)] have "repo_extends (view (st_git s)) (view (st_git s'))" "read_ready view s'"
    unfolding moves_def keeps_def by blast+
  with snapshot_shows_extends Snapshot_shows [OF assms(4,5)] show ?thesis by blast
qed

text \<open>Two steps: a message is published, then every message is deleted.\<close>

definition sample_next :: "model_git store" where
  "sample_next = snd (Publish model_git sample_publish 0 sample_store)"

definition sample_last :: "model_git store" where
  "sample_last = snd (DeleteAs 1 model_git (\<lambda>_. True) sample_commit (\<lambda>k s. s) [1, 2] ''joe'' sample_next)"

lemma sample_acts: "(acts model_git (\<lambda>_. True) model_view)\<^sup>*\<^sup>* sample_store sample_last"
proof -
  have "acts model_git (\<lambda>_. True) model_view sample_store sample_next"
    unfolding sample_next_def by (rule publishes [OF sample_order(2) sample_staged prod.collapse [symmetric]])
  moreover have "acts model_git (\<lambda>_. True) model_view sample_next sample_last"
    unfolding sample_last_def by (rule deletes [OF sample_order(1) prod.collapse [symmetric]])
  ultimately show ?thesis by (meson r_into_rtranclp rtranclp_trans)
qed

lemma messages_immutable_witness:
  "\<exists>M'. store_holds model_view sample_last M' \<and> (M' 1 = None \<or> M' 1 = Some ''hi'')"
proof -
  have "keeps model_view sample_store sample_mail" by (simp add: keeps_def sample_base sample_ready sample_holds)
  with history_moves [OF model_git_sound sample_acts] obtain M' where "store_holds model_view sample_last M'"
    unfolding moves_def keeps_def by blast
  with messages_immutable [OF model_git_sound sample_base sample_ready sample_holds sample_acts this, of 1]
  show ?thesis by (auto simp: sample_store_def sample_state_def sample_ids)
qed

lemma snapshot_stable_witness:
  "snapshot_shows model_view sample_last (Snapshot sample_store) sample_mail \<and> read_ready model_view sample_last"
  by (rule snapshot_stable [OF model_git_sound sample_base sample_ready sample_holds sample_failure sample_acts])

text \<open>C19: a store that has failed stays failed, and its mailbox is frozen: no operation changes it
  any more.\<close>

theorem failed_store_frozen:
  assumes "git_sound G view" "store_base view s" "read_ready view s" "store_holds view s M" "st_failure s \<noteq> None"
    and "(acts G graphic view)\<^sup>*\<^sup>* s s'"
  shows "store_holds view s' M \<and> st_failure s' \<noteq> None"
proof -
  have "keeps view s' M \<and> st_failure s' \<noteq> None"
    using assms(6)
  proof (induction rule: rtranclp_induct)
    case base
    with assms(2-5) show ?case by (simp add: keeps_def)
  next
    case (step t u)
    then have k: "keeps view t M" "st_failure t \<noteq> None" by simp_all
    have read: "keeps view u M \<and> st_failure u \<noteq> None" if "read_step view t u" "read_ready view u"
      using that k store_holds_read [OF that(1)] read_stepD(4) [OF that(1)] by (simp add: keeps_def)
    from acts_frozen [OF assms(1) step(2) k] show ?case using read by blast
  qed
  then show ?thesis by (simp add: keeps_def)
qed

lemma failed_store_frozen_witness:
  "\<exists>s'. s' = snd (Publish model_git sample_publish 0 (sample_store\<lparr>st_failure := Some OsErrClosed\<rparr>)) \<and>
    store_holds model_view s' sample_mail \<and> st_failure s' \<noteq> None"
proof -
  let ?s = "sample_store\<lparr>st_failure := Some OsErrClosed\<rparr>"
  have fr: "spool_frame sample_store ?s" by (simp add: spool_frame_def)
  have h: "store_holds model_view ?s sample_mail" by (rule store_holds_spool [OF fr sample_holds]) simp
  have b: "store_base model_view ?s" using sample_base by (simp add: store_base_def importer_idle_def)
  have r: "read_ready model_view ?s" using sample_ready by (simp add: read_ready_def)
  have st: "staged_ready 0 ''yo'' ?s" using sample_staged by (simp add: staged_ready_def)
  let ?s' = "snd (Publish model_git sample_publish 0 ?s)"
  have "acts model_git (\<lambda>_. True) model_view ?s ?s'" by (rule publishes [OF sample_order(2) st prod.collapse [symmetric]])
  then have "(acts model_git (\<lambda>_. True) model_view)\<^sup>*\<^sup>* ?s ?s'" by (rule r_into_rtranclp)
  from failed_store_frozen [OF model_git_sound b r h _ this] show ?thesis by simp
qed

end
