(* ===== verification/Pop3.thy ===== *)
theory Pop3
  imports Pop3_Live Mailbox_History
begin

text \<open>
  The properties of the POP3 server, each for every store that serves a mailbox as the archive
  does, and each applied at a session on the store of \<open>Sample_Store\<close>.
\<close>

section \<open>A session to apply them at\<close>

definition sample_conn :: conn where
  "sample_conn = \<lparr>cn_buf = [], cn_reads = [''PASS x'' @ CRLF, ''QUIT'' @ CRLF], cn_end = IoEOF, cn_out = [], cn_room = None\<rparr>"

definition sample_session :: pop3_session where
  "sample_session =
     \<lparr>pn_conn = sample_conn, pn_username = ''joe'', pn_authenticated = True, pn_snapshot = Snapshot sample_store,
      pn_deleted = [], pn_deletedOctets = 0, pn_authFailures = 0, pn_log = []\<rparr>"

definition sample_marked :: pop3_session where
  "sample_marked = sample_session\<lparr>pn_deleted := [(1, 1)], pn_deletedOctets := 2\<rparr>"

definition sample_drop :: "model_git store maildrop" where
  "sample_drop = store_maildrop 1 model_git (\<lambda>_. True) sample_commit (\<lambda>k s. s)"

definition sample_server :: pop3_server where
  "sample_server =
     \<lparr>ps_hostname = ''mx'', ps_credentials = no_credentials, ps_maxAuthFailures = 3, ps_maxConnections = 16,
      ps_idleTimeout = minimumIdleTimeout\<rparr>"

lemma sample_maildrop: "maildrop_ready model_git model_view (=) sample_commit (\<lambda>k s. s) sample_store"
  using model_git_sound sample_order(1) sample_base sample_ready by (simp add: maildrop_ready_def others_keep_def)

lemma sample_list: "mail_list sample_mail = [message_of 1 ''hi'']" "card (dom sample_mail) = 1"
  by (simp_all add: mail_list_def sample_ids)

lemma sample_session_mail: "session_mail sample_mail sample_session" "session_mail sample_mail sample_marked"
proof -
  have "sample_mail |` {1} = sample_mail" by (auto simp: sample_mail_def restrict_map_def)
  then show "session_mail sample_mail sample_session" "session_mail sample_mail sample_marked"
    using sample_octets
    by (simp_all add: session_mail_def marks_ok_def sample_marked_def sample_session_def sample_list mailbox_octets_def)
qed

lemma sample_session_simps [simp]:
  "pn_authenticated sample_session" "pn_authenticated sample_marked" "pn_open sample_session" "pn_open sample_marked"
  "pn_snapshot sample_session = Snapshot sample_store" "pn_snapshot sample_marked = Snapshot sample_store"
  "pn_deleted sample_session = []" "pn_deleted sample_marked = [(1, 1)]"
  by (simp_all add: sample_session_def sample_marked_def pn_open_def sample_conn_def)

lemma sample_pop3_ok: "pop3_ok (snapshot_shows model_view) sample_store sample_mail sample_session"
  using sample_shows sample_session_mail by (simp add: pop3_ok_def)

lemma sample_numbers:
  "trim_space ''1'' = ''1''" "trim_space ''2'' = ''2''" "Go_Strings.fields ''1 0'' = [''1'', ''0'']"
  "parse_uint ''0'' 10 64 = Some 0" "parse_uint ''1'' 10 64 = Some 1" "parse_uint ''2'' 10 64 = Some 2"
proof -
  show "trim_space ''1'' = ''1''" by code_simp
  show "trim_space ''2'' = ''2''" by code_simp
  show "Go_Strings.fields ''1 0'' = [''1'', ''0'']" by code_simp
  have "parse_digits 10 0 ''0'' = Some 0" by code_simp
  then show "parse_uint ''0'' 10 64 = Some 0" by (simp add: parse_uint_def)
  have "parse_digits 10 0 ''1'' = Some 1" by code_simp
  then show "parse_uint ''1'' 10 64 = Some 1" by (simp add: parse_uint_def)
  have "parse_digits 10 0 ''2'' = Some 2" by code_simp
  then show "parse_uint ''2'' 10 64 = Some 2" by (simp add: parse_uint_def)
qed

lemma sample_count: "snapshot_Count (Snapshot sample_store) = 1"
  by (simp add: snapshot_Count_def Snapshot_def snapshotLocked_def sample_store_def sample_state_def)

lemma sample_number: "number_of ''1'' sample_session = Some 1" "number_of ''2'' sample_session = None"
  using u64_le [of 2 1] by (simp_all add: number_of_def messageID_def sample_numbers sample_count)

section \<open>Messages\<close>

text \<open>C5: \<open>RETR\<close> gives the client exactly the message: after the greeting with its octets, what a
  client reads up to the terminating dot, with the stuffed dots taken away, is the stored text, its
  last line completed if it is not; a number that is not of the maildrop, or is marked, is refused.
  The other outcomes are the two error replies, and a connection that is closed when Git fails in
  the middle; they do not occur when Git answers in full.\<close>

theorem retr_exact:
  assumes "maildrop_ready G view R env others s" "snapshot_shows view s (pn_snapshot ss) M" "session_mail M ss"
    and "pn_authenticated ss" "pn_open ss" "pop3_retr (store_maildrop fuel G graphic env others) argument ss s = (out, s')"
  shows "case number_of argument ss of
      None \<Rightarrow> out = says ss ''-ERR no such message'' \<and> s' = s
    | Some n \<Rightarrow>
        served ss (''+OK '' @ fmt_nat 10 (length (mail_text M n)) @ '' octets'') None (mail_text M n) out \<and>
        (maildrop_answers G view M s \<longrightarrow>
           (\<exists>ss'. out = Open ss' \<and> serves (''+OK '' @ fmt_nat 10 (length (mail_text M n)) @ '' octets'') None (mail_text M n) ss ss'))"
  using pop.retr_reply [OF assms] answering.retr_live [OF assms(1) _ assms(2-5) _ assms(6)] by (cases "number_of argument ss") auto

lemma sample_text: "mail_text sample_mail 1 = ''hi''"
  by (simp add: mail_text_def sample_list sample_ids)

lemma retr_exact_witness:
  "\<exists>ss' s'. pop3_retr sample_drop ''1'' sample_session sample_store = (Open ss', s') \<and>
     serves (''+OK '' @ fmt_nat 10 (length ''hi'') @ '' octets'') None ''hi'' sample_session ss'"
proof -
  obtain out s' where x: "pop3_retr sample_drop ''1'' sample_session sample_store = (out, s')" by (meson surj_pair)
  have "snapshot_shows model_view sample_store (pn_snapshot sample_session) sample_mail" using sample_shows by simp
  from retr_exact [OF sample_maildrop this sample_session_mail(1) _ _ x [unfolded sample_drop_def]] x sample_answers
  show ?thesis by (simp add: sample_number sample_text)
qed

text \<open>C35: \<open>TOP\<close> shows exactly the header, the empty line and the given number of lines of the body,
  and it does whenever Git answers in full.\<close>

theorem top_exact:
  assumes "maildrop_ready G view R env others s" "snapshot_shows view s (pn_snapshot ss) M" "session_mail M ss"
    and "pn_authenticated ss" "pn_open ss" "pop3_top (store_maildrop fuel G graphic env others) argument ss s = (out, s')"
  shows "case topArguments argument (snapshot_Count (pn_snapshot ss)) of
      None \<Rightarrow> out = says ss ''-ERR invalid arguments'' \<and> s' = s
    | Some (n, limit) \<Rightarrow>
        if n \<in> fst ` set (pn_deleted ss) then out = says ss ''-ERR invalid arguments'' \<and> s' = s
        else served ss ''+OK top of message follows'' (Some limit) (mail_text M n) out \<and>
          (maildrop_answers G view M s \<longrightarrow> (\<exists>ss'. out = Open ss' \<and> serves ''+OK top of message follows'' (Some limit) (mail_text M n) ss ss'))"
proof (cases "topArguments argument (snapshot_Count (pn_snapshot ss))")
  case None
  with pop.top_reply [OF assms] show ?thesis by simp
next
  case (Some a)
  obtain n limit where "a = (n, limit)" by (meson surj_pair)
  with Some pop.top_reply [OF assms] answering.top_live [OF assms(1) _ assms(2-5) _ _ assms(6), of n limit] show ?thesis by auto
qed

lemma top_exact_witness:
  "\<exists>ss' s'. pop3_top sample_drop ''1 0'' sample_session sample_store = (Open ss', s') \<and>
     serves ''+OK top of message follows'' (Some 0) ''hi'' sample_session ss'"
proof -
  obtain out s' where x: "pop3_top sample_drop ''1 0'' sample_session sample_store = (out, s')" by (meson surj_pair)
  have sh: "snapshot_shows model_view sample_store (pn_snapshot sample_session) sample_mail" using sample_shows by simp
  have "topArguments ''1 0'' (snapshot_Count (pn_snapshot sample_session)) = Some (1, 0)"
    by (simp add: topArguments_def messageID_def sample_numbers sample_count)
  with top_exact [OF sample_maildrop sh sample_session_mail(1) _ _ x [unfolded sample_drop_def]] x sample_answers
  show ?thesis by (simp add: sample_text)
qed

section \<open>Counting and listing\<close>

text \<open>C36: \<open>STAT\<close> counts the messages that are not marked and their octets, with no wrap-around.\<close>

theorem stat_counts:
  assumes "maildrop_ready G view R env others s" "snapshot_shows view s (pn_snapshot ss) M" "session_mail M ss"
    and "pn_authenticated ss"
  shows "pop3_stat [] ss =
    says ss (''+OK '' @ fmt_nat 10 (card (dom (unmarked M ss))) @ '' '' @ fmt_nat 10 (mailbox_octets (unmarked M ss)))"
  by (rule pop.stat_reply [OF assms(2-4)])

lemma stat_counts_witness: "pop3_stat [] sample_marked = says sample_marked ''+OK 0 0''"
proof -
  have sh: "snapshot_shows model_view sample_store (pn_snapshot sample_marked) sample_mail" using sample_shows by simp
  have "unmarked sample_mail sample_marked = Map.empty" by (auto simp: unmarked_def sample_mail_def restrict_map_def)
  moreover have "fmt_nat 10 0 = ''0''" by code_simp
  ultimately show ?thesis
    using stat_counts [OF sample_maildrop sh sample_session_mail(2)] by (simp add: mailbox_octets_def)
qed

text \<open>C21: \<open>LIST\<close> and \<open>UIDL\<close> without an argument answer with one row for every message that is not
  marked, in order, numbered as in the maildrop; when Git fails the connection is closed, and when
  it answers in full the listing is complete.\<close>

theorem listing_exact:
  assumes "maildrop_ready G view R env others s" "snapshot_shows view s (pn_snapshot ss) M" "pn_authenticated ss" "pn_open ss"
    and "pop3_rows (store_maildrop fuel G graphic env others) row [] ss s = (out, s')" "row \<in> {list_row, uidl_row}"
  shows "(case out of
      Open ss' \<Rightarrow> pn_out ss' = pn_out ss @ ''+OK listing follows'' @ CRLF @ listing_text ss row 0 (mail_list M) @ ''.'' @ CRLF
    | Ended _ \<Rightarrow> True) \<and> (maildrop_answers G view M s \<longrightarrow> (\<exists>ss'. out = Open ss'))"
proof
  show "case out of
      Open ss' \<Rightarrow> pn_out ss' = pn_out ss @ ''+OK listing follows'' @ CRLF @ listing_text ss row 0 (mail_list M) @ ''.'' @ CRLF
    | Ended _ \<Rightarrow> True"
    using pop.listing_reply [OF assms(1-4)] assms(5) by (cases out) auto
  show "maildrop_answers G view M s \<longrightarrow> (\<exists>ss'. out = Open ss')"
    using answering.listing_live [OF assms(1) _ assms(2-5)] by blast
qed

lemma listing_exact_witness:
  "\<exists>ss' s'. pop3_rows sample_drop uidl_row [] sample_session sample_store = (Open ss', s') \<and>
     pn_out ss' = ''+OK listing follows'' @ CRLF @ ''1 picomx-1'' @ CRLF @ ''.'' @ CRLF"
proof -
  obtain out s' where x: "pop3_rows sample_drop uidl_row [] sample_session sample_store = (out, s')" by (meson surj_pair)
  have sh: "snapshot_shows model_view sample_store (pn_snapshot sample_session) sample_mail" using sample_shows by simp
  have d: "fmt_nat 10 1 = ''1''" "fmt_nat 36 1 = ''1''" by code_simp+
  have row: "uidl_row 1 1 2 = ''1 picomx-1''" by (simp add: uidl_row_def uniqueID_def format_uint_def d [simplified])
  have "listing_text sample_session uidl_row 0 (mail_list sample_mail) = ''1 picomx-1'' @ CRLF"
    using row by (simp add: listing_text_def sample_list marked_def)
  moreover have "pn_out sample_session = []" by (simp add: pn_out_def sample_session_def sample_conn_def)
  ultimately show ?thesis
    using listing_exact [OF sample_maildrop sh _ _ x [unfolded sample_drop_def]] x sample_answers by auto
qed

text \<open>The unique ID of a message is a function of its permanent ID that separates the messages:
  two IDs never share one, so that it never names another message in another session.\<close>

lemma uniqueID_separates: "uniqueID i = uniqueID j \<longleftrightarrow> i = j"
proof
  assume "uniqueID i = uniqueID j"
  then have "format_uint i 36 = format_uint j 36" by (simp add: uniqueID_def)
  moreover have "parse_uint (format_uint k 36) 36 64 = Some k" for k by (rule parse_uint_format_uint) simp_all
  ultimately show "i = j" by (metis option.inject)
qed simp

section \<open>Reading and deleting\<close>

text \<open>C28: no command but a \<open>QUIT\<close> that deletes changes the mailbox or any snapshot: every mailbox
  that the store holds, and every snapshot it shows, it goes on holding and showing, and the marks
  of the session stay marks of its maildrop.\<close>

theorem commands_only_read:
  assumes "maildrop_ready G view R env others s" "st_failure s = None" "store_holds view s N"
    and "pop3_ok (snapshot_shows view) s M ss" "\<not> quits command argument ss"
    and "pop3_command sum256 sv (store_maildrop fuel G graphic env others) order command argument ss s = (out, s')"
  shows "maildrop_ready G view R env others s' \<and> st_failure s' = None \<and>
    keeps_mail (snapshot_shows view) (store_holds view) s s' \<and>
    pop3_ok (snapshot_shows view) s' (if pn_authenticated ss then M else N) (session_of out)"
  using pop.command_safe [OF assms] assms(2) by (simp add: pop.only_read_def)

lemma commands_only_read_witness:
  "\<exists>out s'. pop3_command (\<lambda>x. x) sample_server sample_drop (\<lambda>xs. xs) ''DELE'' ''1'' sample_session sample_store = (out, s') \<and>
     store_holds model_view s' sample_mail \<and> st_failure s' = None"
proof -
  obtain out s' where
    x: "pop3_command (\<lambda>x. x) sample_server sample_drop (\<lambda>xs. xs) ''DELE'' ''1'' sample_session sample_store = (out, s')"
    by (meson surj_pair)
  have "\<not> quits ''DELE'' ''1'' sample_session" by (simp add: quits_def)
  from commands_only_read [OF sample_maildrop sample_failure sample_holds sample_pop3_ok this x [unfolded sample_drop_def]] x
    sample_holds show ?thesis by (auto simp: keeps_mail_def)
qed

text \<open>C6: \<open>QUIT\<close> deletes exactly the marked messages, from the mailbox as the other sessions have
  left it by then, before it says goodbye; when it reports an error nothing is deleted, or the
  deletion is committed in a store that has failed. It reports none when Git answers in full and
  carries out the commit and nobody else is at work.\<close>

theorem quit_deletes_marked:
  assumes "maildrop_ready G view R env others s" "st_failure s = None" "store_holds view s N" "\<And>xs. set (order xs) = set xs"
    and "pn_authenticated ss" "pn_deleted ss \<noteq> []"
    and "pop3_quit (store_maildrop fuel G graphic env others) order [] ss s = (out, s')"
  shows "\<exists>M'. R\<^sup>*\<^sup>* N M' \<and>
      (if deletable G view fuel others (order (map snd (pn_deleted ss))) N s
       then out = Ended (fst (pop3_reply ss ''+OK bye'')) \<and> st_failure s' = None \<and> store_holds view s' (unmarked M' ss)
       else
         out = Ended (fst (pop3_reply ss ''+OK bye'')) \<and> st_failure s' = None \<and> store_holds view s' (unmarked M' ss) \<or>
         (\<exists>e. out = Ended (fst (pop3_reply (add_log (LogDeletionFailed e) ss) ''-ERR unable to commit deletions''))) \<and>
         (store_holds view s' M' \<or> store_holds view s' (unmarked M' ss) \<and> st_failure s' \<noteq> None))"
proof (cases "deletable G view fuel others (order (map snd (pn_deleted ss))) N s")
  case True
  from answering.quit_live [OF assms(1-6) True assms(7)] True show ?thesis by simp
next
  case False
  from pop.quit_safe [OF assms] False show ?thesis by auto
qed

lemma quit_deletes_marked_witness:
  "\<exists>s'. pop3_quit sample_drop (\<lambda>xs. xs) [] sample_marked sample_store = (Ended (fst (pop3_reply sample_marked ''+OK bye'')), s') \<and>
     store_holds model_view s' Map.empty \<and> st_failure s' = None"
proof -
  obtain out s' where x: "pop3_quit sample_drop (\<lambda>xs. xs) [] sample_marked sample_store = (out, s')" by (meson surj_pair)
  have ids: "set ((\<lambda>xs. xs) ys) = set ys" for ys :: "u64 list" by simp
  from quit_deletes_marked [OF sample_maildrop sample_failure sample_holds ids _ _ x [unfolded sample_drop_def]] sample_deletable
  obtain M' where d: "(=)\<^sup>*\<^sup>* sample_mail M'" "out = Ended (fst (pop3_reply sample_marked ''+OK bye''))" "st_failure s' = None"
    "store_holds model_view s' (unmarked M' sample_marked)" by auto
  from d(1) have "M' = sample_mail" by (induction rule: rtranclp_induct) auto
  moreover have "unmarked sample_mail sample_marked = Map.empty" by (auto simp: unmarked_def sample_mail_def restrict_map_def)
  ultimately show ?thesis using d(2-4) x by simp
qed

section \<open>Authentication\<close>

text \<open>C15: before authentication nothing of the mailbox is touched or shown: the store stays as it
  is, and what the session says and becomes is the same for every mailbox whatever it holds. The
  session is authenticated only by the configured credentials.\<close>

theorem unauthenticated_isolated:
  assumes "\<not> pn_authenticated ss" "pop3_command sum256 sv md order command argument ss s = (out, s')"
  shows "s' = s \<and>
    (if pn_authenticated (session_of out)
     then command = ''PASS'' \<and> authenticate sum256 (ps_credentials sv) (pn_username ss) argument
     else \<forall>md' order' t. pop3_command sum256 sv md' order' command argument ss t = (out, t))"
  using authenticated_only_by_pass [OF assms(2,1)] by auto

lemma unauthenticated_isolated_witness:
  "\<exists>out s'. pop3_command (\<lambda>x. x) sample_server sample_drop (\<lambda>xs. xs) ''RETR'' ''1''
       (sample_session\<lparr>pn_authenticated := False\<rparr>) sample_store = (out, s') \<and> s' = sample_store"
proof -
  obtain out s' where x: "pop3_command (\<lambda>x. x) sample_server sample_drop (\<lambda>xs. xs) ''RETR'' ''1''
      (sample_session\<lparr>pn_authenticated := False\<rparr>) sample_store = (out, s')" by (meson surj_pair)
  have "\<not> pn_authenticated (sample_session\<lparr>pn_authenticated := False\<rparr>)" by simp
  from conjunct1 [OF unauthenticated_isolated [OF this x]] x show ?thesis by blast
qed

text \<open>C37: credentials that are not configured, or whose digest is not one, let nobody in; those that
  are let in exactly the user and the password with the configured digests.\<close>

theorem credentials_fail_closed:
  "case NewCredentials sum256 username digest of
     Inr c \<Rightarrow> authenticate sum256 c u p \<longleftrightarrow>
       trim_space username \<noteq> [] \<and> trim_space digest \<noteq> [] \<and> sum256 u = sum256 (trim_space username) \<and>
       hex_decode (trim_space digest) = Some (sum256 p) \<and> length (sum256 p) = 32
   | Inl e \<Rightarrow> trim_space username \<noteq> [] \<and> trim_space digest \<noteq> [] \<and>
       (case hex_decode (trim_space digest) of None \<Rightarrow> True | Some d \<Rightarrow> length d \<noteq> 32)"
  by (auto simp: NewCredentials_def Let_def authenticate_def no_credentials_def split: option.split)

text \<open>What a session may become: any turns, with the store as other sessions leave it.\<close>

inductive pop3_reach ::
  "(string \<Rightarrow> string) \<Rightarrow> pop3_server \<Rightarrow> 's maildrop \<Rightarrow> (u64 list \<Rightarrow> u64 list) \<Rightarrow> conn \<Rightarrow> pop3_outcome \<Rightarrow> bool"
  for sum256 sv md order c where
  starts: "pop3_reach sum256 sv md order c (pop3_start sv c)"
| turns: "pop3_reach sum256 sv md order c (Open ss) \<Longrightarrow> pop3_step sum256 sv md order ss s = (out, s') \<Longrightarrow>
    pop3_reach sum256 sv md order c out"

text \<open>One turn is a command on the session with the line taken from the connection, or the end.\<close>

lemma pop3_step_cases:
  assumes "pop3_step sum256 sv md order ss s = (out, s')"
  obtains (stop) e c where "readCommand (pn_conn ss) = (Inl e, c)" "same_session ss (session_of out)" "s' = s"
      "\<exists>ss'. out = Ended ss'"
    | (command) line c where "readCommand (pn_conn ss) = (Inr line, c)"
      "pop3_command sum256 sv md order (fst (splitCommand line)) (snd (splitCommand line))
         (add_log (log_command (fst (splitCommand line)) (snd (splitCommand line))) (ss\<lparr>pn_conn := c\<rparr>)) s = (out, s')"
proof -
  obtain res c where x: "readCommand (pn_conn ss) = (res, c)" by (meson surj_pair)
  show thesis
  proof (cases res)
    case (Inl e)
    have "same_session ss (fst (pop3_reply (ss\<lparr>pn_conn := c\<rparr>) l))" for l
      by (simp add: pop3_reply_def same_session_def split: prod.split)
    with assms x Inl show thesis by (intro stop [of e c]) (auto simp: pop3_step_def Let_def split: if_splits)
  next
    case (Inr line)
    with assms x show thesis by (intro command [of line c]) (simp_all add: pop3_step_def Let_def split_def)
  qed
qed



text \<open>C39: what a turn logs: the argument of a command only if the command is one of POP3's and not
  \<open>PASS\<close>, so that no password and no mistyped command line gets into the log.\<close>

theorem password_not_logged:
  assumes "pop3_step sum256 sv md order ss s = (out, s')" "l \<in> set (pn_log (session_of out))"
  shows "l \<in> set (pn_log ss) \<or> l = LogAuthFailed \<or> l = LogAuthSucceeded (pn_username ss) \<or> (\<exists>e. l = LogDeletionFailed e) \<or>
    (\<exists>v. l = LogCommand v None \<and> v \<in> insert ''UNKNOWN'' pop3_commands) \<or>
    (\<exists>line c v a. readCommand (pn_conn ss) = (Inr line, c) \<and> splitCommand line = (v, a) \<and> l = LogCommand v (Some a) \<and>
       v \<in> pop3_commands - {''PASS''})"
  using assms(1)
proof (cases rule: pop3_step_cases)
  case stop
  with assms(2) same_sessionD(7) [OF stop(2)] show ?thesis by simp
next
  case (command line c)
  obtain v a where va: "splitCommand line = (v, a)" by (meson surj_pair)
  from pop3_command_log [OF command(2)] assms(2) va
  have "l \<in> set (pn_log ss) \<or> l = log_command v a \<or> l = LogAuthFailed \<or> l = LogAuthSucceeded (pn_username ss) \<or>
      (\<exists>e. l = LogDeletionFailed e)" by (auto simp: add_log_def)
  with log_command_cases [of v a] command(1) va show ?thesis by auto
qed

lemma password_not_logged_witness:
  "\<exists>out s'. pop3_step (\<lambda>x. x) sample_server sample_drop (\<lambda>xs. xs) (sample_session\<lparr>pn_authenticated := False\<rparr>) sample_store = (out, s') \<and>
     LogCommand ''PASS'' (Some ''x'') \<notin> set (pn_log (session_of out))"
proof -
  let ?ss = "sample_session\<lparr>pn_authenticated := False\<rparr>"
  obtain out s' where
    x: "pop3_step (\<lambda>x. x) sample_server sample_drop (\<lambda>xs. xs) ?ss sample_store = (out, s')" by (meson surj_pair)
  have "LogCommand ''PASS'' (Some ''x'') \<notin> set (pn_log ?ss)" by (simp add: sample_session_def)
  with password_not_logged [OF x, of "LogCommand ''PASS'' (Some ''x'')"] x show ?thesis by auto
qed

section \<open>The end of a session\<close>

text \<open>A turn that does not end the session takes at least a byte of the input.\<close>

context visiting_maildrop
begin

lemma step_progress:
  assumes "length (cn_buf (pn_conn ss)) \<le> 256" "pop3_step sum256 sv md order ss s = (Open ss', s')"
  shows "length (cn_buf (pn_conn ss')) \<le> 256 \<and> length (cn_stream (pn_conn ss')) < length (cn_stream (pn_conn ss))"
  using assms(2)
proof (cases rule: pop3_step_cases)
  case stop
  then show ?thesis by simp
next
  case (command line c)
  have r: "length (cn_buf c) \<le> 256" "length (cn_stream c) < length (cn_stream (pn_conn ss))"
    using readCommand_sound [OF assms(1) command(1)] by simp_all
  from command_reader [OF command(2)] have "same_reader c (pn_conn ss')" by (simp add: add_log_def)
  from same_reader_length [OF this] r show ?thesis by simp
qed

lemma serve_ends:
  assumes "length (cn_buf (pn_conn ss)) \<le> 256" "length (cn_stream (pn_conn ss)) < fuel"
  shows "\<exists>ss' s'. pop3_serve sum256 sv md order elsewhere fuel (Open ss) s = (Ended ss', s')"
  using assms
proof (induction fuel arbitrary: ss s)
  case (Suc k)
  obtain out s1 where x: "pop3_step sum256 sv md order ss (elsewhere k s) = (out, s1)" by (meson surj_pair)
  show ?case
  proof (cases out)
    case (Open ss1)
    from step_progress [OF Suc.prems(1) x [unfolded Open]] Suc.prems(2) Suc.IH [of ss1 s1] x Open show ?thesis by simp
  next
    case (Ended ss1)
    with x show ?thesis by (cases k) simp_all
  qed
qed simp

end


end
