(* ===== verification/Mailbox.thy ===== *)
theory Mailbox
  imports Sample_Live
begin

text \<open>
  The properties of the mailbox operations, each for every Git that behaves as documented and
  every store that serves a mailbox, and each applied at the store of \<open>Sample_Store\<close>.
\<close>

section \<open>Publishing\<close>

text \<open>C2: \<open>Publish\<close> appends exactly the staged message under the next ID. When it reports an error
  the mailbox is as before, or holds the message in a store that has failed and refuses everything
  else; the believed state has not moved. It reports none when there is room, the disk works and Git
  carries out the commit.\<close>

theorem publish_appends:
  assumes "git_sound G view" "store_base view s" "store_holds view s M" "order_ok (pe_commit env)"
    and "staged_ready i c s" "Publish G env i s = (res, s')"
  shows "(case res of
     Inr (nid, path) \<Rightarrow>
       nid = mb_LastID (st_state s) + 1 \<and> nid \<noteq> 0 \<and> M nid = None \<and> messagePath nid (of_nat (length c)) = Inr path \<and>
       store_holds view s' (M(nid \<mapsto> c)) \<and> st_failure s' = None \<and> mb_LastID (st_state s') = nid
   | Inl e \<Rightarrow>
       st_state s' = st_state s \<and>
       (store_holds view s' M \<or> store_holds view s' (M(mb_LastID (st_state s) + 1 \<mapsto> c)) \<and> st_failure s' \<noteq> None)) \<and>
   (publishable env i c M s \<and>
      git_commits G (st_importer s \<noteq> None) (publish_meant (mb_LastID (st_state s) + 1) c) (st_headID s) (st_git s) \<longrightarrow>
    (\<exists>x. res = Inr x))"
proof
  show "case res of
     Inr (nid, path) \<Rightarrow>
       nid = mb_LastID (st_state s) + 1 \<and> nid \<noteq> 0 \<and> M nid = None \<and> messagePath nid (of_nat (length c)) = Inr path \<and>
       store_holds view s' (M(nid \<mapsto> c)) \<and> st_failure s' = None \<and> mb_LastID (st_state s') = nid
   | Inl e \<Rightarrow>
       st_state s' = st_state s \<and>
       (store_holds view s' M \<or> store_holds view s' (M(mb_LastID (st_state s) + 1 \<mapsto> c)) \<and> st_failure s' \<noteq> None)"
    using Publish_spec [OF assms] message_of_path [of "mb_LastID (st_state s) + 1" c]
    by (auto simp: outcome_ok_def split: sum.split)
  show "publishable env i c M s \<and>
      git_commits G (st_importer s \<noteq> None) (publish_meant (mb_LastID (st_state s) + 1) c) (st_headID s) (st_git s) \<longrightarrow>
    (\<exists>x. res = Inr x)"
    using Publish_live [OF assms(2,3)] assms(6) by fastforce
qed

lemma publish_appends_witness:
  "\<exists>path s'. Publish model_git sample_publish 0 sample_store = (Inr (2, path), s') \<and>
     store_holds model_view s' (sample_mail(2 \<mapsto> ''yo'')) \<and> st_failure s' = None"
proof -
  obtain res s' where x: "Publish model_git sample_publish 0 sample_store = (res, s')" by (meson surj_pair)
  have n: "mb_LastID (st_state sample_store) + 1 = 2" by (simp add: sample_store_def sample_state_def)
  have g: "st_importer sample_store = None" "st_headID sample_store = commit_oid 0" "st_git sample_store = sample_git"
    by (simp_all add: sample_store_def)
  note p = publish_appends [OF model_git_sound sample_base sample_holds sample_order(2) sample_staged x, unfolded n g]
  obtain nid path where r: "res = Inr (nid, path)"
    using conjunct2 [OF p] sample_publishable sample_commits [of "''yo''"] by auto
  with conjunct1 [OF p] x show ?thesis by auto
qed

section \<open>Reading\<close>

lemma sample_reads_fully: "reads_fully model_git model_view sample_store"
  by (simp add: model_reads_fully reads_open_def sample_store_def)

text \<open>C17: the \<open>n\<close>-th message of a snapshot is the message with the \<open>n\<close>-th smallest ID, and
  \<open>ErrNoSuchMessage\<close> is reported exactly for a number that no message has; any other error is one
  of the operating system, and there is none when Git answers in full.\<close>

theorem lookup_by_number:
  assumes "git_sound G view" "read_ready view s" "snapshot_shows view s snap M"
    and "Lookup G snap number s = (res, s')"
  shows "if number = 0 \<or> card (dom M) < unat number then res = Inl ErrNoSuchMessage
     else case res of
            Inr m \<Rightarrow> m = mail_list M ! (unat number - 1)
          | Inl e \<Rightarrow> \<not> errors_is e ErrNoSuchMessage \<and> \<not> reads_fully G view s"
proof -
  have "\<not> reads_fully G view s" if "res = Inl e" "number \<noteq> 0" "unat number \<le> card (dom M)" for e
    using Lookup_live [OF assms(1,2) _ assms(3), of number] assms(4) that by (metis Inl_Inr_False prod.inject)
  then show ?thesis using Lookup_sound [OF assms] by (auto simp: os_error_def split: if_splits sum.splits)
qed

lemma lookup_by_number_witness:
  "\<exists>s'. Lookup model_git (Snapshot sample_store) 1 sample_store = (Inr (message_of 1 ''hi''), s')"
proof -
  obtain res s' where x: "Lookup model_git (Snapshot sample_store) 1 sample_store = (res, s')" by (meson surj_pair)
  from lookup_by_number [OF model_git_sound sample_ready sample_shows x] sample_reads_fully
  have "res = Inr (message_of 1 ''hi'')" by (auto simp: mail_list_def sample_ids split: sum.splits)
  with x show ?thesis by blast
qed

text \<open>C22: a message is found by its ID exactly when the snapshot has it, with its size; an ID that
  is reported as absent is absent, and when Git answers in full nothing else is ever reported.\<close>

theorem message_by_id:
  assumes "git_sound G view" "read_ready view s" "snapshot_shows view s snap M"
    and "messageByID G snap i s = (res, s')"
  shows "case res of
       Inr m \<Rightarrow> \<exists>c. M i = Some c \<and> MsgID m = i \<and> unat (MsgSize m) = length c \<and> messageFromPath (MsgPath m) = Inr m
     | Inl e \<Rightarrow> (errors_is e ErrNoSuchMessage \<longrightarrow> M i = None) \<and> (reads_fully G view s \<longrightarrow> e = ErrNoSuchMessage)"
proof (cases res)
  case (Inl e)
  with messageByID_sound [OF assms] messageByID_live [OF assms(1,2) _ assms(3,4)] show ?thesis by simp
next
  case (Inr m)
  with messageByID_sound [OF assms] obtain c where m: "M i = Some c" "m = message_of i c" by auto
  then have "i \<noteq> 0" "length c < 18446744073709551616"
    using snapshot_showsD(1) [OF assms(3)] by (auto simp: mailbox_ok_def)
  with m Inr messageFromPath_message_of [of i c] show ?thesis by (simp add: unat_of_nat_u64)
qed

lemma message_by_id_witness:
  "\<exists>m s'. messageByID model_git (Snapshot sample_store) 1 sample_store = (Inr m, s') \<and>
     MsgID m = 1 \<and> unat (MsgSize m) = 2 \<and> messageFromPath (MsgPath m) = Inr m"
proof -
  obtain res s' where x: "messageByID model_git (Snapshot sample_store) 1 sample_store = (res, s')" by (meson surj_pair)
  have "errors_is ErrNoSuchMessage ErrNoSuchMessage" by (simp add: errors_is.simps)
  with message_by_id [OF model_git_sound sample_ready sample_shows x] sample_reads_fully sample_ids(2) x
  show ?thesis by (cases res) auto
qed

text \<open>C23: \<open>ListAt\<close> visits every message of the snapshot once, in ID order, numbered from one, and
  stops at the first visit that fails; when Git fails it has visited a prefix, and it has visited
  them all when Git answers in full.\<close>

theorem list_visits_all:
  assumes "git_sound G view" "read_ready view s" "snapshot_shows view s snap M"
    and "ListAt G snap visit c s = (err, c', s')"
  shows "(err, c') = visit_all visit 0 (mail_list M) c \<or>
     \<not> reads_fully G view s \<and>
     (\<exists>e xs ys. err = Some e \<and> \<not> errors_is e ErrNoSuchMessage \<and> mail_list M = xs @ ys \<and>
        visit_all visit 0 xs c = (None, c'))"
  using ListAt_sound [OF assms] ListAt_live [OF assms(1,2) _ assms(3,4)] unfolding os_error_def by blast

lemma list_visits_all_witness:
  "\<exists>s'. ListAt model_git (Snapshot sample_store) (\<lambda>n i sz ids. (None, ids @ [(n, i, sz)])) [] sample_store =
     (None, [(1, 1, 2)], s')"
proof -
  let ?v = "\<lambda>n i sz ids. (None :: goerr option, ids @ [(n :: u64, i :: u64, sz :: u64)])"
  obtain err ids s' where x: "ListAt model_git (Snapshot sample_store) ?v [] sample_store = (err, ids, s')" by (metis surj_pair)
  from list_visits_all [OF model_git_sound sample_ready sample_shows x] sample_reads_fully x show ?thesis
    by (simp add: mail_list_def sample_ids)
qed

text \<open>C18: the reader that \<open>OpenAt\<close> returns gives exactly the octets of the message that the
  snapshot has under the ID: what is read without an error is the whole message, and what is read
  before an error is a prefix of it. An ID that is reported as absent is absent. When Git answers in
  full and the message has fewer than 2^63 octets, it is opened and read without an error.\<close>

theorem open_reads_message:
  assumes "git_sound G view" "read_ready view s" "snapshot_shows view s snap M"
    and "OpenAt G snap i s = (res, s')"
  shows "(case res of
       Inr br \<Rightarrow> (case store_ReadAll br s' of
                    (bytes, err, _) \<Rightarrow> \<exists>rest. M i = Some (bytes @ rest) \<and> (err = None \<longrightarrow> rest = []))
     | Inl e \<Rightarrow> errors_is e ErrNoSuchMessage \<longrightarrow> M i = None) \<and>
    (\<forall>c. reads_fully G view s \<and> M i = Some c \<and> length c < 2 ^ 63 \<longrightarrow>
       (\<exists>br br' s2. res = Inr br \<and> store_ReadAll br s' = (c, None, br', s2)))"
proof -
  obtain mr s0 where x: "messageByID G snap i s = (mr, s0)" by (meson surj_pair)
  note r = messageByID_sound [OF assms(1-3) x]
  show ?thesis
  proof (cases mr)
    case (Inl e)
    have "errors_is ErrNoSuchMessage ErrNoSuchMessage" by (simp add: errors_is.simps)
    then have "reads_fully G view s \<longrightarrow> M i = None" using messageByID_live [OF assms(1,2) _ assms(3) x] r Inl by auto
    with Inl r x assms(4) show ?thesis by (auto simp: OpenAt_def)
  next
    case (Inr m)
    with r obtain c where c: "M i = Some c" "m = message_of i c" by auto
    have o: "OpenMessage G snap (message_of i c) s0 = (res, s')" using x assms(4) Inr c(2) by (simp add: OpenAt_def)
    have s0: "read_ready view s0" "snapshot_shows view s0 snap M" using r by blast+
    note os = OpenMessage_sound [OF assms(1) this c(1) o]
    have live: "\<exists>br br' s2. res = Inr br \<and> store_ReadAll br s' = (c, None, br', s2)"
      if f: "reads_fully G view s" "length c < 2 ^ 63"
    proof -
      have "reads_fully G view s0" using messageByID_live [OF assms(1,2) f(1) assms(3) x] by blast
      from OpenMessage_live [OF assms(1) s0(1) this s0(2) c(1) f(2)] o show ?thesis by (metis prod.inject)
    qed
    show ?thesis
    proof (cases res)
      case (Inl e)
      with os live c(1) show ?thesis by (auto simp: os_error_def)
    next
      case (Inr br)
      obtain bytes err br' s2 where ra: "store_ReadAll br s' = (bytes, err, br', s2)" by (metis surj_pair)
      from os Inr have "reading c br (leased_pipe (st_reader s'))" by simp
      from store_ReadAll_sound [where view = view, OF this ra] c(1) Inr ra live show ?thesis by auto
    qed
  qed
qed

lemma open_reads_message_witness:
  "\<exists>br s' br' s2. OpenAt model_git (Snapshot sample_store) 1 sample_store = (Inr br, s') \<and>
     store_ReadAll br s' = (''hi'', None, br', s2)"
proof -
  obtain res s' where x: "OpenAt model_git (Snapshot sample_store) 1 sample_store = (res, s')" by (meson surj_pair)
  from conjunct2 [OF open_reads_message [OF model_git_sound sample_ready sample_shows x], THEN spec, of "''hi''"]
  have "\<exists>br br' s2. res = Inr br \<and> store_ReadAll br s' = (''hi'', None, br', s2)"
    using sample_reads_fully sample_ids(2) by simp
  with x show ?thesis by auto
qed

section \<open>Deleting\<close>

text \<open>C4: when \<open>DeleteAs\<close> succeeds, exactly the given IDs are gone from the mailbox that the other
  sessions, which may have committed meanwhile, left behind, and absent IDs do not matter. When it
  fails, that mailbox is as it was, or the deletion is committed in a store that has failed. It does
  not fail when Git answers in full and carries out the commit and nobody else is at work.\<close>

theorem delete_removes:
  assumes "git_sound G view" "order_ok env" "others_keep view R others" "serving view s M"
    and "DeleteAs fuel G graphic env others ids username s = (err, s')"
  shows "\<exists>M'. R\<^sup>*\<^sup>* M M' \<and>
    (case err of
       None \<Rightarrow> store_holds view s' (M' |` (- set ids)) \<and> st_failure s' = None
     | Some e \<Rightarrow> store_holds view s' M' \<or> store_holds view s' (M' |` (- set ids)) \<and> st_failure s' \<noteq> None)
    \<and> (deletable G view fuel others ids M s \<longrightarrow> err = None)"
proof -
  have live: "deletable G view fuel others ids M s \<longrightarrow> err = None"
    using DeleteAs_live [OF assms(1,2,4), of fuel others ids graphic username] assms(5) by auto
  have "sorted (sort ids)" by simp
  from delete_loop_sound [OF assms(1-3) this assms(4) assms(5) [unfolded DeleteAs_def], unfolded set_sort]
  obtain M' where "R\<^sup>*\<^sup>* M M'" "case err of
       None \<Rightarrow> serving view s' (M' |` (- set ids))
     | Some e \<Rightarrow> outcome_ok view M' (M' |` (- set ids)) False s'" by blast
  with live show ?thesis by (intro exI [of _ M']) (auto simp: serving_def outcome_ok_def split: option.splits)
qed

lemma delete_removes_witness:
  "\<exists>s'. DeleteAs 1 model_git (\<lambda>_. True) sample_commit (\<lambda>k s. s) [1] ''joe'' sample_store = (None, s') \<and>
     store_holds model_view s' Map.empty \<and> st_failure s' = None"
proof -
  have keep: "others_keep model_view (=) (\<lambda>k s. s)" by (simp add: others_keep_def)
  obtain err s' where x: "DeleteAs 1 model_git (\<lambda>_. True) sample_commit (\<lambda>k s. s) [1] ''joe'' sample_store = (err, s')"
    by (meson surj_pair)
  from delete_removes [OF model_git_sound sample_order(1) keep sample_serving x] sample_deletable
  obtain M' where d: "(=)\<^sup>*\<^sup>* sample_mail M'" "err = None" "store_holds model_view s' (M' |` (- set [1]))" "st_failure s' = None"
    by auto
  from d(1) have "M' = sample_mail" by (induction rule: rtranclp_induct) auto
  moreover have "sample_mail |` (- set [1]) = Map.empty" by (auto simp: sample_mail_def restrict_map_def)
  ultimately show ?thesis using d(2-4) x by simp
qed

end
