(* ===== verification/Serving.thy ===== *)
theory Serving
  imports Smtp_Session Pop3_Session
begin

text \<open>
  \<open>Server.Serve\<close> of \<open>internal/smtp/server.go\<close> and \<open>internal/pop3/server.go\<close>: accepting connections
  up to a limit. Connections and listeners are numbers; the events are what the goroutines of the
  accept loops and of the sessions do, in any order. One server serves all its listeners with one
  limit, as its channel \<open>connections\<close> and its wait group are shared.
\<close>

section \<open>The loop\<close>

datatype gate_event = Arrives nat nat | Fails nat goerr | Ends nat

text \<open>
  The connections in session, those turned away with what they were sent, those whose session has
  ended, and the error that each accept loop has ended with.
\<close>

record gate =
  gt_active :: "nat list"
  gt_refused :: "(nat \<times> string) list"
  gt_ended :: "nat list"
  gt_failed :: "nat \<rightharpoonup> goerr"

definition closed_gate :: gate where
  "closed_gate = \<lparr>gt_active = [], gt_refused = [], gt_ended = [], gt_failed = Map.empty\<rparr>"

text \<open>
  A loop that has ended accepts nothing; a session that has not begun cannot end. The number of
  connections that a full channel of capacity \<open>limit\<close> holds is \<open>limit\<close>.
\<close>

fun gate_step :: "int \<Rightarrow> string \<Rightarrow> gate_event \<Rightarrow> gate \<Rightarrow> gate" where
  "gate_step limit refusal (Arrives l c) g =
     (if gt_failed g l \<noteq> None then g
      else if int (length (gt_active g)) < limit then g\<lparr>gt_active := gt_active g @ [c]\<rparr>
      else g\<lparr>gt_refused := gt_refused g @ [(c, refusal)]\<rparr>)"
| "gate_step limit refusal (Fails l e) g = (if gt_failed g l \<noteq> None then g else g\<lparr>gt_failed := (gt_failed g)(l \<mapsto> e)\<rparr>)"
| "gate_step limit refusal (Ends c) g =
     (if c \<in> set (gt_active g) then g\<lparr>gt_active := remove1 c (gt_active g), gt_ended := gt_ended g @ [c]\<rparr> else g)"

text \<open>What \<open>Serve\<close> on listener \<open>l\<close> returns: it waits for the sessions first.\<close>

definition serve_result :: "gate \<Rightarrow> nat \<Rightarrow> goerr option" where
  "serve_result g l = (if gt_active g = [] then gt_failed g l else None)"

section \<open>The two servers\<close>

definition smtp_Serve :: "smtp_server \<Rightarrow> gate_event list \<Rightarrow> gate" where
  "smtp_Serve sv evs =
     fold (gate_step (sv_maxConnections sv) (''421 4.3.2 too many connections'' @ CRLF)) evs closed_gate"

text \<open>\<open>None\<close> stands for the nil configuration, with which POP3S refuses to serve at all.\<close>

definition pop3_Serve :: "pop3_server \<Rightarrow> 'tls option \<Rightarrow> gate_event list \<Rightarrow> gate res" where
  "pop3_Serve ps tlsConfig evs =
     (case tlsConfig of
        None \<Rightarrow> Inl (ErrMsg ''POP3S TLS configuration is required'')
      | Some _ \<Rightarrow> Inr (fold (gate_step (ps_maxConnections ps) []) evs closed_gate))"

text \<open>
  \<open>serveTLSConn\<close>: the deadline, the handshake, then the session with the version that was
  negotiated; the first two only end the connection when they fail.
\<close>

definition serveTLSConn :: "goerr option \<Rightarrow> 'v res \<Rightarrow> ('v \<Rightarrow> 's \<Rightarrow> 's) \<Rightarrow> 's \<Rightarrow> string list \<times> 's" where
  "serveTLSConn deadline handshake serveConn s =
     (case deadline of
        Some e \<Rightarrow> ([], s)
      | None \<Rightarrow>
          (case handshake of
             Inl e \<Rightarrow> ([''POP3S TLS handshake failed''], s)
           | Inr version \<Rightarrow> ([], serveConn version s)))"

section \<open>Invariant\<close>

definition arrivals :: "gate_event list \<Rightarrow> nat list" where
  "arrivals evs = concat (map (\<lambda>ev. case ev of Arrives l c \<Rightarrow> [c] | _ \<Rightarrow> []) evs)"

definition gate_ok :: "int \<Rightarrow> string \<Rightarrow> nat list \<Rightarrow> gate \<Rightarrow> bool" where
  "gate_ok limit refusal arrived g \<longleftrightarrow>
     int (length (gt_active g)) \<le> limit \<and>
     (\<forall>(c, text) \<in> set (gt_refused g). text = refusal) \<and>
     (distinct arrived \<longrightarrow> distinct (gt_active g @ map fst (gt_refused g) @ gt_ended g)) \<and>
     set (gt_active g) \<union> fst ` set (gt_refused g) \<union> set (gt_ended g) \<subseteq> set arrived \<and>
     (gt_failed g = Map.empty \<longrightarrow> set arrived = set (gt_active g) \<union> fst ` set (gt_refused g) \<union> set (gt_ended g))"

lemma gate_step_ok:
  assumes "gate_ok limit refusal arrived g"
  shows "gate_ok limit refusal (arrived @ arrivals [ev]) (gate_step limit refusal ev g)"
proof (cases ev)
  case (Arrives l c)
  with assms show ?thesis by (auto simp: gate_ok_def arrivals_def)
next
  case (Fails l e)
  with assms show ?thesis by (auto simp: gate_ok_def arrivals_def)
next
  case (Ends c)
  show ?thesis
  proof (cases "c \<in> set (gt_active g)")
    case True
    then have s: "insert c (set (remove1 c (gt_active g))) = set (gt_active g)"
      using set_remove1_subset [of c "gt_active g"] by (auto intro: in_set_remove1 [THEN iffD2])
    moreover have "int (length (remove1 c (gt_active g))) \<le> int (length (gt_active g))" by (simp add: length_remove1)
    ultimately show ?thesis using assms True Ends
      by (auto simp: gate_ok_def arrivals_def)
  next
    case False
    with assms Ends show ?thesis by (simp add: gate_ok_def arrivals_def)
  qed
qed

lemma gate_run_ok:
  assumes "0 \<le> limit"
  shows "gate_ok limit refusal (arrivals evs) (fold (gate_step limit refusal) evs closed_gate)"
proof (induction evs rule: rev_induct)
  case Nil
  with assms show ?case by (simp add: gate_ok_def closed_gate_def arrivals_def)
next
  case (snoc ev evs)
  from gate_step_ok [OF snoc.IH, of ev] show ?case by (simp add: arrivals_def)
qed

section \<open>Properties\<close>



end
