(* ===== verification/Tls_Cert.thy ===== *)
theory Tls_Cert
  imports Smtp_Syntax
begin

text \<open>
  \<open>internal/tlscert\<close>: finding the certificate (\<open>load.go\<close>) and the manager that serves and reloads
  it (\<open>manager.go\<close>). The X.509 code of the standard library and SHA-256 are parameters, the record
  \<open>x509\<close>; a time is a number of nanoseconds. The lemmas show that the manager serves, in every
  state it can reach, a certificate that covers every configured host name.
\<close>

section \<open>Host names\<close>

definition dns_label :: "string \<Rightarrow> bool" where
  "dns_label label \<longleftrightarrow>
     \<not> (label = [] \<or> 63 < length label \<or> hd label = CHR ''-'' \<or> last label = CHR ''-'') \<and>
     list_all (\<lambda>c. (CHR ''a'' \<le> c \<and> c \<le> CHR ''z'') \<or> (CHR ''0'' \<le> c \<and> c \<le> CHR ''9'') \<or> c = CHR ''-'') label"

definition validDNSName :: "string \<Rightarrow> bool" where
  "validDNSName name \<longleftrightarrow>
     \<not> (name = [] \<or> 253 < length name) \<and> list_all dns_label (split_on CHR ''.'' name)"

text \<open>The loop: the names so far are \<open>normalized\<close>, and \<open>seen\<close> has the same ones.\<close>

fun normalize_loop :: "string list \<Rightarrow> string list \<Rightarrow> string list res" where
  "normalize_loop normalized [] = Inr normalized"
| "normalize_loop normalized (raw # hostnames) =
     (let name = trim_suffix (to_lower (trim_space raw)) ''.'' in
      if \<not> validDNSName name then Inl (ErrMsg ''invalid TLS hostname'')
      else if name \<in> set normalized then normalize_loop normalized hostnames
      else normalize_loop (normalized @ [name]) hostnames)"

definition normalizeHostnames :: "string list \<Rightarrow> string list res" where
  "normalizeHostnames hostnames =
     bind_res (normalize_loop [] hostnames) (\<lambda>normalized.
       if normalized = [] then Inl (ErrMsg ''at least one TLS hostname is required'') else Inr normalized)"

text \<open>The host name and its parents of at least two labels.\<close>

fun suffixes_of :: "'a list \<Rightarrow> 'a list list" where
  "suffixes_of [] = []"
| "suffixes_of (x # xs) = (x # xs) # suffixes_of xs"

definition domainCandidates :: "string \<Rightarrow> string list" where
  "domainCandidates hostname =
     (let labels = split_on CHR ''.'' hostname in
      if length labels < 2 then []
      else map (join ''.'') (take (length labels - 1) (suffixes_of labels)))"

section \<open>Loading\<close>

record ('c, 'l) x509 =
  x_pair :: "string \<Rightarrow> string \<Rightarrow> 'c res"
  x_leaf :: "'c \<Rightarrow> 'l res"
  x_verify :: "'l \<Rightarrow> string \<Rightarrow> goerr option"
  x_notBefore :: "'l \<Rightarrow> int"
  x_notAfter :: "'l \<Rightarrow> int"
  x_sha256 :: "string \<Rightarrow> string"

record ('c, 'l) loadedCertificate =
  lc_certificate :: 'c
  lc_leaf :: 'l
  lc_hash :: string
  lc_directory :: string

definition fullchainName :: string where "fullchainName = ''fullchain.pem''"
definition privateKeyName :: string where "privateKeyName = ''privkey.pem''"

fun verify_all :: "('l \<Rightarrow> string \<Rightarrow> goerr option) \<Rightarrow> 'l \<Rightarrow> string list \<Rightarrow> goerr option" where
  "verify_all verify leaf [] = None"
| "verify_all verify leaf (hostname # hostnames) =
     (case verify leaf hostname of
        Some e \<Rightarrow> Some (WrapErr ''certificate does not cover'' e)
      | None \<Rightarrow> verify_all verify leaf hostnames)"

text \<open>\<open>files\<close> is what reading a file gives at this time.\<close>

definition loadDirectory ::
  "('c, 'l) x509 \<Rightarrow> (string \<Rightarrow> string res) \<Rightarrow> string \<Rightarrow> string list \<Rightarrow> ('c, 'l) loadedCertificate res" where
  "loadDirectory X files directory hostnames =
     bind_res (files (path_join [directory, fullchainName])) (\<lambda>certPEM.
     bind_res (files (path_join [directory, privateKeyName])) (\<lambda>keyPEM.
       case x_pair X certPEM keyPEM of
         Inl e \<Rightarrow> Inl (WrapErr ''parse certificate pair'' e)
       | Inr pair \<Rightarrow>
           (case x_leaf X pair of
              Inl e \<Rightarrow> Inl (WrapErr ''parse leaf certificate'' e)
            | Inr leaf \<Rightarrow>
                (case verify_all (x_verify X) leaf hostnames of
                   Some e \<Rightarrow> Inl e
                 | None \<Rightarrow> Inr \<lparr>lc_certificate = pair, lc_leaf = leaf, lc_hash = x_sha256 X (certPEM @ keyPEM),
                                lc_directory = directory\<rparr>))))"

fun load_candidates ::
  "('c, 'l) x509 \<Rightarrow> (string \<Rightarrow> string res) \<Rightarrow> string \<Rightarrow> string list \<Rightarrow> string list \<Rightarrow> ('c, 'l) loadedCertificate res" where
  "load_candidates X files certDir names [] = Inl (ErrMsg ''no certificate found'')"
| "load_candidates X files certDir names (candidate # candidates) =
     (let directory = path_join [certDir, candidate] in
      case loadDirectory X files directory names of
        Inl e \<Rightarrow> if errors_is e OsErrNotExist then load_candidates X files certDir names candidates
                 else Inl (WrapErr ''load certificate directory'' e)
      | Inr loaded \<Rightarrow> Inr loaded)"

definition loadCertificate ::
  "('c, 'l) x509 \<Rightarrow> (string \<Rightarrow> string res) \<Rightarrow> string \<Rightarrow> string list \<Rightarrow> ('c, 'l) loadedCertificate res" where
  "loadCertificate X files certDir hostnames =
     bind_res (normalizeHostnames hostnames) (\<lambda>names.
       load_candidates X files certDir names (domainCandidates (hd names)))"

section \<open>The manager\<close>

datatype tls_log = Reloaded string | Expired int | ExpiresSoon int string | ReloadFailed goerr

text \<open>
  The key of the last warning is the time and the level that its text in the Go code is made of;
  the time is written in full, so equal texts are equal keys. No warning is the empty text.
\<close>

record ('c, 'l) manager =
  mg_certDir :: string
  mg_hostnames :: "string list"
  mg_lastWarning :: "(int \<times> string) option"
  mg_current :: "('c, 'l) loadedCertificate option"
  mg_log :: "tls_log list"

definition day_ns :: int where "day_ns = 24 * 60 * 60 * 1000000000"

text \<open>\<open>Sub\<close> saturates far beyond the thresholds.\<close>

definition expirationLevel :: "int \<Rightarrow> int \<Rightarrow> string" where
  "expirationLevel notAfter now =
     (let remaining = notAfter - now in
      if remaining \<le> 0 then ''expired''
      else if remaining \<le> day_ns then ''1d''
      else if remaining \<le> 7 * day_ns then ''7d''
      else if remaining \<le> 30 * day_ns then ''30d''
      else [])"

definition reportExpiration :: "('c, 'l) x509 \<Rightarrow> int \<Rightarrow> ('c, 'l) manager \<Rightarrow> ('c, 'l) manager" where
  "reportExpiration X now m =
     (case mg_current m of
        None \<Rightarrow> m
      | Some loaded \<Rightarrow>
          let notAfter = x_notAfter X (lc_leaf loaded); level = expirationLevel notAfter now in
          if level = [] then m
          else if mg_lastWarning m = Some (notAfter, level) then m
          else m\<lparr>mg_lastWarning := Some (notAfter, level),
                 mg_log := mg_log m @ [if level = ''expired'' then Expired notAfter else ExpiresSoon notAfter level]\<rparr>)"

definition manager_New ::
  "('c, 'l) x509 \<Rightarrow> (string \<Rightarrow> string res) \<Rightarrow> int \<Rightarrow> string \<Rightarrow> string list \<Rightarrow> ('c, 'l) manager res" where
  "manager_New X files now certDir hostnames =
     bind_res (normalizeHostnames hostnames) (\<lambda>names.
     bind_res (loadCertificate X files certDir names) (\<lambda>loaded.
       Inr (reportExpiration X now
         \<lparr>mg_certDir = certDir, mg_hostnames = names, mg_lastWarning = None, mg_current = Some loaded, mg_log = []\<rparr>)))"

definition GetCertificate :: "('c, 'l) manager \<Rightarrow> 'c res" where
  "GetCertificate m =
     (case mg_current m of
        None \<Rightarrow> Inl (ErrMsg ''TLS certificate is unavailable'')
      | Some loaded \<Rightarrow> Inr (lc_certificate loaded))"

text \<open>The clock is read for the check of the new certificate, and again for the report.\<close>

definition Reload ::
  "('c, 'l) x509 \<Rightarrow> (string \<Rightarrow> string res) \<Rightarrow> int \<Rightarrow> int \<Rightarrow> ('c, 'l) manager \<Rightarrow> bool res \<times> ('c, 'l) manager" where
  "Reload X files now later m =
     (case loadCertificate X files (mg_certDir m) (mg_hostnames m) of
        Inl e \<Rightarrow> (Inl e, m)
      | Inr loaded \<Rightarrow>
          if (case mg_current m of None \<Rightarrow> False
              | Some current \<Rightarrow> lc_hash current = lc_hash loaded \<and> lc_directory current = lc_directory loaded)
          then (Inr False, m)
          else if now < x_notBefore X (lc_leaf loaded) \<or> \<not> now < x_notAfter X (lc_leaf loaded)
          then (Inl (ErrMsg ''replacement TLS certificate is not currently valid''), m)
          else (Inr True, reportExpiration X later
                  (m\<lparr>mg_current := Some loaded, mg_lastWarning := None,
                     mg_log := mg_log m @ [Reloaded (lc_directory loaded)]\<rparr>)))"

text \<open>One tick of \<open>RunReloadLoop\<close>, with the times that it reads, and its ticks until the context ends.\<close>

definition reload_tick ::
  "('c, 'l) x509 \<Rightarrow> (string \<Rightarrow> string res) \<times> int \<times> int \<times> int \<Rightarrow> ('c, 'l) manager \<Rightarrow> ('c, 'l) manager" where
  "reload_tick X tick m =
     (let (files, now, later, last) = tick;
          (res, m) = Reload X files now later m;
          m = (case res of Inl e \<Rightarrow> m\<lparr>mg_log := mg_log m @ [ReloadFailed e]\<rparr> | Inr _ \<Rightarrow> m)
      in reportExpiration X last m)"

definition RunReloadLoop ::
  "('c, 'l) x509 \<Rightarrow> int \<Rightarrow> ((string \<Rightarrow> string res) \<times> int \<times> int \<times> int) list \<Rightarrow> ('c, 'l) manager \<Rightarrow> ('c, 'l) manager" where
  "RunReloadLoop X interval ticks m = (if interval \<le> 0 then m else fold (reload_tick X) ticks m)"

section \<open>Normalized names\<close>

text \<open>The two packages accept the same names.\<close>

lemma validDNSName_domain: "validDNSName = validDomain"
proof -
  have "dns_label = valid_label"
    by (rule ext) (simp add: dns_label_def valid_label_def domain_char_def [abs_def])
  then show ?thesis by (intro ext) (simp only: validDNSName_def validDomain_def)
qed

lemma name_char_plain:
  assumes "domain_char c \<or> c = CHR ''.''"
  shows "\<not> space_edge c" "code c < 128" "ascii_lower c = c"
  using assms by (auto simp: domain_char_def space_edge_def ascii_lower_def less_eq_char_def)

lemma valid_name_fixed:
  assumes "validDNSName name"
  shows "trim_suffix (to_lower (trim_space name)) ''.'' = name"
proof -
  have v: "validDomain name" using assms by (simp add: validDNSName_domain)
  note plain = name_char_plain [OF validDomain_chars [OF v]]
  have ne: "name \<noteq> []" using v by (simp add: validDomain_def)
  then have "trim_space name = name" using plain(1) by (intro trim_space_id) auto
  moreover have "to_lower name = name" using plain(2,3) by (simp add: to_lower_ascii map_idI)
  moreover have "\<not> has_suffix name ''.''"
  proof
    assume "has_suffix name ''.''"
    then obtain t where t: "name = t @ ''.''" unfolding has_suffix_def by (metis append_take_drop_id)
    have "[] \<in> set (split_on CHR ''.'' name)" by (simp add: t split_on_append)
    with v show False by (auto simp: validDomain_def list_all_iff valid_label_def)
  qed
  ultimately show ?thesis by simp
qed

lemma normalize_loop_ok:
  assumes "normalize_loop ns hostnames = Inr names" "distinct ns" "\<forall>n \<in> set ns. validDNSName n"
  shows "distinct names \<and> (\<forall>n \<in> set names. validDNSName n) \<and>
    set names = set ns \<union> (\<lambda>raw. trim_suffix (to_lower (trim_space raw)) ''.'') ` set hostnames"
  using assms
proof (induction hostnames arbitrary: ns)
  case (Cons raw hostnames)
  let ?n = "trim_suffix (to_lower (trim_space raw)) ''.''"
  have v: "validDNSName ?n" using Cons.prems(1) by (auto simp: Let_def split: if_splits)
  show ?case
  proof (cases "?n \<in> set ns")
    case True
    with Cons.prems(1) v have "normalize_loop ns hostnames = Inr names" by (simp add: Let_def)
    from Cons.IH [OF this Cons.prems(2,3)] True show ?thesis by auto
  next
    case False
    with Cons.prems v have "normalize_loop (ns @ [?n]) hostnames = Inr names" by (simp add: Let_def)
    from Cons.IH [OF this] False Cons.prems(2,3) v show ?thesis by simp
  qed
qed simp

text \<open>Names that have been normalized stay as they are.\<close>

lemma normalize_loop_fixed:
  assumes "\<forall>n \<in> set names. validDNSName n" "distinct (ns @ names)"
  shows "normalize_loop ns names = Inr (ns @ names)"
  using assms by (induction names arbitrary: ns) (simp_all add: valid_name_fixed Let_def)

definition hostnames_ok :: "string list \<Rightarrow> bool" where
  "hostnames_ok names \<longleftrightarrow> names \<noteq> [] \<and> distinct names \<and> (\<forall>n \<in> set names. validDNSName n)"

lemma normalizeHostnames_ok:
  assumes "normalizeHostnames hostnames = Inr names"
  shows "hostnames_ok names" "set names = (\<lambda>raw. trim_suffix (to_lower (trim_space raw)) ''.'') ` set hostnames"
proof -
  from assms have "normalize_loop [] hostnames = Inr names" "names \<noteq> []"
    by (cases "normalize_loop [] hostnames"; simp add: normalizeHostnames_def split: if_splits)+
  with normalize_loop_ok [of "[]" hostnames names] show "hostnames_ok names"
    "set names = (\<lambda>raw. trim_suffix (to_lower (trim_space raw)) ''.'') ` set hostnames"
    by (simp_all add: hostnames_ok_def)
qed

lemma normalizeHostnames_fixed: "hostnames_ok names \<Longrightarrow> normalizeHostnames names = Inr names"
  using normalize_loop_fixed [of names "[]"] by (simp add: hostnames_ok_def normalizeHostnames_def)

section \<open>What is loaded\<close>

text \<open>A loaded certificate belongs to its leaf, which covers the names, and lies in a directory of one of them.\<close>

definition loaded_ok :: "('c, 'l) x509 \<Rightarrow> string \<Rightarrow> string list \<Rightarrow> ('c, 'l) loadedCertificate \<Rightarrow> bool" where
  "loaded_ok X certDir names loaded \<longleftrightarrow>
     x_leaf X (lc_certificate loaded) = Inr (lc_leaf loaded) \<and>
     (\<forall>n \<in> set names. x_verify X (lc_leaf loaded) n = None) \<and>
     (\<exists>c \<in> set (domainCandidates (hd names)). lc_directory loaded = path_join [certDir, c])"

lemma verify_all_None: "verify_all verify leaf ns = None \<longleftrightarrow> (\<forall>n \<in> set ns. verify leaf n = None)"
  by (induction ns) (auto split: option.splits)

lemma loadDirectory_Inr:
  assumes "loadDirectory X files directory names = Inr loaded"
  shows "x_leaf X (lc_certificate loaded) = Inr (lc_leaf loaded)" "\<forall>n \<in> set names. x_verify X (lc_leaf loaded) n = None"
    "lc_directory loaded = directory"
  using assms by (auto simp: loadDirectory_def bind_res_def verify_all_None split: sum.splits option.splits)

lemma load_candidates_Inr:
  assumes "load_candidates X files certDir names candidates = Inr loaded"
  shows "\<exists>before c after. candidates = before @ c # after \<and> loadDirectory X files (path_join [certDir, c]) names = Inr loaded \<and>
    (\<forall>b \<in> set before. \<exists>e. loadDirectory X files (path_join [certDir, b]) names = Inl e \<and> errors_is e OsErrNotExist)"
  using assms
proof (induction candidates)
  case (Cons c cs)
  show ?case
  proof (cases "loadDirectory X files (path_join [certDir, c]) names")
    case (Inr l)
    with Cons.prems show ?thesis by (intro exI [of _ "[]"] exI [of _ c] exI [of _ cs]) simp
  next
    case (Inl e)
    with Cons.prems have e: "errors_is e OsErrNotExist" "load_candidates X files certDir names cs = Inr loaded"
      by (simp_all add: Let_def split: if_splits)
    from Cons.IH [OF e(2)] obtain before d after where d: "cs = before @ d # after"
      "loadDirectory X files (path_join [certDir, d]) names = Inr loaded"
      "\<forall>b \<in> set before. \<exists>e. loadDirectory X files (path_join [certDir, b]) names = Inl e \<and> errors_is e OsErrNotExist" by blast
    with Inl e(1) show ?thesis by (intro exI [of _ "c # before"]) auto
  qed
qed simp

lemma loadCertificate_ok:
  assumes "loadCertificate X files certDir names = Inr loaded" "hostnames_ok names"
  shows "loaded_ok X certDir names loaded"
proof -
  have "load_candidates X files certDir names (domainCandidates (hd names)) = Inr loaded"
    using assms normalizeHostnames_fixed by (simp add: loadCertificate_def)
  from load_candidates_Inr [OF this] loadDirectory_Inr show ?thesis unfolding loaded_ok_def by fastforce
qed

section \<open>The states of a manager\<close>

inductive manager_run :: "('c, 'l) x509 \<Rightarrow> string \<Rightarrow> string list \<Rightarrow> ('c, 'l) manager \<Rightarrow> bool" for X certDir hostnames where
  starts: "manager_New X files now certDir hostnames = Inr m \<Longrightarrow> manager_run X certDir hostnames m"
| reloads: "manager_run X certDir hostnames m \<Longrightarrow> Reload X files now later m = (r, m') \<Longrightarrow> manager_run X certDir hostnames m'"
| loops: "manager_run X certDir hostnames m \<Longrightarrow> manager_run X certDir hostnames (RunReloadLoop X interval ticks m)"

definition manager_ok :: "('c, 'l) x509 \<Rightarrow> string \<Rightarrow> string list \<Rightarrow> ('c, 'l) manager \<Rightarrow> bool" where
  "manager_ok X certDir names m \<longleftrightarrow> hostnames_ok names \<and> mg_certDir m = certDir \<and> mg_hostnames m = names \<and>
     (\<exists>loaded. mg_current m = Some loaded \<and> loaded_ok X certDir names loaded)"

lemma reportExpiration_ok [simp]:
  "manager_ok X certDir names (reportExpiration X now m) = manager_ok X certDir names m"
  "mg_current (reportExpiration X now m) = mg_current m" "mg_certDir (reportExpiration X now m) = mg_certDir m"
  "mg_hostnames (reportExpiration X now m) = mg_hostnames m"
  by (simp_all add: reportExpiration_def manager_ok_def Let_def split: option.split)

lemma Reload_ok:
  assumes "manager_ok X certDir names m" "Reload X files now later m = (r, m')"
  shows "manager_ok X certDir names m'"
proof (cases "r = Inr True")
  case False
  then have "m' = m" using assms(2) by (auto simp: Reload_def split: sum.splits if_splits)
  with assms(1) show ?thesis by simp
next
  case True
  with assms(2) obtain loaded where l: "loadCertificate X files (mg_certDir m) (mg_hostnames m) = Inr loaded"
    "m' = reportExpiration X later
       (m\<lparr>mg_current := Some loaded, mg_lastWarning := None, mg_log := mg_log m @ [Reloaded (lc_directory loaded)]\<rparr>)"
    by (auto simp: Reload_def split: sum.splits if_splits)
  have n: "hostnames_ok names" "mg_certDir m = certDir" "mg_hostnames m = names" using assms(1) by (simp_all add: manager_ok_def)
  have "loaded_ok X certDir names loaded" using loadCertificate_ok l(1) n by metis
  with l(2) n show ?thesis by (simp add: manager_ok_def)
qed

lemma reload_tick_ok: "manager_ok X certDir names m \<Longrightarrow> manager_ok X certDir names (reload_tick X tick m)"
proof -
  assume ok: "manager_ok X certDir names m"
  obtain files now later final where t: "tick = (files, now, later, final)" by (cases tick)
  obtain r m1 where r: "Reload X files now later m = (r, m1)" by (meson surj_pair)
  have "manager_ok X certDir names m1" by (rule Reload_ok [OF ok r])
  moreover have "manager_ok X certDir names (m1\<lparr>mg_log := l\<rparr>) = manager_ok X certDir names m1" for l by (simp add: manager_ok_def)
  ultimately show ?thesis by (cases r) (simp_all add: reload_tick_def t r)
qed

lemma manager_run_ok:
  assumes "manager_run X certDir hostnames m"
  shows "\<exists>names. normalizeHostnames hostnames = Inr names \<and> manager_ok X certDir names m"
  using assms
proof induction
  case (starts files now m)
  then obtain names loaded where n: "normalizeHostnames hostnames = Inr names" "loadCertificate X files certDir names = Inr loaded"
    "m = reportExpiration X now
       \<lparr>mg_certDir = certDir, mg_hostnames = names, mg_lastWarning = None, mg_current = Some loaded, mg_log = []\<rparr>"
    by (auto simp: manager_New_def bind_res_def split: sum.splits)
  have "hostnames_ok names" by (rule normalizeHostnames_ok(1) [OF n(1)])
  with loadCertificate_ok [OF n(2) this] n show ?case by (simp add: manager_ok_def)
next
  case (reloads m files now later r m')
  with Reload_ok show ?case by blast
next
  case (loops m interval ticks)
  have "manager_ok X certDir names m \<Longrightarrow> manager_ok X certDir names (fold (reload_tick X) ticks m)" for names
    by (induction ticks arbitrary: m) (simp_all add: reload_tick_ok)
  with loops.IH show ?case by (auto simp: RunReloadLoop_def)
qed

section \<open>Properties\<close>

text \<open>C27: In every state that a certificate manager can reach, whatever the files and the clock
  do, it serves a certificate whose leaf covers each of its host names; these are the configured
  ones, normalized, valid and without duplicates, and the certificate comes from the directory of
  the first of them or of one of its parent domains.\<close>

theorem served_certificate_covers:
  assumes "manager_run X certDir hostnames m"
  shows "\<exists>certificate loaded. GetCertificate m = Inr certificate \<and> mg_current m = Some loaded \<and>
    certificate = lc_certificate loaded \<and> x_leaf X certificate = Inr (lc_leaf loaded) \<and>
    mg_hostnames m \<noteq> [] \<and> distinct (mg_hostnames m) \<and>
    set (mg_hostnames m) = (\<lambda>raw. trim_suffix (to_lower (trim_space raw)) ''.'') ` set hostnames \<and>
    (\<forall>n \<in> set (mg_hostnames m). validDNSName n \<and> x_verify X (lc_leaf loaded) n = None) \<and>
    (\<exists>c \<in> set (domainCandidates (hd (mg_hostnames m))). lc_directory loaded = path_join [certDir, c])"
proof -
  from manager_run_ok [OF assms] obtain names where n: "normalizeHostnames hostnames = Inr names" "manager_ok X certDir names m"
    by blast
  from n(2) obtain loaded where "mg_current m = Some loaded" "loaded_ok X certDir names loaded" "mg_hostnames m = names"
    by (auto simp: manager_ok_def)
  with normalizeHostnames_ok [OF n(1)] show ?thesis
    by (simp add: GetCertificate_def loaded_ok_def hostnames_ok_def)
qed

definition sample_x509 :: "(string, string) x509" where
  "sample_x509 =
     \<lparr>x_pair = (\<lambda>c k. Inr c), x_leaf = Inr, x_verify = (\<lambda>l n. if l = n then None else Some (ErrMsg l)),
      x_notBefore = (\<lambda>l. 0), x_notAfter = (\<lambda>l. 100 * day_ns), x_sha256 = (\<lambda>s. s)\<rparr>"

definition sample_pem :: "string \<Rightarrow> string res" where
  "sample_pem path =
     (if path = ''/c/b.c/fullchain.pem'' then Inr ''a.b.c''
      else if path = ''/c/b.c/privkey.pem'' then Inr ''key''
      else Inl OsErrNotExist)"

theorem served_certificate_covers_witness:
  "\<exists>m. manager_New sample_x509 sample_pem (99 * day_ns) ''/c'' ['' A.b.C. ''] = Inr m \<and>
     GetCertificate m = Inr ''a.b.c'' \<and> mg_log m = [ExpiresSoon (100 * day_ns) ''1d'']"
proof -
  have "manager_New sample_x509 sample_pem (99 * day_ns) ''/c'' ['' A.b.C. ''] =
      Inr \<lparr>mg_certDir = ''/c'', mg_hostnames = [''a.b.c''], mg_lastWarning = Some (100 * day_ns, ''1d''),
        mg_current = Some \<lparr>lc_certificate = ''a.b.c'', lc_leaf = ''a.b.c'', lc_hash = ''a.b.ckey'', lc_directory = ''/c/b.c''\<rparr>,
        mg_log = [ExpiresSoon (100 * day_ns) ''1d'']\<rparr>"
    by code_simp
  from served_certificate_covers [OF starts [OF this]] this show ?thesis by auto
qed

end
