(* ===== verification/Json.thy ===== *)
theory Json
  imports State_Json
begin

text \<open>
  Reading JSON: \<open>json.Decoder\<close> of the Go standard library, as \<open>internal/archive/state.go\<close> and
  \<open>quota.go\<close> use it, one value after another from a text. Go also bounds the nesting; a value
  nested deeper than two levels is an error for every type that is decoded here, so the bound
  makes no difference.
\<close>

section \<open>Values\<close>

datatype json =
    JNull
  | JBool bool
  | JNum string
  | JStr string
  | JArr "json list"
  | JObj "(string \<times> json) list"

definition json_space :: "char \<Rightarrow> bool" where
  "json_space c \<longleftrightarrow> c = CHR 0x20 \<or> c = CHR 0x09 \<or> c = CHR 0x0D \<or> c = CHR 0x0A"

definition skip_space :: "string \<Rightarrow> string" where
  "skip_space s = dropWhile json_space s"

definition dec_digit :: "char \<Rightarrow> bool" where
  "dec_digit c \<longleftrightarrow> CHR ''0'' \<le> c \<and> c \<le> CHR ''9''"

subsection \<open>Numbers\<close>

definition json_int_part :: "string \<Rightarrow> string \<times> string" where
  "json_int_part s =
     (case s of
        [] \<Rightarrow> ([], [])
      | c # t \<Rightarrow> if c = CHR ''0'' then ([c], t) else (takeWhile dec_digit s, dropWhile dec_digit s))"

definition json_frac_part :: "string \<Rightarrow> (string \<times> string) option" where
  "json_frac_part s =
     (case s of
        [] \<Rightarrow> Some ([], [])
      | c # t \<Rightarrow>
          if c \<noteq> CHR ''.'' then Some ([], s)
          else if takeWhile dec_digit t = [] then None
          else Some (c # takeWhile dec_digit t, dropWhile dec_digit t))"

definition json_exp_part :: "string \<Rightarrow> (string \<times> string) option" where
  "json_exp_part s =
     (case s of
        [] \<Rightarrow> Some ([], [])
      | c # t \<Rightarrow>
          if c \<noteq> CHR ''e'' \<and> c \<noteq> CHR ''E'' then Some ([], s)
          else let (sg, u) = (case t of
                                d # u \<Rightarrow> if d = CHR ''+'' \<or> d = CHR ''-'' then ([d], u) else ([], t)
                              | [] \<Rightarrow> ([], []))
               in if takeWhile dec_digit u = [] then None
                  else Some (c # sg @ takeWhile dec_digit u, dropWhile dec_digit u))"

definition json_number :: "string \<Rightarrow> (string \<times> string) option" where
  "json_number s =
     (let (sg, s) = (case s of c # t \<Rightarrow> if c = CHR ''-'' then ([c], t) else ([], s) | [] \<Rightarrow> ([], []));
          (ip, s) = json_int_part s
      in if ip = [] then None
         else Option.bind (json_frac_part s) (\<lambda>(fp, s).
              Option.bind (json_exp_part s) (\<lambda>(ep, s). Some (sg @ ip @ fp @ ep, s))))"

subsection \<open>Strings\<close>

text \<open>The UTF-8 bytes of a rune.\<close>

definition utf8_encode :: "nat \<Rightarrow> string" where
  "utf8_encode r =
     (if r < 0x80 then [char_of r]
      else if r < 0x800 then [char_of (0xC0 + r div 64), char_of (0x80 + r mod 64)]
      else if r < 0x10000 then [char_of (0xE0 + r div 4096), char_of (0x80 + r div 64 mod 64), char_of (0x80 + r mod 64)]
      else [char_of (0xF0 + r div 262144), char_of (0x80 + r div 4096 mod 64), char_of (0x80 + r div 64 mod 64),
            char_of (0x80 + r mod 64)])"

definition replacement_rune :: nat where "replacement_rune = 0xFFFD"

text \<open>Four hexadecimal digits.\<close>

definition json_hex4 :: "string \<Rightarrow> nat option" where
  "json_hex4 s = (if length s < 4 then None else parse_digits 16 0 (take 4 s))"

text \<open>What follows a backslash and \<open>u\<close>: the rune, and how many bytes it takes.\<close>

definition json_unicode :: "string \<Rightarrow> (nat \<times> nat) option" where
  "json_unicode s =
     (case json_hex4 s of
        None \<Rightarrow> None
      | Some r \<Rightarrow>
          if r < 0xD800 \<or> 0xE000 \<le> r then Some (r, 4)
          else (case (if take 2 (drop 4 s) = [CHR 0x5C, CHR ''u''] then json_hex4 (drop 6 s) else None) of
                  Some q \<Rightarrow>
                    if r < 0xDC00 \<and> 0xDC00 \<le> q \<and> q < 0xE000
                    then Some (0x10000 + (r - 0xD800) * 1024 + (q - 0xDC00), 10)
                    else Some (replacement_rune, 4)
                | None \<Rightarrow> Some (replacement_rune, 4)))"

definition json_escape :: "char \<Rightarrow> char option" where
  "json_escape c =
     (if c = CHR 0x22 \<or> c = CHR 0x5C \<or> c = CHR ''/'' then Some c
      else if c = CHR ''b'' then Some CHR 0x08
      else if c = CHR ''f'' then Some CHR 0x0C
      else if c = CHR ''n'' then Some CHR 0x0A
      else if c = CHR ''r'' then Some CHR 0x0D
      else if c = CHR ''t'' then Some CHR 0x09
      else None)"

text \<open>A string after its opening quote, and what comes after the closing one.\<close>

fun json_text :: "string \<Rightarrow> (string \<times> string) option" where
  "json_text [] = None"
| "json_text (c # s) =
     (if c = CHR 0x22 then Some ([], s)
      else if c = CHR 0x5C then
        (case s of
           [] \<Rightarrow> None
         | e # t \<Rightarrow>
             if e = CHR ''u''
             then (case json_unicode t of
                     None \<Rightarrow> None
                   | Some (r, n) \<Rightarrow> map_option (\<lambda>(a, b). (utf8_encode r @ a, b)) (json_text (drop n t)))
             else (case json_escape e of
                     None \<Rightarrow> None
                   | Some d \<Rightarrow> map_option (\<lambda>(a, b). (d # a, b)) (json_text t)))
      else if code c < 0x20 then None
      else case utf8_len (c # s) of
             0 \<Rightarrow> map_option (\<lambda>(a, b). (utf8_encode replacement_rune @ a, b)) (json_text s)
           | Suc n \<Rightarrow> map_option (\<lambda>(a, b). (c # take n s @ a, b)) (json_text (drop n s)))"

subsection \<open>Objects and arrays\<close>

text \<open>A value at the start of a text. The fuel is larger than the text.\<close>

fun json_value :: "nat \<Rightarrow> string \<Rightarrow> (json \<times> string) option"
  and json_members :: "nat \<Rightarrow> string \<Rightarrow> ((string \<times> json) list \<times> string) option"
  and json_elements :: "nat \<Rightarrow> string \<Rightarrow> (json list \<times> string) option" where
  "json_value 0 s = None"
| "json_value (Suc k) s =
     (case s of
        [] \<Rightarrow> None
      | c # t \<Rightarrow>
          if c = CHR ''{'' then
            (case skip_space t of
               [] \<Rightarrow> None
             | d # u \<Rightarrow> if d = CHR ''}'' then Some (JObj [], u)
                         else map_option (\<lambda>(ms, v). (JObj ms, v)) (json_members k (d # u)))
          else if c = CHR ''['' then
            (case skip_space t of
               [] \<Rightarrow> None
             | d # u \<Rightarrow> if d = CHR '']'' then Some (JArr [], u)
                         else map_option (\<lambda>(vs, v). (JArr vs, v)) (json_elements k (d # u)))
          else if c = CHR 0x22 then map_option (\<lambda>(a, u). (JStr a, u)) (json_text t)
          else if has_prefix s ''true'' then Some (JBool True, drop 4 s)
          else if has_prefix s ''false'' then Some (JBool False, drop 5 s)
          else if has_prefix s ''null'' then Some (JNull, drop 4 s)
          else map_option (\<lambda>(a, u). (JNum a, u)) (json_number s))"
| "json_members 0 s = None"
| "json_members (Suc k) s =
     (case s of
        [] \<Rightarrow> None
      | c # t \<Rightarrow>
          if c \<noteq> CHR 0x22 then None
          else Option.bind (json_text t) (\<lambda>(key, u).
               case skip_space u of
                 [] \<Rightarrow> None
               | d # v \<Rightarrow>
                   if d \<noteq> CHR '':'' then None
                   else Option.bind (json_value k (skip_space v)) (\<lambda>(x, w).
                        case skip_space w of
                          [] \<Rightarrow> None
                        | e # y \<Rightarrow>
                            if e = CHR ''}'' then Some ([(key, x)], y)
                            else if e = CHR '',''
                            then map_option (\<lambda>(ms, z). ((key, x) # ms, z)) (json_members k (skip_space y))
                            else None)))"
| "json_elements 0 s = None"
| "json_elements (Suc k) s =
     Option.bind (json_value k s) (\<lambda>(x, w).
       case skip_space w of
         [] \<Rightarrow> None
       | e # y \<Rightarrow>
           if e = CHR '']'' then Some ([x], y)
           else if e = CHR '','' then map_option (\<lambda>(vs, z). (x # vs, z)) (json_elements k (skip_space y))
           else None)"

definition json_error :: goerr where "json_error = ErrMsg ''invalid JSON''"

text \<open>\<open>Decoder.Decode\<close> up to the value: the value and the rest of the text.\<close>

definition json_next :: "string \<Rightarrow> (json \<times> string) res" where
  "json_next s =
     (let s = skip_space s in
      if s = [] then Inl IoEOF
      else case json_value (Suc (length s)) s of None \<Rightarrow> Inl json_error | Some x \<Rightarrow> Inr x)"

text \<open>The field of a struct that a key names: exactly, or up to case.\<close>

definition json_field :: "string list \<Rightarrow> string \<Rightarrow> string option" where
  "json_field names key = (if key \<in> set names then Some key else find (equal_fold key) names)"

section \<open>Reading what was written\<close>

text \<open>Strings that are written as they are.\<close>

definition json_plain :: "char \<Rightarrow> bool" where
  "json_plain c \<longleftrightarrow> 0x20 \<le> code c \<and> code c < 0x80 \<and> c \<notin> {CHR 0x22, CHR 0x5C, CHR ''<'', CHR ''>'', CHR ''&''}"

lemma json_ascii_plain:
  assumes "json_plain c"
  shows "json_ascii c = [c]"
proof -
  have "c \<noteq> d" if "code d < 0x20" for d using that assms unfolding json_plain_def by fastforce
  then have "c \<noteq> CHR 0x08" "c \<noteq> CHR 0x0C" "c \<noteq> CHR 0x0A" "c \<noteq> CHR 0x0D" "c \<noteq> CHR 0x09" by simp_all
  moreover have "c \<noteq> CHR 0x5C" "c \<noteq> CHR 0x22" "c \<noteq> CHR ''<''" "c \<noteq> CHR ''>''" "c \<noteq> CHR ''&''" "\<not> code c < 0x20"
    using assms unfolding json_plain_def by (simp_all only: insert_iff not_less de_Morgan_disj simp_thms)
  ultimately show ?thesis unfolding json_ascii_def by (simp only: if_False simp_thms)
qed

lemma json_chars_plain: "list_all json_plain s \<Longrightarrow> json_chars s = s"
proof (induction s)
  case (Cons c s)
  then have c: "json_plain c" and s: "json_chars s = s" by simp_all
  then have "code c < 0x80" by (simp add: json_plain_def)
  then have "json_chars (c # s) = json_ascii c @ json_chars s" by (simp only: json_chars.simps(2) if_True)
  with c s show ?case by (simp only: json_ascii_plain append_Cons append_Nil)
qed simp

lemma utf8_len_ascii: "code c < 0x80 \<Longrightarrow> utf8_len (c # s) = Suc 0"
  by (simp add: in_bytes_def)

lemma json_text_step:
  assumes "json_plain c"
  shows "json_text (c # s) = map_option (\<lambda>(a, b). (c # a, b)) (json_text s)"
proof -
  have "c \<noteq> CHR 0x22" "c \<noteq> CHR 0x5C" "\<not> code c < 0x20" "utf8_len (c # s) = Suc 0"
    using assms utf8_len_ascii [of c s] unfolding json_plain_def by auto
  then show ?thesis by (simp only: json_text.simps(2) if_False nat.case take_0 drop_0 append_Cons append_Nil)
qed

lemma json_text_plain: "list_all json_plain s \<Longrightarrow> json_text (s @ CHR 0x22 # t) = Some (s, t)"
proof (induction s)
  case (Cons c s)
  then have "json_text ((c # s) @ CHR 0x22 # t) = map_option (\<lambda>(a, b). (c # a, b)) (json_text (s @ CHR 0x22 # t))"
    unfolding append_Cons by (intro json_text_step) simp
  with Cons show ?case by simp
qed simp

lemma skip_space_id [simp]: "\<not> json_space c \<Longrightarrow> skip_space (c # s) = c # s"
  by (simp add: skip_space_def)

text \<open>A value as it is written: it reads back whatever follows, if a digit or the like does not.\<close>

definition number_end :: "string \<Rightarrow> bool" where
  "number_end t \<longleftrightarrow> t = [] \<or> \<not> dec_digit (hd t) \<and> hd t \<notin> {CHR ''.'', CHR ''e'', CHR ''E''}"

definition writes :: "string \<Rightarrow> json \<Rightarrow> bool" where
  "writes w x \<longleftrightarrow> w \<noteq> [] \<and> \<not> json_space (hd w) \<and>
     (\<forall>t k. number_end t \<longrightarrow> length (w @ t) < k \<longrightarrow> json_value k (w @ t) = Some (x, t))"

lemma writesD:
  assumes "writes w x"
  shows "w \<noteq> []" "skip_space (w @ t) = w @ t"
    and "number_end t \<Longrightarrow> length (w @ t) < k \<Longrightarrow> json_value k (w @ t) = Some (x, t)"
  using assms by (cases w; simp add: writes_def)+

lemma plain_not_special:
  "json_plain c \<Longrightarrow> c \<noteq> CHR 0x22"
  by (simp add: json_plain_def)

lemma json_value_string: "json_value (Suc k) (CHR 0x22 # s) = map_option (\<lambda>(a, u). (JStr a, u)) (json_text s)"
  by simp

lemma writes_string:
  assumes "list_all json_plain s"
  shows "writes (json_string s) (JStr s)"
proof -
  have "json_value k (json_string s @ t) = Some (JStr s, t)" if "length (json_string s @ t) < k" for t k
    using that json_text_plain [OF assms, of t] json_value_string [of "k - 1" "s @ CHR 0x22 # t"]
    by (cases k) (simp_all add: json_string_def json_chars_plain [OF assms])
  then show ?thesis by (simp add: writes_def json_string_def json_space_def)
qed

subsection \<open>Numbers\<close>

lemma dec_digit_char: "d < 10 \<Longrightarrow> dec_digit (digit_char d)"
  by (auto simp: dec_digit_def digit_char_def less_eq_char_def)

lemma fmt_nat_digits: "list_all dec_digit (fmt_nat 10 n)"
  using set_fmt_nat [of 10 _ n] dec_digit_char by (fastforce simp: list_all_iff)

lemma fmt_nat_leading: "hd (fmt_nat 10 n) = CHR ''0'' \<Longrightarrow> n = 0"
proof (induction n rule: less_induct)
  case (less n)
  show ?case
  proof (cases "n < 10")
    case True
    then have "fmt_nat 10 n = [digit_char n]" by (rule fmt_nat_small)
    with less.prems have "digit_char n = digit_char 0" by (simp add: digit_char_values)
    with True show ?thesis by (simp add: digit_char_inj)
  next
    case False
    then have "fmt_nat 10 n = fmt_nat 10 (n div 10) @ [digit_char (n mod 10)]" by (intro fmt_nat_step) simp_all
    with less.prems have "hd (fmt_nat 10 (n div 10)) = CHR ''0''" by simp
    with less.IH [of "n div 10"] False have "n div 10 = 0" by simp
    with False show ?thesis by simp
  qed
qed

lemma number_end_parts:
  assumes "number_end t"
  shows "json_frac_part t = Some ([], t)" "json_exp_part t = Some ([], t)" "takeWhile dec_digit t = []" "dropWhile dec_digit t = t"
  using assms by (cases t; auto simp: number_end_def json_frac_part_def json_exp_part_def)+

lemma json_int_part_fmt:
  assumes "number_end t"
  shows "json_int_part (fmt_nat 10 n @ t) = (fmt_nat 10 n, t)"
proof (cases "n = 0")
  case True
  then have "fmt_nat 10 n = [CHR ''0'']" by (simp add: fmt_nat_small digit_char_values)
  then show ?thesis by (simp add: json_int_part_def)
next
  case False
  obtain c s where f: "fmt_nat 10 n = c # s" by (cases "fmt_nat 10 n") simp_all
  have "c \<noteq> CHR ''0''" using fmt_nat_leading [of n] False f by auto
  moreover have "\<forall>x \<in> set (fmt_nat 10 n). dec_digit x" using fmt_nat_digits [of n] by (simp add: list_all_iff)
  then have "takeWhile dec_digit (fmt_nat 10 n @ t) = fmt_nat 10 n @ takeWhile dec_digit t"
    "dropWhile dec_digit (fmt_nat 10 n @ t) = dropWhile dec_digit t"
    by (simp_all add: takeWhile_append2 dropWhile_append2)
  ultimately show ?thesis using number_end_parts [OF assms] by (simp add: json_int_part_def f)
qed

lemma writes_number: "writes (fmt_nat 10 n) (JNum (fmt_nat 10 n))"
proof -
  obtain c s where f: "fmt_nat 10 n = c # s" by (cases "fmt_nat 10 n") simp_all
  then have "dec_digit c" using fmt_nat_digits [of n] by simp
  then have c: "48 \<le> code c" "code c \<le> 57" by (auto simp: dec_digit_def less_eq_char_def)
  have ne: "c \<noteq> d" if "code d < 48 \<or> 57 < code d" for d using that c by auto
  have "json_value k (fmt_nat 10 n @ t) = Some (JNum (fmt_nat 10 n), t)" if t: "number_end t" "length (fmt_nat 10 n @ t) < k" for t k
  proof -
    have "c \<noteq> CHR ''-''" "c \<noteq> CHR ''{''" "c \<noteq> CHR ''[''" "c \<noteq> CHR 0x22" "c \<noteq> CHR ''t''" "c \<noteq> CHR ''f''" "c \<noteq> CHR ''n''"
      by (rule ne, simp)+
    moreover have "json_number (fmt_nat 10 n @ t) = Some (fmt_nat 10 n, t)"
      using calculation(1) json_int_part_fmt [OF t(1), of n] number_end_parts [OF t(1)]
      by (simp add: json_number_def f)
    moreover obtain j where "k = Suc j" using t(2) by (cases k) simp_all
    ultimately show ?thesis by (simp add: f has_prefix_def)
  qed
  moreover have "\<not> json_space c" unfolding json_space_def by (intro notI, elim disjE) (use ne in \<open>simp_all\<close>)
  ultimately show ?thesis by (simp add: writes_def f)
qed

subsection \<open>Objects\<close>

lemma number_end_marks: "number_end (CHR '','' # t)" "number_end (CHR ''}'' # t)" "number_end (CHR 0x0A # t)" "number_end []"
  by (simp_all add: number_end_def dec_digit_def less_eq_char_def)

lemma json_marks: "\<not> json_space (CHR '','')" "\<not> json_space (CHR ''}'')" "\<not> json_space (CHR '':'')" "\<not> json_space (CHR 0x22)"
  "\<not> json_space (CHR ''{'')"
  by (simp_all add: json_space_def)

lemma json_members_step:
  assumes "list_all json_plain key" "writes w x" "number_end r" "length (w @ r) < k"
  shows "json_members (Suc k) (json_member key w @ r) =
    (case skip_space r of
       [] \<Rightarrow> None
     | e # y \<Rightarrow>
         if e = CHR ''}'' then Some ([(key, x)], y)
         else if e = CHR '','' then map_option (\<lambda>(ms, z). ((key, x) # ms, z)) (json_members k (skip_space y))
         else None)"
  using json_text_plain [OF assms(1), of "CHR '':'' # w @ r"] writesD [OF assms(2)] assms(3,4)
  by (simp add: json_member_def json_string_def json_chars_plain [OF assms(1)] json_marks)

lemma join_member_quote:
  assumes "ms \<noteq> []"
  shows "\<exists>u. join '','' (map (\<lambda>(key, w, x). json_member key w) ms) @ t = CHR 0x22 # u"
proof -
  obtain key w x ms' where "ms = (key, w, x) # ms'" using assms by (cases ms) auto
  then show ?thesis by (cases ms') (simp_all add: json_member_def json_string_def)
qed

lemma json_members_writes:
  assumes "ms \<noteq> []" "\<forall>(key, w, x) \<in> set ms. list_all json_plain key \<and> writes w x"
    and "length (join '','' (map (\<lambda>(key, w, x). json_member key w) ms) @ CHR ''}'' # t) < k"
  shows "json_members k (join '','' (map (\<lambda>(key, w, x). json_member key w) ms) @ CHR ''}'' # t) =
    Some (map (\<lambda>(key, w, x). (key, x)) ms, t)"
  using assms
proof (induction ms arbitrary: k)
  case (Cons m ms)
  obtain key w x where m: "m = (key, w, x)" by (metis prod_cases3)
  obtain j where k: "k = Suc j" using Cons.prems(3) by (cases k) simp_all
  have kw: "list_all json_plain key" "writes w x" using Cons.prems(2) m by auto
  show ?case
  proof (cases "ms = []")
    case True
    have "length (w @ CHR ''}'' # t) < j" using Cons.prems(3) by (simp add: True m k json_member_def json_string_def)
    from json_members_step [OF kw number_end_marks(2) this] show ?thesis
      by (simp add: True m k json_marks)
  next
    case False
    let ?r = "join '','' (map (\<lambda>(key, w, x). json_member key w) ms) @ CHR ''}'' # t"
    have whole: "join '','' (map (\<lambda>(key, w, x). json_member key w) (m # ms)) @ CHR ''}'' # t = json_member key w @ CHR '','' # ?r"
      using False by (cases ms) (simp_all add: m)
    have len: "length (w @ CHR '','' # ?r) < j" "length ?r < j"
      using Cons.prems(3) unfolding whole by (simp_all add: k json_member_def json_string_def)
    from join_member_quote [OF False] obtain u where "?r = CHR 0x22 # u" by blast
    then have "skip_space ?r = ?r" using json_marks(4) by auto
    moreover have "json_members j ?r = Some (map (\<lambda>(key, w, x). (key, x)) ms, t)"
      using Cons.prems(2) len(2) by (intro Cons.IH [OF False]) simp_all
    ultimately show ?thesis
      unfolding whole k json_members_step [OF kw number_end_marks(1) len(1)] by (simp add: json_marks m)
  qed
qed simp

lemma writes_object:
  assumes "\<forall>(key, w, x) \<in> set ms. list_all json_plain key \<and> writes w x"
  shows "writes (json_object (map (\<lambda>(key, w, x). json_member key w) ms)) (JObj (map (\<lambda>(key, w, x). (key, x)) ms))"
proof -
  let ?j = "join '','' (map (\<lambda>(key, w, x). json_member key w) ms)"
  have "json_value k (json_object (map (\<lambda>(key, w, x). json_member key w) ms) @ t) =
      Some (JObj (map (\<lambda>(key, w, x). (key, x)) ms), t)"
    if len: "length (json_object (map (\<lambda>(key, w, x). json_member key w) ms) @ t) < k" for t k
  proof -
    obtain j where k: "k = Suc j" using len by (cases k) simp_all
    show ?thesis
    proof (cases "ms = []")
      case True
      then show ?thesis by (simp add: k json_object_def json_marks)
    next
      case False
      from join_member_quote [OF this] obtain u where u: "?j @ CHR ''}'' # t = CHR 0x22 # u" by blast
      have "json_members j (?j @ CHR ''}'' # t) = Some (map (\<lambda>(key, w, x). (key, x)) ms, t)"
        by (rule json_members_writes [OF False assms]) (use len in \<open>simp add: k json_object_def\<close>)
      then show ?thesis by (simp add: k json_object_def u json_marks)
    qed
  qed
  then show ?thesis by (simp add: writes_def json_object_def json_marks)
qed

end
