(* ===== verification/State_Decode.thy ===== *)
theory State_Decode
  imports Json
begin

text \<open>
  Reading the mailbox state back: \<open>decodeMailboxState\<close>, \<open>readMailboxState\<close> and
  \<open>ensureJSONEOF\<close> of \<open>internal/archive/state.go\<close>. The state that a commit writes reads back as
  the state that was meant, whatever order the map of directories was visited in.
\<close>

section \<open>Decoding into the structs\<close>

text \<open>
  The decoder reports the first error after the whole value; nothing of the value is used then.
  Unknown fields are errors.
\<close>

definition type_error :: goerr where "type_error = ErrMsg ''json: cannot unmarshal''"
definition unknown_field :: goerr where "unknown_field = ErrMsg ''json: unknown field''"

fun decode_uint :: "json \<Rightarrow> u64 \<Rightarrow> u64 res" where
  "decode_uint JNull old = Inr old"
| "decode_uint (JNum lit) old = (case parse_uint lit 10 64 of None \<Rightarrow> Inl type_error | Some n \<Rightarrow> Inr n)"
| "decode_uint _ old = Inl type_error"

fun decode_int :: "json \<Rightarrow> int \<Rightarrow> int res" where
  "decode_int JNull old = Inr old"
| "decode_int (JNum lit) old = (case parse_int lit of None \<Rightarrow> Inl type_error | Some n \<Rightarrow> Inr n)"
| "decode_int _ old = Inl type_error"

fun decode_text :: "json \<Rightarrow> string \<Rightarrow> string res" where
  "decode_text JNull old = Inr old"
| "decode_text (JStr s) old = Inr s"
| "decode_text _ old = Inl type_error"

text \<open>A Go map keeps the entries it has; every key of the object is set.\<close>

fun decode_entries :: "(string \<times> json) list \<Rightarrow> directoryCounts \<Rightarrow> directoryCounts res" where
  "decode_entries [] counts = Inr counts"
| "decode_entries ((key, x) # ms) counts =
     bind_res (decode_uint x 0) (\<lambda>n. decode_entries ms (AList.update key n counts))"

fun decode_counts :: "json \<Rightarrow> directoryCounts \<Rightarrow> directoryCounts res" where
  "decode_counts JNull old = Inr []"
| "decode_counts (JObj ms) old = decode_entries ms old"
| "decode_counts _ old = Inl type_error"

text \<open>A struct: member by member, into the field that the key names.\<close>

fun decode_members :: "string list \<Rightarrow> (string \<Rightarrow> json \<Rightarrow> 'a \<Rightarrow> 'a res) \<Rightarrow> (string \<times> json) list \<Rightarrow> 'a \<Rightarrow> 'a res" where
  "decode_members names set_field [] a = Inr a"
| "decode_members names set_field ((key, x) # ms) a =
     (case json_field names key of
        None \<Rightarrow> Inl unknown_field
      | Some name \<Rightarrow> bind_res (set_field name x a) (decode_members names set_field ms))"

definition decode_struct :: "string list \<Rightarrow> (string \<Rightarrow> json \<Rightarrow> 'a \<Rightarrow> 'a res) \<Rightarrow> json \<Rightarrow> 'a \<Rightarrow> 'a res" where
  "decode_struct names set_field x a =
     (case x of JNull \<Rightarrow> Inr a | JObj ms \<Rightarrow> decode_members names set_field ms a | _ \<Rightarrow> Inl type_error)"

definition receipt_field :: "string \<Rightarrow> json \<Rightarrow> dailyReceipt \<Rightarrow> dailyReceipt res" where
  "receipt_field name x r =
     (if name = ''day'' then map_sum id (\<lambda>d. r\<lparr>dr_Day := d\<rparr>) (decode_text x (dr_Day r))
      else map_sum id (\<lambda>n. r\<lparr>dr_ChargedBytes := n\<rparr>) (decode_uint x (dr_ChargedBytes r)))"

definition decode_receipt :: "json \<Rightarrow> dailyReceipt \<Rightarrow> dailyReceipt res" where
  "decode_receipt = decode_struct [''day'', ''charged_bytes''] receipt_field"

definition no_receipt :: dailyReceipt where "no_receipt = \<lparr>dr_Day = [], dr_ChargedBytes = 0\<rparr>"

text \<open>\<open>null\<close> makes the pointer nil; an object is decoded into what it points to, or into a new one.\<close>

definition state_field :: "string \<Rightarrow> json \<Rightarrow> mailboxState \<Rightarrow> mailboxState res" where
  "state_field name x st =
     (if name = ''version'' then map_sum id (\<lambda>n. st\<lparr>mb_Version := n\<rparr>) (decode_int x (mb_Version st))
      else if name = ''last_id'' then map_sum id (\<lambda>n. st\<lparr>mb_LastID := n\<rparr>) (decode_uint x (mb_LastID st))
      else if name = ''total_octets'' then map_sum id (\<lambda>n. st\<lparr>mb_TotalOctets := n\<rparr>) (decode_uint x (mb_TotalOctets st))
      else if name = ''directories'' then map_sum id (\<lambda>c. st\<lparr>mb_Directories := c\<rparr>) (decode_counts x (mb_Directories st))
      else if x = JNull then Inr (st\<lparr>mb_DailyReceipt := None\<rparr>)
      else map_sum id (\<lambda>r. st\<lparr>mb_DailyReceipt := Some r\<rparr>)
             (decode_receipt x (case mb_DailyReceipt st of None \<Rightarrow> no_receipt | Some r \<Rightarrow> r)))"

definition zero_state :: mailboxState where
  "zero_state =
     \<lparr>mb_Version = 0, mb_LastID = 0, mb_TotalOctets = 0, mb_Directories = [], mb_DailyReceipt = None, mb_index = None\<rparr>"

definition decode_state :: "json \<Rightarrow> mailboxState res" where
  "decode_state x =
     decode_struct [''version'', ''last_id'', ''total_octets'', ''directories'', ''daily_receipt''] state_field x zero_state"

text \<open>The struct of the file archive that came before Git.\<close>

definition legacy_field :: "string \<Rightarrow> json \<Rightarrow> mailboxState \<Rightarrow> mailboxState res" where
  "legacy_field name x st =
     (if name = ''version'' then map_sum id (\<lambda>n. st\<lparr>mb_Version := n\<rparr>) (decode_int x (mb_Version st))
      else if name = ''last_id'' then map_sum id (\<lambda>n. st\<lparr>mb_LastID := n\<rparr>) (decode_uint x (mb_LastID st))
      else map_sum id (\<lambda>n. st\<lparr>mb_TotalOctets := n\<rparr>) (decode_uint x (mb_TotalOctets st)))"

definition decode_legacy :: "json \<Rightarrow> mailboxState res" where
  "decode_legacy x = decode_struct [''version'', ''last_id'', ''total_octets''] legacy_field x zero_state"

section \<open>The functions of state.go\<close>

definition ensureJSONEOF :: "string \<Rightarrow> goerr option" where
  "ensureJSONEOF rest =
     (case json_next rest of
        Inl e \<Rightarrow> if errors_is e IoEOF then None else Some e
      | Inr _ \<Rightarrow> Some (ErrMsg ''mailbox state contains trailing JSON value''))"

definition decodeMailboxState :: "string \<Rightarrow> mailboxState res" where
  "decodeMailboxState source =
     (case bind_res (json_next source) (\<lambda>(x, rest). bind_res (decode_state x) (\<lambda>st. Inr (st, rest))) of
        Inl e \<Rightarrow> Inl (WrapErr ''decode mailbox state'' e)
      | Inr (st, rest) \<Rightarrow>
          (case ensureJSONEOF rest of
             Some e \<Rightarrow> Inl (WrapErr ''decode mailbox state'' e)
           | None \<Rightarrow>
               if mb_Version st \<noteq> mailboxStateVersion then Inl (ErrMsg ''unsupported Git mailbox state version'')
               else bind_res (buildDirectoryIndex (mb_Directories st) (mb_LastID st)) (\<lambda>index.
                    if di_total index = 0 \<and> mb_TotalOctets st \<noteq> 0
                    then Inl (ErrMsg ''empty mailbox has nonzero octets'')
                    else case (case mb_DailyReceipt st of None \<Rightarrow> None | Some usage \<Rightarrow> validateReceipt usage) of
                           Some e \<Rightarrow> Inl e
                         | None \<Rightarrow> Inr (st\<lparr>mb_index := Some index\<rparr>))))"

text \<open>The state file of a file archive: \<open>file\<close> is what opening and reading it gives.\<close>

definition readMailboxState :: "string res \<Rightarrow> mailboxState res" where
  "readMailboxState file =
     (case file of
        Inl e \<Rightarrow> if errors_is e OsErrNotExist then Inr emptyMailboxState else Inl (WrapErr ''open mailbox state'' e)
      | Inr source \<Rightarrow>
          bind_res (json_next source) (\<lambda>(x, rest).
          bind_res (decode_legacy x) (\<lambda>legacy.
            case ensureJSONEOF rest of
              Some e \<Rightarrow> Inl e
            | None \<Rightarrow>
                if mb_Version legacy \<noteq> 1 \<or> (mb_LastID legacy = 0 \<and> mb_TotalOctets legacy \<noteq> 0)
                then Inl (ErrMsg ''invalid legacy mailbox state'')
                else Inr (emptyMailboxState\<lparr>mb_LastID := mb_LastID legacy, mb_TotalOctets := mb_TotalOctets legacy\<rparr>))))"

section \<open>Reading back what a commit wrote\<close>

definition counts_json :: "directoryCounts \<Rightarrow> json" where
  "counts_json counts = JObj (map (\<lambda>(p, n). (p, JNum (json_uint n))) (sort_key fst counts))"

definition state_json :: "mailboxState \<Rightarrow> json" where
  "state_json st = JObj
     ([(''version'', JNum (fmt_nat 10 (nat (mb_Version st)))), (''last_id'', JNum (json_uint (mb_LastID st))),
       (''total_octets'', JNum (json_uint (mb_TotalOctets st)))] @
      (if mb_Directories st = [] then [] else [(''directories'', counts_json (mb_Directories st))]))"

lemma writes_uint: "writes (json_uint n) (JNum (json_uint n))"
  by (simp add: json_uint_def writes_number)

lemma writes_counts:
  assumes "\<forall>p \<in> fst ` set counts. list_all json_plain p"
  shows "writes (json_counts counts) (counts_json counts)"
proof -
  let ?ms = "map (\<lambda>(p, n). (p, json_uint n, JNum (json_uint n))) (sort_key fst counts)"
  have "\<forall>(key, w, x) \<in> set ?ms. list_all json_plain key \<and> writes w x" using assms writes_uint by fastforce
  note w = writes_object [OF this]
  have "(\<lambda>(key, w, x). json_member key w) \<circ> (\<lambda>(p, n). (p, json_uint n, JNum (json_uint n))) = (\<lambda>(p, n). json_member p (json_uint n))"
    "(\<lambda>(key :: string, w, x). (key, x)) \<circ> (\<lambda>(p, n). (p, json_uint n, JNum (json_uint n))) = (\<lambda>(p, n). (p, JNum (json_uint n)))"
    by (simp_all add: fun_eq_iff)
  with w show ?thesis unfolding map_map json_counts_def counts_json_def by simp
qed

lemma writes_state:
  assumes "\<forall>p \<in> fst ` set (mb_Directories st). list_all json_plain p" "0 \<le> mb_Version st" "mb_DailyReceipt st = None"
  shows "writes (json_state st) (state_json st)"
proof -
  let ?v = "fmt_nat 10 (nat (mb_Version st))"
  let ?ms = "[(''version'', ?v, JNum ?v), (''last_id'', json_uint (mb_LastID st), JNum (json_uint (mb_LastID st))),
       (''total_octets'', json_uint (mb_TotalOctets st), JNum (json_uint (mb_TotalOctets st)))] @
      (if mb_Directories st = [] then [] else [(''directories'', json_counts (mb_Directories st), counts_json (mb_Directories st))])"
  have plain: "list_all json_plain ''version''" "list_all json_plain ''last_id''" "list_all json_plain ''total_octets''"
      "list_all json_plain ''directories''" by code_simp+
  have "\<forall>(key, w, x) \<in> set ?ms. list_all json_plain key \<and> writes w x"
    using plain writes_uint writes_number writes_counts [OF assms(1)] by simp
  from writes_object [OF this] assms(2,3) show ?thesis
    by (cases "mb_Directories st = []") (simp_all add: json_state_def state_json_def fmt_int_def)
qed

lemma parse_json_uint: "parse_uint (json_uint n) 10 64 = Some n"
  by (simp add: json_uint_def parse_uint_fmt_nat)

lemma decode_entries_new:
  assumes "distinct (map fst (counts @ xs))"
  shows "decode_entries (map (\<lambda>(p, n). (p, JNum (json_uint n))) xs) counts = Inr (counts @ xs)"
  using assms
proof (induction xs arbitrary: counts)
  case (Cons x xs)
  obtain p n where x: "x = (p, n)" by (cases x)
  have "AList.update p n counts = counts @ [(p, n)]"
    using Cons.prems unfolding x by (induction counts) auto
  with Cons.IH [of "counts @ [(p, n)]"] Cons.prems show ?case by (simp add: x parse_json_uint)
qed simp

lemma decode_state_json:
  assumes "distinct (map fst (mb_Directories st))" "mb_Version st = mailboxStateVersion" "mb_DailyReceipt st = None"
  shows "decode_state (state_json st) =
    Inr (st\<lparr>mb_Directories := sort_key fst (mb_Directories st), mb_index := None\<rparr>)"
proof -
  have v: "parse_int (fmt_nat 10 (nat (mb_Version st))) = Some (mb_Version st)"
    using assms(2) parse_int_fmt_nat [of 2] by (simp add: mailboxStateVersion_def)
  have d: "decode_entries (map (\<lambda>(p, n). (p, JNum (json_uint n))) (sort_key fst (mb_Directories st))) [] =
      Inr (sort_key fst (mb_Directories st))"
    using decode_entries_new [of "[]" "sort_key fst (mb_Directories st)"] assms(1)
    by (simp add: distinct_map)
  show ?thesis
    using assms(3) by (simp add: decode_state_def decode_struct_def state_json_def json_field_def state_field_def
      zero_state_def v d parse_json_uint counts_json_def)
qed

text \<open>The paths of a map of directories are written as they are.\<close>

lemma path_chars_plain: "c \<in> path_chars \<Longrightarrow> json_plain c"
proof -
  have "list_all json_plain ''0123456789abcdef/.-sml''" by code_simp
  then show "c \<in> path_chars \<Longrightarrow> json_plain c" unfolding path_chars_def list_all_iff by blast
qed

lemma validDirectory_plain:
  assumes "validDirectory p = Inr leaf"
  shows "list_all json_plain p"
proof -
  let ?parts = "split_on CHR ''/'' p"
  from assms obtain depth v where d: "hd ?parts = fmt_int depth" "1 \<le> depth" "valid_dir_parts 0 0 (tl ?parts) = Some v"
    by (auto simp: validDirectory_def Let_def split: option.splits if_splits)
  from valid_dir_parts_Some [OF d(3)] obtain ds where ds: "tl ?parts = map hex3 ds" "\<forall>d \<in> set ds. d < 1024" by blast
  have "?parts = fmt_nat 10 (nat depth) # map hex3 ds"
    unfolding ds(1) [symmetric] using d(1,2) by (simp add: fmt_int_def flip: d(1)) (metis hd_Cons_tl split_on_not_Nil)
  then have "set e \<subseteq> path_chars" if "e \<in> set ?parts" for e
    using that ds(2) hex3_path fmt_nat_path [of 10 "nat depth"] by auto
  moreover have "c \<in> set p \<Longrightarrow> c = CHR ''/'' \<or> (\<exists>e \<in> set ?parts. c \<in> set e)" for c
    using set_join [of c "''/''" ?parts] by simp
  moreover have "CHR ''/'' \<in> path_chars" by (simp add: path_chars_def)
  ultimately have "set p \<subseteq> path_chars" by blast
  then show ?thesis using path_chars_plain by (auto simp: list_all_iff)
qed

text \<open>The order of the entries of a Go map does not matter.\<close>

lemma counts_represent_sorted:
  assumes "counts_represent counts S"
  shows "counts_represent (sort_key fst counts) S"
proof -
  have d: "distinct (map fst counts)" using assms by (simp add: counts_represent_def)
  then have d2: "distinct (map fst (sort_key fst counts))" by (simp add: distinct_map)
  have "map_of (sort_key fst counts) = map_of counts"
    using d d2 by (intro map_of_eqI) (auto simp: map_of_eq_Some_iff)
  with assms d2 show ?thesis by (simp add: counts_represent_def)
qed

lemma state_read_back:
  assumes "counts_represent (mb_Directories st) S" "mb_Version st = mailboxStateVersion" "mb_DailyReceipt st = None"
    and "0 \<notin> S" "card S \<le> unat (mb_LastID st)" "S = {} \<Longrightarrow> mb_TotalOctets st = 0"
  shows "decodeMailboxState (json_state st @ [CHR 0x0A]) =
    Inr (st\<lparr>mb_Directories := sort_key fst (mb_Directories st), mb_index := Some (index_of_set S)\<rparr>)"
proof -
  let ?st = "st\<lparr>mb_Directories := sort_key fst (mb_Directories st), mb_index := None\<rparr>"
  have "\<forall>p \<in> fst ` set (mb_Directories st). list_all json_plain p"
    using represent_entry_ok [OF assms(1,4)] validDirectory_plain by (fastforce simp: entry_ok_def)
  then have w: "writes (json_state st) (state_json st)"
    using assms(2,3) by (intro writes_state) (simp_all add: mailboxStateVersion_def)
  then obtain c u where c: "json_state st @ [CHR 0x0A] = c # u" using writesD(1) by (cases "json_state st") auto
  have "json_value (Suc (length (json_state st @ [CHR 0x0A]))) (json_state st @ [CHR 0x0A]) = Some (state_json st, [CHR 0x0A])"
    by (rule writesD(3) [OF w number_end_marks(3)]) simp
  then have n: "json_next (json_state st @ [CHR 0x0A]) = Inr (state_json st, [CHR 0x0A])"
    unfolding json_next_def Let_def writesD(2) [OF w] by (simp only: c list.distinct if_False option.case)
  have e: "ensureJSONEOF [CHR 0x0A] = None"
    by (simp add: ensureJSONEOF_def json_next_def skip_space_def json_space_def)
  have x: "decode_state (state_json st) = Inr ?st"
    using assms(1-3) by (intro decode_state_json) (simp_all add: counts_represent_def)
  have i: "buildDirectoryIndex (sort_key fst (mb_Directories st)) (mb_LastID st) = Inr (index_of_set S)"
    by (rule buildDirectoryIndex_represent [OF counts_represent_sorted [OF assms(1)] assms(4,5)])
  have "card S < 18446744073709551616" using card_u64_le [OF assms(4)] by simp
  then have "di_total (index_of_set S) = 0 \<Longrightarrow> card S = 0"
    unfolding index_of_set_def directoryIndex.select_convs by (metis unat_0 unat_of_nat_u64)
  then have "\<not> (di_total (index_of_set S) = 0 \<and> mb_TotalOctets st \<noteq> 0)" using assms(6) by auto
  then show ?thesis using assms(2,3) by (simp add: decodeMailboxState_def n e x i)
qed

end
