(* ===== verification/Recovery.thy ===== *)
theory Recovery
  imports State_Decode
begin

text \<open>
  The file archive that came before Git: \<open>writeMailboxState\<close> of \<open>internal/archive/state.go\<close>,
  \<open>recoverMailboxTail\<close> and \<open>statMessage\<close> of \<open>recovery.go\<close>. The file system is what \<open>Lstat\<close>
  answers for the message files, by relative path, and the text of the state file.
\<close>

section \<open>The files\<close>

text \<open>\<open>Lstat\<close> gives whether a file is regular, and its size.\<close>

record archive_fs =
  af_lstat :: "string \<Rightarrow> (bool \<times> u64) res"
  af_state :: "string res"

text \<open>The calls of \<open>writeMailboxState\<close> that can fail, in order.\<close>

record state_io =
  si_mkdir :: "goerr option"
  si_create :: "goerr option"
  si_encode :: "goerr option"
  si_sync :: "goerr option"
  si_close :: "goerr option"
  si_rename :: "goerr option"
  si_open :: "goerr option"
  si_dirsync :: "goerr option"

definition legacy_text :: "mailboxState \<Rightarrow> string" where
  "legacy_text st = json_object
     [json_member ''version'' (fmt_int 1), json_member ''last_id'' (json_uint (mb_LastID st)),
      json_member ''total_octets'' (json_uint (mb_TotalOctets st))] @ [CHR 0x0A]"

definition writeMailboxState :: "state_io \<Rightarrow> mailboxState \<Rightarrow> archive_fs \<Rightarrow> goerr option \<times> archive_fs" where
  "writeMailboxState io st fs =
     (if mb_Version st \<noteq> mailboxStateVersion then (Some (ErrMsg ''refuse to write mailbox state version''), fs)
      else case si_mkdir io of Some e \<Rightarrow> (Some (WrapErr ''create archive root'' e), fs) | None \<Rightarrow>
      case si_create io of Some e \<Rightarrow> (Some (WrapErr ''create temporary mailbox state'' e), fs) | None \<Rightarrow>
      case si_encode io of Some e \<Rightarrow> (Some (WrapErr ''encode mailbox state'' e), fs) | None \<Rightarrow>
      case si_sync io of Some e \<Rightarrow> (Some (WrapErr ''sync mailbox state'' e), fs) | None \<Rightarrow>
      case si_close io of Some e \<Rightarrow> (Some (WrapErr ''close mailbox state'' e), fs) | None \<Rightarrow>
      case si_rename io of Some e \<Rightarrow> (Some (WrapErr ''publish mailbox state'' e), fs) | None \<Rightarrow>
      let fs = fs\<lparr>af_state := Inr (legacy_text st)\<rparr> in
      case si_open io of Some e \<Rightarrow> (Some (WrapErr ''open archive root for sync'' e), fs) | None \<Rightarrow>
      case si_dirsync io of Some e \<Rightarrow> (Some (WrapErr ''sync archive root'' e), fs) | None \<Rightarrow> (None, fs))"

definition statMessage :: "archive_fs \<Rightarrow> u64 \<Rightarrow> (bool \<times> u64) res" where
  "statMessage fs i = bind_res (messageRelativePath i) (af_lstat fs)"

section \<open>Recovery\<close>

definition recoverMailboxTail :: "state_io \<Rightarrow> mailboxState \<Rightarrow> archive_fs \<Rightarrow> mailboxState res \<times> archive_fs" where
  "recoverMailboxTail io st fs =
     (case (if 0 < mb_LastID st
            then (case statMessage fs (mb_LastID st) of
                    Inl e \<Rightarrow> Some (WrapErr ''validate last indexed message'' e)
                  | Inr (regular, _) \<Rightarrow>
                      if \<not> regular then Some (ErrMsg ''last indexed message is not a regular file'') else None)
            else None) of
        Some e \<Rightarrow> (Inl e, fs)
      | None \<Rightarrow>
          if mb_LastID st = - 1 then (Inr st, fs)
          else let nextID = mb_LastID st + 1 in
            case statMessage fs nextID of
              Inl e \<Rightarrow> ((if errors_is e OsErrNotExist then Inr st else Inl (WrapErr ''check recovery message'' e)), fs)
            | Inr (regular, sz) \<Rightarrow>
                if \<not> regular then (Inl (ErrMsg ''recovery message is not a regular file''), fs)
                else if - 1 - mb_TotalOctets st < sz then (Inl (ErrMsg ''recovered mailbox octet count overflow''), fs)
                else case (if nextID < - 1
                           then (case statMessage fs (nextID + 1) of
                                   Inr _ \<Rightarrow> Some (ErrMsg ''mailbox state trails more than one published message'')
                                 | Inl e \<Rightarrow>
                                     if errors_is e OsErrNotExist then None
                                     else Some (WrapErr ''check message after recovery tail'' e))
                           else None) of
                       Some e \<Rightarrow> (Inl e, fs)
                     | None \<Rightarrow>
                         let recovered = emptyMailboxState\<lparr>mb_LastID := nextID, mb_TotalOctets := mb_TotalOctets st + sz\<rparr> in
                         (case writeMailboxState io recovered fs of
                            (Some e, fs) \<Rightarrow> (Inl (WrapErr ''record recovered mailbox tail'' e), fs)
                          | (None, fs) \<Rightarrow> (Inr recovered, fs)))"

section \<open>The state file reads back\<close>

lemma legacy_read_back:
  assumes "mb_LastID st = 0 \<longrightarrow> mb_TotalOctets st = 0"
  shows "readMailboxState (Inr (legacy_text st)) =
    Inr (emptyMailboxState\<lparr>mb_LastID := mb_LastID st, mb_TotalOctets := mb_TotalOctets st\<rparr>)"
proof -
  let ?one = "fmt_nat 10 1"
  let ?ms = "[(''version'', ?one, JNum ?one), (''last_id'', json_uint (mb_LastID st), JNum (json_uint (mb_LastID st))),
       (''total_octets'', json_uint (mb_TotalOctets st), JNum (json_uint (mb_TotalOctets st)))]"
  let ?j = "JObj (map (\<lambda>(key, w, x). (key, x)) ?ms)"
  have plain: "list_all json_plain ''version''" "list_all json_plain ''last_id''" "list_all json_plain ''total_octets''"
    by code_simp+
  have "\<forall>(key, w, x) \<in> set ?ms. list_all json_plain key \<and> writes w x"
    using plain writes_uint writes_number by simp
  note w = writes_object [OF this]
  have t: "legacy_text st = json_object (map (\<lambda>(key, w, x). json_member key w) ?ms) @ [CHR 0x0A]"
    by (simp add: legacy_text_def fmt_int_def)
  then have "legacy_text st \<noteq> []" by simp
  then obtain c u where c: "legacy_text st = c # u" by (meson neq_Nil_conv)
  have n: "json_next (legacy_text st) = Inr (?j, [CHR 0x0A])"
  proof -
    have "json_value (Suc (length (legacy_text st))) (legacy_text st) = Some (?j, [CHR 0x0A])"
      unfolding t by (rule writesD(3) [OF w number_end_marks(3)]) simp
    moreover have "skip_space (legacy_text st) = legacy_text st" unfolding t by (rule writesD(2) [OF w])
    ultimately show ?thesis unfolding json_next_def Let_def by (simp only: c list.distinct if_False option.case)
  qed
  have e: "ensureJSONEOF [CHR 0x0A] = None"
    by (simp add: ensureJSONEOF_def json_next_def skip_space_def json_space_def)
  have one: "parse_int (fmt_nat 10 1) = Some 1" using parse_int_fmt_nat [of 1] by simp
  have d: "decode_legacy ?j = Inr (zero_state\<lparr>mb_Version := 1, mb_LastID := mb_LastID st, mb_TotalOctets := mb_TotalOctets st\<rparr>)"
    by (simp add: decode_legacy_def decode_struct_def json_field_def legacy_field_def zero_state_def one [simplified] parse_json_uint)
  show ?thesis
    unfolding readMailboxState_def sum.case n bind_res_simps prod.case d using assms by (simp add: e zero_state_def)
qed

section \<open>What recovery achieves\<close>

text \<open>
  The archive has the messages \<open>1..n\<close> as regular files of the given sizes, and no later one.
\<close>

definition legacy_archive :: "archive_fs \<Rightarrow> u64 \<Rightarrow> (u64 \<Rightarrow> u64) \<Rightarrow> bool" where
  "legacy_archive fs n sizes \<longleftrightarrow>
     (\<forall>i. 0 < i \<and> i \<le> n \<longrightarrow> statMessage fs i = Inr (True, sizes i)) \<and>
     (\<forall>i. n < i \<longrightarrow> (\<exists>e. statMessage fs i = Inl e \<and> errors_is e OsErrNotExist))"

definition octets_to :: "(u64 \<Rightarrow> u64) \<Rightarrow> u64 \<Rightarrow> nat" where
  "octets_to sizes n = (\<Sum>i \<in> {1..unat n}. unat (sizes (of_nat i)))"

lemma octets_to_0 [simp]: "octets_to sizes 0 = 0"
  by (simp add: octets_to_def)

lemma octets_to_suc: "n \<noteq> - 1 \<Longrightarrow> octets_to sizes (n + 1) = octets_to sizes n + unat (sizes (n + 1))"
proof -
  assume n: "n \<noteq> - 1"
  have s: "unat (n + 1) = Suc (unat n)" by (rule unat_suc_u64 [OF n])
  have "of_nat (Suc (unat n)) = n + 1" by (metis s of_nat_unat_u64)
  moreover have "(\<Sum>i \<in> {1..Suc (unat n)}. unat (sizes (of_nat i))) =
      (\<Sum>i \<in> {1..unat n}. unat (sizes (of_nat i))) + unat (sizes (of_nat (Suc (unat n))))"
    by (subst sum.nat_ivl_Suc', simp, rule add.commute)
  ultimately show ?thesis unfolding octets_to_def s by (simp add: add.commute [of n 1])
qed

text \<open>
  A state that names all of the messages, or all but the one that was written last before a crash,
  is completed: it ends up at the last message, with the octets of all.
\<close>

lemma recovery_completes:
  assumes "legacy_archive fs n sizes" "octets_to sizes n < 18446744073709551616"
    and "mb_Version st = mailboxStateVersion" "unat (mb_TotalOctets st) = octets_to sizes (mb_LastID st)"
    and "mb_LastID st = n \<or> (mb_LastID st \<noteq> - 1 \<and> mb_LastID st + 1 = n)"
    and "recoverMailboxTail io st fs = (res, fs')"
  shows "af_lstat fs' = af_lstat fs \<and>
    (case res of
       Inr st' \<Rightarrow> mb_LastID st' = n \<and> unat (mb_TotalOctets st') = octets_to sizes n \<and>
         (if mb_LastID st = n then st' = st \<and> fs' = fs
          else readMailboxState (af_state fs') = Inr st')
     | Inl e \<Rightarrow> mb_LastID st \<noteq> n)"
proof (cases "mb_LastID st = n")
  case True
  have last: "0 < n \<Longrightarrow> statMessage fs n = Inr (True, sizes n)" using assms(1) by (simp add: legacy_archive_def)
  have "\<exists>e. statMessage fs (n + 1) = Inl e \<and> errors_is e OsErrNotExist" if "n \<noteq> - 1"
  proof -
    have "n < n + 1" using unat_suc_u64 [OF that] by (simp add: u64_less)
    with assms(1) show ?thesis by (simp add: legacy_archive_def)
  qed
  with assms(4,6) True last show ?thesis by (auto simp: recoverMailboxTail_def split: if_splits)
next
  case False
  with assms(5) have n: "mb_LastID st \<noteq> - 1" "mb_LastID st + 1 = n" by auto
  have s: "unat n = Suc (unat (mb_LastID st))" using unat_suc_u64 [OF n(1)] n(2) by simp
  then have pos: "0 < n" "mb_LastID st < n" by (simp_all add: u64_less)
  have a: "0 < mb_LastID st \<Longrightarrow> statMessage fs (mb_LastID st) = Inr (True, sizes (mb_LastID st))"
    "statMessage fs n = Inr (True, sizes n)"
    using assms(1) pos by (simp_all add: legacy_archive_def)
  have b: "\<exists>e. statMessage fs (n + 1) = Inl e \<and> errors_is e OsErrNotExist" if "n < - 1"
  proof -
    have "n \<noteq> - 1" using that by auto
    then have "n < n + 1" using unat_suc_u64 [of n] by (simp add: u64_less)
    with assms(1) show ?thesis by (simp add: legacy_archive_def)
  qed
  have sum: "octets_to sizes n = unat (mb_TotalOctets st) + unat (sizes n)"
    using octets_to_suc [OF n(1), of sizes] assms(4) n(2) by simp
  have "unat (- 1 - mb_TotalOctets st) = 18446744073709551615 - unat (mb_TotalOctets st)"
    by (subst unat_sub_u64) (simp_all add: u64_le)
  then have fit: "\<not> - 1 - mb_TotalOctets st < sizes n" unfolding u64_less using sum assms(2) by linarith
  have tot: "unat (mb_TotalOctets st + sizes n) = octets_to sizes n" using sum assms(2) by (simp add: unat_add_u64)
  let ?r = "emptyMailboxState\<lparr>mb_LastID := n, mb_TotalOctets := mb_TotalOctets st + sizes n\<rparr>"
  obtain we fs1 where w: "writeMailboxState io ?r fs = (we, fs1)" by fastforce
  have "recoverMailboxTail io st fs = (case we of Some e \<Rightarrow> (Inl (WrapErr ''record recovered mailbox tail'' e), fs1) | None \<Rightarrow> (Inr ?r, fs1))"
    using a b n fit w by (auto simp: recoverMailboxTail_def Let_def split: option.splits)
  with assms(6) have out: "fs' = fs1" "res = (case we of Some e \<Rightarrow> Inl (WrapErr ''record recovered mailbox tail'' e) | None \<Rightarrow> Inr ?r)"
    by (auto split: option.splits)
  have lstat: "af_lstat fs1 = af_lstat fs" "we = None \<Longrightarrow> af_state fs1 = Inr (legacy_text ?r)"
    using w by (auto simp: writeMailboxState_def Let_def split: if_splits option.splits)
  have "readMailboxState (Inr (legacy_text ?r)) = Inr ?r"
    using legacy_read_back [of ?r] word_neq_0_conv [of n] pos(1) by simp
  with lstat out tot False show ?thesis by (cases we) simp_all
qed

end
