(* ===== verification/Open_Store.thy ===== *)
theory Open_Store
  imports Recovery Mailbox_Ops
begin

text \<open>
  Opening an archive: \<open>initializeGit\<close> and \<open>requireUninitializedArchive\<close> of
  \<open>internal/archive/git.go\<close>, \<open>loadReceipt\<close> of \<open>quota.go\<close>, and \<open>NewWithOptions\<close> of
  \<open>store.go\<close>. The answers of the operating system and of the Git commands that are run only
  here are the record \<open>open_env\<close>.
\<close>

section \<open>What is asked while opening\<close>

text \<open>
  One call of the function given to \<open>WalkDir\<close>: whether the path is the root of the walk, whether
  the entry is a directory, and the error that is reported for it.
\<close>

record visit =
  vi_root :: bool
  vi_dir :: bool
  vi_err :: "goerr option"

text \<open>
  \<open>oe_walk k name\<close> and \<open>oe_packed k\<close> are the answers in the k-th call of
  \<open>requireUninitializedArchive\<close>, \<open>oe_symref k\<close> that of the k-th \<open>symbolic-ref HEAD\<close>.
\<close>

record 'g open_env =
  oe_abs :: "goerr option"
  oe_mkdir :: "goerr option"
  oe_version :: "string res"
  oe_worktree :: "unit res"
  oe_headFile :: "unit res"
  oe_walk :: "nat \<Rightarrow> string \<Rightarrow> visit list"
  oe_packed :: "nat \<Rightarrow> u64 res"
  oe_init :: "'g \<Rightarrow> goerr option \<times> 'g"
  oe_syncRoot :: "goerr option"
  oe_bare :: "string res"
  oe_mkdirTmp :: "goerr option"
  oe_symref :: "nat \<Rightarrow> string res"
  oe_refs :: "string \<Rightarrow> string res"
  oe_fs :: archive_fs
  oe_stateIO :: state_io
  oe_commit :: commit_env
  oe_receipt :: "string res"
  oe_receiptIO :: receipt_io

section \<open>The checks of a repository\<close>

definition existing_data :: goerr where
  "existing_data = ErrMsg ''archive has existing Git data; restore HEAD instead of importing legacy mail''"

fun walk_archive :: "visit list \<Rightarrow> goerr option" where
  "walk_archive [] = None"
| "walk_archive (v # vs) =
     (case vi_err v of
        Some e \<Rightarrow> if errors_is e OsErrNotExist \<and> vi_root v then walk_archive vs else Some e
      | None \<Rightarrow> if \<not> vi_dir v then Some existing_data else walk_archive vs)"

fun walk_all :: "visit list list \<Rightarrow> goerr option" where
  "walk_all [] = None"
| "walk_all (w # ws) = (case walk_archive w of Some e \<Rightarrow> Some e | None \<Rightarrow> walk_all ws)"

definition requireUninitializedArchive :: "'g open_env \<Rightarrow> nat \<Rightarrow> goerr option" where
  "requireUninitializedArchive env k =
     (case walk_all (map (oe_walk env k) [''objects'', ''refs'', ''logs'']) of
        Some e \<Rightarrow> Some e
      | None \<Rightarrow>
          (case oe_packed env k of
             Inr n \<Rightarrow> if n \<noteq> 0 then Some existing_data else None
           | Inl e \<Rightarrow> if errors_is e OsErrNotExist then None else Some e))"

text \<open>Git 2.36 or newer.\<close>

definition check_version :: "string res \<Rightarrow> goerr option" where
  "check_version version =
     (case version of
        Inl e \<Rightarrow> Some (WrapErr ''Git 2.36 or newer is required'' e)
      | Inr out \<Rightarrow>
          let fs = Go_Strings.fields out in
          if length fs < 3 then Some (ErrMsg ''cannot determine Git version'')
          else let numbers = split_on CHR ''.'' (fs ! 2) in
               if length numbers < 2 then Some (ErrMsg ''cannot determine Git version'')
               else case (parse_int (numbers ! 0), parse_int (numbers ! 1)) of
                      (Some major, Some minor) \<Rightarrow>
                        if major < 2 \<or> (major = 2 \<and> minor < 36) then Some (ErrMsg ''Git 2.36 or newer is required'')
                        else None
                    | _ \<Rightarrow> Some (ErrMsg ''Git 2.36 or newer is required''))"

text \<open>Up to a bare repository with a directory for the spool.\<close>

definition open_repository :: "'g open_env \<Rightarrow> 'g \<Rightarrow> goerr option \<times> 'g" where
  "open_repository env g =
     (case check_version (oe_version env) of
        Some e \<Rightarrow> (Some e, g)
      | None \<Rightarrow>
          (case oe_worktree env of
             Inr _ \<Rightarrow> (Some (ErrMsg ''archive has a working tree''), g)
           | Inl e \<Rightarrow>
               if \<not> errors_is e OsErrNotExist then (Some e, g)
               else let (err, g) =
                      (case oe_headFile env of
                         Inr _ \<Rightarrow> (None, g)
                       | Inl e \<Rightarrow>
                           if \<not> errors_is e OsErrNotExist then (Some e, g)
                           else (case requireUninitializedArchive env 0 of
                                   Some e \<Rightarrow> (Some e, g)
                                 | None \<Rightarrow>
                                     (case oe_init env g of
                                        (Some e, g) \<Rightarrow> (Some e, g)
                                      | (None, g) \<Rightarrow> (oe_syncRoot env, g))))
                    in case err of
                         Some e \<Rightarrow> (Some e, g)
                       | None \<Rightarrow>
                           (case oe_bare env of
                              Inl e \<Rightarrow> (Some e, g)
                            | Inr bare \<Rightarrow>
                                if trim_space bare \<noteq> ''true'' then (Some (ErrMsg ''archive must be a bare Git repository''), g)
                                else (oe_mkdirTmp env, g))))"

text \<open>A missing HEAD is legitimate only for a new, unborn branch.\<close>

definition open_head :: "'g git \<Rightarrow> 'g open_env \<Rightarrow> 'g store \<Rightarrow> string res \<times> 'g store" where
  "open_head G env s =
     (case git_head G s of
        (Inr h, s) \<Rightarrow> (Inr h, s)
      | (Inl err, s) \<Rightarrow>
          (case requireUninitializedArchive env 1 of
             Some e \<Rightarrow> (Inl e, s)
           | None \<Rightarrow>
               (case oe_symref env 0 of
                  Inl _ \<Rightarrow> (Inl err, s)
                | Inr ref \<Rightarrow>
                    (case oe_refs env (trim_space ref) of
                       Inl _ \<Rightarrow> (Inl err, s)
                     | Inr refs \<Rightarrow> ((if refs \<noteq> [] then Inl err else Inr []), s)))))"

definition open_branch :: "string res \<Rightarrow> string res" where
  "open_branch symref =
     (case symref of
        Inl _ \<Rightarrow> Inl (ErrMsg ''archive HEAD must point to a branch'')
      | Inr ref \<Rightarrow>
          let name = trim_space ref in
          if \<not> has_prefix name ''refs/heads/'' \<or> contains_any name CRLF then Inl (ErrMsg ''invalid archive branch'')
          else Inr name)"

section \<open>The mail of a file archive\<close>

text \<open>
  The loop over the messages: their octets so far, the paths to import and the directory counts.
  \<open>messagePath\<close> does not fail on the IDs it is given here.
\<close>

function legacy_scan ::
  "archive_fs \<Rightarrow> u64 \<Rightarrow> u64 \<Rightarrow> u64 \<Rightarrow> (string \<times> string option) list \<Rightarrow> directoryCounts
    \<Rightarrow> (u64 \<times> (string \<times> string option) list \<times> directoryCounts) res" where
  "legacy_scan fs lastID i octets changes counts =
     (if i = 0 \<or> lastID < i then Inr (octets, changes, counts)
      else case statMessage fs i of
             Inl e \<Rightarrow> Inl e
           | Inr (regular, sz) \<Rightarrow>
               if \<not> regular then Inl (ErrMsg ''legacy message is not regular'')
               else if - 1 - octets < sz then Inl (ErrMsg ''legacy archive octet overflow'')
               else let path = (case messagePath i sz of Inr p \<Rightarrow> p | Inl _ \<Rightarrow> []) in
                    bind_res (counts_add counts (path_dir path)) (\<lambda>counts.
                      legacy_scan fs lastID (i + 1) (octets + sz) (AList.update path None changes) counts))"
  by pat_completeness auto
termination
proof (relation "measure (\<lambda>(fs, lastID, i, octets, changes, counts). if i = (0 :: u64) then 0 else 18446744073709551616 - unat i)",
    simp, goal_cases)
  case (1 fs lastID i octets changes counts)
  then have "i \<noteq> 0" by simp
  show ?case
  proof (cases "i = - 1")
    case True
    then show ?thesis using unat_less_64 [of i] by simp
  next
    case False
    then have "unat (i + 1) = Suc (unat i)" by (rule unat_suc_u64)
    then have "18446744073709551616 - unat (i + 1) < 18446744073709551616 - unat i"
      using unat_less_64 [of i] by linarith
    then show ?thesis using \<open>i \<noteq> 0\<close> unat_less_64 [of i] by simp
  qed
qed

declare legacy_scan.simps [simp del]

text \<open>An unborn branch: the mail of the file archive becomes the first commit.\<close>

definition import_legacy :: "'g git \<Rightarrow> 'g open_env \<Rightarrow> 'g store \<Rightarrow> goerr option \<times> 'g store" where
  "import_legacy G env s =
     (case readMailboxState (af_state (oe_fs env)) of
        Inl e \<Rightarrow> (Some e, s)
      | Inr state \<Rightarrow>
          (case recoverMailboxTail (oe_stateIO env) state (oe_fs env) of
             (Inl e, fs) \<Rightarrow> (Some e, s)
           | (Inr state, fs) \<Rightarrow>
               (case legacy_scan fs (mb_LastID state) 1 0 [] [] of
                  Inl e \<Rightarrow> (Some e, s)
                | Inr (octets, changes, counts) \<Rightarrow>
                    if octets \<noteq> mb_TotalOctets state then (Some (ErrMsg ''legacy archive octets do not match state''), s)
                    else (case buildDirectoryIndex counts (mb_LastID state) of
                            Inl e \<Rightarrow> (Some e, s)
                          | Inr index \<Rightarrow>
                              let state = state\<lparr>mb_Directories := counts, mb_index := Some index\<rparr> in
                              commitChanges G (oe_commit env) ''mail: initialize archive'' state changes []
                                (s\<lparr>st_state := state\<rparr>)))))"

section \<open>The committed state\<close>

definition load_state :: "'g git \<Rightarrow> string \<Rightarrow> 'g store \<Rightarrow> goerr option \<times> 'g store" where
  "load_state G head s =
     (case store_readBlob G head mailboxStateName s of
        (Inl e, s) \<Rightarrow> (Some (WrapErr ''read committed mailbox state'' e), s)
      | (Inr reader, s) \<Rightarrow>
          let (bytes, readErr, reader, s) = store_ReadAll reader s;
              (closeErr, s) = store_CloseBlob reader s
          in case join_errors readErr closeErr of
               Some e \<Rightarrow> (Some e, s)
             | None \<Rightarrow>
                 (case decodeMailboxState bytes of
                    Inl e \<Rightarrow> (Some e, s)
                  | Inr state \<Rightarrow> (None, s\<lparr>st_state := state\<rparr>)))"

definition initializeGit :: "'g git \<Rightarrow> 'g open_env \<Rightarrow> 'g store \<Rightarrow> goerr option \<times> 'g store" where
  "initializeGit G env s =
     (case open_repository env (st_git s) of
        (Some e, g) \<Rightarrow> (Some e, s\<lparr>st_git := g\<rparr>)
      | (None, g) \<Rightarrow>
          (case open_head G env (s\<lparr>st_git := g\<rparr>) of
             (Inl e, s) \<Rightarrow> (Some e, s)
           | (Inr head, s) \<Rightarrow>
               (case open_branch (oe_symref env 1) of
                  Inl e \<Rightarrow> (Some e, s)
                | Inr name \<Rightarrow>
                    let s = s\<lparr>st_refName := name, st_headID := head\<rparr> in
                    if head = [] then import_legacy G env s else load_state G head s)))"

section \<open>The receipt file\<close>

text \<open>\<open>file\<close> is what opening and reading the file gives; \<open>st_receiptFile\<close> is the receipt on disk.\<close>

definition loadReceipt :: "string res \<Rightarrow> receipt_io \<Rightarrow> 'g store \<Rightarrow> goerr option \<times> 'g store" where
  "loadReceipt file io s =
     (let (err, s) =
        (case file of
           Inl e \<Rightarrow>
             if errors_is e OsErrNotExist then
               (case mb_DailyReceipt (st_state s) of
                  None \<Rightarrow> (None, s)
                | Some legacy \<Rightarrow>
                    (case writeReceipt io legacy s of
                       (Some e, s) \<Rightarrow> (Some e, s)
                     | (None, s) \<Rightarrow> (None, s\<lparr>st_receipt := Some legacy\<rparr>)))
             else (Some (WrapErr ''open receipt budget'' e), s)
         | Inr source \<Rightarrow>
             (case bind_res (json_next source) (\<lambda>(x, rest). bind_res (decode_receipt x no_receipt) (\<lambda>u. Inr (u, rest))) of
                Inl e \<Rightarrow> (Some (WrapErr ''decode receipt budget'' e), s)
              | Inr (usage, rest) \<Rightarrow>
                  (case ensureJSONEOF rest of
                     Some e \<Rightarrow> (Some e, s)
                   | None \<Rightarrow>
                       (case validateReceipt usage of
                          Some e \<Rightarrow> (Some e, s)
                        | None \<Rightarrow> (None, s\<lparr>st_receipt := Some usage, st_receiptFile := Some usage\<rparr>)))))
      in case err of
           Some e \<Rightarrow> (Some e, s)
         | None \<Rightarrow> (None, s\<lparr>st_state := (st_state s)\<lparr>mb_DailyReceipt := None\<rparr>\<rparr>))"

section \<open>A new store\<close>

definition fresh_store :: "u64 \<Rightarrow> 'g \<Rightarrow> 'g store" where
  "fresh_store maxDailyBytes g =
     \<lparr>st_maxDailyBytes = maxDailyBytes, st_receipt = None, st_receiptFile = None, st_reservedBytes = 0,
      st_failure = None, st_staged = [], st_files = Map.empty, st_state = zero_state, st_headID = [],
      st_refName = [], st_git = g, st_importer = None, st_importError = None, st_closed = False,
      st_idleGeneration = 0, st_idleTimer = None,
      st_reader = \<lparr>rs_process = None, rs_closed = False, rs_generation = 0, rs_timer = None\<rparr>,
      st_cache = newDirectoryCache directoryCacheCapacity, st_maintenanceRequested = False,
      st_commitsSinceMaintenance = 0, st_lastMaintenanceHead = []\<rparr>"

text \<open>A store that could not be opened is closed.\<close>

definition NewWithOptions ::
  "'g git \<Rightarrow> 'g open_env \<Rightarrow> string \<Rightarrow> u64 \<Rightarrow> 'g \<Rightarrow> 'g store res" where
  "NewWithOptions G env root maxDailyBytes g =
     (let maxDailyBytes = (if maxDailyBytes = 0 then DefaultMaxDailyBytes else maxDailyBytes) in
      if trim_space root = [] then Inl (ErrMsg ''message archive root is required'')
      else case oe_abs env of Some e \<Rightarrow> Inl e | None \<Rightarrow>
           case oe_mkdir env of Some e \<Rightarrow> Inl e | None \<Rightarrow>
           (case initializeGit G env (fresh_store maxDailyBytes g) of
              (Some e, s) \<Rightarrow> Inl e
            | (None, s) \<Rightarrow>
                (case loadReceipt (oe_receipt env) (oe_receiptIO env) s of
                   (Some e, s) \<Rightarrow> Inl e
                 | (None, s) \<Rightarrow> Inr s)))"

end
