(* ===== verification/Restart.thy ===== *)
theory Restart
  imports Open_Store Publish_Live Sample_Store Read_Live
begin

text \<open>
  Opening an archive again: the store that \<open>NewWithOptions\<close> opens holds the mailbox of the store
  that wrote HEAD, with its counters, and the receipt that was on disk. It opens whenever Git
  answers in full.
\<close>

section \<open>The state that HEAD holds\<close>

definition restored :: "mailboxState \<Rightarrow> mailboxState" where
  "restored st = st\<lparr>mb_Directories := sort_key fst (mb_Directories st)\<rparr>"

lemma state_text_restored [simp]: "state_text (restored st) = state_text st"
proof -
  have "sort_key fst (sort_key fst xs) = sort_key fst (xs :: directoryCounts)" for xs
    by (rule sort_key_id_if_sorted) simp
  moreover have "sort_key fst xs = [] \<longleftrightarrow> xs = []" for xs :: directoryCounts
    by (metis length_0_conv length_sort)
  ultimately show ?thesis by (simp add: state_text_def restored_def json_state_def json_counts_def)
qed

lemma state_ok_restored: "state_ok st M \<Longrightarrow> state_ok (restored st) M"
  by (simp add: state_ok_def restored_def counts_represent_sorted)

lemma decode_state_text:
  assumes "state_ok st M" "mailbox_ok M"
  shows "decodeMailboxState (state_text st) = Inr (restored st)"
proof -
  have st: "counts_represent (mb_Directories st) (dom M)" "mb_Version st = mailboxStateVersion" "mb_DailyReceipt st = None"
      "mb_index st = Some (index_of_set (dom M))" "unat (mb_TotalOctets st) = mailbox_octets M"
    using assms(1) by (simp_all add: state_ok_def)
  have z: "0 \<notin> dom M" using assms(2) by (auto simp: mailbox_ok_def)
  then have "\<forall>i \<in> dom M. i \<noteq> 0 \<and> i \<le> mb_LastID st" using assms(1) by (auto simp: state_ok_def)
  then have "card (dom M) \<le> unat (mb_LastID st)" by (rule card_ids)
  moreover have "mb_TotalOctets st = 0" if "dom M = {}"
    using st(5) that by (simp add: mailbox_octets_def unat_eq_0)
  ultimately have "decodeMailboxState (state_text st) =
      Inr (st\<lparr>mb_Directories := sort_key fst (mb_Directories st), mb_index := Some (index_of_set (dom M))\<rparr>)"
    unfolding state_text_def by (rule state_read_back [OF st(1-3) z])
  moreover have "st\<lparr>mb_Directories := sort_key fst (mb_Directories st), mb_index := Some (index_of_set (dom M))\<rparr> = restored st"
    using st(4) by (cases st) (simp add: restored_def)
  ultimately show ?thesis by simp
qed

lemma plain_state: "plain_path mailboxStateName"
  by (simp add: plain_path_def plain_elem_def mailboxStateName_def)

text \<open>What Git resolves the name of the state file to.\<close>

lemma resolve_state:
  assumes "git_sound G view" "rp_commit (view g) h = Some fs" "fs mailboxStateName = Some t"
  obtains oid where "rp_resolve (view g) (h @ '':'' @ mailboxStateName) = Some oid" "rp_object (view g) oid = Some (''blob'', t)"
  using file_resolves [OF git_soundD(1) [OF assms(1)] assms(2) plain_state assms(3)] that by blast

lemma read_step_spool:
  assumes "read_step view s s'"
  shows "st_receipt s' = st_receipt s" "st_receiptFile s' = st_receiptFile s" "st_reservedBytes s' = st_reservedBytes s"
    "st_staged s' = st_staged s" "st_maxDailyBytes s' = st_maxDailyBytes s"
  using assms by (cases s; cases s'; auto simp: read_step_def)+

definition load_frame :: "('g \<Rightarrow> repo) \<Rightarrow> 'g store \<Rightarrow> mailboxState \<Rightarrow> 'g store \<Rightarrow> bool" where
  "load_frame view s st s' \<longleftrightarrow> (\<exists>t. read_step view s t \<and> read_ready view t \<and> s' = t\<lparr>st_state := st\<rparr>)"

lemma load_state_sound:
  assumes "git_sound G view" "read_ready view s" "rp_commit (view (st_git s)) h = Some fs"
    and "fs mailboxStateName = Some (state_text st)" "state_ok st M" "mailbox_ok M"
    and "load_state G h s = (None, s')"
  shows "load_frame view s (restored st) s'"
proof -
  obtain oid where oid: "rp_resolve (view (st_git s)) (h @ '':'' @ mailboxStateName) = Some oid"
      "rp_object (view (st_git s)) oid = Some (''blob'', state_text st)"
    by (rule resolve_state [OF assms(1,3,4)])
  obtain ro s1 where x1: "store_readObject G (h @ '':'' @ mailboxStateName) ''blob'' s = (ro, s1)" by (meson surj_pair)
  note r1 = store_readObject_sound [OF assms(1,2) x1]
  obtain br where br: "ro = Inr br" using assms(7) x1 by (cases ro) (auto simp: load_state_def store_readBlob_def)
  with r1 oid have d: "reading (state_text st) br (leased_pipe (st_reader s1))" "read_step view s s1"
      "cache_sound (view (st_git s1)) (st_cache s1)" by auto
  obtain bytes re br2 s2 where x2: "store_ReadAll br s1 = (bytes, re, br2, s2)" by (metis surj_pair)
  obtain ce s3 where x3: "store_CloseBlob br2 s2 = (ce, s3)" by (meson surj_pair)
  have x: "load_state G h s =
      (case join_errors re ce of Some e \<Rightarrow> (Some e, s3)
       | None \<Rightarrow> (case decodeMailboxState bytes of Inl e \<Rightarrow> (Some e, s3) | Inr state \<Rightarrow> (None, s3\<lparr>st_state := state\<rparr>)))"
    using x1 br x2 x3 by (simp add: load_state_def store_readBlob_def)
  then have re: "re = None" "ce = None" using assms(7) by (auto simp: join_errors_def split: option.splits)
  note r2 = store_ReadAll_sound [where view = view, OF d(1) x2]
  then obtain d' where d': "reading d' br2 (leased_pipe (st_reader s2))" "state_text st = bytes @ d'" "d' = []"
    using re by blast
  have r3: "read_step view s2 s3 \<and> read_ready view s3"
    using store_CloseBlob_sound [where view = view, OF d'(1) _ _ x3] r2 d(3) by auto
  have "decodeMailboxState bytes = Inr (restored st)" using decode_state_text [OF assms(5,6)] d'(2,3) by simp
  with x re assms(7) have "s' = s3\<lparr>st_state := restored st\<rparr>" by (simp add: join_errors_def)
  moreover have "read_step view s s3" using d(2) r2 r3 read_step_trans by blast
  ultimately show ?thesis using r3 by (auto simp: load_frame_def)
qed

text \<open>Git answers the request for the state in full.\<close>

definition answers_state :: "'g git \<Rightarrow> ('g \<Rightarrow> repo) \<Rightarrow> string \<Rightarrow> 'g \<Rightarrow> bool" where
  "answers_state G view h g \<longleftrightarrow> answered G view ''contents'' (h @ '':'' @ mailboxStateName) g"

lemma load_state_live:
  assumes "git_sound G view" "rp_commit (view (st_git s)) h = Some fs" "validObjectID h"
    and "fs mailboxStateName = Some (state_text st)" "state_ok st M" "mailbox_ok M"
    and "answers_state G view h (st_git s)" "length (state_text st) < 2 ^ 63"
    and "reader_idle (st_reader s)" "reads_open s"
  shows "\<exists>s'. load_state G h s = (None, s')"
proof -
  let ?spec = "h @ '':'' @ mailboxStateName"
  obtain oid where oid: "rp_resolve (view (st_git s)) ?spec = Some oid" "rp_object (view (st_git s)) oid = Some (''blob'', state_text st)"
    by (rule resolve_state [OF assms(1,2,4)])
  have spec: "\<not> contains_any ?spec [CHR 0x0D, CHR 0x0A]" by (rule plain_spec [OF assms(3)]) (simp_all add: mailboxStateName_def)
  obtain br s1 br2 s2 s3 where "store_readObject G ?spec ''blob'' s = (Inr br, s1)" "br_remaining br = int (length (state_text st))"
      "oh_oid (br_header br) = oid" "store_ReadAll br s1 = (state_text st, None, br2, s2)" "oh_oid (br_header br2) = oid"
      "store_CloseBlob br2 s2 = (None, s3)" "reads_open s3" "st_git s3 = gi_tick G (st_git s)"
    by (rule store_fetch_live [OF git_soundD(1) [OF assms(1)] oid assms(8) spec assms(7) [unfolded answers_state_def] assms(9,10)])
  then show ?thesis
    using decode_state_text [OF assms(5,6)] by (simp add: load_state_def store_readBlob_def join_errors_def)
qed

section \<open>The receipt on disk\<close>

lemma valid_date_plain:
  assumes "valid_date day"
  shows "list_all json_plain day"
proof -
  have digits: "c \<in> set s \<Longrightarrow> json_plain c" if "two_digits s = Some n" for s n c
  proof -
    assume "c \<in> set s"
    then have "CHR ''0'' \<le> c \<and> c \<le> CHR ''9''" using that by (auto simp: two_digits_def list_all_iff split: if_splits)
    then have "48 \<le> code c \<and> code c \<le> 57" by (simp add: less_eq_char_def)
    then show ?thesis by (auto simp: json_plain_def)
  qed
  have len: "length day = 10" "day ! 4 = CHR ''-''" "day ! 7 = CHR ''-''" using assms by (simp_all add: valid_date_def)
  obtain y m d where ymd: "two_digits (take 4 day) = Some y" "two_digits (take 2 (drop 5 day)) = Some m"
      "two_digits (drop 8 day) = Some d"
    using assms by (auto simp: valid_date_def split: option.splits)
  obtain c0 c1 c2 c3 c4 c5 c6 c7 c8 c9 where day: "day = [c0, c1, c2, c3, c4, c5, c6, c7, c8, c9]"
    using len(1) by (auto simp: numeral_eq_Suc length_Suc_conv)
  have "set day \<subseteq> set (take 4 day) \<union> set (take 2 (drop 5 day)) \<union> set (drop 8 day) \<union> {CHR ''-''}"
    using len(2,3) by (simp add: day)
  moreover have "json_plain (CHR ''-'')" by (simp add: json_plain_def)
  ultimately show ?thesis using digits [OF ymd(1)] digits [OF ymd(2)] digits [OF ymd(3)] by (auto simp: list_all_iff)
qed

lemma receipt_read_back:
  assumes "validateReceipt r = None"
  shows "loadReceipt (Inr (json_receipt r @ [CHR 0x0A])) io s =
    (None, s\<lparr>st_receipt := Some r, st_receiptFile := Some r, st_state := (st_state s)\<lparr>mb_DailyReceipt := None\<rparr>\<rparr>)"
proof -
  let ?x = "JObj [(''day'', JStr (dr_Day r)), (''charged_bytes'', JNum (json_uint (dr_ChargedBytes r)))]"
  let ?ms = "[(''day'', json_string (dr_Day r), JStr (dr_Day r)),
      (''charged_bytes'', json_uint (dr_ChargedBytes r), JNum (json_uint (dr_ChargedBytes r)))]"
  have plain: "list_all json_plain ''day''" "list_all json_plain ''charged_bytes''" by code_simp+
  have "list_all json_plain (dr_Day r)"
    using assms by (intro valid_date_plain) (auto simp: validateReceipt_def split: if_splits)
  then have "\<forall>(key, w, x) \<in> set ?ms. list_all json_plain key \<and> writes w x"
    using plain writes_uint writes_string by simp
  from writes_object [OF this] have w: "writes (json_receipt r) ?x" by (simp add: json_receipt_def)
  then obtain c u where c: "json_receipt r @ [CHR 0x0A] = c # u" using writesD(1) by (cases "json_receipt r") auto
  have "json_value (Suc (length (json_receipt r @ [CHR 0x0A]))) (json_receipt r @ [CHR 0x0A]) = Some (?x, [CHR 0x0A])"
    by (rule writesD(3) [OF w number_end_marks(3)]) simp
  then have n: "json_next (json_receipt r @ [CHR 0x0A]) = Inr (?x, [CHR 0x0A])"
    unfolding json_next_def Let_def writesD(2) [OF w] by (simp only: c list.distinct if_False option.case)
  have d: "decode_receipt ?x no_receipt = Inr r"
    by (simp add: decode_receipt_def decode_struct_def json_field_def receipt_field_def parse_json_uint no_receipt_def)
  have "ensureJSONEOF [CHR 0x0A] = None"
    by (simp add: ensureJSONEOF_def json_next_def skip_space_def json_space_def)
  with n d assms show ?thesis by (simp add: loadReceipt_def)
qed

definition receipt_on_disk :: "'g store \<Rightarrow> string res" where
  "receipt_on_disk s =
     (case st_receiptFile s of None \<Rightarrow> Inl OsErrNotExist | Some r \<Rightarrow> Inr (json_receipt r @ [CHR 0x0A]))"

lemma loadReceipt_on_disk:
  assumes "\<And>r. st_receiptFile old = Some r \<Longrightarrow> validateReceipt r = None" "mb_DailyReceipt (st_state s) = None"
    and "st_receipt s = None" "st_receiptFile s = None"
  shows "loadReceipt (receipt_on_disk old) io s =
    (None, s\<lparr>st_receipt := st_receiptFile old, st_receiptFile := st_receiptFile old\<rparr>)"
proof (cases "st_receiptFile old")
  case None
  have "s\<lparr>st_state := (st_state s)\<lparr>mb_DailyReceipt := None\<rparr>\<rparr> = s\<lparr>st_receipt := None, st_receiptFile := None\<rparr>"
    using assms(2-4) by (cases s, cases "st_state s") simp
  with None assms(2) show ?thesis by (simp add: receipt_on_disk_def loadReceipt_def)
next
  case (Some r)
  have "(st_state s)\<lparr>mb_DailyReceipt := None\<rparr> = st_state s" using assms(2) by (cases "st_state s") simp
  with receipt_read_back [OF assms(1) [OF Some], of io s] Some show ?thesis
    by (cases s) (simp add: receipt_on_disk_def)
qed

section \<open>Opening\<close>

text \<open>Everything that is asked before the state is read answers as it does for an archive in good order.\<close>

definition opens_cleanly :: "'g git \<Rightarrow> 'g open_env \<Rightarrow> ('g \<Rightarrow> repo) \<Rightarrow> string \<Rightarrow> 'g \<Rightarrow> bool" where
  "opens_cleanly G env view h g \<longleftrightarrow>
     oe_abs env = None \<and> oe_mkdir env = None \<and> check_version (oe_version env) = None \<and>
     oe_worktree env = Inl OsErrNotExist \<and> map_sum id trim_space (oe_bare env) = Inr ''true'' \<and> oe_mkdirTmp env = None \<and>
     (\<exists>name. open_branch (oe_symref env 1) = Inr name) \<and> answers_state G view h g"

lemma open_repository_existing:
  assumes "oe_headFile env = Inr u"
  shows "snd (open_repository env g) = g"
    and "opens_cleanly G env view h g' \<Longrightarrow> open_repository env g = (None, g)"
  using assms by (auto simp: open_repository_def opens_cleanly_def Let_def map_sum_def split: option.splits sum.splits)

lemma open_branch_line: "open_branch x = Inr name \<Longrightarrow> CHR 0x0A \<notin> set name"
  by (auto simp: open_branch_def Let_def contains_any_iff split: sum.splits if_splits)

lemma fresh_store_ready:
  "read_ready view (fresh_store n g\<lparr>st_git := g', st_refName := name, st_headID := h\<rparr>)"
proof -
  have "cache_ok (newDirectoryCache directoryCacheCapacity)" by (simp add: cache_ok_new directoryCacheCapacity_def)
  moreover have "lru_of (newDirectoryCache directoryCacheCapacity) = []" by (simp add: lru_of_def newDirectoryCache_def)
  ultimately show ?thesis by (simp add: read_ready_def reader_idle_def cache_sound_def fresh_store_def)
qed

text \<open>The store as it is when the state is read.\<close>

definition found_store :: "u64 \<Rightarrow> 'g \<Rightarrow> 'g \<Rightarrow> string \<Rightarrow> string \<Rightarrow> 'g store" where
  "found_store n g g' name h = fresh_store n g\<lparr>st_git := g', st_refName := name, st_headID := h\<rparr>"

lemma initializeGit_existing:
  assumes "oe_headFile env = Inr u" "gi_head G g = (Inr out, g')" "trim_space out = h" "h \<noteq> []"
  shows "initializeGit G env (fresh_store n g) = (None, s') \<Longrightarrow>
      \<exists>name. CHR 0x0A \<notin> set name \<and> load_state G h (found_store n g g' name h) = (None, s')"
    and "opens_cleanly G env view h g' \<Longrightarrow>
      \<exists>name. initializeGit G env (fresh_store n g) = load_state G h (found_store n g g' name h)"
proof -
  have g: "st_git (fresh_store n g) = g" "fresh_store n g\<lparr>st_git := g\<rparr> = fresh_store n g" by (simp_all add: fresh_store_def)
  have hd: "open_head G env (fresh_store n g) = (Inr h, fresh_store n g\<lparr>st_git := g'\<rparr>)"
    using assms(2,3) by (simp add: open_head_def git_head_def fresh_store_def)
  have x: "initializeGit G env (fresh_store n g) =
      (case open_branch (oe_symref env 1) of
         Inl e \<Rightarrow> (Some e, fresh_store n g\<lparr>st_git := g'\<rparr>)
       | Inr name \<Rightarrow> load_state G h (found_store n g g' name h))" if "open_repository env g = (None, g)"
    using that hd assms(4) by (simp add: initializeGit_def g found_store_def split: sum.split)
  show "\<exists>name. CHR 0x0A \<notin> set name \<and> load_state G h (found_store n g g' name h) = (None, s')"
    if i: "initializeGit G env (fresh_store n g) = (None, s')"
  proof -
    obtain e g2 where r: "open_repository env g = (e, g2)" by (meson surj_pair)
    then have "g2 = g" using open_repository_existing(1) [where g = g, OF assms(1)] by simp
    moreover have "e = None" using i r by (cases e) (simp_all add: initializeGit_def g)
    ultimately have "(case open_branch (oe_symref env 1) of
         Inl e \<Rightarrow> (Some e, fresh_store n g\<lparr>st_git := g'\<rparr>)
       | Inr name \<Rightarrow> load_state G h (found_store n g g' name h)) = (None, s')"
      using x r i by simp
    then show ?thesis using open_branch_line by (auto split: sum.splits)
  qed
  show "\<exists>name. initializeGit G env (fresh_store n g) = load_state G h (found_store n g g' name h)"
    if c: "opens_cleanly G env view h g'"
  proof -
    have "open_repository env g = (None, g)" by (rule open_repository_existing(2) [OF assms(1) c])
    moreover obtain name where "open_branch (oe_symref env 1) = Inr name" using c by (auto simp: opens_cleanly_def)
    ultimately show ?thesis using x by auto
  qed
qed

lemma loaded_serving:
  assumes "load_frame view (found_store n g g' name h) (restored st) s'" "validObjectID h" "CHR 0x0A \<notin> set name"
    and "rp_commit (view g') h = Some fs" "archive_tree fs M" "mailbox_ok M"
    and "fs mailboxStateName = Some (state_text st)" "state_ok st M"
  shows "serving view s' M"
proof -
  obtain t where t: "read_step view (found_store n g g' name h) t" "read_ready view t" "s' = t\<lparr>st_state := restored st\<rparr>"
    using assms(1) by (auto simp: load_frame_def)
  note d = read_stepD [OF t(1)]
  have f: "st_headID s' = h" "st_failure s' = None" "st_importer s' = None" "st_refName s' = name" "st_git s' = st_git t"
      "st_state s' = restored st"
    using t(3) d by (simp_all add: found_store_def fresh_store_def)
  have "rp_commit (view (st_git t)) h = Some fs"
    using d(1) assms(4) by (auto simp: repo_extends_def found_store_def)
  then have "committed view fs s'" using assms(2) f by (simp add: committed_def)
  then have "store_holds view s' M"
    unfolding store_holds_def using assms(5-8) f state_ok_restored [OF assms(8)] state_text_restored by auto
  moreover have "read_ready view s'" using t(2,3) by (simp add: read_ready_def)
  moreover have "store_base view s'" using f assms(3) by (simp add: store_base_def importer_idle_def)
  ultimately show ?thesis using f by (simp add: serving_def)
qed

lemma serving_receipt [simp]:
  "serving view (s\<lparr>st_receipt := a, st_receiptFile := b\<rparr>) M = serving view s M"
  by (simp add: serving_def store_base_def importer_idle_def read_ready_def store_holds_def committed_def)

lemma load_found:
  assumes "git_sound G view" "rp_commit (view g') h = Some fs"
    and "fs mailboxStateName = Some (state_text st)" "state_ok st M" "mailbox_ok M"
    and "load_state G h (found_store n g g' name h) = (None, s')"
  shows "load_frame view (found_store n g g' name h) (restored st) s'"
proof (rule load_state_sound [where fs = fs and M = M and view = view, OF assms(1) _ _ assms(3-6)])
  show "read_ready view (found_store n g g' name h)" unfolding found_store_def by (rule fresh_store_ready)
  show "rp_commit (view (st_git (found_store n g g' name h))) h = Some fs" using assms(2) by (simp add: found_store_def)
qed

lemma load_frame_fields:
  assumes "load_frame view (found_store n g g' name h) st s'"
  shows "st_receipt s' = None" "st_receiptFile s' = None" "st_reservedBytes s' = 0" "st_staged s' = []"
    "st_headID s' = h" "st_state s' = st" "st_maxDailyBytes s' = n"
proof -
  from assms obtain t where "read_step view (found_store n g g' name h) t" "s' = t\<lparr>st_state := st\<rparr>"
    by (auto simp: load_frame_def)
  then show "st_receipt s' = None" "st_receiptFile s' = None" "st_reservedBytes s' = 0" "st_staged s' = []"
    "st_headID s' = h" "st_state s' = st" "st_maxDailyBytes s' = n"
    using read_step_spool [of view "found_store n g g' name h" t] read_stepD(2) [of view "found_store n g g' name h" t]
    by (simp_all add: found_store_def fresh_store_def)
qed

lemma load_frame_receipt:
  assumes "load_frame view (found_store n g g' name h) st s'" "mb_DailyReceipt st = None"
    and "file = receipt_on_disk old" "\<And>r. st_receiptFile old = Some r \<Longrightarrow> validateReceipt r = None"
  shows "loadReceipt file io s' = (None, s'\<lparr>st_receipt := st_receiptFile old, st_receiptFile := st_receiptFile old\<rparr>)"
  unfolding assms(3) using load_frame_fields [OF assms(1)] assms(2) by (intro loadReceipt_on_disk assms(4)) auto

text \<open>The store that wrote HEAD, the repository at the restart, and what is on disk.\<close>

definition left_behind :: "('g \<Rightarrow> repo) \<Rightarrow> 'g store \<Rightarrow> mailbox \<Rightarrow> 'g git \<Rightarrow> 'g open_env \<Rightarrow> 'g \<Rightarrow> 'g \<Rightarrow> bool" where
  "left_behind view s M G env g g' \<longleftrightarrow>
     store_holds view s M \<and> st_failure s = None \<and> repo_extends (view (st_git s)) (view g') \<and>
     oe_headFile env = Inr () \<and> (\<exists>out. gi_head G g = (Inr out, g') \<and> trim_space out = st_headID s) \<and>
     oe_receipt env = receipt_on_disk s \<and> (\<forall>r. st_receiptFile s = Some r \<longrightarrow> validateReceipt r = None)"

lemma left_behindD:
  assumes "left_behind view s M G env g g'"
  obtains fs out where "validObjectID (st_headID s)" "rp_commit (view g') (st_headID s) = Some fs" "archive_tree fs M"
    "mailbox_ok M" "state_ok (st_state s) M" "fs mailboxStateName = Some (state_text (st_state s))"
    "oe_headFile env = Inr ()" "gi_head G g = (Inr out, g')" "trim_space out = st_headID s" "st_headID s \<noteq> []"
    "mb_DailyReceipt (restored (st_state s)) = None"
proof -
  from assms obtain fs where fs: "validObjectID (st_headID s)" "rp_commit (view (st_git s)) (st_headID s) = Some fs" "archive_tree fs M"
      "mailbox_ok M" "state_ok (st_state s) M" "fs mailboxStateName = Some (state_text (st_state s))"
    by (auto simp: left_behind_def store_holds_def committed_def)
  moreover have "rp_commit (view g') (st_headID s) = Some fs" using assms fs(2) by (simp add: left_behind_def repo_extends_def)
  moreover have "st_headID s \<noteq> []" using fs(1) by (auto simp: validObjectID_def)
  moreover have "mb_DailyReceipt (restored (st_state s)) = None" using fs(5) by (simp add: state_ok_def restored_def)
  ultimately show thesis using assms that unfolding left_behind_def by blast
qed

definition open_limit :: "u64 \<Rightarrow> u64" where
  "open_limit limit = (if limit = 0 then DefaultMaxDailyBytes else limit)"

lemma left_behind_receipt:
  assumes "left_behind view s M G env g g'" "load_frame view (found_store n g g' name (st_headID s)) (restored (st_state s)) t"
  shows "loadReceipt (oe_receipt env) io t = (None, t\<lparr>st_receipt := st_receiptFile s, st_receiptFile := st_receiptFile s\<rparr>)"
proof (rule left_behindD [OF assms(1)])
  assume "mb_DailyReceipt (restored (st_state s)) = None"
  then show ?thesis using assms(1) by (intro load_frame_receipt [OF assms(2)]) (auto simp: left_behind_def)
qed

lemma opened_serves:
  assumes "git_sound G view" "left_behind view s M G env g g'" "NewWithOptions G env root limit g = Inr s'"
  shows "serving view s' M" "st_headID s' = st_headID s" "st_state s' = restored (st_state s)"
    "st_receipt s' = st_receiptFile s" "st_receiptFile s' = st_receiptFile s" "st_reservedBytes s' = 0" "st_staged s' = []"
    "st_maxDailyBytes s' = open_limit limit"
proof -
  from left_behindD [OF assms(2)] obtain fs out where fs: "validObjectID (st_headID s)" "rp_commit (view g') (st_headID s) = Some fs"
      "archive_tree fs M" "mailbox_ok M" "state_ok (st_state s) M" "fs mailboxStateName = Some (state_text (st_state s))"
      "oe_headFile env = Inr ()" "gi_head G g = (Inr out, g')" "trim_space out = st_headID s" "st_headID s \<noteq> []" by metis
  obtain t where t: "initializeGit G env (fresh_store (open_limit limit) g) = (None, t)"
    using assms(3) by (auto simp: NewWithOptions_def open_limit_def Let_def split: if_splits option.splits prod.splits)
  from initializeGit_existing(1) [OF fs(7-10) t] obtain name where name: "CHR 0x0A \<notin> set name"
      "load_state G (st_headID s) (found_store (open_limit limit) g g' name (st_headID s)) = (None, t)" by blast
  note lf = load_found [OF assms(1) fs(2,6,5,4) name(2)]
  have "s' = t\<lparr>st_receipt := st_receiptFile s, st_receiptFile := st_receiptFile s\<rparr>"
    using assms(3) t left_behind_receipt [OF assms(2) lf]
    by (auto simp: NewWithOptions_def open_limit_def Let_def split: if_splits option.splits)
  with load_frame_fields [OF lf] loaded_serving [OF lf fs(1) name(1) fs(2,3,4,6,5)]
  show "serving view s' M" "st_headID s' = st_headID s" "st_state s' = restored (st_state s)"
    "st_receipt s' = st_receiptFile s" "st_receiptFile s' = st_receiptFile s" "st_reservedBytes s' = 0" "st_staged s' = []"
    "st_maxDailyBytes s' = open_limit limit" by simp_all
qed

lemma opens_again:
  assumes "git_sound G view" "left_behind view s M G env g g'" "trim_space root \<noteq> []"
    and "opens_cleanly G env view (st_headID s) g'" "length (state_text (st_state s)) < 2 ^ 63"
  shows "\<exists>s'. NewWithOptions G env root limit g = Inr s'"
proof -
  from left_behindD [OF assms(2)] obtain fs out where fs: "validObjectID (st_headID s)" "rp_commit (view g') (st_headID s) = Some fs"
      "archive_tree fs M" "mailbox_ok M" "state_ok (st_state s) M" "fs mailboxStateName = Some (state_text (st_state s))"
      "oe_headFile env = Inr ()" "gi_head G g = (Inr out, g')" "trim_space out = st_headID s" "st_headID s \<noteq> []" by metis
  from initializeGit_existing(2) [OF fs(7-10) assms(4), of "open_limit limit"] obtain name where name:
    "initializeGit G env (fresh_store (open_limit limit) g) =
      load_state G (st_headID s) (found_store (open_limit limit) g g' name (st_headID s))" by blast
  let ?f = "found_store (open_limit limit) g g' name (st_headID s)"
  have "answers_state G view (st_headID s) g'" using assms(4) by (simp add: opens_cleanly_def)
  then obtain t where t: "load_state G (st_headID s) ?f = (None, t)"
    using load_state_live [where fs = fs and M = M and view = view and s = ?f, OF assms(1) _ fs(1,6,5,4) _ assms(5)] fs(2)
    by (auto simp: found_store_def fresh_store_def reader_idle_def reads_open_def)
  have "oe_abs env = None" "oe_mkdir env = None" using assms(4) by (simp_all add: opens_cleanly_def)
  then show ?thesis
    using assms(3) name t left_behind_receipt [OF assms(2) load_found [OF assms(1) fs(2,6,5,4) t]]
    by (simp add: NewWithOptions_def open_limit_def Let_def)
qed

section \<open>Property\<close>

text \<open>C8: Restarting loses nothing. A store opened on an archive whose HEAD is the commit of a store
  that had not failed serves the same mailbox with the same counters, and takes over the receipt
  that was on disk with nothing reserved; and it does open when the directory is in order and Git
  answers the request for the state in full.\<close>

theorem restart_restores:
  assumes "git_sound G view" "left_behind view s M G env g g'"
  shows "(\<forall>s'. NewWithOptions G env root limit g = Inr s' \<longrightarrow>
      serving view s' M \<and> st_headID s' = st_headID s \<and>
      mb_LastID (st_state s') = mb_LastID (st_state s) \<and> mb_TotalOctets (st_state s') = mb_TotalOctets (st_state s) \<and>
      st_receipt s' = st_receiptFile s \<and> st_receiptFile s' = st_receiptFile s \<and> st_reservedBytes s' = 0 \<and>
      st_maxDailyBytes s' = open_limit limit) \<and>
    (trim_space root \<noteq> [] \<and> opens_cleanly G env view (st_headID s) g' \<and> length (state_text (st_state s)) < 2 ^ 63 \<longrightarrow>
      (\<exists>s'. NewWithOptions G env root limit g = Inr s'))"
  using opened_serves [OF assms] opens_again [OF assms] by (simp add: restored_def)

definition sample_receipt :: dailyReceipt where
  "sample_receipt = \<lparr>dr_Day = ''2024-02-29'', dr_ChargedBytes = 4096\<rparr>"

definition sample_open :: "model_git open_env" where
  "sample_open =
     \<lparr>oe_abs = None, oe_mkdir = None, oe_version = Inr ''git version 2.39.2'', oe_worktree = Inl OsErrNotExist,
      oe_headFile = Inr (), oe_walk = (\<lambda>k name. []), oe_packed = (\<lambda>k. Inl OsErrNotExist), oe_init = (\<lambda>g. (None, g)),
      oe_syncRoot = None, oe_bare = Inr ''true'', oe_mkdirTmp = None,
      oe_symref = (\<lambda>k. Inr ''refs/heads/main''), oe_refs = (\<lambda>r. Inr []),
      oe_fs = \<lparr>af_lstat = (\<lambda>path. Inl OsErrNotExist), af_state = Inl OsErrNotExist\<rparr>,
      oe_stateIO = \<lparr>si_mkdir = None, si_create = None, si_encode = None, si_sync = None, si_close = None,
        si_rename = None, si_open = None, si_dirsync = None\<rparr>,
      oe_commit = sample_commit,
      oe_receipt = Inr (json_receipt sample_receipt @ [CHR 0x0A]), oe_receiptIO = pe_receipt sample_publish\<rparr>"

lemma sample_opens: "opens_cleanly model_git sample_open model_view (commit_oid 0) sample_git"
proof -
  have t: "trim_space ''true'' = ''true''" "trim_space ''refs/heads/main'' = ''refs/heads/main''"
    by (rule trim_space_id, simp add: space_edge_def)+
  have "Go_Strings.fields (''git'' @ '' '' @ ''version'' @ '' '' @ ''2.39.2'') = [''git'', ''version'', ''2.39.2'']"
    by (rule fields_three) (simp_all add: word_ok_def)
  moreover have "split_on CHR ''.'' ''2.39.2'' = [''2'', ''39'', ''2'']" "fmt_nat 10 2 = ''2''" "fmt_nat 10 39 = ''39''"
    by code_simp+
  moreover have "parse_int (fmt_nat 10 2) = Some 2" "parse_int (fmt_nat 10 39) = Some 39" by (simp_all add: parse_int_fmt_nat)
  ultimately have "check_version (Inr ''git version 2.39.2'') = None" by (simp add: check_version_def Let_def)
  moreover have "open_branch (Inr ''refs/heads/main'') = Inr ''refs/heads/main''"
    using t(2) by (simp add: open_branch_def has_prefix_def contains_any_def)
  moreover have "answers_state model_git model_view (commit_oid 0) sample_git"
    by (simp add: answers_state_def answered_def model_git_def model_ask_def butlast_append)
  ultimately show ?thesis using t(1) by (simp add: opens_cleanly_def sample_open_def)
qed

definition sample_stopped :: "model_git store" where
  "sample_stopped = sample_store\<lparr>st_receiptFile := Some sample_receipt\<rparr>"

lemma sample_left: "left_behind model_view sample_stopped sample_mail model_git sample_open sample_git sample_git"
proof -
  have "validateReceipt sample_receipt = None" by code_simp
  moreover have "store_holds model_view sample_stopped sample_mail"
    using sample_holds by (simp add: store_holds_def committed_def sample_stopped_def)
  moreover have "gi_head model_git sample_git = (Inr (commit_oid 0 @ [CHR 0x0A]), sample_git)"
    by (simp add: model_git_def sample_git_def)
  moreover have "trim_space (commit_oid 0 @ [CHR 0x0A]) = commit_oid 0"
    by (rule trim_space_head) (use oid_valid [of 0 0] in \<open>simp add: commit_oid_def\<close>)
  ultimately show ?thesis
    by (simp add: left_behind_def sample_stopped_def sample_store_def sample_open_def receipt_on_disk_def)
qed

lemma sample_stopped_fields: "st_headID sample_stopped = commit_oid 0" "st_state sample_stopped = sample_state"
  "st_receiptFile sample_stopped = Some sample_receipt" "mb_LastID sample_state = 1"
  by (simp_all add: sample_stopped_def sample_store_def sample_state_def)

lemma sample_root: "trim_space ''/mail'' = ''/mail''"
  by (rule trim_space_id) (simp add: space_edge_def)

lemma sample_state_text: "length (state_text (st_state sample_stopped)) < 2 ^ 63"
proof -
  have "length (state_text sample_state) \<le> 100" by code_simp
  then show ?thesis by (simp add: sample_stopped_fields)
qed

theorem restart_restores_witness:
  "\<exists>s'. NewWithOptions model_git sample_open ''/mail'' 0 sample_git = Inr s' \<and> serving model_view s' sample_mail \<and>
     mb_LastID (st_state s') = 1 \<and> st_receipt s' = Some sample_receipt"
proof -
  note t = restart_restores [OF model_git_sound sample_left, where root = "''/mail''" and limit = 0, unfolded sample_stopped_fields(1)]
  then obtain s' where "NewWithOptions model_git sample_open ''/mail'' 0 sample_git = Inr s'"
    using sample_root sample_opens sample_state_text by auto
  with t show ?thesis using sample_stopped_fields by auto
qed

end
