(* ===== verification/Startup.thy ===== *)
theory Startup
  imports Serving Tls_Cert Restart
begin

text \<open>
  \<open>cmd/picomxd/main.go\<close> and \<open>internal/systemd\<close>: the settings from flags and environment, the
  listeners, and the order in which \<open>main\<close> builds the certificate manager, the store and the two
  servers. A failed step ends the program: it is \<open>Inl\<close> with the action that is logged. The
  texts of durations are read by \<open>time.ParseDuration\<close>, which uses floating point, a parameter;
  so is opening a socket.
\<close>

section \<open>Settings\<close>

definition getenv :: "(string \<Rightarrow> string) \<Rightarrow> string \<Rightarrow> string \<Rightarrow> string" where
  "getenv env key fallback = (if env key \<noteq> [] then env key else fallback)"

record flags =
  fl_hostname :: string
  fl_pop3Hostname :: string
  fl_domains :: string
  fl_archiveRoot :: string
  fl_listen :: string
  fl_pop3Listen :: string
  fl_certDir :: string
  fl_tlsHostnames :: string
  fl_tlsReload :: string
  fl_pop3Username :: string
  fl_pop3PasswordHash :: string
  fl_pop3MaxConns :: string
  fl_pop3Idle :: string
  fl_gitMaintenance :: string
  fl_maxMessage :: string
  fl_maxDaily :: string
  fl_maxRecipients :: string
  fl_maxConnections :: string
  fl_idleTimeout :: string

text \<open>The flags when the command line gives none.\<close>

definition default_flags :: "(string \<Rightarrow> string) \<Rightarrow> flags" where
  "default_flags env =
     \<lparr>fl_hostname = getenv env ''PICOMX_HOSTNAME'' [],
      fl_pop3Hostname = getenv env ''PICOMX_POP3_HOSTNAME'' [],
      fl_domains = getenv env ''PICOMX_DOMAINS'' [],
      fl_archiveRoot = getenv env ''PICOMX_ARCHIVE_ROOT'' ''/var/lib/picomx/messages'',
      fl_listen = getenv env ''PICOMX_LISTEN'' [],
      fl_pop3Listen = getenv env ''PICOMX_POP3_LISTEN'' [],
      fl_certDir = getenv env ''PICOMX_CERT_DIR'' [],
      fl_tlsHostnames = getenv env ''PICOMX_TLS_HOSTNAMES'' [],
      fl_tlsReload = getenv env ''PICOMX_TLS_RELOAD_INTERVAL'' ''5m'',
      fl_pop3Username = getenv env ''PICOMX_POP3_USERNAME'' [],
      fl_pop3PasswordHash = getenv env ''PICOMX_POP3_PASSWORD_SHA256'' [],
      fl_pop3MaxConns = getenv env ''PICOMX_POP3_MAX_CONNECTIONS'' ''16'',
      fl_pop3Idle = getenv env ''PICOMX_POP3_IDLE_TIMEOUT'' ''10m'',
      fl_gitMaintenance = getenv env ''PICOMX_GIT_MAINTENANCE_INTERVAL'' ''6h'',
      fl_maxMessage = getenv env ''PICOMX_MAX_MESSAGE_BYTES'' ''26214400'',
      fl_maxDaily = getenv env ''PICOMX_MAX_DAILY_BYTES'' ''52428800'',
      fl_maxRecipients = getenv env ''PICOMX_MAX_RECIPIENTS'' ''20'',
      fl_maxConnections = getenv env ''PICOMX_MAX_CONNECTIONS'' ''64'',
      fl_idleTimeout = getenv env ''PICOMX_IDLE_TIMEOUT'' ''5m''\<rparr>"

definition splitDomains :: "string \<Rightarrow> string list" where
  "splitDomains raw = filter (\<lambda>domain. domain \<noteq> []) (map trim_space (split_on CHR '','' raw))"

definition not_positive :: goerr where "not_positive = ErrMsg ''must be a positive integer''"

definition parsePositiveInt :: "string \<Rightarrow> int res" where
  "parsePositiveInt raw =
     (case parse_int raw of None \<Rightarrow> Inl not_positive | Some v \<Rightarrow> if v \<le> 0 then Inl not_positive else Inr v)"

definition parsePositiveInt64 :: "string \<Rightarrow> int res" where
  "parsePositiveInt64 raw =
     (case parse_int raw of None \<Rightarrow> Inl not_positive | Some v \<Rightarrow> if v \<le> 0 then Inl not_positive else Inr v)"

text \<open>\<open>exitOnError\<close>: the action and the error are logged, and the program ends.\<close>

type_synonym 'a start = "(string \<times> goerr) + 'a"

definition exitOnError :: "string \<Rightarrow> 'a res \<Rightarrow> ('a \<Rightarrow> 'b start) \<Rightarrow> 'b start" where
  "exitOnError action r k = (case r of Inl e \<Rightarrow> Inl (action, e) | Inr x \<Rightarrow> k x)"

definition positive_duration :: "(string \<Rightarrow> int res) \<Rightarrow> string \<Rightarrow> int res" where
  "positive_duration parse raw =
     bind_res (parse raw) (\<lambda>d. if d \<le> 0 then Inl (ErrMsg ''must be greater than zero'') else Inr d)"

record settings =
  se_maxMessage :: int
  se_maintenanceInterval :: int
  se_maxDaily :: int
  se_maxRecipients :: int
  se_maxConnections :: int
  se_idleTimeout :: int
  se_pop3MaxConnections :: int
  se_pop3IdleTimeout :: int
  se_tlsReloadInterval :: int

definition read_settings :: "(string \<Rightarrow> int res) \<Rightarrow> flags \<Rightarrow> settings start" where
  "read_settings parse fl =
     exitOnError ''parse max-message-bytes'' (parsePositiveInt64 (fl_maxMessage fl)) (\<lambda>maxMessage.
     exitOnError ''parse git-maintenance-interval'' (positive_duration parse (fl_gitMaintenance fl)) (\<lambda>maintenanceInterval.
     exitOnError ''parse max-daily-bytes'' (parsePositiveInt64 (fl_maxDaily fl)) (\<lambda>maxDaily.
     exitOnError ''parse max-recipients'' (parsePositiveInt (fl_maxRecipients fl)) (\<lambda>maxRecipients.
     exitOnError ''parse max-connections'' (parsePositiveInt (fl_maxConnections fl)) (\<lambda>maxConnections.
     exitOnError ''parse idle-timeout'' (positive_duration parse (fl_idleTimeout fl)) (\<lambda>idleTimeout.
     exitOnError ''parse pop3-max-connections'' (parsePositiveInt (fl_pop3MaxConns fl)) (\<lambda>pop3MaxConnections.
     exitOnError ''parse pop3-idle-timeout'' (parse (fl_pop3Idle fl)) (\<lambda>pop3IdleTimeout.
     exitOnError ''parse tls-reload-interval'' (positive_duration parse (fl_tlsReload fl)) (\<lambda>tlsReloadInterval.
       Inr \<lparr>se_maxMessage = maxMessage, se_maintenanceInterval = maintenanceInterval, se_maxDaily = maxDaily,
            se_maxRecipients = maxRecipients, se_maxConnections = maxConnections, se_idleTimeout = idleTimeout,
            se_pop3MaxConnections = pop3MaxConnections, se_pop3IdleTimeout = pop3IdleTimeout,
            se_tlsReloadInterval = tlsReloadInterval\<rparr>)))))))))"

section \<open>Listeners\<close>

text \<open>
  \<open>systemd.Listeners\<close>: \<open>convert fd\<close> is what \<open>net.FileListener\<close> gives for a file descriptor. The
  second result are the listeners that are closed again.
\<close>

definition listenFdsStart :: nat where "listenFdsStart = 3"

fun convert_fds :: "(nat \<Rightarrow> 'l res) \<Rightarrow> nat list \<Rightarrow> 'l list \<Rightarrow> 'l list res \<times> 'l list" where
  "convert_fds convert [] listeners = (Inr listeners, [])"
| "convert_fds convert (index # indexes) listeners =
     (case convert (listenFdsStart + index) of
        Inl e \<Rightarrow> (Inl (WrapErr ''convert listener fd'' e), listeners)
      | Inr listener \<Rightarrow> convert_fds convert indexes (listeners @ [listener]))"

definition Listeners :: "(string \<Rightarrow> string) \<Rightarrow> int \<Rightarrow> (nat \<Rightarrow> 'l res) \<Rightarrow> 'l list res \<times> 'l list" where
  "Listeners env getpid convert =
     (let pidRaw = env ''LISTEN_PID''; fdsRaw = env ''LISTEN_FDS'' in
      if pidRaw = [] \<or> fdsRaw = [] then (Inl (ErrMsg ''systemd socket activation environment is missing''), [])
      else case parse_int pidRaw of
             None \<Rightarrow> (Inl (ErrMsg ''parse LISTEN_PID''), [])
           | Some pid \<Rightarrow>
               if pid \<noteq> getpid then (Inl (ErrMsg ''LISTEN_PID does not match current process''), [])
               else (case parse_int fdsRaw of
                       None \<Rightarrow> (Inl (ErrMsg ''parse LISTEN_FDS''), [])
                     | Some count \<Rightarrow>
                         if count \<le> 0 then (Inl (ErrMsg ''LISTEN_FDS must be greater than zero''), [])
                         else convert_fds convert [0..<nat count] []))"

datatype protocol = SMTP | POP3S

record 'l serviceListener =
  sl_protocol :: protocol
  sl_listener :: 'l

text \<open>\<open>port\<close> is the TCP port of a listener, if it has one.\<close>

definition protocolForListener :: "('l \<Rightarrow> int option) \<Rightarrow> 'l \<Rightarrow> protocol res" where
  "protocolForListener port listener =
     (case port listener of
        None \<Rightarrow> Inl (ErrMsg ''cannot classify activated listener'')
      | Some p \<Rightarrow> if p = 995 then Inr POP3S else Inr SMTP)"

fun classify :: "('l \<Rightarrow> int option) \<Rightarrow> 'l list \<Rightarrow> 'l serviceListener list \<Rightarrow> 'l serviceListener list res \<times> 'l list" where
  "classify port [] listeners = (Inr listeners, [])"
| "classify port (l # ls) listeners =
     (case protocolForListener port l of
        Inl e \<Rightarrow> (Inl e, map sl_listener listeners)
      | Inr kind \<Rightarrow> classify port ls (listeners @ [\<lparr>sl_protocol = kind, sl_listener = l\<rparr>]))"

fun listen_all ::
  "(string \<Rightarrow> 'l res) \<Rightarrow> (protocol \<times> string) list \<Rightarrow> 'l serviceListener list \<Rightarrow> 'l serviceListener list res \<times> 'l list" where
  "listen_all listen [] listeners = (Inr listeners, [])"
| "listen_all listen ((kind, address) # configured) listeners =
     (if address = [] then listen_all listen configured listeners
      else case listen address of
             Inl e \<Rightarrow> (Inl e, map sl_listener listeners)
           | Inr l \<Rightarrow> listen_all listen configured (listeners @ [\<lparr>sl_protocol = kind, sl_listener = l\<rparr>]))"

definition openListeners ::
  "'l list res \<times> 'l list \<Rightarrow> ('l \<Rightarrow> int option) \<Rightarrow> (string \<Rightarrow> 'l res) \<Rightarrow> string \<Rightarrow> string
    \<Rightarrow> 'l serviceListener list res \<times> 'l list" where
  "openListeners activated port listen smtpAddress pop3Address =
     (if smtpAddress = [] \<and> pop3Address = [] then
        (case activated of
           (Inl e, closed) \<Rightarrow> (Inl e, closed)
         | (Inr ls, closed) \<Rightarrow> classify port ls [])
      else listen_all listen [(SMTP, smtpAddress), (POP3S, pop3Address)] [])"

definition hasProtocol :: "'l serviceListener list \<Rightarrow> protocol \<Rightarrow> bool" where
  "hasProtocol listeners kind = list_ex (\<lambda>l. sl_protocol l = kind) listeners"

section \<open>The start of the program\<close>

text \<open>What \<open>main\<close> meets; \<open>mw_handshake\<close> is the handshake with the certificates of a manager.\<close>

record ('g, 'l, 'c, 'f) world =
  mw_parse :: "string \<Rightarrow> int res"
  mw_activated :: "'l list res \<times> 'l list"
  mw_port :: "'l \<Rightarrow> int option"
  mw_listen :: "string \<Rightarrow> 'l res"
  mw_x509 :: "('c, 'f) x509"
  mw_files :: "string \<Rightarrow> string res"
  mw_now :: int
  mw_handshake :: "('c, 'f) manager \<Rightarrow> handshake"
  mw_git :: "'g git"
  mw_open :: "'g open_env"
  mw_state :: 'g
  mw_policy :: "SMTPPolicy option"
  mw_sum256 :: "string \<Rightarrow> string"

record ('g, 'l, 'c, 'f) running =
  rn_settings :: settings
  rn_listeners :: "'l serviceListener list"
  rn_tls :: "('c, 'f) manager option"
  rn_store :: "'g store"
  rn_smtp :: smtp_server
  rn_pop3 :: pop3_server

definition pop3_host :: "flags \<Rightarrow> string" where
  "pop3_host fl =
     (let pop3Host = trim_space (fl_pop3Hostname fl) in if pop3Host = [] then fl_hostname fl else pop3Host)"

definition tls_hostnames :: "flags \<Rightarrow> string list" where
  "tls_hostnames fl =
     (let tlsHostnames = splitDomains (fl_tlsHostnames fl) in
      if tlsHostnames = [] then [fl_hostname fl, pop3_host fl] else tlsHostnames)"

definition load_identity :: "('g, 'l, 'c, 'f) world \<Rightarrow> flags \<Rightarrow> bool \<Rightarrow> ('c, 'f) manager option res" where
  "load_identity w fl pop3Enabled =
     (if trim_space (fl_certDir fl) \<noteq> [] then
        bind_res (manager_New (mw_x509 w) (mw_files w) (mw_now w) (fl_certDir fl) (tls_hostnames fl)) (\<lambda>m. Inr (Some m))
      else if pop3Enabled then Inl (ErrMsg ''cert-dir is required when POP3S is enabled'')
      else Inr None)"

definition smtp_settings :: "('g, 'l, 'c, 'f) world \<Rightarrow> flags \<Rightarrow> settings \<Rightarrow> ('c, 'f) manager option \<Rightarrow> smtp_options" where
  "smtp_settings w fl se tls =
     \<lparr>op_Hostname = fl_hostname fl, op_Domains = splitDomains (fl_domains fl), op_HasDelivery = True,
      op_TLSConfig = map_option (mw_handshake w) tls, op_MaxMessageSize = se_maxMessage se,
      op_MaxRecipients = se_maxRecipients se, op_MaxConnections = se_maxConnections se,
      op_Policy = Some (NewSMTPPolicy (mw_policy w))\<rparr>"

definition pop3_settings :: "flags \<Rightarrow> settings \<Rightarrow> credentials \<Rightarrow> pop3_options" where
  "pop3_settings fl se c =
     \<lparr>po_Hostname = pop3_host fl, po_HasMailbox = True, po_Credentials = c, po_IdleTimeout = se_pop3IdleTimeout se,
      po_MaxAuthFailures = 0, po_MaxConnections = se_pop3MaxConnections se\<rparr>"

definition main_start :: "('g, 'l, 'c, 'f) world \<Rightarrow> flags \<Rightarrow> ('g, 'l, 'c, 'f) running start" where
  "main_start w fl =
     (case read_settings (mw_parse w) fl of
        Inl x \<Rightarrow> Inl x
      | Inr se \<Rightarrow>
          exitOnError ''open listeners''
            (fst (openListeners (mw_activated w) (mw_port w) (mw_listen w) (fl_listen fl) (fl_pop3Listen fl))) (\<lambda>listeners.
          exitOnError ''load TLS identity'' (load_identity w fl (hasProtocol listeners POP3S)) (\<lambda>tls.
          exitOnError ''initialize archive''
            (NewWithOptions (mw_git w) (mw_open w) (fl_archiveRoot fl) (of_int (se_maxDaily se)) (mw_state w)) (\<lambda>store.
          exitOnError ''configure SMTP server''
            (Smtp_Session.NewServer (smtp_settings w fl se tls) (mw_policy w)) (\<lambda>smtpServer.
          exitOnError ''configure POP3 credentials''
            (NewCredentials (mw_sum256 w) (fl_pop3Username fl) (fl_pop3PasswordHash fl)) (\<lambda>credentials.
          exitOnError ''configure POP3 server'' (Pop3_Session.NewServer (pop3_settings fl se credentials)) (\<lambda>pop3Server.
            Inr \<lparr>rn_settings = se, rn_listeners = listeners, rn_tls = tls, rn_store = store, rn_smtp = smtpServer,
                 rn_pop3 = pop3Server\<rparr>)))))))"

text \<open>Each listener is served by the server of its protocol; the events are those of its server.\<close>

definition serve_listener :: "('g, 'l, 'c, 'f) running \<Rightarrow> gate_event list \<Rightarrow> 'l serviceListener \<Rightarrow> gate res" where
  "serve_listener r evs l =
     (case sl_protocol l of
        SMTP \<Rightarrow> Inr (smtp_Serve (rn_smtp r) evs)
      | POP3S \<Rightarrow> pop3_Serve (rn_pop3 r) (rn_tls r) evs)"

section \<open>Lemmas\<close>

lemma exitOnError_Inr: "exitOnError action r k = Inr y \<longleftrightarrow> (\<exists>x. r = Inr x \<and> k x = Inr y)"
  by (simp add: exitOnError_def split: sum.split)

lemma parsePositiveInt_Inr: "parsePositiveInt raw = Inr v \<Longrightarrow> 0 < v" "parsePositiveInt64 raw = Inr v \<Longrightarrow> 0 < v"
  by (auto simp: parsePositiveInt_def parsePositiveInt64_def split: option.splits if_splits)

lemma positive_duration_Inr: "positive_duration parse raw = Inr d \<Longrightarrow> 0 < d"
  by (auto simp: positive_duration_def bind_res_def split: sum.splits if_splits)

lemma read_settings_positive:
  assumes "read_settings parse fl = Inr se"
  shows "0 < se_maxMessage se" "0 < se_maintenanceInterval se" "0 < se_maxDaily se" "0 < se_maxRecipients se"
    "0 < se_maxConnections se" "0 < se_idleTimeout se" "0 < se_pop3MaxConnections se" "0 < se_tlsReloadInterval se"
  using assms unfolding read_settings_def exitOnError_Inr
  by (auto dest: parsePositiveInt_Inr positive_duration_Inr)

lemma parse_int_range: "parse_int raw = Some v \<Longrightarrow> v < 2 ^ 63"
  by (auto simp: parse_int_def Let_def uint_nat simp del: of_nat_unat split: option.splits if_splits)

lemma read_settings_daily:
  assumes "read_settings parse fl = Inr se"
  shows "uint (of_int (se_maxDaily se) :: u64) = se_maxDaily se"
proof -
  from assms have "parsePositiveInt64 (fl_maxDaily fl) = Inr (se_maxDaily se)"
    unfolding read_settings_def exitOnError_Inr by auto
  then have "0 < se_maxDaily se" "se_maxDaily se < 2 ^ 63"
    using parse_int_range by (auto simp: parsePositiveInt64_def split: option.splits if_splits)
  then show ?thesis by (simp add: uint_word_of_int take_bit_int_eq_self)
qed

lemma splitDomains_ok: "d \<in> set (splitDomains raw) \<Longrightarrow> d \<noteq> []"
  by (simp add: splitDomains_def)

lemma classify_ports:
  assumes "fst (classify port ls listeners) = Inr out"
  shows "map sl_listener out = map sl_listener listeners @ ls \<and>
    (\<forall>l \<in> set out. l \<in> set listeners \<or> (\<exists>p. port (sl_listener l) = Some p \<and> (sl_protocol l = POP3S \<longleftrightarrow> p = 995)))"
  using assms
proof (induction ls arbitrary: listeners)
  case (Cons l ls)
  then obtain kind where k: "protocolForListener port l = Inr kind" by (auto split: sum.splits)
  with Cons.prems have "fst (classify port ls (listeners @ [\<lparr>sl_protocol = kind, sl_listener = l\<rparr>])) = Inr out" by simp
  from Cons.IH [OF this] k show ?case by (auto simp: protocolForListener_def split: option.splits if_splits)
qed simp

text \<open>
  When a listener that was passed by systemd cannot be classified, only those before it are closed
  again; it and those after it stay open until the program ends.
\<close>

lemma classify_leaves_open:
  assumes "\<forall>l \<in> set before. port l \<noteq> None" "port l = None"
  shows "classify port (before @ l # after) listeners = (Inl (ErrMsg ''cannot classify activated listener''), map sl_listener listeners @ before)"
  using assms by (induction before arbitrary: listeners) (auto simp: protocolForListener_def)

lemma normalize_domains_valid:
  "normalize_domains raws = Inr ds \<Longrightarrow> ds = map normalizeDomain raws \<and> (\<forall>d \<in> set ds. validDomain d)"
  by (induction raws arbitrary: ds) (auto simp: Let_def bind_res_def split: if_splits sum.splits)

lemma smtp_NewServer_Inr:
  assumes "Smtp_Session.NewServer options factory = Inr sv"
  shows "sv_domains sv = map normalizeDomain (op_Domains options)" "sv_domains sv \<noteq> []" "\<forall>d \<in> set (sv_domains sv). validDomain d"
    "validDomain (sv_hostname sv)" "sv_tlsConfig sv = op_TLSConfig options"
    "0 < op_MaxMessageSize options \<Longrightarrow> sv_maxMessageSize sv = op_MaxMessageSize options"
    "0 < op_MaxRecipients options \<Longrightarrow> sv_maxRecipients sv = op_MaxRecipients options"
    "0 < op_MaxConnections options \<Longrightarrow> sv_maxConnections sv = op_MaxConnections options"
proof -
  obtain ds where ds: "normalize_domains (op_Domains options) = Inr ds"
    using assms by (cases "normalize_domains (op_Domains options)") (simp_all add: Smtp_Session.NewServer_def Let_def split: if_split_asm)
  note v = normalize_domains_valid [OF ds]
  from assms ds have sv: "validDomain (sv_hostname sv)" "ds \<noteq> []" "sv_domains sv = ds" "sv_tlsConfig sv = op_TLSConfig options"
    "0 < op_MaxMessageSize options \<Longrightarrow> sv_maxMessageSize sv = op_MaxMessageSize options"
    "0 < op_MaxRecipients options \<Longrightarrow> sv_maxRecipients sv = op_MaxRecipients options"
    "0 < op_MaxConnections options \<Longrightarrow> sv_maxConnections sv = op_MaxConnections options"
    by (auto simp: Smtp_Session.NewServer_def Let_def split: if_split_asm)
  then show "sv_domains sv = map normalizeDomain (op_Domains options)" "sv_domains sv \<noteq> []" "\<forall>d \<in> set (sv_domains sv). validDomain d"
    "validDomain (sv_hostname sv)" "sv_tlsConfig sv = op_TLSConfig options"
    "0 < op_MaxMessageSize options \<Longrightarrow> sv_maxMessageSize sv = op_MaxMessageSize options"
    "0 < op_MaxRecipients options \<Longrightarrow> sv_maxRecipients sv = op_MaxRecipients options"
    "0 < op_MaxConnections options \<Longrightarrow> sv_maxConnections sv = op_MaxConnections options"
    using v by simp_all
qed

lemma digest_length: "hex_decode s = Some d \<Longrightarrow> length s = 2 * length d"
  by (induction s arbitrary: d rule: hex_decode.induct) (auto split: option.splits)

lemma NewCredentials_configured:
  "NewCredentials sum256 username passwordHash = Inr c \<Longrightarrow> cr_configured c \<Longrightarrow>
     trim_space username \<noteq> [] \<and> length (trim_space passwordHash) = 64"
  by (auto simp: NewCredentials_def no_credentials_def Let_def dest: digest_length split: if_splits option.splits)

lemma load_identity_Inr:
  assumes "load_identity w fl pop3Enabled = Inr tls"
  shows "pop3Enabled \<Longrightarrow> tls \<noteq> None"
    and "tls = Some m \<Longrightarrow> manager_run (mw_x509 w) (fl_certDir fl) (tls_hostnames fl) m"
  using assms by (auto simp: load_identity_def bind_res_def split: if_splits sum.splits intro: manager_run.starts)

lemma pop3_NewServer_Inr:
  assumes "Pop3_Session.NewServer options = Inr ps"
  shows "minimumIdleTimeout \<le> ps_idleTimeout ps" "ps_credentials ps = po_Credentials options"
    "0 < po_MaxConnections options \<Longrightarrow> ps_maxConnections ps = po_MaxConnections options"
    "po_MaxAuthFailures options = 0 \<Longrightarrow> ps_maxAuthFailures ps = 3"
  using assms by (auto simp: Pop3_Session.NewServer_def Let_def split: if_split_asm)

lemma main_start_Inr:
  assumes "main_start w fl = Inr r"
  obtains c where "read_settings (mw_parse w) fl = Inr (rn_settings r)"
    "fst (openListeners (mw_activated w) (mw_port w) (mw_listen w) (fl_listen fl) (fl_pop3Listen fl)) = Inr (rn_listeners r)"
    "load_identity w fl (hasProtocol (rn_listeners r) POP3S) = Inr (rn_tls r)"
    "NewWithOptions (mw_git w) (mw_open w) (fl_archiveRoot fl) (of_int (se_maxDaily (rn_settings r))) (mw_state w) = Inr (rn_store r)"
    "Smtp_Session.NewServer (smtp_settings w fl (rn_settings r) (rn_tls r)) (mw_policy w) = Inr (rn_smtp r)"
    "NewCredentials (mw_sum256 w) (fl_pop3Username fl) (fl_pop3PasswordHash fl) = Inr c"
    "Pop3_Session.NewServer (pop3_settings fl (rn_settings r) c) = Inr (rn_pop3 r)"
  using assms by (cases "read_settings (mw_parse w) fl") (auto simp: main_start_def exitOnError_Inr)

section \<open>Property\<close>

text \<open>C14: What a program that has started is like. It serves POP3S only with certificates that cover
  the configured names, and no listener is refused; SMTP offers STARTTLS exactly when there are
  certificates; the domains served are the configured ones, valid, and at least one; the
  limits are the configured, positive ones; POP3 credentials are configured only by a user name and a hash
  of full length; and on an archive left behind by an earlier run it serves the mailbox of that run under the
  configured daily budget.\<close>

theorem started_as_configured:
  assumes "main_start w fl = Inr r"
  shows "(\<forall>l \<in> set (rn_listeners r). sl_protocol l = POP3S \<longrightarrow>
      (\<exists>m loaded. rn_tls r = Some m \<and> mg_current m = Some loaded \<and>
        (\<forall>raw \<in> set (tls_hostnames fl). x_verify (mw_x509 w) (lc_leaf loaded) (trim_suffix (to_lower (trim_space raw)) ''.'') = None))) \<and>
    (\<forall>l \<in> set (rn_listeners r). \<exists>g. serve_listener r evs l = Inr g) \<and>
    sv_tlsConfig (rn_smtp r) = map_option (mw_handshake w) (rn_tls r) \<and>
    sv_domains (rn_smtp r) = map normalizeDomain (splitDomains (fl_domains fl)) \<and> sv_domains (rn_smtp r) \<noteq> [] \<and>
    (\<forall>d \<in> set (sv_domains (rn_smtp r)). validDomain d) \<and>
    (let se = rn_settings r in
      0 < se_maxMessage se \<and> sv_maxMessageSize (rn_smtp r) = se_maxMessage se \<and>
      0 < se_maxRecipients se \<and> sv_maxRecipients (rn_smtp r) = se_maxRecipients se \<and>
      0 < se_maxConnections se \<and> sv_maxConnections (rn_smtp r) = se_maxConnections se \<and>
      0 < se_pop3MaxConnections se \<and> ps_maxConnections (rn_pop3 r) = se_pop3MaxConnections se) \<and>
    minimumIdleTimeout \<le> ps_idleTimeout (rn_pop3 r) \<and> ps_maxAuthFailures (rn_pop3 r) = 3 \<and>
    (cr_configured (ps_credentials (rn_pop3 r)) \<longrightarrow>
      trim_space (fl_pop3Username fl) \<noteq> [] \<and> length (trim_space (fl_pop3PasswordHash fl)) = 64) \<and>
    (\<forall>s M g'. git_sound (mw_git w) view \<and> left_behind view s M (mw_git w) (mw_open w) (mw_state w) g' \<longrightarrow>
      serving view (rn_store r) M \<and> uint (st_maxDailyBytes (rn_store r)) = se_maxDaily (rn_settings r))"
proof -
  from main_start_Inr [OF assms] obtain c where c: "read_settings (mw_parse w) fl = Inr (rn_settings r)"
    "fst (openListeners (mw_activated w) (mw_port w) (mw_listen w) (fl_listen fl) (fl_pop3Listen fl)) = Inr (rn_listeners r)"
    "load_identity w fl (hasProtocol (rn_listeners r) POP3S) = Inr (rn_tls r)"
    "NewWithOptions (mw_git w) (mw_open w) (fl_archiveRoot fl) (of_int (se_maxDaily (rn_settings r))) (mw_state w) = Inr (rn_store r)"
    "Smtp_Session.NewServer (smtp_settings w fl (rn_settings r) (rn_tls r)) (mw_policy w) = Inr (rn_smtp r)"
    "NewCredentials (mw_sum256 w) (fl_pop3Username fl) (fl_pop3PasswordHash fl) = Inr c"
    "Pop3_Session.NewServer (pop3_settings fl (rn_settings r) c) = Inr (rn_pop3 r)" by metis
  note smtp = smtp_NewServer_Inr [OF c(5)] and pop3 = pop3_NewServer_Inr [OF c(7)] and pos = read_settings_positive [OF c(1)]
  have tls: "\<exists>m loaded. rn_tls r = Some m \<and> mg_current m = Some loaded \<and>
      (\<forall>raw \<in> set (tls_hostnames fl). x_verify (mw_x509 w) (lc_leaf loaded) (trim_suffix (to_lower (trim_space raw)) ''.'') = None)"
    if "hasProtocol (rn_listeners r) POP3S"
  proof -
    from load_identity_Inr(1) [OF c(3) that] obtain m where m: "rn_tls r = Some m" by auto
    from manager_run_ok [OF load_identity_Inr(2) [OF c(3) m]] obtain names where
      n: "normalizeHostnames (tls_hostnames fl) = Inr names" "manager_ok (mw_x509 w) (fl_certDir fl) names m" by blast
    then obtain loaded where "mg_current m = Some loaded" "loaded_ok (mw_x509 w) (fl_certDir fl) names loaded"
      by (auto simp: manager_ok_def)
    with m normalizeHostnames_ok(2) [OF n(1)] show ?thesis by (auto simp: loaded_ok_def)
  qed
  have daily: "uint (open_limit (of_int (se_maxDaily (rn_settings r)))) = se_maxDaily (rn_settings r)"
    using read_settings_daily [OF c(1)] pos(3) by (auto simp: open_limit_def)
  have "hasProtocol (rn_listeners r) POP3S" if "l \<in> set (rn_listeners r)" "sl_protocol l = POP3S" for l
    using that by (auto simp: hasProtocol_def list_ex_iff)
  note tls = tls [OF this]
  moreover have "\<exists>g. serve_listener r evs l = Inr g" if "l \<in> set (rn_listeners r)" for l
    using tls [OF that] by (cases "sl_protocol l") (auto simp: serve_listener_def pop3_Serve_def)
  moreover have "\<forall>s M g'. git_sound (mw_git w) view \<and> left_behind view s M (mw_git w) (mw_open w) (mw_state w) g' \<longrightarrow>
      serving view (rn_store r) M \<and> uint (st_maxDailyBytes (rn_store r)) = se_maxDaily (rn_settings r)"
    using opened_serves(1,8) [OF _ _ c(4)] daily by metis
  ultimately show ?thesis
    using smtp pop3 pos NewCredentials_configured [OF c(6)] by (simp add: Let_def smtp_settings_def pop3_settings_def)
qed

definition sample_flags :: flags where
  "sample_flags =
     (default_flags (\<lambda>key. if key = ''PICOMX_HOSTNAME'' then ''mx.a'' else if key = ''PICOMX_DOMAINS'' then ''a, b''
        else if key = ''PICOMX_ARCHIVE_ROOT'' then ''/mail'' else if key = ''PICOMX_POP3_LISTEN'' then '':995''
        else if key = ''PICOMX_CERT_DIR'' then ''/c'' else []))"

definition sample_world :: "(model_git, string, string, string) world" where
  "sample_world =
     \<lparr>mw_parse = (\<lambda>raw. Inr minimumIdleTimeout), mw_activated = (Inl OsErrNotExist, []), mw_port = (\<lambda>l. Some 995),
      mw_listen = Inr, mw_x509 = sample_x509\<lparr>x_verify := (\<lambda>l n. None)\<rparr>, mw_files = (\<lambda>path. Inr path), mw_now = 0,
      mw_handshake = (\<lambda>m reads e. Inr (reads, e)), mw_git = model_git, mw_open = sample_open, mw_state = sample_git,
      mw_policy = None, mw_sum256 = (\<lambda>s. s)\<rparr>"

theorem started_as_configured_witness:
  "\<exists>r. main_start sample_world sample_flags = Inr r \<and> sv_domains (rn_smtp r) = [''a'', ''b''] \<and>
     serving model_view (rn_store r) sample_mail"
proof -
  let ?w = sample_world and ?fl = sample_flags
  have t: "trim_space ''mx.a'' = ''mx.a''" "trim_space ''a'' = ''a''" "trim_space ''/c'' = ''/c''" "trim_space [] = []"
    "trim_space '' b'' = ''b''" "trim_space ''b'' = ''b''"
    by code_simp+
  have n: "fmt_nat 10 26214400 = ''26214400''" "fmt_nat 10 52428800 = ''52428800''" "fmt_nat 10 20 = ''20''"
    "fmt_nat 10 64 = ''64''" "fmt_nat 10 16 = ''16''" by (simp_all add: fmt_nat.simps digit_char_values digit_char_values [simplified])
  have i: "parse_int (fmt_nat 10 26214400) = Some 26214400" "parse_int (fmt_nat 10 52428800) = Some 52428800"
    "parse_int (fmt_nat 10 20) = Some 20" "parse_int (fmt_nat 10 64) = Some 64" "parse_int (fmt_nat 10 16) = Some 16"
    by (simp_all add: parse_int_fmt_nat)
  define se where "se = \<lparr>se_maxMessage = 26214400, se_maintenanceInterval = minimumIdleTimeout, se_maxDaily = 52428800,
    se_maxRecipients = 20, se_maxConnections = 64, se_idleTimeout = minimumIdleTimeout, se_pop3MaxConnections = 16,
    se_pop3IdleTimeout = minimumIdleTimeout, se_tlsReloadInterval = minimumIdleTimeout\<rparr>"
  have "read_settings (mw_parse ?w) ?fl = Inr se"
    using i unfolding n
    by (simp add: read_settings_def se_def sample_flags_def default_flags_def getenv_def exitOnError_def sample_world_def
      parsePositiveInt_def parsePositiveInt64_def positive_duration_def minimumIdleTimeout_def)
  moreover have "fst (openListeners (mw_activated ?w) (mw_port ?w) (mw_listen ?w) (fl_listen ?fl) (fl_pop3Listen ?fl)) =
      Inr [\<lparr>sl_protocol = POP3S, sl_listener = '':995''\<rparr>]"
    by (simp add: openListeners_def sample_world_def sample_flags_def default_flags_def getenv_def)
  moreover obtain m where "load_identity ?w ?fl True = Inr (Some m)"
  proof -
    have "manager_New (sample_x509\<lparr>x_verify := (\<lambda>l n. None)\<rparr>) Inr 0 ''/c'' [''mx.a'', ''mx.a''] =
        Inr \<lparr>mg_certDir = ''/c'', mg_hostnames = [''mx.a''], mg_lastWarning = None,
          mg_current = Some \<lparr>lc_certificate = ''/c/mx.a/fullchain.pem'', lc_leaf = ''/c/mx.a/fullchain.pem'',
            lc_hash = ''/c/mx.a/fullchain.pem/c/mx.a/privkey.pem'', lc_directory = ''/c/mx.a''\<rparr>, mg_log = []\<rparr>"
      by code_simp
    moreover have "tls_hostnames ?fl = [''mx.a'', ''mx.a'']"
      by (simp add: tls_hostnames_def pop3_host_def splitDomains_def sample_flags_def default_flags_def getenv_def t)
    ultimately show thesis
      using that by (simp add: load_identity_def sample_world_def sample_flags_def default_flags_def getenv_def t)
  qed
  moreover obtain store where "NewWithOptions (mw_git ?w) (mw_open ?w) (fl_archiveRoot ?fl) (of_int (se_maxDaily se)) (mw_state ?w) = Inr store"
    using opens_again [OF model_git_sound sample_left _ _ sample_state_text, of "''/mail''"] sample_root sample_opens
    by (auto simp: sample_stopped_fields sample_world_def sample_flags_def default_flags_def getenv_def)
  moreover obtain sv where "Smtp_Session.NewServer (smtp_settings ?w ?fl se (Some m)) (mw_policy ?w) = Inr sv"
  proof -
    have v: "validDomain (normalizeDomain ''mx.a'')" "validDomain (normalizeDomain ''a'')" "validDomain (normalizeDomain ''b'')"
      unfolding normalizeDomain_def t by code_simp+
    have "splitDomains (fl_domains ?fl) = [''a'', ''b'']"
      by (simp add: splitDomains_def sample_flags_def default_flags_def getenv_def t)
    with v that show thesis
      by (simp add: Smtp_Session.NewServer_def smtp_settings_def Let_def sample_flags_def default_flags_def getenv_def)
  qed
  moreover have "NewCredentials (mw_sum256 ?w) (fl_pop3Username ?fl) (fl_pop3PasswordHash ?fl) = Inr no_credentials"
    by (simp add: NewCredentials_def sample_flags_def default_flags_def getenv_def t)
  moreover obtain ps where "Pop3_Session.NewServer (pop3_settings ?fl se no_credentials) = Inr ps"
    by (simp add: Pop3_Session.NewServer_def pop3_settings_def pop3_host_def se_def minimumIdleTimeout_def
      sample_flags_def default_flags_def getenv_def t)
  ultimately obtain r where r: "main_start ?w ?fl = Inr r"
    by (simp add: main_start_def exitOnError_def hasProtocol_def)
  note c = started_as_configured [OF r, where view = model_view]
  have "splitDomains (fl_domains ?fl) = [''a'', ''b'']"
    by (simp add: splitDomains_def sample_flags_def default_flags_def getenv_def t)
  then have "sv_domains (rn_smtp r) = [normalizeDomain ''a'', normalizeDomain ''b'']" using c by simp
  moreover have "normalizeDomain ''a'' = ''a''" "normalizeDomain ''b'' = ''b''" unfolding normalizeDomain_def t by code_simp+
  moreover have "git_sound (mw_git ?w) model_view"
    "left_behind model_view sample_stopped sample_mail (mw_git ?w) (mw_open ?w) (mw_state ?w) sample_git"
    using model_git_sound sample_left by (simp_all add: sample_world_def)
  then have "serving model_view (rn_store r) sample_mail" using c by blast
  ultimately show ?thesis using r by auto
qed

end
