(* ===== verification/Git_Command.thy ===== *)
theory Git_Command
  imports Go_Strings
begin

text \<open>
  How Git is run: \<open>gitCommand\<close> and \<open>runGit\<close> of \<open>internal/archive/git.go\<close>, \<open>watchGit\<close> of
  \<open>deadline.go\<close>, and the bounded diagnostics of \<open>import.go\<close>. The lemmas show that no Git
  variable of the caller's environment reaches Git, and that a command that was interrupted is
  never reported as a success.
\<close>

section \<open>The command\<close>

definition git_options :: "string \<Rightarrow> string list" where
  "git_options root =
     [''--git-dir='' @ root,
      ''-c'', ''core.hooksPath=/dev/null'', ''-c'', ''core.fsmonitor=false'',
      ''-c'', ''core.attributesFile=/dev/null'', ''-c'', ''core.autocrlf=false'',
      ''-c'', ''commit.gpgSign=false'', ''-c'', ''gc.auto=0'', ''-c'', ''maintenance.auto=false'',
      ''-c'', ''core.fsync=committed'', ''-c'', ''core.fsyncMethod=fsync'']"

definition git_variables :: "string list" where
  "git_variables =
     [''GIT_CONFIG_NOSYSTEM=1'', ''GIT_CONFIG_GLOBAL=/dev/null'', ''GIT_NO_REPLACE_OBJECTS=1'', ''GIT_TERMINAL_PROMPT=0'',
      ''GIT_AUTHOR_NAME=picomx'', ''GIT_AUTHOR_EMAIL=picomx@localhost'',
      ''GIT_COMMITTER_NAME=picomx'', ''GIT_COMMITTER_EMAIL=picomx@localhost'']"

record git_cmd =
  gc_args :: "string list"
  gc_env :: "string list"
  gc_setpgid :: bool

definition gitCommand :: "string \<Rightarrow> string list \<Rightarrow> string list \<Rightarrow> git_cmd" where
  "gitCommand root environ args =
     \<lparr>gc_args = git_options root @ args,
      gc_env = filter (\<lambda>variable. \<not> has_prefix variable ''GIT_'') environ @ git_variables,
      gc_setpgid = True\<rparr>"

section \<open>Running it\<close>

text \<open>What the watching goroutine sees first: that the operation is over, or a reason to kill it.\<close>

datatype watch_event = Stopped | ContextDone goerr | TimedOut

text \<open>
  The operation runs to its end in any case, killed or not; when it comes to its end while the
  goroutine has already seen a reason, both are reported: the interruption first.
\<close>

definition watchGit :: "watch_event \<Rightarrow> goerr option \<Rightarrow> goerr option" where
  "watchGit ev err =
     (let interruption = (case ev of Stopped \<Rightarrow> None | ContextDone e \<Rightarrow> Some e | TimedOut \<Rightarrow> Some ErrGitTimeout)
      in case interruption of Some e \<Rightarrow> Some e | None \<Rightarrow> err)"

definition gitOperationTimeout :: int where "gitOperationTimeout = 30 * 1000000000"

definition watch_timeout :: "int \<Rightarrow> int" where
  "watch_timeout timeout = (if timeout \<le> 0 then gitOperationTimeout else timeout)"

definition runGit :: "goerr option \<Rightarrow> watch_event \<Rightarrow> goerr option \<Rightarrow> string \<Rightarrow> string \<Rightarrow> string list \<Rightarrow> string res" where
  "runGit start ev wait stdout stderr args =
     (case start of
        Some e \<Rightarrow> Inl e
      | None \<Rightarrow>
          (case watchGit ev wait of
             Some e \<Rightarrow> Inl (WrapErr (''git '' @ hd args @ '': '' @ trim_space stderr) e)
           | None \<Rightarrow> Inr stdout))"

section \<open>Diagnostics\<close>

text \<open>At most 4096 bytes of the error output are kept; all of it counts as written.\<close>

definition diagnostics_Write :: "string \<Rightarrow> string \<Rightarrow> nat \<times> string" where
  "diagnostics_Write kept bytes =
     (let remaining = 4096 - length kept;
          remaining = (if length bytes < remaining then length bytes else remaining)
      in (length bytes, kept @ take remaining bytes))"

definition diagnostics_String :: "string \<Rightarrow> string" where
  "diagnostics_String kept = trim_space kept"

section \<open>Lemmas\<close>

lemma environment_clean:
  assumes "v \<in> set (gc_env (gitCommand root environ args))" "has_prefix v ''GIT_''"
  shows "v \<in> set git_variables"
  using assms by (auto simp: gitCommand_def)

lemma watchGit_None: "watchGit ev err = None \<longleftrightarrow> ev = Stopped \<and> err = None"
  by (cases ev) (simp_all add: watchGit_def)

lemma runGit_Inr: "runGit start ev wait stdout stderr args = Inr out \<longleftrightarrow>
    start = None \<and> ev = Stopped \<and> wait = None \<and> out = stdout"
proof -
  have "runGit start ev wait stdout stderr args = Inr out \<longleftrightarrow> start = None \<and> watchGit ev wait = None \<and> out = stdout"
    by (auto simp: runGit_def split: option.split)
  then show ?thesis by (simp add: watchGit_None)
qed

text \<open>
  An operation that succeeded just before its timer fired is reported as timed out although it
  took effect.
\<close>

lemma watchGit_late: "watchGit TimedOut None = Some ErrGitTimeout"
  by (simp add: watchGit_def)

lemma diagnostics_bounded:
  "length kept \<le> 4096 \<Longrightarrow> length (snd (diagnostics_Write kept bytes)) \<le> 4096"
  by (auto simp: diagnostics_Write_def Let_def)

lemma diagnostics_prefix:
  assumes "length kept \<le> 4096" "kept = take 4096 seen"
  shows "snd (diagnostics_Write kept bytes) = take 4096 (seen @ bytes)"
proof (cases "length seen \<le> 4096")
  case True
  with assms(2) show ?thesis by (simp add: diagnostics_Write_def Let_def)
next
  case False
  with assms(2) show ?thesis by (simp add: diagnostics_Write_def Let_def)
qed

end
