(* ===== verification/Spec2Isabelle.thy ===== *)
theory Spec2Isabelle
  imports Smtp Pop3 Mailbox Mailbox_History Startup Git_Command
begin

text \<open>
  A verification library of picomx, a small mail exchanger: an SMTP server that accepts mail for
  its own domains, an archive that keeps the mail in a bare Git repository, and a POP3S server that
  hands it out and deletes it. This theory imports all others and states what holds across them.

  \<^bold>\<open>The program and the theories.\<close>

  \<^item> \<^bold>\<open>Ground.\<close> \<open>Prelude\<close>: machine integers (\<open>uint64\<close> is a word of 64 bits, a Go \<open>int\<close> that
    cannot overflow is an integer with its bounds written out), errors as values and the result type
    of a fallible function, \<open>sort.Search\<close>. \<open>Go_Strings\<close>, \<open>Go_Quote\<close>, \<open>Json\<close>: what the code uses of
    \<open>strings\<close>, \<open>bytes\<close>, \<open>strconv\<close>, \<open>filepath\<close> and \<open>encoding/json\<close>. A string is a list of bytes.
    \<open>Conn\<close>: a connection with its \<open>bufio\<close> reader and writer, cut into arbitrary pieces.
  \<^item> \<^bold>\<open>Data of the archive, \<open>internal/archive\<close>.\<close> \<open>Id_Path\<close> is \<open>idpath.go\<close>; \<open>Directories\<close> and
    \<open>Directory_Index\<close> are \<open>directories.go\<close> (counts of every directory, the index of leaves) with
    their specification by a set of live IDs; \<open>Dir_Cache\<close> is \<open>cache.go\<close>, a refinement of a list
    ordered by use; \<open>Git_Tree\<close> is the tree parser of \<open>tree.go\<close>; \<open>State_Json\<close> and \<open>State_Decode\<close>
    write and read the state file (\<open>state.go\<close>); \<open>Recovery\<close> is the file archive that came before
    Git (\<open>recovery.go\<close>).
  \<^item> \<^bold>\<open>Receiving.\<close> \<open>Receipts\<close> is \<open>quota.go\<close> and the staging half of \<open>store.go\<close>: reservations and
    the durable daily charge as a step relation whose steps are the operations of all connections,
    movements of the clock, crashes and restarts.
  \<^item> \<^bold>\<open>Git.\<close> \<open>Git_Command\<close> says how Git is run (\<open>git.go\<close>, \<open>deadline.go\<close>); \<open>Git_Repo\<close> is the
    interface to it, below; \<open>Fast_Import\<close> is the stream that \<open>importCommitLocked\<close> writes and Git's
    grammar for it; \<open>Cat_File\<close> is \<open>read.go\<close>, the one reading process and its leases.
  \<^item> \<^bold>\<open>The store.\<close> The record \<open>store\<close> of \<open>Store\<close> has the fields of the Go struct (the reading half,
    the import process, the believed HEAD, the state with its index, the failure, the counters of
    maintenance). \<open>Store\<close> has commits and \<open>Publish\<close>; \<open>Mailbox_Ops\<close> the operations of \<open>mailbox.go\<close>
    (\<open>Snapshot\<close>, \<open>Lookup\<close>, \<open>ListAt\<close>, \<open>OpenAt\<close>, \<open>DeleteAs\<close>); \<open>Open_Store\<close> the opening of an archive;
    \<open>Maintenance\<close> is \<open>maintenance.go\<close>. \<open>Archive_Tree\<close> is the abstract mailbox, a map from IDs to
    texts, and the files that stand for it; \<open>Mailbox_Store\<close>, \<open>Mailbox_Read\<close>, \<open>Mailbox_Lookup\<close>,
    \<open>Mailbox_Snapshot\<close> and \<open>Mailbox_Delete\<close> show that the operations implement it, \<open>Mailbox_History\<close>
    that any sequence of them does, and \<open>Restart\<close> that a store opened later has the same mailbox. That
    the operations succeed when Git does is shown in \<open>Publish_Live\<close>, \<open>Read_Live\<close> and \<open>Delete_Live\<close>.
  \<^item> \<^bold>\<open>SMTP, \<open>internal/smtp\<close> and \<open>internal/config\<close>.\<close> \<open>Smtp_Syntax\<close> (addresses, commands, trace
    headers), \<open>Smtp_Data\<close> (lines, dot stuffing), \<open>Config\<close> (the policy hooks), \<open>Smtp_Session\<close> (the
    session state, one handler for every command of \<open>serveConn\<close>, the loop step), \<open>Smtp_Stage\<close> and
    \<open>Smtp_Mail\<close> (the session on the archive); \<open>Smtp_Live\<close> shows that mail is accepted.
  \<^item> \<^bold>\<open>POP3, \<open>internal/pop3\<close>.\<close> \<open>Pop3_Session\<close> (credentials, session state, a handler for every
    command), \<open>Pop3_Stream\<close> (the multi-line replies), \<open>Pop3_Protocol\<close>, \<open>Pop3_Contract\<close>,
    \<open>Pop3_Maildrop\<close>, \<open>Pop3_Serve\<close> (what holds of commands and whole sessions), \<open>Pop3_Mail\<close> (the
    session on the archive) and \<open>Pop3_Live\<close> (that it hands mail out and deletes it).
  \<^item> \<^bold>\<open>The program around them.\<close> \<open>Serving\<close> is the accept loop of both servers with the limit of
    connections; \<open>Tls_Cert\<close> is \<open>internal/tlscert\<close>; \<open>Startup\<close> is \<open>cmd/picomxd/main.go\<close> and
    \<open>internal/systemd\<close>.

  Operations have the names of their Go functions, with the type in front where two would clash
  (\<open>store_Close\<close>, \<open>dataReader_Read\<close>), and pass the state explicitly; a command of a session is a
  handler that continues, ends the session, or writes its last reply. Every early return is a branch.
  What other goroutines do happens between the steps of a session: a family of functions of the
  turn stands for it, and the properties hold for every family that keeps the invariant of the store.
  The operations of \<open>Store\<close> that change it hold its mutex throughout. Where the code gives the lock up
  and goes on from what it saw, in the turns of \<open>DeleteAs\<close>, the others have their turn inside the
  operation too; everything else that a command reads is of a snapshot, which does not change.

  \<^bold>\<open>Interfaces.\<close>
  The locale \<open>byte_source\<close> (\<open>Receipts\<close>) is what \<open>Stage\<close> relies on of the reader that it copies from; it
  is interpreted on the SMTP data reader in \<open>Smtp_Stage\<close>. The locale \<open>mail_delivery\<close>
  (\<open>Smtp_Session\<close>) is what the SMTP server relies on of its \<open>Delivery\<close>; it is interpreted on the
  archive in \<open>Smtp_Mail\<close>. The locales \<open>visiting_maildrop\<close> and, extending it, \<open>maildrop_laws\<close>
  (\<open>Pop3_Contract\<close>) are what the POP3 server relies on of its mailbox; they are interpreted on the
  archive in \<open>Pop3_Mail\<close>. The locale \<open>answering_maildrop\<close> (\<open>Pop3_Live\<close>) extends them to a mailbox that
  answers, and is interpreted there on the archive with a Git that answers in full. The properties of
  the sessions are proved once inside the locales and read off the interpretations.

  \<^bold>\<open>What is outside.\<close>
  Git is the record \<open>git\<close> of \<open>Git_Repo\<close>: what its processes answer and how a request changes its state.
  \<open>git_sound\<close> names what is relied on for safety: documented answers, which may be errors, be cut off or
  come too late. \<open>git_commits\<close> (\<open>Publish_Live\<close>) and \<open>reads_fully\<close> (\<open>Read_Live\<close>) name what is relied
  on for success. \<open>Model_Git\<close> is a Git that meets all of it, for repositories of at most sixteen
  commits of at most sixteen files; the properties are applied to it at the store of \<open>Sample_Store\<close>.
  The operating system's answers, the clock, the order in which Go visits a map, X.509, SHA-256,
  \<open>time.ParseDuration\<close> (floating point) and the table of graphic runes are arguments of the definitions
  that use them.

  \<^bold>\<open>What is shown.\<close>
  Mail that was answered with 250 is stored once, with exactly the client's lines, under a number that
  is never used again; it is in every maildrop taken then and \<open>RETR\<close> gives back exactly its text
  (below, and \<open>Smtp\<close>, \<open>Pop3\<close>). An operation that fails leaves the mailbox as it was or the store
  refuses all that follows (\<open>Mailbox\<close>, \<open>Mailbox_History\<close>). Snapshots never change. Deletion removes the
  marked messages and no other. The daily budget holds across crashes. A restart loses nothing. No mail
  is relayed, no header injected, nothing read before authentication, no password logged. Sessions end.
  When disk and Git work, well-behaved mail is accepted, messages are found, listed and read to their
  end (in particular the limits on the size of a directory never refuse one that the archive wrote), and
  marked messages are deleted.

  \<^bold>\<open>Bounds and fuel.\<close>
  Loops that are not structural are \<open>function\<close>s with a measure, or have fuel. The JSON reader has the length
  of the text and one more, every call reading a byte; \<open>read_all\<close> the announced size and two more, every
  read giving a byte; the walk up a path its length and one more; copying from a \<open>byte_source\<close> as many reads as it has bytes left; the retry loop of
  \<open>DeleteAs\<close> may go on for as long as other sessions commit in between, so its fuel is an argument: what
  it returns is right for every fuel and enough is named where success is claimed. \<open>pop3_serve\<close> has
  one turn more than the input has bytes, which is shown to be enough, and \<open>session_ends\<close> says so.
  Running out is an error of its own, \<open>Diverges\<close>, which is no error of the code.

  \<^bold>\<open>Not modelled.\<close>
  The text of a peer's address (\<open>remoteIP\<close> depends on the \<open>net.Addr\<close> of the listener: a session has the
  text as a field) and \<open>net/mail\<close>'s parsing of headers for a policy; deadlines of connections, timers and
  the killing of process groups (a late answer is an answer of Git that comes with an interruption, and
  an idle timer is a step that may happen); the parsing of command line flags (the \<open>flag\<close> package; the
  settings are what it yields), signals and the shutdown of goroutines; the handshake of TLS, which is a
  function from the bytes on the connection to those after it. These are input and output, or calls of
  the standard library with no decision of the program's own.
\<close>

section \<open>From SMTP to POP3\<close>

lemma messageID_number:
  assumes "n \<noteq> 0" "n \<le> count"
  shows "messageID (format_uint n 10) count = Some n"
proof -
  have digits: "\<not> space_edge c" if c: "c \<in> set (format_uint n 10)" for c
  proof -
    from c obtain d where "d < 10" "c = digit_char d" using set_fmt_nat [of 10 c "unat n"] by (auto simp: format_uint_def)
    then show ?thesis by (simp add: digit_char_def space_edge_def)
  qed
  have "trim_space (format_uint n 10) = format_uint n 10"
    by (rule trim_space_id) (use digits in \<open>auto dest: hd_in_set last_in_set\<close>)
  moreover have "parse_uint (format_uint n 10) 10 64 = Some n" by (rule parse_uint_format_uint) simp_all
  moreover have "0 < n" using assms(1) word_neq_0_conv by blast
  ultimately show ?thesis using assms(2) by (simp add: messageID_def)
qed

text \<open>The number of a message in a maildrop.\<close>

lemma mail_number_of:
  assumes "snapshot_shows view s snap M" "M i = Some c"
  obtains n where "n \<noteq> 0" "n \<le> snapshot_Count snap" "mail_text M n = c"
proof -
  note card = snapshot_card [OF assms(1)]
  have "finite (dom M)" "i \<in> dom M" using assms(2) by auto
  note at = sorted_at [OF this]
  define k where "k = card {x \<in> dom M. x < i}"
  define n where "n = (of_nat (Suc k) :: u64)"
  have n: "unat n = Suc k" using at(1) card by (simp only: n_def k_def) (rule unat_of_nat_u64, linarith)
  then have "n \<noteq> 0" by (metis nat.simps(3) unat_0)
  moreover have "n \<le> snapshot_Count snap"
  proof -
    have "unat (of_nat (card (dom M)) :: u64) = card (dom M)" using card by (rule unat_of_nat_u64)
    then show ?thesis using assms(1) at(1) n by (simp add: snapshot_shows_def snapshot_Count_def u64_le k_def)
  qed
  moreover have "mail_text M n = c"
    using at n assms(2) by (simp add: mail_text_def MsgID_mail_list k_def)
  ultimately show thesis by (rule that)
qed


lemma sample_content_length:
  assumes "accepts sample_smtp ''now'' sample_tx t content rest"
  shows "length content \<le> 5096"
proof -
  obtain body where b: "data_body 1000 0 (cn_end (ss_conn sample_tx)) t = (body, IoEOF, rest)"
    "content = deliveryHeaders (sv_hostname sample_smtp) (ss_remote sample_tx) (ss_helo sample_tx) (ss_encrypted sample_tx)
      (ss_tx sample_tx) ''now'' @ body"
    using assms by (auto simp: accepts_def sample_smtp_def)
  have "length (deliveryHeaders (sv_hostname sample_smtp) (ss_remote sample_tx) (ss_helo sample_tx) (ss_encrypted sample_tx)
      (ss_tx sample_tx) ''now'') \<le> 4096" by code_simp
  moreover have "length body \<le> 1000" using data_body_bound [OF b(1)] by simp
  ultimately show ?thesis by (simp add: b(2))
qed


end
